(* ===== verification/Prelude.thy ===== *)
theory Prelude
  imports Main
begin

text \<open>
  Prelude of the chroutine development: the types every component shares, the ordered
  association lists that stand for \<^verbatim>\<open>std::map\<close>, the node iterators of
  \<^verbatim>\<open>std::list\<close>, 64-bit wrap-around, and the collections of rewrite rules the component
  theories extend.

  \<^item> Heap addresses (\<^verbatim>\<open>T*\<close>, \<^verbatim>\<open>shared_ptr<T>\<close>) are natural numbers; a pointer that may be
    null is an \<open>option\<close>.
  \<^item> \<open>ordered_map\<close> is the interface the components use of \<^verbatim>\<open>std::map\<close>: find, assignment
    through \<^verbatim>\<open>operator[]\<close>, and erase. \<open>omap\<close> interprets it on sorted association lists,
    whose order is the iteration order of the C++ container.
  \<^item> An iterator into a \<^verbatim>\<open>std::list\<close> of pointers is the pointer its node holds, and
    \<open>None\<close> for \<^verbatim>\<open>end()\<close>: list iterators stay valid under insertion and under the erasure of
    other nodes, and every node of the lists modelled here holds a pointer of its own.
\<close>

named_theorems thread_simps \<open>frame and update rules of the thread operations\<close>
named_theorems chan_simps \<open>frame and update rules of the channel operations\<close>

type_synonym addr = nat
type_synonym tid = nat

definition NULL_THREAD_ID :: tid where
  "NULL_THREAD_ID = 0"

section \<open>64-bit signed wrap-around\<close>

definition wrap64 :: "int \<Rightarrow> int" where
  "wrap64 n = (n + 2 ^ 63) mod 2 ^ 64 - 2 ^ 63"

lemma wrap64_range: "- (2 ^ 63) \<le> wrap64 n \<and> wrap64 n < 2 ^ 63"
  using pos_mod_bound [of "2 ^ 64 :: int" "n + 2 ^ 63"]
    pos_mod_sign [of "2 ^ 64 :: int" "n + 2 ^ 63"]
  by (simp add: wrap64_def)

lemma wrap64_id [simp]: "- (2 ^ 63) \<le> n \<Longrightarrow> n < 2 ^ 63 \<Longrightarrow> wrap64 n = n"
  by (simp add: wrap64_def)

section \<open>Ordered maps\<close>

type_synonym ('k, 'v) omap = "('k \<times> 'v) list"

definition omap_ok :: "('k::linorder, 'v) omap \<Rightarrow> bool" where
  "omap_ok m \<longleftrightarrow> sorted_wrt (<) (map fst m)"

fun omap_find :: "'k::linorder \<Rightarrow> ('k, 'v) omap \<Rightarrow> 'v option" where
  "omap_find k [] = None"
| "omap_find k ((k', v) # m) = (if k = k' then Some v else omap_find k m)"

fun omap_put :: "'k::linorder \<Rightarrow> 'v \<Rightarrow> ('k, 'v) omap \<Rightarrow> ('k, 'v) omap" where
  "omap_put k v [] = [(k, v)]"
| "omap_put k v ((k', v') # m) =
     (if k < k' then (k, v) # (k', v') # m
      else if k = k' then (k, v) # m
      else (k', v') # omap_put k v m)"

fun omap_erase :: "'k::linorder \<Rightarrow> ('k, 'v) omap \<Rightarrow> ('k, 'v) omap" where
  "omap_erase k [] = []"
| "omap_erase k ((k', v') # m) = (if k = k' then m else (k', v') # omap_erase k m)"

lemma omap_find_None: "omap_find k m = None \<longleftrightarrow> k \<notin> fst ` set m"
  by (induction m) (auto split: if_splits)

lemma omap_find_put: "omap_find k (omap_put k' v m) = (if k = k' then Some v else omap_find k m)"
  by (induction m) auto

lemma omap_find_less: "\<forall>y \<in> set m. k < fst y \<Longrightarrow> omap_find k m = None"
  by (induction m) auto

lemma omap_find_erase:
  "omap_ok m \<Longrightarrow> omap_find k (omap_erase k' m) = (if k = k' then None else omap_find k m)"
  by (induction m) (auto simp: omap_ok_def omap_find_less)

lemma set_omap_put: "set (omap_put k v m) \<subseteq> insert (k, v) (set m)"
  by (induction m) (auto split: if_splits)

lemma set_omap_erase: "set (omap_erase k m) \<subseteq> set m"
  by (induction m) (auto split: if_splits)

lemma omap_ok_Nil [simp]: "omap_ok []"
  by (simp add: omap_ok_def)

lemma omap_ok_Cons [simp]: "omap_ok (p # m) \<longleftrightarrow> (\<forall>q \<in> set m. fst p < fst q) \<and> omap_ok m"
  by (auto simp: omap_ok_def)

lemma omap_ok_put: "omap_ok m \<Longrightarrow> omap_ok (omap_put k v m)"
proof (induction m)
  case (Cons p m)
  obtain k' v' where p: "p = (k', v')" by (cases p)
  show ?case
    using Cons set_omap_put [of k v m] unfolding p by (fastforce split: if_splits)
qed simp

lemma omap_ok_erase: "omap_ok m \<Longrightarrow> omap_ok (omap_erase k m)"
proof (induction m)
  case (Cons p m)
  then show ?case using set_omap_erase [of k m] by (cases p) auto
qed simp

lemma omap_find_in_set: "omap_find k m = Some v \<Longrightarrow> (k, v) \<in> set m"
  by (induction m) (auto split: if_splits)

lemma in_set_omap_find: "omap_ok m \<Longrightarrow> (k, v) \<in> set m \<Longrightarrow> omap_find k m = Some v"
proof (induction m)
  case (Cons p m)
  then show ?case by (cases p) force
qed simp

lemma omap_put_new:
  "k \<notin> fst ` set m \<Longrightarrow> set (omap_put k v m) = insert (k, v) (set m)"
  "k \<notin> fst ` set m \<Longrightarrow> length (omap_put k v m) = length m + 1"
  by (induction m) (auto split: if_splits)

lemma omap_erase_filter: "omap_ok m \<Longrightarrow> omap_erase k m = filter (\<lambda>p. fst p \<noteq> k) m"
proof (induction m)
  case (Cons p m)
  have "filter (\<lambda>q. fst q \<noteq> fst p) m = m" using Cons.prems by (intro filter_True) auto
  then show ?case using Cons by (cases p) auto
qed simp

locale ordered_map =
  fixes find :: "'k \<Rightarrow> 'm \<Rightarrow> 'v option"
    and put :: "'k \<Rightarrow> 'v \<Rightarrow> 'm \<Rightarrow> 'm"
    and erase :: "'k \<Rightarrow> 'm \<Rightarrow> 'm"
    and ok :: "'m \<Rightarrow> bool"
  assumes find_put: "find k (put k' v m) = (if k = k' then Some v else find k m)"
    and find_erase: "ok m \<Longrightarrow> find k (erase k' m) = (if k = k' then None else find k m)"
    and ok_put: "ok m \<Longrightarrow> ok (put k v m)"
    and ok_erase: "ok m \<Longrightarrow> ok (erase k m)"
begin

lemma find_put_same: "find k (put k v m) = Some v"
  by (simp add: find_put)

lemma find_put_other: "k \<noteq> k' \<Longrightarrow> find k (put k' v m) = find k m"
  by (simp add: find_put)

lemma erase_put: "ok m \<Longrightarrow> find k m = None \<Longrightarrow> find j (erase k (put k v m)) = find j m"
  by (simp add: find_put find_erase ok_put)

lemma put_erase_put:
  "ok m \<Longrightarrow> find j (put k v (erase k m)) = find j (put k v m)"
  by (simp add: find_put find_erase)

end

interpretation omap: ordered_map
  "omap_find :: 'k::linorder \<Rightarrow> ('k, 'v) omap \<Rightarrow> 'v option" omap_put omap_erase omap_ok
  by unfold_locales (auto simp: omap_find_put omap_find_erase omap_ok_put omap_ok_erase)

lemmas omap_simps = omap_find_put omap_find_erase omap_ok_put omap_ok_erase

section \<open>Lists of nodes and their iterators\<close>

definition iter_begin :: "'a list \<Rightarrow> 'a option" where
  "iter_begin xs = (case xs of [] \<Rightarrow> None | x # _ \<Rightarrow> Some x)"

definition iter_suffix :: "'a option \<Rightarrow> 'a list \<Rightarrow> 'a list" where
  "iter_suffix it xs = (case it of None \<Rightarrow> [] | Some a \<Rightarrow> dropWhile (\<lambda>x. x \<noteq> a) xs)"

text \<open>Erase the first node that satisfies \<open>P\<close>; the second component is the iterator
  \<^verbatim>\<open>erase\<close> returns, the node after the erased one.\<close>

fun erase_node :: "('a \<Rightarrow> bool) \<Rightarrow> 'a list \<Rightarrow> ('a list \<times> 'a option) option" where
  "erase_node P [] = None"
| "erase_node P (x # xs) =
     (if P x then Some (xs, iter_begin xs)
      else map_option (\<lambda>(ys, it). (x # ys, it)) (erase_node P xs))"

lemma iter_begin_simps [simp]:
  "iter_begin [] = None" "iter_begin (x # xs) = Some x"
  by (simp_all add: iter_begin_def)

lemma iter_begin_in_set: "iter_begin xs = Some a \<Longrightarrow> a \<in> set xs"
  by (cases xs) auto

lemma iter_suffix_None [simp]: "iter_suffix None xs = []"
  by (simp add: iter_suffix_def)

lemma set_iter_suffix: "set (iter_suffix it xs) \<subseteq> set xs"
  by (auto simp: iter_suffix_def dest: set_dropWhileD split: option.splits)

lemma distinct_iter_suffix: "distinct xs \<Longrightarrow> distinct (iter_suffix it xs)"
  by (simp add: iter_suffix_def distinct_dropWhile split: option.splits)

lemma dropWhile_neq_append:
  "a \<notin> set xs \<Longrightarrow> dropWhile (\<lambda>x. x \<noteq> a) (xs @ a # ys) = a # ys"
  by (induction xs) auto

lemma iter_suffix_begin: "iter_suffix (iter_begin xs) xs = xs"
  by (cases xs) (auto simp: iter_suffix_def)

lemma iter_suffix_split:
  "distinct (xs @ ys) \<Longrightarrow> iter_suffix (iter_begin ys) (xs @ ys) = ys"
  by (cases ys) (auto simp: iter_suffix_def dropWhile_neq_append)

lemma iter_suffix_ex:
  assumes "\<And>a. it = Some a \<Longrightarrow> a \<in> set xs"
  shows "\<exists>pre. xs = pre @ iter_suffix it xs \<and> it = iter_begin (iter_suffix it xs)"
proof (cases it)
  case None
  then show ?thesis by simp
next
  case (Some b)
  with assms have "b \<in> set xs" by simp
  then obtain pre suf where "xs = pre @ b # suf" "b \<notin> set pre"
    by (meson split_list_first)
  with Some show ?thesis by (auto simp: iter_suffix_def dropWhile_neq_append)
qed

lemma erase_node_None: "erase_node P xs = None \<longleftrightarrow> (\<forall>x \<in> set xs. \<not> P x)"
  by (induction xs) auto

lemma erase_node_Some:
  "erase_node P xs = Some (ys, it) \<Longrightarrow>
   \<exists>pre a suf. xs = pre @ a # suf \<and> P a \<and> (\<forall>x \<in> set pre. \<not> P x) \<and> ys = pre @ suf \<and> it = iter_begin suf"
proof (induction xs arbitrary: ys)
  case (Cons x xs)
  show ?case
  proof (cases "P x")
    case True
    with Cons.prems show ?thesis by force
  next
    case False
    with Cons.prems obtain zs where zs: "erase_node P xs = Some (zs, it)" "ys = x # zs"
      by auto
    from Cons.IH [OF zs(1)] obtain pre a suf where
      "xs = pre @ a # suf" "P a" "\<forall>x \<in> set pre. \<not> P x" "zs = pre @ suf" "it = iter_begin suf"
      by blast
    with False zs(2) have "x # xs = (x # pre) @ a # suf \<and> P a \<and>
      (\<forall>y \<in> set (x # pre). \<not> P y) \<and> ys = (x # pre) @ suf \<and> it = iter_begin suf" by simp
    then show ?thesis by blast
  qed
qed simp

lemma erase_node_split:
  "P a \<Longrightarrow> \<forall>x \<in> set pre. \<not> P x \<Longrightarrow> erase_node P (pre @ a # suf) = Some (pre @ suf, iter_begin suf)"
  by (induction pre) auto

section \<open>Searching for the first element, with what follows it\<close>

text \<open>\<open>find_next P xs\<close>: the first element of \<open>xs\<close> that satisfies \<open>P\<close>, with the iterator
  to its successor.\<close>

fun find_next :: "('a \<Rightarrow> bool) \<Rightarrow> 'a list \<Rightarrow> ('a \<times> 'a option) option" where
  "find_next P [] = None"
| "find_next P (x # xs) = (if P x then Some (x, iter_begin xs) else find_next P xs)"

lemma find_next_cong:
  "(\<And>x. x \<in> set xs \<Longrightarrow> P x = Q x) \<Longrightarrow> find_next P xs = find_next Q xs"
  by (induction xs) auto

lemma find_next_None: "find_next P xs = None \<longleftrightarrow> (\<forall>x \<in> set xs. \<not> P x)"
  by (induction xs) auto

lemma find_next_Some:
  "find_next P xs = Some (a, it) \<longleftrightarrow>
   (\<exists>pre suf. xs = pre @ a # suf \<and> P a \<and> (\<forall>x \<in> set pre. \<not> P x) \<and> it = iter_begin suf)"
proof (induction xs)
  case (Cons x xs)
  show ?case
  proof (cases "P x")
    case True
    then show ?thesis by (fastforce simp: Cons_eq_append_conv)
  next
    case False
    then show ?thesis using Cons by (auto simp: Cons_eq_append_conv) (metis set_ConsD)+
  qed
qed simp

end
