(* ===== verification/Chroutine.thy ===== *)
theory Chroutine
  imports Prelude
begin

text \<open>
  A single chroutine (\<^verbatim>\<open>chroutine_t\<close> of engin/chroutine.hpp and its methods in
  engin/chroutine.cpp) and the reporter a father hands to its son (engin/reporter.hpp).

  \<^item> \<^verbatim>\<open>std::function\<close> objects are named: \<open>User n\<close> is a function of the application, the other
    constructors are the lambdas the library itself creates chroutines with. A null function is
    \<open>None\<close>.
  \<^item> A \<^verbatim>\<open>ucontext_t\<close> records what \<^verbatim>\<open>swapcontext\<close> into it resumes: \<open>Fresh th\<close> is what
    \<^verbatim>\<open>makecontext(ctx, entry, 1, th)\<close> stores, the start of \<^verbatim>\<open>entry(th)\<close>; \<open>Suspended th p\<close> is
    a saved activation of \<^verbatim>\<open>entry\<close> with its local variables \<^verbatim>\<open>p_this = th\<close> and \<^verbatim>\<open>p_c = p\<close>.
    \<open>uc_link\<close> is the thread whose main context is resumed when \<^verbatim>\<open>entry\<close> returns.
  \<^item> Reporters live in a store indexed by address, since father, son and caller share them.
  \<^item> \<^verbatim>\<open>std::time_t\<close> values are milliseconds, as \<open>int\<close>.
\<close>

section \<open>Reporter\<close>

datatype son_result_t = result_ready | result_done | result_error | result_timeout

text \<open>A \<^verbatim>\<open>void *\<close>: null, an application pointer, or the address of a reporter's data.\<close>

datatype void_ptr = nullptr | Ptr nat | Reporter_data addr

record reporter_t =
  data :: int
  errcode :: son_result_t

type_synonym reporter_store = "addr \<Rightarrow> reporter_t"

definition create_reporter :: "addr \<Rightarrow> int \<Rightarrow> reporter_store \<Rightarrow> reporter_store" where
  "create_reporter r d rs = rs(r := \<lparr>data = d, errcode = result_ready\<rparr>)"

definition set_result :: "addr \<Rightarrow> son_result_t \<Rightarrow> reporter_store \<Rightarrow> reporter_store" where
  "set_result r res rs = rs(r := (rs r)\<lparr>errcode := res\<rparr>)"

definition set_data :: "addr \<Rightarrow> int \<Rightarrow> reporter_store \<Rightarrow> reporter_store" where
  "set_data r d rs = rs(r := (rs r)\<lparr>data := d\<rparr>)"

definition get_data :: "addr \<Rightarrow> void_ptr" where
  "get_data r = Reporter_data r"

definition get_result :: "addr \<Rightarrow> reporter_store \<Rightarrow> son_result_t" where
  "get_result r rs = errcode (rs r)"

section \<open>Chroutine objects\<close>

definition STACK_SIZE :: nat where
  "STACK_SIZE = 1024 * 128"

definition INVALID_ID :: int where
  "INVALID_ID = -1"

datatype func_t =
    User nat
  | Check_threads_loop
  | Stop_main_task
  | Timer_trigger addr
  | Timer_callback addr
  | Connect_timeout addr
  | Sleep_forever
  | Rpc_work addr

datatype chroutine_state_t =
    chroutine_state_ready | chroutine_state_running | chroutine_state_suspend

datatype resume_point = Fresh addr | Suspended addr addr

record ucontext_t =
  resume :: resume_point
  uc_link :: addr
  ss_size :: nat

record chroutine_t =
  ctx :: "ucontext_t option"
  func :: "func_t option"
  arg :: void_ptr
  state :: chroutine_state_t
  stack :: "nat option"
  yield_wait :: int
  yield_to :: int
  me :: int
  father :: int
  son :: int
  reporter :: "addr option"
  stop_son_when_yield_over :: bool
  moved :: bool

text \<open>The default member initialisers of the class.\<close>

definition default_chroutine :: chroutine_t where
  "default_chroutine =
     \<lparr>ctx = None, func = None, arg = nullptr, state = chroutine_state_suspend, stack = None,
      yield_wait = 0, yield_to = 0, me = INVALID_ID, father = INVALID_ID, son = INVALID_ID,
      reporter = None, stop_son_when_yield_over = False, moved = False\<rparr>"

text \<open>\<^verbatim>\<open>chroutine_t(id)\<close>: allocates the stack and a context whose contents
  \<^verbatim>\<open>create_chroutine\<close> fills in before the object is published.\<close>

definition new_chroutine :: "int \<Rightarrow> ucontext_t \<Rightarrow> chroutine_t" where
  "new_chroutine cid u = default_chroutine\<lparr>me := cid, stack := Some STACK_SIZE, ctx := Some u\<rparr>"

text \<open>The move constructor: the new object and what is left of the old one.\<close>

definition move_chroutine :: "chroutine_t \<Rightarrow> chroutine_t \<times> chroutine_t" where
  "move_chroutine other =
     (default_chroutine\<lparr>ctx := ctx other, func := func other, arg := arg other,
        state := state other, stack := stack other, yield_wait := yield_wait other,
        yield_to := yield_to other, me := me other, father := father other, son := son other,
        reporter := reporter other,
        stop_son_when_yield_over := stop_son_when_yield_over other\<rparr>,
      other\<lparr>ctx := None, func := None, stack := None\<rparr>)"

text \<open>\<^verbatim>\<open>wait\<close>: 0 if the wait is over; counts \<open>yield_wait\<close> down as a side effect.\<close>

definition chroutine_wait :: "int \<Rightarrow> chroutine_t \<Rightarrow> chroutine_t \<times> int" where
  "chroutine_wait now c =
     (if yield_wait c > 0 then (c\<lparr>yield_wait := yield_wait c - 1\<rparr>, yield_wait c)
      else if yield_to c \<noteq> 0 \<and> yield_to c > now then (c, 1)
      else (c, 0))"

text \<open>\<^verbatim>\<open>yield_over\<close>: the object, the reporters and the id of the son to stop.\<close>

definition yield_over ::
  "son_result_t \<Rightarrow> chroutine_t \<Rightarrow> reporter_store \<Rightarrow> chroutine_t \<times> reporter_store \<times> int" where
  "yield_over result c rs =
     (if yield_to c \<noteq> 0 \<and> stop_son_when_yield_over c
      then (c\<lparr>son := INVALID_ID, stop_son_when_yield_over := False, yield_to := 0\<rparr>,
            (case reporter c of None \<Rightarrow> rs | Some r \<Rightarrow> set_result r result rs),
            son c)
      else (c\<lparr>yield_to := 0\<rparr>, rs, INVALID_ID))"

definition son_finished :: "chroutine_t \<Rightarrow> reporter_store \<Rightarrow> chroutine_t \<times> reporter_store" where
  "son_finished c rs =
     (c\<lparr>yield_to := 0\<rparr>,
      (case reporter c of None \<Rightarrow> rs | Some r \<Rightarrow> set_result r result_done rs))"

definition set_moved :: "chroutine_t \<Rightarrow> chroutine_t" where
  "set_moved c = c\<lparr>moved := True\<rparr>"

section \<open>When a chroutine is due\<close>

text \<open>\<^verbatim>\<open>!node->has_moved() && node->wait(now) <= 0\<close>, without the side effect.\<close>

definition due :: "int \<Rightarrow> chroutine_t \<Rightarrow> bool" where
  "due now c \<longleftrightarrow> \<not> moved c \<and> yield_wait c \<le> 0 \<and> (yield_to c = 0 \<or> yield_to c \<le> now)"

text \<open>What one visit by the scheduler does to a chroutine that is not moved away.\<close>

definition tick :: "chroutine_t \<Rightarrow> chroutine_t" where
  "tick c = (if \<not> moved c \<and> yield_wait c > 0 then c\<lparr>yield_wait := yield_wait c - 1\<rparr> else c)"

lemma chroutine_wait_eq:
  "\<not> moved c \<Longrightarrow> fst (chroutine_wait now c) = tick c \<and> (snd (chroutine_wait now c) > 0) = (\<not> due now c)"
  by (auto simp: chroutine_wait_def tick_def due_def)

lemma tick_simps [simp]:
  "me (tick c) = me c" "ctx (tick c) = ctx c" "state (tick c) = state c"
  "moved (tick c) = moved c" "yield_to (tick c) = yield_to c" "func (tick c) = func c"
  "father (tick c) = father c" "son (tick c) = son c" "reporter (tick c) = reporter c"
  "stop_son_when_yield_over (tick c) = stop_son_when_yield_over c"
  by (simp_all add: tick_def)

lemma tick_due: "due now c \<Longrightarrow> tick c = c"
  by (auto simp: tick_def due_def)

lemma tick_nonneg: "0 \<le> yield_wait c \<Longrightarrow> 0 \<le> yield_wait (tick c)"
  by (simp add: tick_def)

lemma due_mono: "due now c \<Longrightarrow> now \<le> now' \<Longrightarrow> due now' c"
  by (auto simp: due_def)

lemma yield_over_simps [simp]:
  "me (fst (yield_over r c rs)) = me c"
  "ctx (fst (yield_over r c rs)) = ctx c"
  "state (fst (yield_over r c rs)) = state c"
  "moved (fst (yield_over r c rs)) = moved c"
  "yield_wait (fst (yield_over r c rs)) = yield_wait c"
  "yield_to (fst (yield_over r c rs)) = 0"
  "func (fst (yield_over r c rs)) = func c"
  "father (fst (yield_over r c rs)) = father c"
  "reporter (fst (yield_over r c rs)) = reporter c"
  by (simp_all add: yield_over_def)

lemma son_finished_simps [simp]:
  "me (fst (son_finished c rs)) = me c"
  "ctx (fst (son_finished c rs)) = ctx c"
  "state (fst (son_finished c rs)) = state c"
  "moved (fst (son_finished c rs)) = moved c"
  "yield_wait (fst (son_finished c rs)) = yield_wait c"
  "yield_to (fst (son_finished c rs)) = 0"
  "func (fst (son_finished c rs)) = func c"
  "father (fst (son_finished c rs)) = father c"
  by (simp_all add: son_finished_def)

lemma move_chroutine_simps [simp]:
  "me (fst (move_chroutine c)) = me c"
  "ctx (fst (move_chroutine c)) = ctx c"
  "state (fst (move_chroutine c)) = state c"
  "moved (fst (move_chroutine c)) = False"
  "yield_wait (fst (move_chroutine c)) = yield_wait c"
  "yield_to (fst (move_chroutine c)) = yield_to c"
  "func (fst (move_chroutine c)) = func c"
  "father (fst (move_chroutine c)) = father c"
  "me (snd (move_chroutine c)) = me c"
  "yield_wait (snd (move_chroutine c)) = yield_wait c"
  "state (snd (move_chroutine c)) = state c"
  "ctx (snd (move_chroutine c)) = None"
  "moved (snd (move_chroutine c)) = moved c"
  by (simp_all add: move_chroutine_def default_chroutine_def)

lemma set_moved_simps [simp]:
  "me (set_moved c) = me c" "yield_wait (set_moved c) = yield_wait c" "moved (set_moved c)"
  "state (set_moved c) = state c"
  by (simp_all add: set_moved_def)

lemma set_result_get: "get_result r (set_result r res rs) = res"
  by (simp add: get_result_def set_result_def)

end
