(* ===== verification/Thread.thy ===== *)
theory Thread
  imports Chroutine
begin

text \<open>
  The OS thread that runs chroutines (\<^verbatim>\<open>chroutine_thread_t\<close>, \<^verbatim>\<open>schedule_t\<close> and \<^verbatim>\<open>load_t\<close> of
  engin/chroutine.hpp, their methods in engin/chroutine.cpp).

  \<^item> \<open>schedule_t\<close> and \<open>chroutine_thread_t\<close> are records; the thread record extends the schedule
    record, its only member of that type. \<open>objs\<close> and \<open>next_obj\<close> are the part of the heap that holds
    the thread's \<^verbatim>\<open>chroutine_t\<close> objects: an object is created by the thread whose lists point to
    it and never changes owner (\<^verbatim>\<open>resettle\<close> creates a new object). \<open>cpu\<close> is what the OS thread
    executes: \<open>None\<close> for its main context, \<open>Some (p_this, p_c)\<close> for an activation of \<^verbatim>\<open>entry\<close>
    with these local variables. \<open>m_pending\<close> is the value of \<^verbatim>\<open>processed\<close> while \<^verbatim>\<open>schedule\<close>
    is inside the \<^verbatim>\<open>swapcontext\<close> of \<^verbatim>\<open>pick_run_chroutine\<close>.
  \<^item> \<open>world_t\<close> holds what threads share: the id counter, the reporters, the thread objects.
    Each operation takes the address \<open>t\<close> of the thread object it is called on.
  \<^item> A critical section under \<^verbatim>\<open>m_chroutine_lock\<close> is one step; the theory Chutex shows that the
    lock excludes other holders. Clock readings are arguments, one per call of
    \<^verbatim>\<open>get_time_stamp()\<close>.
  \<^item> \<^verbatim>\<open>swapcontext\<close> splits an operation: \<open>yield_current\<close> and \<open>wait_current\<close> end in the main
    context, \<open>pick_run_chroutine\<close> ends in the picked chroutine, and what follows the call in
    \<^verbatim>\<open>pick_run_chroutine\<close> and \<^verbatim>\<open>schedule\<close> is \<open>schedule_resume\<close>.
\<close>

section \<open>Load counter\<close>

record load_t =
  last_load :: int
  working :: int
  counting_left :: int

definition COUNT_CIRCAL :: int where
  "COUNT_CIRCAL = 1000"

definition init_load :: load_t where
  "init_load = \<lparr>last_load = -1, working = 0, counting_left = COUNT_CIRCAL\<rparr>"

definition load_update :: "int \<Rightarrow> load_t \<Rightarrow> load_t" where
  "load_update worked l =
     (let w = working l + worked;
          c = (if worked = 0 then counting_left l - 100 else counting_left l - 1)
      in if c < 1 then \<lparr>last_load = w, working = 0, counting_left = COUNT_CIRCAL\<rparr>
         else l\<lparr>working := w, counting_left := c\<rparr>)"

text \<open>\<^verbatim>\<open>load()\<close>, in thousandths.\<close>

definition load_milli :: "load_t \<Rightarrow> int" where
  "load_milli l = (if last_load l < 0 then 0 else last_load l)"

section \<open>Threads\<close>

datatype thread_state_t =
    thread_state_t_init | thread_state_t_running | thread_state_t_shifting
  | thread_state_t_blocking | thread_state_t_finished

fun state_value :: "thread_state_t \<Rightarrow> nat" where
  "state_value thread_state_t_init = 0"
| "state_value thread_state_t_running = 1"
| "state_value thread_state_t_shifting = 2"
| "state_value thread_state_t_blocking = 3"
| "state_value thread_state_t_finished = 4"

datatype thread_type_t = worker | main_type | epoll_type

record schedule_t =
  running_id :: int
  chroutines_map :: "int \<rightharpoonup> addr option"
  chroutines_sched :: "addr list"
  chroutines_to_free :: "addr option list"
  sched_iter :: "addr option"

record chroutine_thread_t = schedule_t +
  objs :: "addr \<Rightarrow> chroutine_t"
  next_obj :: addr
  cpu :: "(addr \<times> addr) option"
  m_pending :: "int option"
  m_is_running :: bool
  m_need_stop :: bool
  m_creating_index :: nat
  m_selector_list :: "(addr, addr) omap"
  m_entry_time :: int
  m_state :: thread_state_t
  m_load :: load_t
  m_type :: thread_type_t
  m_std_thread_id :: tid

record world_t =
  ms_chroutine_id :: int
  reporters :: reporter_store
  threads :: "addr \<Rightarrow> chroutine_thread_t"

text \<open>The constructor of \<^verbatim>\<open>chroutine_thread_t\<close>, which \<^verbatim>\<open>new_thread\<close> calls.\<close>

definition new_thread :: chroutine_thread_t where
  "new_thread =
     \<lparr>running_id = INVALID_ID, chroutines_map = (\<lambda>_. None), chroutines_sched = [],
      chroutines_to_free = [], sched_iter = None,
      objs = (\<lambda>_. default_chroutine), next_obj = 0, cpu = None, m_pending = None,
      m_is_running = False, m_need_stop = False, m_creating_index = 0, m_selector_list = [],
      m_entry_time = 0, m_state = thread_state_t_init, m_load = init_load, m_type = worker,
      m_std_thread_id = NULL_THREAD_ID\<rparr>"

definition upd_thread ::
  "addr \<Rightarrow> (chroutine_thread_t \<Rightarrow> chroutine_thread_t) \<Rightarrow> 'a world_t_scheme \<Rightarrow> 'a world_t_scheme" where
  "upd_thread t f w = w\<lparr>threads := (threads w)(t := f (threads w t))\<rparr>"

definition set_obj :: "addr \<Rightarrow> chroutine_t \<Rightarrow> chroutine_thread_t \<Rightarrow> chroutine_thread_t" where
  "set_obj a c th = th\<lparr>objs := (objs th)(a := c)\<rparr>"

definition upd_obj ::
  "addr \<Rightarrow> addr \<Rightarrow> (chroutine_t \<Rightarrow> chroutine_t) \<Rightarrow> 'a world_t_scheme \<Rightarrow> 'a world_t_scheme" where
  "upd_obj t a f = upd_thread t (\<lambda>th. set_obj a (f (objs th a)) th)"

definition set_state :: "thread_state_t \<Rightarrow> chroutine_thread_t \<Rightarrow> chroutine_thread_t" where
  "set_state s th = th\<lparr>m_state := s\<rparr>"

definition set_type :: "thread_type_t \<Rightarrow> chroutine_thread_t \<Rightarrow> chroutine_thread_t" where
  "set_type ty th = th\<lparr>m_type := ty\<rparr>"

definition set_entry_time :: "int \<Rightarrow> chroutine_thread_t \<Rightarrow> chroutine_thread_t" where
  "set_entry_time now th = th\<lparr>m_entry_time := now\<rparr>"

definition clear_entry_time :: "chroutine_thread_t \<Rightarrow> chroutine_thread_t" where
  "clear_entry_time th = th\<lparr>m_entry_time := 0\<rparr>"

definition update_thread_id :: "tid \<Rightarrow> chroutine_thread_t \<Rightarrow> chroutine_thread_t" where
  "update_thread_id i th = th\<lparr>m_std_thread_id := i\<rparr>"

definition thread_stop :: "chroutine_thread_t \<Rightarrow> chroutine_thread_t" where
  "thread_stop th = th\<lparr>m_need_stop := True\<rparr>"

section \<open>Lookup and removal\<close>

definition get_chroutine :: "int \<Rightarrow> chroutine_thread_t \<Rightarrow> addr option" where
  "get_chroutine i th = (case chroutines_map th i of None \<Rightarrow> None | Some p \<Rightarrow> p)"

definition clear_all_chroutine :: "chroutine_thread_t \<Rightarrow> chroutine_thread_t" where
  "clear_all_chroutine th =
     th\<lparr>chroutines_map := (\<lambda>_. None), chroutines_to_free := [], chroutines_sched := []\<rparr>"

definition remove_chroutine :: "int \<Rightarrow> chroutine_thread_t \<Rightarrow> chroutine_thread_t" where
  "remove_chroutine i th =
     (case chroutines_map th i of
        None \<Rightarrow> th
      | Some p \<Rightarrow>
          (let th1 = th\<lparr>chroutines_to_free := chroutines_to_free th @ [p],
                        chroutines_map := (chroutines_map th)(i := None)\<rparr>
           in case erase_node (\<lambda>a. me (objs th a) = i) (chroutines_sched th) of
                None \<Rightarrow> th1
              | Some (l, it) \<Rightarrow> th1\<lparr>chroutines_sched := l, sched_iter := it\<rparr>))"

definition get_current_reporter :: "chroutine_thread_t \<Rightarrow> addr option" where
  "get_current_reporter th =
     (case get_chroutine (running_id th) th of
        None \<Rightarrow> None
      | Some a \<Rightarrow> reporter (objs th a))"

definition thread_done :: "chroutine_thread_t \<Rightarrow> bool" where
  "thread_done th \<longleftrightarrow> chroutines_map th = (\<lambda>_. None)"

section \<open>Context switches\<close>

definition save_ctx :: "(addr \<times> addr) option \<Rightarrow> chroutine_t \<Rightarrow> chroutine_t" where
  "save_ctx fr c =
     (case (fr, ctx c) of
        (Some (p, q), Some u) \<Rightarrow> c\<lparr>ctx := Some (u\<lparr>resume := Suspended p q\<rparr>)\<rparr>
      | _ \<Rightarrow> c)"

text \<open>\<^verbatim>\<open>swapcontext(co->ctx, &(m_schedule.main))\<close>\<close>

definition swap_to_main :: "addr \<Rightarrow> chroutine_thread_t \<Rightarrow> chroutine_thread_t" where
  "swap_to_main a th = (set_obj a (save_ctx (cpu th) (objs th a)) th)\<lparr>cpu := None\<rparr>"

text \<open>\<^verbatim>\<open>entry(p_this)\<close> on OS thread \<open>t\<close>, up to the call \<^verbatim>\<open>p_c->func(p_c->arg)\<close>. When no running
  chroutine is found it returns, and the main context continues.\<close>

definition entry_begin :: "addr \<Rightarrow> addr \<Rightarrow> 'a world_t_scheme \<Rightarrow> 'a world_t_scheme" where
  "entry_begin t p_this w =
     (case get_chroutine (running_id (threads w p_this)) (threads w p_this) of
        None \<Rightarrow> upd_thread t (\<lambda>th. th\<lparr>cpu := None\<rparr>) w
      | Some p_c \<Rightarrow>
          upd_thread t (\<lambda>th. th\<lparr>cpu := Some (p_this, p_c)\<rparr>)
            (upd_obj p_this p_c (\<lambda>c. c\<lparr>state := chroutine_state_running\<rparr>) w))"

text \<open>The rest of \<^verbatim>\<open>entry\<close>, after the chroutine's function has returned.\<close>

definition entry_end :: "addr \<Rightarrow> 'a world_t_scheme \<Rightarrow> 'a world_t_scheme" where
  "entry_end t w =
     (case cpu (threads w t) of
        None \<Rightarrow> w
      | Some (p_this, p_c) \<Rightarrow>
          (let c = objs (threads w p_this) p_c;
               w1 = upd_thread p_this (\<lambda>th. (remove_chroutine (me c) th)\<lparr>running_id := INVALID_ID\<rparr>) w;
               w2 = (if father c \<noteq> INVALID_ID
                     then (case get_chroutine (father c) (threads w1 p_this) of
                             None \<Rightarrow> w1
                           | Some f \<Rightarrow>
                               (let (c', rs) = son_finished (objs (threads w1 p_this) f) (reporters w1)
                                in (upd_obj p_this f (\<lambda>_. c') w1)\<lparr>reporters := rs\<rparr>))
                     else w1)
           in upd_thread t (\<lambda>th. th\<lparr>cpu := None\<rparr>) w2))"

text \<open>\<^verbatim>\<open>swapcontext(&(m_schedule.main), p_c->ctx)\<close>\<close>

definition swap_to_chroutine :: "addr \<Rightarrow> addr \<Rightarrow> 'a world_t_scheme \<Rightarrow> 'a world_t_scheme" where
  "swap_to_chroutine t a w =
     (case ctx (objs (threads w t) a) of
        None \<Rightarrow> w
      | Some u \<Rightarrow>
          (case resume u of
             Fresh p_this \<Rightarrow> entry_begin t p_this w
           | Suspended p_this p_c \<Rightarrow> upd_thread t (\<lambda>th. th\<lparr>cpu := Some (p_this, p_c)\<rparr>) w))"

section \<open>Creating chroutines\<close>

definition gen_chroutine_id :: "'a world_t_scheme \<Rightarrow> int" where
  "gen_chroutine_id w = wrap64 (ms_chroutine_id w + 1)"

definition create_chroutine ::
  "addr \<Rightarrow> func_t option \<Rightarrow> void_ptr \<Rightarrow> 'a world_t_scheme \<Rightarrow> 'a world_t_scheme \<times> int" where
  "create_chroutine t f a w =
     (let th = threads w t in
      if state_value (m_state th) > state_value thread_state_t_running then (w, INVALID_ID)
      else case f of
        None \<Rightarrow> (w, INVALID_ID)
      | Some g \<Rightarrow>
          (let i = gen_chroutine_id w;
               p = next_obj th;
               u = \<lparr>resume = Fresh t, uc_link = t, ss_size = STACK_SIZE\<rparr>;
               c = (new_chroutine i u)\<lparr>func := Some g, arg := a, state := chroutine_state_ready\<rparr>
           in (upd_thread t
                 (\<lambda>th. (set_obj p c th)\<lparr>next_obj := Suc p,
                         chroutines_map := (chroutines_map th)(i \<mapsto> Some p),
                         chroutines_sched := chroutines_sched th @ [p]\<rparr>)
                 (w\<lparr>ms_chroutine_id := i\<rparr>),
               i)))"

definition create_son_chroutine ::
  "addr \<Rightarrow> func_t option \<Rightarrow> addr \<Rightarrow> 'a world_t_scheme \<Rightarrow> 'a world_t_scheme \<times> int" where
  "create_son_chroutine t f r w =
     (let th = threads w t in
      if state_value (m_state th) > state_value thread_state_t_running then (w, INVALID_ID)
      else case get_chroutine (running_id th) th of
        None \<Rightarrow> (w, INVALID_ID)
      | Some pfather \<Rightarrow>
          (let w1 = upd_obj t pfather (\<lambda>c. c\<lparr>reporter := Some r\<rparr>) w;
               (w2, s) = create_chroutine t f (get_data r) w1
           in if s = INVALID_ID then (w2, INVALID_ID)
              else case get_chroutine s (threads w2 t) of
                None \<Rightarrow> (upd_thread t (\<lambda>th. th\<lparr>chroutines_map := (chroutines_map th)(s \<mapsto> None)\<rparr>) w2,
                         INVALID_ID)
              | Some pson \<Rightarrow>
                  (upd_obj t pfather (\<lambda>c. c\<lparr>son := s\<rparr>)
                     (upd_obj t pson (\<lambda>c. c\<lparr>father := running_id (threads w2 t)\<rparr>) w2),
                   s)))"

section \<open>Suspending the running chroutine\<close>

text \<open>The common part of \<^verbatim>\<open>yield_current\<close> and \<^verbatim>\<open>wait_current\<close>: the guards, the lookup through
  \<^verbatim>\<open>operator[]\<close> (which adds a null entry for a missing key), and the switch; \<open>f\<close> sets what the
  chroutine waits for.\<close>

definition suspend_current ::
  "(chroutine_t \<Rightarrow> chroutine_t) \<Rightarrow> chroutine_thread_t \<Rightarrow> chroutine_thread_t" where
  "suspend_current f th =
     (if running_id th = INVALID_ID then th
      else case chroutines_map th (running_id th) of
        None \<Rightarrow> th\<lparr>chroutines_map := (chroutines_map th)(running_id th \<mapsto> None)\<rparr>
      | Some None \<Rightarrow> th
      | Some (Some co) \<Rightarrow>
          (if state (objs th co) \<noteq> chroutine_state_running then th
           else swap_to_main co
                  ((set_obj co (f ((objs th co)\<lparr>state := chroutine_state_suspend\<rparr>)) th)
                     \<lparr>running_id := INVALID_ID\<rparr>)))"

definition yield_current :: "int \<Rightarrow> chroutine_thread_t \<Rightarrow> chroutine_thread_t" where
  "yield_current n th =
     (if n \<le> 0 then th
      else suspend_current (\<lambda>c. c\<lparr>yield_wait := yield_wait c + n\<rparr>) th)"

definition wait_current :: "int \<Rightarrow> int \<Rightarrow> bool \<Rightarrow> chroutine_thread_t \<Rightarrow> chroutine_thread_t" where
  "wait_current now wait_time_ms stop_son_after_wait th =
     (if wait_time_ms \<le> 0 then th
      else suspend_current
             (\<lambda>c. c\<lparr>yield_to := now + wait_time_ms,
                    stop_son_when_yield_over := stop_son_after_wait\<rparr>) th)"

definition thread_yield :: "int \<Rightarrow> chroutine_thread_t \<Rightarrow> chroutine_thread_t" where
  "thread_yield n th = yield_current n th"

definition thread_wait :: "int \<Rightarrow> int \<Rightarrow> chroutine_thread_t \<Rightarrow> chroutine_thread_t" where
  "thread_wait now wait_time_ms th = wait_current now wait_time_ms True th"

definition thread_sleep :: "int \<Rightarrow> int \<Rightarrow> chroutine_thread_t \<Rightarrow> chroutine_thread_t" where
  "thread_sleep now wait_time_ms th = wait_current now wait_time_ms False th"

definition resume_to :: "addr \<Rightarrow> int \<Rightarrow> 'a world_t_scheme \<Rightarrow> 'a world_t_scheme" where
  "resume_to t i w =
     (case get_chroutine i (threads w t) of
        None \<Rightarrow> w
      | Some co \<Rightarrow>
          (if state (objs (threads w t) co) \<noteq> chroutine_state_suspend then w
           else swap_to_chroutine t co w))"

section \<open>Waking and picking\<close>

definition awake_chroutine :: "addr \<Rightarrow> int \<Rightarrow> 'a world_t_scheme \<Rightarrow> 'a world_t_scheme \<times> int" where
  "awake_chroutine t i w =
     (case get_chroutine i (threads w t) of
        None \<Rightarrow> (w, -1)
      | Some a \<Rightarrow>
          (let (c, rs, s) = yield_over result_done (objs (threads w t) a) (reporters w)
           in (upd_thread t (\<lambda>th. remove_chroutine s (set_obj a c th)) (w\<lparr>reporters := rs\<rparr>), 0)))"

text \<open>The loop of \<^verbatim>\<open>pick_run_chroutine\<close>: \<open>p\<close> holds \<^verbatim>\<open>p_c\<close> with the local \<^verbatim>\<open>sched_iter\<close>.\<close>

fun pick_loop ::
  "int \<Rightarrow> addr list \<Rightarrow> (addr \<Rightarrow> chroutine_t) \<Rightarrow> (addr \<times> addr option) option
   \<Rightarrow> (addr \<Rightarrow> chroutine_t) \<times> (addr \<times> addr option) option" where
  "pick_loop now [] h p = (h, p)"
| "pick_loop now (a # as) h p =
     (if moved (h a) then pick_loop now as h p
      else (let (c, r) = chroutine_wait now (h a); h' = h(a := c)
            in if r > 0 then pick_loop now as h' p
               else pick_loop now as h' (if p = None then Some (a, iter_begin as) else p)))"

text \<open>The critical section of \<^verbatim>\<open>pick_run_chroutine\<close> and the assignment after it.\<close>

definition pick_scan :: "int \<Rightarrow> chroutine_thread_t \<Rightarrow> chroutine_thread_t \<times> addr option" where
  "pick_scan now th =
     (let th1 = th\<lparr>chroutines_to_free := []\<rparr>
      in if chroutines_sched th1 = [] then (th1, None)
         else (let it = (if sched_iter th1 = None then iter_begin (chroutines_sched th1)
                         else sched_iter th1);
                   (h, p) = pick_loop now (iter_suffix it (chroutines_sched th1)) (objs th1) None
               in case p of
                    None \<Rightarrow> (th1\<lparr>objs := h, sched_iter := None\<rparr>, None)
                  | Some (a, it') \<Rightarrow> (th1\<lparr>objs := h, sched_iter := it'\<rparr>, Some a)))"

text \<open>What \<^verbatim>\<open>pick_run_chroutine\<close> does with the picked chroutine before it switches to it: end its
  wait, remove a son whose time is out, mark it running.\<close>

definition pick_commit ::
  "int \<Rightarrow> addr \<Rightarrow> chroutine_thread_t \<Rightarrow> reporter_store \<Rightarrow> chroutine_thread_t \<times> reporter_store" where
  "pick_commit entry_now a th rs =
     (let (c, rs', s) = yield_over result_timeout (objs th a) rs;
          th1 = remove_chroutine s (set_obj a c th);
          th2 = (set_obj a ((objs th1 a)\<lparr>state := chroutine_state_running\<rparr>) th1)
                  \<lparr>running_id := me (objs th1 a)\<rparr>
      in (set_entry_time entry_now th2, rs'))"

definition pick_run_chroutine ::
  "addr \<Rightarrow> int \<Rightarrow> int \<Rightarrow> 'a world_t_scheme \<Rightarrow> 'a world_t_scheme \<times> int \<times> bool" where
  "pick_run_chroutine t now entry_now w =
     (if running_id (threads w t) \<noteq> INVALID_ID then (w, 1, False)
      else case pick_scan now (threads w t) of
        (th, None) \<Rightarrow> (upd_thread t (\<lambda>_. th) w, 0, False)
      | (th, Some a) \<Rightarrow>
          (let (th', rs) = pick_commit entry_now a th (reporters w)
           in (swap_to_chroutine t a (upd_thread t (\<lambda>_. th') (w\<lparr>reporters := rs\<rparr>)), 1, True)))"

section \<open>The thread's main loop\<close>

fun select_all :: "(addr \<Rightarrow> 's \<Rightarrow> 's \<times> int) \<Rightarrow> (addr \<times> addr) list \<Rightarrow> 's \<Rightarrow> 's \<times> int" where
  "select_all sel [] s = (s, 0)"
| "select_all sel ((k, p) # ps) s =
     (let (s1, n) = sel p s; (s2, m) = select_all sel ps s1 in (s2, n + m))"

text \<open>\<^verbatim>\<open>schedule\<close> up to the loop; for a worker \<^verbatim>\<open>engine_t::on_thread_ready\<close> follows.\<close>

definition schedule_enter :: "tid \<Rightarrow> chroutine_thread_t \<Rightarrow> chroutine_thread_t" where
  "schedule_enter cur th =
     (set_state thread_state_t_running (update_thread_id cur th))\<lparr>m_is_running := True\<rparr>"

text \<open>One pass of the loop body, after \<^verbatim>\<open>select_all\<close> has returned \<open>n\<close>. When a chroutine
  was picked, control is in that chroutine and the pass is completed by \<open>schedule_resume\<close>.\<close>

definition schedule_pick ::
  "addr \<Rightarrow> int \<Rightarrow> int \<Rightarrow> int \<Rightarrow> 'a world_t_scheme \<Rightarrow> 'a world_t_scheme" where
  "schedule_pick t n now entry_now w =
     (let (w1, k, swapped) = pick_run_chroutine t now entry_now w
      in if swapped then upd_thread t (\<lambda>th. th\<lparr>m_pending := Some (n + k)\<rparr>) w1
         else upd_thread t (\<lambda>th. th\<lparr>m_load := load_update (n + k) (m_load th)\<rparr>) w1)"

definition schedule_iter ::
  "addr \<Rightarrow> (addr \<Rightarrow> 'a world_t_scheme \<Rightarrow> 'a world_t_scheme \<times> int) \<Rightarrow> int \<Rightarrow> int
   \<Rightarrow> 'a world_t_scheme \<Rightarrow> 'a world_t_scheme" where
  "schedule_iter t sel now entry_now w =
     (let (w1, n) = select_all sel (m_selector_list (threads w t)) w
      in schedule_pick t n now entry_now w1)"

definition schedule_resume :: "chroutine_thread_t \<Rightarrow> chroutine_thread_t" where
  "schedule_resume th =
     (case m_pending th of
        None \<Rightarrow> th
      | Some n \<Rightarrow> (clear_entry_time th)\<lparr>m_load := load_update n (m_load th), m_pending := None\<rparr>)"

definition schedule_exit :: "chroutine_thread_t \<Rightarrow> chroutine_thread_t" where
  "schedule_exit th =
     clear_all_chroutine (set_state thread_state_t_finished (th\<lparr>m_is_running := False\<rparr>))"

text \<open>\<^verbatim>\<open>start\<close>: nothing for a running thread, else a new OS thread that enters
  \<^verbatim>\<open>schedule\<close> (the boolean).\<close>

definition thread_start :: "nat \<Rightarrow> chroutine_thread_t \<Rightarrow> chroutine_thread_t \<times> bool" where
  "thread_start creating_index th =
     (if m_is_running th then (th, False) else (th\<lparr>m_creating_index := creating_index\<rparr>, True))"

section \<open>Selectable objects of a thread\<close>

definition register_selector :: "addr option \<Rightarrow> chroutine_thread_t \<Rightarrow> chroutine_thread_t" where
  "register_selector p th =
     (case p of
        None \<Rightarrow> th
      | Some key \<Rightarrow>
          (case omap_find key (m_selector_list th) of
             None \<Rightarrow> th\<lparr>m_selector_list := omap_put key key (m_selector_list th)\<rparr>
           | Some _ \<Rightarrow> th))"

definition unregister_selector :: "addr \<Rightarrow> chroutine_thread_t \<Rightarrow> chroutine_thread_t" where
  "unregister_selector key th =
     (case omap_find key (m_selector_list th) of
        None \<Rightarrow> th
      | Some _ \<Rightarrow> th\<lparr>m_selector_list := omap_erase key (m_selector_list th)\<rparr>)"

section \<open>Moving chroutines to another thread\<close>

text \<open>\<^verbatim>\<open>resettle\<close>: the receiving thread, the moved-from object and the id it returns.\<close>

definition resettle ::
  "addr \<Rightarrow> chroutine_t \<Rightarrow> chroutine_thread_t \<Rightarrow> chroutine_thread_t \<times> chroutine_t \<times> int" where
  "resettle t other th =
     (let (c, rest) = move_chroutine other;
          c' = c\<lparr>ctx := map_option (\<lambda>u. u\<lparr>uc_link := t\<rparr>) (ctx c)\<rparr>;
          p = next_obj th
      in ((set_obj p c' th)\<lparr>next_obj := Suc p,
              chroutines_map := (chroutines_map th)(me c' \<mapsto> Some p),
              chroutines_sched := chroutines_sched th @ [p]\<rparr>,
          rest, me c'))"

fun move_loop ::
  "addr \<Rightarrow> addr list \<Rightarrow> chroutine_thread_t \<Rightarrow> chroutine_thread_t
   \<Rightarrow> chroutine_thread_t \<times> chroutine_thread_t \<times> int list" where
  "move_loop t' [] th other = (th, other, [])"
| "move_loop t' (a # as) th other =
     (if me (objs th a) \<noteq> running_id th
      then (let (other', rest, i) = resettle t' (objs th a) other;
                hit = (me rest = i);
                th' = set_obj a (if hit then set_moved rest else rest) th;
                (th'', other'', ids) = move_loop t' as th' other'
            in (th'', other'', if hit then i # ids else ids))
      else move_loop t' as th other)"

definition move_chroutines_to_thread :: "addr \<Rightarrow> addr \<Rightarrow> 'a world_t_scheme \<Rightarrow> 'a world_t_scheme" where
  "move_chroutines_to_thread t t' w =
     (if t' = t then w
      else (let th0 = set_state thread_state_t_shifting (threads w t);
                (th1, other, ids) = move_loop t' (chroutines_sched th0) th0 (threads w t');
                th2 = fold remove_chroutine ids th1
            in upd_thread t (\<lambda>_. set_state thread_state_t_blocking th2)
                 (upd_thread t' (\<lambda>_. other) w)))"

end
