(* ===== verification/Thread_Inv.thy ===== *)
theory Thread_Inv
  imports Thread
begin

text \<open>
  The data-structure invariant of a thread (\<open>struct_ok\<close>: index, run queue, cursor and objects agree)
  and the execution invariant (\<open>exec_ok\<close>: what runs on the CPU agrees with \<^verbatim>\<open>running_id\<close> and with the
  saved contexts), with their preservation by every operation of theory Thread.
\<close>

section \<open>Reading updated threads and worlds\<close>

lemma threads_upd_thread [simp]:
  "threads (upd_thread t f w) t' = (if t' = t then f (threads w t) else threads w t')"
  by (simp add: upd_thread_def)

lemma upd_thread_more [simp]:
  "ms_chroutine_id (upd_thread t f w) = ms_chroutine_id w"
  "reporters (upd_thread t f w) = reporters w"
  "world_t.more (upd_thread t f w) = world_t.more w"
  by (simp_all add: upd_thread_def)

lemma threads_upd_obj [simp]:
  "threads (upd_obj t a f w) t' =
     (if t' = t then set_obj a (f (objs (threads w t) a)) (threads w t) else threads w t')"
  by (simp add: upd_obj_def)

lemma upd_obj_more [simp]:
  "ms_chroutine_id (upd_obj t a f w) = ms_chroutine_id w"
  "reporters (upd_obj t a f w) = reporters w"
  "world_t.more (upd_obj t a f w) = world_t.more w"
  by (simp_all add: upd_obj_def)

lemma set_obj_simps [simp]:
  "objs (set_obj a c th) = (objs th)(a := c)"
  "running_id (set_obj a c th) = running_id th"
  "chroutines_map (set_obj a c th) = chroutines_map th"
  "chroutines_sched (set_obj a c th) = chroutines_sched th"
  "chroutines_to_free (set_obj a c th) = chroutines_to_free th"
  "sched_iter (set_obj a c th) = sched_iter th"
  "next_obj (set_obj a c th) = next_obj th"
  "cpu (set_obj a c th) = cpu th"
  "m_state (set_obj a c th) = m_state th"
  "m_pending (set_obj a c th) = m_pending th"
  "m_entry_time (set_obj a c th) = m_entry_time th"
  "m_load (set_obj a c th) = m_load th"
  "m_selector_list (set_obj a c th) = m_selector_list th"
  "m_need_stop (set_obj a c th) = m_need_stop th"
  "m_is_running (set_obj a c th) = m_is_running th"
  "m_std_thread_id (set_obj a c th) = m_std_thread_id th"
  by (simp_all add: set_obj_def)

section \<open>Removal\<close>

lemma remove_chroutine_frame [simp]:
  "objs (remove_chroutine i th) = objs th"
  "next_obj (remove_chroutine i th) = next_obj th"
  "running_id (remove_chroutine i th) = running_id th"
  "cpu (remove_chroutine i th) = cpu th"
  "m_state (remove_chroutine i th) = m_state th"
  "m_pending (remove_chroutine i th) = m_pending th"
  "m_entry_time (remove_chroutine i th) = m_entry_time th"
  "m_load (remove_chroutine i th) = m_load th"
  "m_selector_list (remove_chroutine i th) = m_selector_list th"
  "m_need_stop (remove_chroutine i th) = m_need_stop th"
  "m_is_running (remove_chroutine i th) = m_is_running th"
  "m_std_thread_id (remove_chroutine i th) = m_std_thread_id th"
  by (simp_all add: remove_chroutine_def Let_def split: option.splits)

section \<open>The data-structure invariant\<close>

definition index_ok :: "chroutine_thread_t \<Rightarrow> bool" where
  "index_ok th \<longleftrightarrow>
     distinct (chroutines_sched th) \<and>
     (\<forall>i a. chroutines_map th i = Some (Some a) \<longleftrightarrow>
        a \<in> set (chroutines_sched th) \<and> me (objs th a) = i) \<and>
     (\<forall>i. chroutines_map th i \<noteq> Some None) \<and>
     (\<forall>a. sched_iter th = Some a \<longrightarrow> a \<in> set (chroutines_sched th)) \<and>
     (\<forall>a \<in> set (chroutines_sched th). a < next_obj th) \<and>
     (\<forall>a. Some a \<in> set (chroutines_to_free th) \<longrightarrow> a < next_obj th)"

lemma index_okD:
  assumes "index_ok th"
  shows "distinct (chroutines_sched th)"
    and "chroutines_map th i = Some (Some a) \<longleftrightarrow> a \<in> set (chroutines_sched th) \<and> me (objs th a) = i"
    and "chroutines_map th i \<noteq> Some None"
    and "sched_iter th = Some a \<Longrightarrow> a \<in> set (chroutines_sched th)"
    and "a \<in> set (chroutines_sched th) \<Longrightarrow> a < next_obj th"
    and "Some a \<in> set (chroutines_to_free th) \<Longrightarrow> a < next_obj th"
  using assms by (auto simp: index_ok_def)

lemma index_okI:
  assumes "distinct (chroutines_sched th)"
    and "\<And>i a. chroutines_map th i = Some (Some a) \<longleftrightarrow>
      a \<in> set (chroutines_sched th) \<and> me (objs th a) = i"
    and "\<And>i. chroutines_map th i \<noteq> Some None"
    and "\<And>a. sched_iter th = Some a \<Longrightarrow> a \<in> set (chroutines_sched th)"
    and "\<And>a. a \<in> set (chroutines_sched th) \<Longrightarrow> a < next_obj th"
    and "\<And>a. Some a \<in> set (chroutines_to_free th) \<Longrightarrow> a < next_obj th"
  shows "index_ok th"
  using assms by (auto simp: index_ok_def)

definition obj_ok :: "int \<Rightarrow> chroutine_t \<Rightarrow> bool" where
  "obj_ok ms c \<longleftrightarrow> 0 < me c \<and> me c \<le> ms \<and> 0 \<le> yield_wait c \<and> son c \<noteq> me c"

definition struct_ok :: "int \<Rightarrow> chroutine_thread_t \<Rightarrow> bool" where
  "struct_ok ms th \<longleftrightarrow> index_ok th \<and> (\<forall>a \<in> set (chroutines_sched th). obj_ok ms (objs th a))"

definition running_ok :: "chroutine_thread_t \<Rightarrow> bool" where
  "running_ok th \<longleftrightarrow> running_id th = INVALID_ID \<or> chroutines_map th (running_id th) \<noteq> None"

lemma index_ok_update:
  assumes ok: "index_ok th"
    and eqs: "chroutines_sched th' = chroutines_sched th" "chroutines_map th' = chroutines_map th"
    "chroutines_to_free th' = chroutines_to_free th" "sched_iter th' = sched_iter th"
    "next_obj th' = next_obj th"
    and me: "\<And>a. a \<in> set (chroutines_sched th) \<Longrightarrow> me (objs th' a) = me (objs th a)"
  shows "index_ok th'"
  using index_okD [OF ok] me by (intro index_okI) (auto simp: eqs)

lemma struct_ok_update:
  assumes "struct_ok ms th"
    and "chroutines_sched th' = chroutines_sched th" "chroutines_map th' = chroutines_map th"
    "chroutines_to_free th' = chroutines_to_free th" "sched_iter th' = sched_iter th"
    "next_obj th' = next_obj th"
    and "\<And>a. a \<in> set (chroutines_sched th) \<Longrightarrow> me (objs th' a) = me (objs th a)"
    and "\<And>a. a \<in> set (chroutines_sched th) \<Longrightarrow> obj_ok ms (objs th' a)"
  shows "struct_ok ms th'"
  using assms index_ok_update [OF _ assms(2-7)] by (simp add: struct_ok_def)

lemma struct_okD:
  "struct_ok ms th \<Longrightarrow> index_ok th"
  "struct_ok ms th \<Longrightarrow> a \<in> set (chroutines_sched th) \<Longrightarrow> obj_ok ms (objs th a)"
  by (auto simp: struct_ok_def)

lemma obj_ok_frame [simp]:
  "obj_ok ms (c\<lparr>state := x1\<rparr>) = obj_ok ms c"
  "obj_ok ms (c\<lparr>yield_to := x2\<rparr>) = obj_ok ms c"
  "obj_ok ms (c\<lparr>ctx := x3\<rparr>) = obj_ok ms c"
  "obj_ok ms (c\<lparr>father := x4\<rparr>) = obj_ok ms c"
  "obj_ok ms (c\<lparr>reporter := x5\<rparr>) = obj_ok ms c"
  by (simp_all add: obj_ok_def)

lemma struct_ok_mono: "struct_ok ms th \<Longrightarrow> ms \<le> ms' \<Longrightarrow> struct_ok ms' th"
  by (fastforce simp: struct_ok_def obj_ok_def)

lemma index_ok_get:
  "index_ok th \<Longrightarrow> get_chroutine i th = Some a \<longleftrightarrow>
     a \<in> set (chroutines_sched th) \<and> me (objs th a) = i"
  using index_okD(2) [of th i a] by (auto simp: get_chroutine_def split: option.splits)

lemma index_ok_map:
  "index_ok th \<Longrightarrow> chroutines_map th i = map_option Some (get_chroutine i th)"
  using index_okD(3) [of th i] by (auto simp: get_chroutine_def split: option.splits)

lemma index_ok_me_inj:
  "index_ok th \<Longrightarrow> a \<in> set (chroutines_sched th) \<Longrightarrow> b \<in> set (chroutines_sched th) \<Longrightarrow>
   me (objs th a) = me (objs th b) \<Longrightarrow> a = b"
  using index_okD(2) [of th] by (metis option.inject)

lemma remove_absent: "index_ok th \<Longrightarrow> get_chroutine i th = None \<Longrightarrow> remove_chroutine i th = th"
  by (simp add: remove_chroutine_def index_ok_map)

text \<open>The run queue of a consistent thread, split at the chroutine with a given id.\<close>

lemma index_ok_split:
  assumes ok: "index_ok th" and get: "get_chroutine i th = Some a"
  obtains pre suf where "chroutines_sched th = pre @ a # suf"
    "\<forall>b \<in> set pre \<union> set suf. me (objs th b) \<noteq> i" "a \<notin> set pre \<union> set suf"
    "distinct (pre @ suf)"
proof -
  from get have a: "a \<in> set (chroutines_sched th)" "me (objs th a) = i"
    using index_ok_get [OF ok] by auto
  then obtain pre suf where s: "chroutines_sched th = pre @ a # suf" by (meson split_list)
  have d: "distinct (pre @ a # suf)" using index_okD(1) [OF ok] s by simp
  have "me (objs th b) \<noteq> i" if "b \<in> set pre \<union> set suf" for b
  proof -
    have "b \<in> set (chroutines_sched th)" "b \<noteq> a" using that d s by auto
    then show ?thesis using index_ok_me_inj [OF ok a(1)] a(2) by metis
  qed
  moreover have "a \<notin> set pre \<union> set suf" "distinct (pre @ suf)" using d by simp_all
  ultimately show ?thesis using that s by blast
qed

lemma remove_present:
  assumes ok: "index_ok th" and get: "get_chroutine i th = Some a"
    and sched: "chroutines_sched th = pre @ a # suf"
  shows "remove_chroutine i th =
    th\<lparr>chroutines_to_free := chroutines_to_free th @ [Some a],
       chroutines_map := (chroutines_map th)(i := None),
       chroutines_sched := pre @ suf, sched_iter := iter_begin suf\<rparr>"
proof -
  have a: "me (objs th a) = i" using get index_ok_get [OF ok] by simp
  have "me (objs th b) \<noteq> i" if "b \<in> set pre" for b
  proof -
    have "b \<in> set (chroutines_sched th)" "a \<in> set (chroutines_sched th)" "b \<noteq> a"
      using that index_okD(1) [OF ok] sched by auto
    then show ?thesis using index_ok_me_inj [OF ok] a by metis
  qed
  then have "erase_node (\<lambda>b. me (objs th b) = i) (chroutines_sched th) = Some (pre @ suf, iter_begin suf)"
    unfolding sched using a by (intro erase_node_split) auto
  moreover have "chroutines_map th i = Some (Some a)"
    using index_ok_map [OF ok] get by simp
  ultimately show ?thesis by (simp add: remove_chroutine_def)
qed

lemma remove_index_ok:
  assumes ok: "index_ok th"
  shows "index_ok (remove_chroutine i th)"
proof (cases "get_chroutine i th")
  case None
  then show ?thesis using remove_absent [OF ok] ok by simp
next
  case (Some a)
  obtain pre suf where s: "chroutines_sched th = pre @ a # suf"
    and ne: "\<forall>b \<in> set pre \<union> set suf. me (objs th b) \<noteq> i"
    and na: "a \<notin> set pre \<union> set suf" and d: "distinct (pre @ suf)"
    by (rule index_ok_split [OF ok Some])
  have m: "chroutines_map th j = Some (Some b) \<longleftrightarrow> (b = a \<or> b \<in> set pre \<union> set suf) \<and> me (objs th b) = j"
    for j b by (simp add: index_okD(2) [OF ok] s)
  have i: "me (objs th a) = i" using Some index_ok_get [OF ok] by simp
  let ?th = "th\<lparr>chroutines_to_free := chroutines_to_free th @ [Some a],
       chroutines_map := (chroutines_map th)(i := None),
       chroutines_sched := pre @ suf, sched_iter := iter_begin suf\<rparr>"
  have "index_ok ?th"
  proof (rule index_okI)
    fix j b
    have "b = a \<Longrightarrow> me (objs th b) = j \<Longrightarrow> j = i" using i by simp
    then show "chroutines_map ?th j = Some (Some b) \<longleftrightarrow>
      b \<in> set (chroutines_sched ?th) \<and> me (objs ?th b) = j"
      using m [of j b] ne by auto
  qed (use index_okD [OF ok] d s in \<open>auto dest: iter_begin_in_set\<close>)
  then show ?thesis by (simp add: remove_present [OF ok Some s])
qed

lemma remove_map: "chroutines_map (remove_chroutine i th) = (chroutines_map th)(i := None)"
  by (auto simp: remove_chroutine_def Let_def split: option.splits)

lemma remove_get: "get_chroutine j (remove_chroutine i th) = (if j = i then None else get_chroutine j th)"
  by (simp add: get_chroutine_def remove_map)

lemma remove_sched:
  assumes ok: "index_ok th"
  shows "set (chroutines_sched (remove_chroutine i th)) =
    {a \<in> set (chroutines_sched th). me (objs th a) \<noteq> i}"
proof -
  have "a \<in> set (chroutines_sched (remove_chroutine i th)) \<longleftrightarrow>
    (\<exists>j. get_chroutine j (remove_chroutine i th) = Some a)" for a
    using index_ok_get [OF remove_index_ok [OF ok]] by auto
  then show ?thesis using index_ok_get [OF ok] by (auto simp: remove_get split: if_splits)
qed

lemma remove_struct_ok: "struct_ok ms th \<Longrightarrow> struct_ok ms (remove_chroutine i th)"
  by (auto simp: struct_ok_def remove_index_ok remove_sched)

section \<open>The pick loop\<close>

lemma pick_loop_eq:
  "distinct as \<Longrightarrow> pick_loop now as h p =
    ((\<lambda>a. if a \<in> set as then tick (h a) else h a),
     (if p = None then find_next (\<lambda>a. due now (h a)) as else p))"
proof (induction as arbitrary: h p)
  case (Cons a as)
  have fn: "find_next (\<lambda>b. due now ((h(a := c)) b)) as = find_next (\<lambda>b. due now (h b)) as" for c
    using Cons.prems by (intro find_next_cong) auto
  obtain c r where w: "chroutine_wait now (h a) = (c, r)" by fastforce
  show ?case
  proof (cases "moved (h a)")
    case True
    then have "tick (h a) = h a" "\<not> due now (h a)" by (simp_all add: tick_def due_def)
    then show ?thesis using True Cons by (auto simp: fun_eq_iff)
  next
    case False
    with chroutine_wait_eq [OF this, of now] have "c = tick (h a)" "(r > 0) = (\<not> due now (h a))"
      by (simp_all add: w)
    then show ?thesis using False Cons fn by (auto simp: w fun_eq_iff Let_def)
  qed
qed simp

text \<open>The part of the run queue one pick visits.\<close>

definition upcoming :: "chroutine_thread_t \<Rightarrow> addr list" where
  "upcoming th =
     (if sched_iter th = None then chroutines_sched th
      else iter_suffix (sched_iter th) (chroutines_sched th))"

lemma upcoming_subset: "set (upcoming th) \<subseteq> set (chroutines_sched th)"
  using set_iter_suffix [of "sched_iter th" "chroutines_sched th"] by (auto simp: upcoming_def)

lemma pick_scan_eq:
  assumes ok: "index_ok th"
  shows "pick_scan now th =
    (th\<lparr>chroutines_to_free := [],
        objs := (\<lambda>a. if a \<in> set (upcoming th) then tick (objs th a) else objs th a),
        sched_iter := (case find_next (\<lambda>a. due now (objs th a)) (upcoming th) of
                         None \<Rightarrow> None | Some (a, it) \<Rightarrow> it)\<rparr>,
     map_option fst (find_next (\<lambda>a. due now (objs th a)) (upcoming th)))"
proof (cases "chroutines_sched th = []")
  case True
  then have "sched_iter th = None" using index_okD(4) [OF ok] by (cases "sched_iter th") auto
  with True show ?thesis by (simp add: pick_scan_def upcoming_def)
next
  case False
  let ?it = "if sched_iter th = None then iter_begin (chroutines_sched th) else sched_iter th"
  have "iter_suffix ?it (chroutines_sched th) = upcoming th"
    by (simp add: upcoming_def iter_suffix_begin)
  moreover have "distinct (upcoming th)"
    using index_okD(1) [OF ok] by (simp add: upcoming_def distinct_iter_suffix)
  ultimately show ?thesis
    using False by (cases "sched_iter th") (simp_all add: pick_scan_def pick_loop_eq Let_def split: option.split)
qed

lemma find_next_upcoming:
  assumes "index_ok th" "find_next P (upcoming th) = Some (a, it)"
  shows "a \<in> set (chroutines_sched th)" "P a" "\<And>b. it = Some b \<Longrightarrow> b \<in> set (chroutines_sched th)"
proof -
  from assms(2) obtain pre suf where "upcoming th = pre @ a # suf" "P a" "it = iter_begin suf"
    by (auto simp: find_next_Some)
  then show "a \<in> set (chroutines_sched th)" "P a" "\<And>b. it = Some b \<Longrightarrow> b \<in> set (chroutines_sched th)"
    using upcoming_subset [of th] by (auto dest: iter_begin_in_set)
qed

lemma pick_scan_sched:
  assumes ok: "struct_ok ms th" and ps: "pick_scan now th = (th', r)"
  shows "struct_ok ms th'" "chroutines_map th' = chroutines_map th"
    "chroutines_sched th' = chroutines_sched th" "running_id th' = running_id th" "cpu th' = cpu th"
    "r = Some a \<Longrightarrow> a \<in> set (chroutines_sched th) \<and> due now (objs th a) \<and> objs th' a = objs th a"
    "m_state th' = m_state th" "next_obj th' = next_obj th"
    "objs th' b = objs th b \<or> objs th' b = tick (objs th b)"
proof -
  have iok: "index_ok th" using ok by (simp add: struct_ok_def)
  note eq = ps [unfolded pick_scan_eq [OF iok], symmetric]
  show m: "chroutines_map th' = chroutines_map th" and s: "chroutines_sched th' = chroutines_sched th"
    and "running_id th' = running_id th" "cpu th' = cpu th" "m_state th' = m_state th"
    and n: "next_obj th' = next_obj th"
    and o: "objs th' b = objs th b \<or> objs th' b = tick (objs th b)" for b
    using eq by simp_all
  have me: "me (objs th' b) = me (objs th b)" for b using o [of b] by auto
  show "struct_ok ms th'"
    unfolding struct_ok_def
  proof (intro conjI ballI)
    show "index_ok th'"
    proof (rule index_okI)
      fix b assume "sched_iter th' = Some b"
      then show "b \<in> set (chroutines_sched th')"
        using eq find_next_upcoming(3) [OF iok] by (auto split: option.splits)
    qed (use index_okD [OF iok] m s n me eq in auto)
    fix b assume "b \<in> set (chroutines_sched th')"
    then show "obj_ok ms (objs th' b)"
      using ok s o [of b] tick_nonneg [of "objs th b"] by (auto simp: struct_ok_def obj_ok_def)
  qed
  show "a \<in> set (chroutines_sched th) \<and> due now (objs th a) \<and> objs th' a = objs th a" if "r = Some a"
  proof -
    from that eq have "map_option fst (find_next (\<lambda>a. due now (objs th a)) (upcoming th)) = Some a"
      by simp
    then obtain it where "find_next (\<lambda>a. due now (objs th a)) (upcoming th) = Some (a, it)"
      by fastforce
    from find_next_upcoming(1,2) [OF iok this] show ?thesis using o [of a] tick_due by auto
  qed
qed

end
