(* ===== verification/Thread_Ops.thy ===== *)
theory Thread_Ops
  imports Thread_Inv
begin

text \<open>
  Every operation of a thread keeps the invariants of theory Thread_Inv. \<open>exec_ok\<close> adds to the
  data-structure invariant what holds as long as no chroutine has been moved between threads: the
  saved contexts belong to this thread and to their own objects, exactly the chroutine named by
  \<^verbatim>\<open>running_id\<close> is in state running, and it is the one on the CPU.
\<close>

section \<open>The execution invariant\<close>

definition ctx_ok :: "addr \<Rightarrow> addr \<Rightarrow> chroutine_t \<Rightarrow> bool" where
  "ctx_ok t a c \<longleftrightarrow> \<not> moved c \<and>
     (\<exists>u. ctx c = Some u \<and> (resume u = Fresh t \<or> resume u = Suspended t a))"

definition exec_ok :: "addr \<Rightarrow> chroutine_thread_t \<Rightarrow> bool" where
  "exec_ok t th \<longleftrightarrow>
     (\<forall>a \<in> set (chroutines_sched th). ctx_ok t a (objs th a)) \<and>
     (\<forall>a \<in> set (chroutines_sched th).
        state (objs th a) = chroutine_state_running \<longleftrightarrow> me (objs th a) = running_id th) \<and>
     (cpu th = None \<longrightarrow> running_id th = INVALID_ID) \<and>
     (\<forall>p a. cpu th = Some (p, a) \<longrightarrow> p = t \<and> a \<in> set (chroutines_sched th) \<and>
        me (objs th a) = running_id th \<and> yield_wait (objs th a) = 0 \<and> yield_to (objs th a) = 0)"

definition thread_ok :: "int \<Rightarrow> addr \<Rightarrow> chroutine_thread_t \<Rightarrow> bool" where
  "thread_ok ms t th \<longleftrightarrow> struct_ok ms th \<and> exec_ok t th"

lemma thread_okD:
  assumes "thread_ok ms t th"
  shows "struct_ok ms th" "index_ok th" "exec_ok t th"
    and "a \<in> set (chroutines_sched th) \<Longrightarrow> ctx_ok t a (objs th a)"
    and "a \<in> set (chroutines_sched th) \<Longrightarrow> obj_ok ms (objs th a)"
    and "a \<in> set (chroutines_sched th) \<Longrightarrow>
      state (objs th a) = chroutine_state_running \<longleftrightarrow> me (objs th a) = running_id th"
    and "cpu th = None \<Longrightarrow> running_id th = INVALID_ID"
    and "cpu th = Some (p, a) \<Longrightarrow> p = t \<and> a \<in> set (chroutines_sched th) \<and>
      me (objs th a) = running_id th \<and> yield_wait (objs th a) = 0 \<and> yield_to (objs th a) = 0"
  using assms by (auto simp: thread_ok_def struct_ok_def exec_ok_def)

lemma thread_ok_mono: "thread_ok ms t th \<Longrightarrow> ms \<le> ms' \<Longrightarrow> thread_ok ms' t th"
  by (auto simp: thread_ok_def intro: struct_ok_mono)

lemma me_not_invalid: "obj_ok ms c \<Longrightarrow> me c \<noteq> INVALID_ID"
  by (simp add: obj_ok_def INVALID_ID_def)

lemma thread_ok_running:
  assumes "thread_ok ms t th" "cpu th = Some (p, a)"
  shows "get_chroutine (running_id th) th = Some a" "running_id th \<noteq> INVALID_ID"
    "chroutines_map th (running_id th) = Some (Some a)" "state (objs th a) = chroutine_state_running"
  using thread_okD [OF assms(1)] assms(2) index_ok_get [of th "running_id th" a]
    index_ok_map [of th "running_id th"] me_not_invalid [of ms "objs th a"] by auto

lemma running_id_range:
  assumes ok: "thread_ok ms t th"
  shows "running_id th = INVALID_ID \<or> 0 < running_id th \<and> running_id th \<le> ms"
proof (cases "cpu th")
  case None
  then show ?thesis using thread_okD(7) [OF ok] by simp
next
  case (Some pa)
  then have "snd pa \<in> set (chroutines_sched th)" "me (objs th (snd pa)) = running_id th"
    using thread_okD(8) [OF ok, of "fst pa" "snd pa"] by simp_all
  then show ?thesis using thread_okD(5) [OF ok, of "snd pa"] by (simp add: obj_ok_def)
qed

lemma new_thread_ok: "thread_ok ms t new_thread"
  by (simp add: thread_ok_def struct_ok_def exec_ok_def index_ok_def new_thread_def)

lemma struct_ok_set_obj:
  assumes "struct_ok ms th"
    and "a \<in> set (chroutines_sched th) \<Longrightarrow> me c = me (objs th a) \<and> obj_ok ms c"
  shows "struct_ok ms (set_obj a c th)"
  using assms(1) by (rule struct_ok_update) (use assms in \<open>auto simp: struct_ok_def\<close>)

lemma thread_ok_set_obj:
  assumes ok: "thread_ok ms t th"
    and c: "a \<in> set (chroutines_sched th) \<Longrightarrow> me c = me (objs th a) \<and> obj_ok ms c \<and> ctx_ok t a c \<and>
      state c = state (objs th a) \<and> (cpu th = Some (t, a) \<longrightarrow> yield_wait c = 0 \<and> yield_to c = 0)"
  shows "thread_ok ms t (set_obj a c th)"
proof -
  have "struct_ok ms (set_obj a c th)" using thread_okD(1) [OF ok] c by (simp add: struct_ok_set_obj)
  moreover have "exec_ok t (set_obj a c th)"
    using thread_okD(3) [OF ok] c by (simp add: exec_ok_def)
  ultimately show ?thesis by (simp add: thread_ok_def)
qed

text \<open>Links between father, son and reporter may be set freely, except that no chroutine is its
  own son.\<close>

lemma thread_ok_link:
  assumes ok: "thread_ok ms t th"
    and g: "\<And>c. me (g c) = me c \<and> ctx (g c) = ctx c \<and> moved (g c) = moved c \<and> state (g c) = state c \<and>
      yield_wait (g c) = yield_wait c \<and> yield_to (g c) = yield_to c"
    and s: "a \<in> set (chroutines_sched th) \<Longrightarrow> son (g (objs th a)) \<noteq> me (objs th a)"
  shows "thread_ok ms t (set_obj a (g (objs th a)) th)"
proof (rule thread_ok_set_obj [OF ok])
  assume a: "a \<in> set (chroutines_sched th)"
  show "me (g (objs th a)) = me (objs th a) \<and> obj_ok ms (g (objs th a)) \<and> ctx_ok t a (g (objs th a)) \<and>
    state (g (objs th a)) = state (objs th a) \<and>
    (cpu th = Some (t, a) \<longrightarrow> yield_wait (g (objs th a)) = 0 \<and> yield_to (g (objs th a)) = 0)"
    using thread_okD(4,5) [OF ok a] thread_okD(8) [OF ok, of t a] g s [OF a] by (simp add: obj_ok_def ctx_ok_def)
qed

text \<open>Fields the invariants do not read.\<close>

lemma struct_ok_frame [simp]:
  "struct_ok ms (th\<lparr>cpu := x1\<rparr>) = struct_ok ms th"
  "struct_ok ms (th\<lparr>running_id := x2\<rparr>) = struct_ok ms th"
  "struct_ok ms (th\<lparr>m_pending := x3\<rparr>) = struct_ok ms th"
  "struct_ok ms (th\<lparr>m_load := x4\<rparr>) = struct_ok ms th"
  "struct_ok ms (th\<lparr>m_entry_time := x5\<rparr>) = struct_ok ms th"
  "struct_ok ms (th\<lparr>m_state := x6\<rparr>) = struct_ok ms th"
  "struct_ok ms (th\<lparr>m_selector_list := x7\<rparr>) = struct_ok ms th"
  "struct_ok ms (th\<lparr>m_need_stop := x8\<rparr>) = struct_ok ms th"
  "struct_ok ms (th\<lparr>m_is_running := x9\<rparr>) = struct_ok ms th"
  "struct_ok ms (th\<lparr>m_std_thread_id := x10\<rparr>) = struct_ok ms th"
  by (simp_all add: struct_ok_def index_ok_def)

lemma exec_ok_frame [simp]:
  "exec_ok t (th\<lparr>m_pending := x3\<rparr>) = exec_ok t th"
  "exec_ok t (th\<lparr>m_load := x4\<rparr>) = exec_ok t th"
  "exec_ok t (th\<lparr>m_entry_time := x5\<rparr>) = exec_ok t th"
  "exec_ok t (th\<lparr>m_state := x6\<rparr>) = exec_ok t th"
  "exec_ok t (th\<lparr>m_selector_list := x7\<rparr>) = exec_ok t th"
  "exec_ok t (th\<lparr>m_need_stop := x8\<rparr>) = exec_ok t th"
  "exec_ok t (th\<lparr>m_is_running := x9\<rparr>) = exec_ok t th"
  "exec_ok t (th\<lparr>m_std_thread_id := x10\<rparr>) = exec_ok t th"
  by (simp_all add: exec_ok_def)

lemma running_ok_frame [simp]:
  "running_ok (th\<lparr>cpu := x1\<rparr>) = running_ok th"
  "running_ok (th\<lparr>m_pending := x3\<rparr>) = running_ok th"
  "running_ok (th\<lparr>m_load := x4\<rparr>) = running_ok th"
  "running_ok (th\<lparr>m_entry_time := x5\<rparr>) = running_ok th"
  "running_ok (th\<lparr>m_state := x6\<rparr>) = running_ok th"
  "running_ok (set_obj a c th) = running_ok th"
  by (simp_all add: running_ok_def)

lemma thread_ok_frame [simp]:
  "thread_ok ms t (th\<lparr>m_pending := x3\<rparr>) = thread_ok ms t th"
  "thread_ok ms t (th\<lparr>m_load := x4\<rparr>) = thread_ok ms t th"
  "thread_ok ms t (th\<lparr>m_entry_time := x5\<rparr>) = thread_ok ms t th"
  "thread_ok ms t (th\<lparr>m_state := x6\<rparr>) = thread_ok ms t th"
  "thread_ok ms t (th\<lparr>m_selector_list := x7\<rparr>) = thread_ok ms t th"
  "thread_ok ms t (th\<lparr>m_need_stop := x8\<rparr>) = thread_ok ms t th"
  "thread_ok ms t (th\<lparr>m_is_running := x9\<rparr>) = thread_ok ms t th"
  "thread_ok ms t (th\<lparr>m_std_thread_id := x10\<rparr>) = thread_ok ms t th"
  by (simp_all add: thread_ok_def)

section \<open>Removal\<close>

lemma remove_thread_ok:
  assumes ok: "thread_ok ms t th" and ne: "cpu th \<noteq> None \<Longrightarrow> i \<noteq> running_id th"
  shows "thread_ok ms t (remove_chroutine i th)"
  using thread_okD [OF ok] ne remove_struct_ok [of ms th i]
  by (auto simp: thread_ok_def exec_ok_def remove_sched split: option.splits)

lemma remove_running_ok:
  assumes "running_ok th" and "running_id th = INVALID_ID \<or> i \<noteq> running_id th"
  shows "running_ok (remove_chroutine i th)"
  using assms by (auto simp: running_ok_def remove_map)

section \<open>Creation\<close>

lemma create_chroutine_cases:
  assumes "create_chroutine t f a w = (w', i)"
  obtains (refused) "w' = w" "i = INVALID_ID"
      "f = None \<or> state_value (m_state (threads w t)) > state_value thread_state_t_running"
  | (created) g c where "f = Some g" "i = gen_chroutine_id w"
      "state_value (m_state (threads w t)) \<le> state_value thread_state_t_running"
      "c = \<lparr>ctx = Some \<lparr>resume = Fresh t, uc_link = t, ss_size = STACK_SIZE\<rparr>, func = Some g,
            arg = a, state = chroutine_state_ready, stack = Some STACK_SIZE, yield_wait = 0,
            yield_to = 0, me = i, father = INVALID_ID, son = INVALID_ID, reporter = None,
            stop_son_when_yield_over = False, moved = False\<rparr>"
      "w' = upd_thread t
        (\<lambda>th. (set_obj (next_obj th) c th)\<lparr>next_obj := Suc (next_obj th),
                chroutines_map := (chroutines_map th)(i \<mapsto> Some (next_obj th)),
                chroutines_sched := chroutines_sched th @ [next_obj th]\<rparr>)
        (w\<lparr>ms_chroutine_id := i\<rparr>)"
  using assms
  by (auto simp: create_chroutine_def new_chroutine_def default_chroutine_def upd_thread_def Let_def
      split: if_splits option.splits)

lemma add_obj_index_ok:
  assumes ok: "index_ok th" and new: "chroutines_map th (me c) = None"
  shows "index_ok ((set_obj (next_obj th) c th)\<lparr>next_obj := Suc (next_obj th),
           chroutines_map := (chroutines_map th)(me c \<mapsto> Some (next_obj th)),
           chroutines_sched := chroutines_sched th @ [next_obj th]\<rparr>)" (is "index_ok ?th")
proof (rule index_okI)
  have fresh: "next_obj th \<notin> set (chroutines_sched th)" using index_okD(5) [OF ok] by blast
  then show "distinct (chroutines_sched ?th)" using index_okD(1) [OF ok] by simp
  fix i b
  have "b \<in> set (chroutines_sched th) \<Longrightarrow> me (objs th b) \<noteq> me c"
    using index_okD(2) [OF ok, of "me c" b] new by auto
  then show "chroutines_map ?th i = Some (Some b) \<longleftrightarrow>
    b \<in> set (chroutines_sched ?th) \<and> me (objs ?th b) = i"
    using fresh index_okD(2) [OF ok, of i b] by auto
qed (use index_okD [OF ok] in \<open>auto simp: less_Suc_eq\<close>)

lemma add_obj_struct_ok:
  assumes ok: "struct_ok ms th" and new: "chroutines_map th (me c) = None" and c: "obj_ok ms c"
  shows "struct_ok ms ((set_obj (next_obj th) c th)\<lparr>next_obj := Suc (next_obj th),
           chroutines_map := (chroutines_map th)(me c \<mapsto> Some (next_obj th)),
           chroutines_sched := chroutines_sched th @ [next_obj th]\<rparr>)"
  using add_obj_index_ok [of th c] ok new c by (auto simp: struct_ok_def)

lemma fresh_id:
  assumes "struct_ok ms th" "ms < i"
  shows "chroutines_map th i = None"
proof -
  have ok: "index_ok th" using assms(1) by (simp add: struct_ok_def)
  have "get_chroutine i th \<noteq> Some a" for a
    using index_ok_get [OF ok, of i a] assms by (auto simp: struct_ok_def obj_ok_def)
  then show ?thesis using index_ok_map [OF ok, of i] by (cases "get_chroutine i th") auto
qed

lemma gen_chroutine_id_fresh:
  "0 \<le> ms_chroutine_id w \<Longrightarrow> ms_chroutine_id w < 2 ^ 63 - 1 \<Longrightarrow>
   gen_chroutine_id w = ms_chroutine_id w + 1"
  by (simp add: gen_chroutine_id_def)

lemma create_frame:
  assumes "create_chroutine t f a w = (w', i)"
  shows "reporters w' = reporters w" "t' \<noteq> t \<Longrightarrow> threads w' t' = threads w t'"
    "cpu (threads w' t) = cpu (threads w t)" "running_id (threads w' t) = running_id (threads w t)"
    "set (chroutines_sched (threads w t)) \<subseteq> set (chroutines_sched (threads w' t))"
    "b \<noteq> next_obj (threads w t) \<Longrightarrow> objs (threads w' t) b = objs (threads w t) b"
    "i \<noteq> INVALID_ID \<Longrightarrow> get_chroutine i (threads w' t) = Some (next_obj (threads w t))"
    "i \<noteq> INVALID_ID \<Longrightarrow> ms_chroutine_id w' = i"
    "m_state (threads w' t) = m_state (threads w t)"
  using assms
  by (auto simp: create_chroutine_def get_chroutine_def Let_def split: if_splits option.splits)

lemma create_thread_ok:
  assumes ok: "thread_ok (ms_chroutine_id w) t (threads w t)"
    and ms: "0 \<le> ms_chroutine_id w" "ms_chroutine_id w < 2 ^ 63 - 1"
    and cr: "create_chroutine t f a w = (w', i)"
  shows "thread_ok (ms_chroutine_id w') t (threads w' t) \<and> ms_chroutine_id w \<le> ms_chroutine_id w'"
  using cr
proof (cases rule: create_chroutine_cases)
  case refused
  then show ?thesis using ok by simp
next
  case (created g c)
  then have i: "i = ms_chroutine_id w + 1" "me c = i" using gen_chroutine_id_fresh [OF ms] by simp_all
  let ?th = "threads w t"
  have sok: "struct_ok i ?th" using thread_okD(1) [OF ok] i by (auto intro: struct_ok_mono)
  have new: "chroutines_map ?th (me c) = None" using fresh_id thread_okD(1) [OF ok] i by simp
  have cok: "obj_ok i c" using created i ms by (simp add: obj_ok_def INVALID_ID_def)
  have fresh: "next_obj ?th \<notin> set (chroutines_sched ?th)"
    using index_okD(5) [OF thread_okD(2) [OF ok]] by blast
  have run: "running_id ?th \<noteq> i"
    using running_id_range [OF ok] i ms by (auto simp: INVALID_ID_def)
  have "exec_ok t (threads w' t)"
    using thread_okD(3) [OF ok] fresh run i created(1-4)
    unfolding created(5) by (auto simp: exec_ok_def ctx_ok_def)
  then show ?thesis
    using add_obj_struct_ok [OF sok new cok] i unfolding created(5) by (simp add: thread_ok_def)
qed

lemma create_son_thread_ok:
  assumes ok: "thread_ok (ms_chroutine_id w) t (threads w t)"
    and ms: "0 \<le> ms_chroutine_id w" "ms_chroutine_id w < 2 ^ 63 - 1"
    and cr: "create_son_chroutine t f r w = (w', i)"
  shows "thread_ok (ms_chroutine_id w') t (threads w' t) \<and> ms_chroutine_id w \<le> ms_chroutine_id w'"
proof (cases "get_chroutine (running_id (threads w t)) (threads w t)")
  case None
  then show ?thesis using cr ok by (auto simp: create_son_chroutine_def Let_def split: if_splits)
next
  case (Some pf)
  let ?w1 = "upd_obj t pf (\<lambda>c. c\<lparr>reporter := Some r\<rparr>) w"
  obtain w2 s where cr2: "create_chroutine t f (get_data r) ?w1 = (w2, s)" by fastforce
  have pf: "pf \<in> set (chroutines_sched (threads w t))"
    using Some index_ok_get thread_okD(2) [OF ok] by blast
  have pfok: "obj_ok (ms_chroutine_id w) (objs (threads w t) pf)" using thread_okD(5) [OF ok pf] .
  have ok1: "thread_ok (ms_chroutine_id ?w1) t (threads ?w1 t)"
    using thread_ok_link [OF ok, of "\<lambda>c. c\<lparr>reporter := Some r\<rparr>" pf] pfok by (simp add: obj_ok_def)
  have ok2: "thread_ok (ms_chroutine_id w2) t (threads w2 t)" "ms_chroutine_id w \<le> ms_chroutine_id w2"
    using create_thread_ok [OF ok1 _ _ cr2] ms by simp_all
  show ?thesis
  proof (cases "s = INVALID_ID \<or> state_value (m_state (threads w t)) > state_value thread_state_t_running")
    case True
    then show ?thesis using cr cr2 Some ok ok2 by (auto simp: create_son_chroutine_def Let_def split: if_splits)
  next
    case False
    let ?q = "next_obj (threads w t)"
    have g: "get_chroutine s (threads w2 t) = Some ?q" "ms_chroutine_id w2 = s"
      using create_frame [OF cr2] False by simp_all
    have w': "w' = upd_obj t pf (\<lambda>c. c\<lparr>son := s\<rparr>)
        (upd_obj t ?q (\<lambda>c. c\<lparr>father := running_id (threads w2 t)\<rparr>) w2)"
      using cr cr2 Some False g by (auto simp: create_son_chroutine_def Let_def)
    let ?w3 = "upd_obj t ?q (\<lambda>c. c\<lparr>father := running_id (threads w2 t)\<rparr>) w2"
    have ok3: "thread_ok s t (threads ?w3 t)"
      using thread_ok_link [OF ok2(1), of "\<lambda>c. c\<lparr>father := running_id (threads w2 t)\<rparr>" ?q]
        thread_okD(5) [OF ok2(1), of ?q] g by (simp add: obj_ok_def)
    have old: "me (objs (threads w t) pf) \<le> ms_chroutine_id w" "pf \<noteq> ?q"
      using pfok index_okD(5) [OF thread_okD(2) [OF ok] pf] by (auto simp: obj_ok_def)
    have "me (objs (threads ?w3 t) pf) = me (objs (threads w t) pf)"
      using create_frame(6) [OF cr2, of pf] old by simp
    moreover have "s = ms_chroutine_id w + 1"
      using create_chroutine_cases [OF cr2] False gen_chroutine_id_fresh [of ?w1] ms
      by (metis upd_obj_more(1))
    ultimately have "me (objs (threads ?w3 t) pf) \<noteq> s" using old by simp
    then show ?thesis
      unfolding w' using thread_ok_link [OF ok3, of "\<lambda>c. c\<lparr>son := s\<rparr>" pf] g ok2(2)
      by (simp del: threads_upd_obj add: upd_obj_def)
  qed
qed

lemma create_son_frame:
  assumes "create_son_chroutine t f r w = (w', i)" "t' \<noteq> t"
  shows "threads w' t' = threads w t'"
  using assms
  by (auto simp: create_son_chroutine_def Let_def split: if_splits option.splits prod.splits
      dest!: create_frame(2) [OF _ assms(2)])

section \<open>Suspending\<close>

text \<open>What \<^verbatim>\<open>yield_current\<close> and \<^verbatim>\<open>wait_current\<close> may change of the chroutine.\<close>

definition wait_update :: "(chroutine_t \<Rightarrow> chroutine_t) \<Rightarrow> bool" where
  "wait_update f \<longleftrightarrow> (\<forall>c. me (f c) = me c \<and> ctx (f c) = ctx c \<and> moved (f c) = moved c \<and>
     state (f c) = state c \<and> son (f c) = son c \<and> func (f c) = func c \<and> father (f c) = father c \<and>
     (0 \<le> yield_wait c \<longrightarrow> 0 \<le> yield_wait (f c)))"

lemma wait_update_yield: "0 < n \<Longrightarrow> wait_update (\<lambda>c. c\<lparr>yield_wait := yield_wait c + n\<rparr>)"
  by (simp add: wait_update_def)

lemma wait_update_wait:
  "wait_update (\<lambda>c. c\<lparr>yield_to := d, stop_son_when_yield_over := b\<rparr>)"
  by (simp add: wait_update_def)

lemma suspend_idle: "thread_ok ms t th \<Longrightarrow> cpu th = None \<Longrightarrow> suspend_current f th = th"
  by (simp add: suspend_current_def thread_okD(7))

lemma save_ctx_simps [simp]:
  "me (save_ctx fr c) = me c" "moved (save_ctx fr c) = moved c" "state (save_ctx fr c) = state c"
  "yield_wait (save_ctx fr c) = yield_wait c" "yield_to (save_ctx fr c) = yield_to c"
  "son (save_ctx fr c) = son c" "father (save_ctx fr c) = father c" "func (save_ctx fr c) = func c"
  "stop_son_when_yield_over (save_ctx fr c) = stop_son_when_yield_over c"
  "reporter (save_ctx fr c) = reporter c"
  by (auto simp: save_ctx_def split: option.splits)

lemma suspend_eq:
  assumes "thread_ok ms t th" "cpu th = Some (p, a)"
  shows "suspend_current f th =
    (set_obj a (save_ctx (Some (t, a)) (f ((objs th a)\<lparr>state := chroutine_state_suspend\<rparr>))) th)
      \<lparr>running_id := INVALID_ID, cpu := None\<rparr>"
  using thread_ok_running [OF assms] thread_okD(8) [OF assms] assms(2)
  by (simp add: suspend_current_def swap_to_main_def set_obj_def)

lemma suspend_thread_ok:
  assumes ok: "thread_ok ms t th" and f: "wait_update f"
  shows "thread_ok ms t (suspend_current f th)"
proof (cases "cpu th")
  case None
  then show ?thesis using suspend_idle [OF ok] ok by simp
next
  case (Some pa)
  obtain p a where pa: "pa = (p, a)" by (cases pa)
  let ?c = "save_ctx (Some (t, a)) (f ((objs th a)\<lparr>state := chroutine_state_suspend\<rparr>))"
  have a: "a \<in> set (chroutines_sched th)" "me (objs th a) = running_id th"
    using thread_okD(8) [OF ok] Some pa by auto
  note fc = f [unfolded wait_update_def, rule_format, of "(objs th a)\<lparr>state := chroutine_state_suspend\<rparr>"]
  have c: "me ?c = me (objs th a)" "obj_ok ms ?c" "state ?c = chroutine_state_suspend"
    using fc thread_okD(5) [OF ok a(1)] by (simp_all add: obj_ok_def)
  have ctx: "ctx_ok t a ?c"
    using fc thread_okD(4) [OF ok a(1)] by (auto simp: ctx_ok_def save_ctx_def split: option.splits)
  have s: "struct_ok ms (set_obj a ?c th)" using thread_okD(1) [OF ok] c by (simp add: struct_ok_set_obj)
  have "exec_ok t ((set_obj a ?c th)\<lparr>running_id := INVALID_ID, cpu := None\<rparr>)"
  proof -
    have "b \<in> set (chroutines_sched th) \<Longrightarrow> b \<noteq> a \<Longrightarrow> state (objs th b) \<noteq> chroutine_state_running" for b
      using thread_okD(6) [OF ok, of b] index_ok_me_inj [OF thread_okD(2) [OF ok], of b a] a by metis
    moreover have "b \<in> set (chroutines_sched th) \<Longrightarrow> me (objs th b) \<noteq> INVALID_ID" for b
      using thread_okD(5) [OF ok, of b] me_not_invalid by blast
    ultimately show ?thesis
      using thread_okD(4) [OF ok] ctx c by (auto simp: exec_ok_def)
  qed
  then show ?thesis using s suspend_eq [OF ok] Some pa by (simp add: thread_ok_def)
qed

section \<open>Waking\<close>

lemma yield_over_ok:
  assumes "thread_ok ms t th" "a \<in> set (chroutines_sched th)"
  shows "thread_ok ms t (set_obj a (fst (yield_over r (objs th a) rs)) th)"
proof (rule thread_ok_set_obj [OF assms(1)])
  have "son (fst (yield_over r (objs th a) rs)) \<noteq> me (objs th a)"
    using thread_okD(5) [OF assms] by (auto simp: yield_over_def obj_ok_def INVALID_ID_def)
  then show "me (fst (yield_over r (objs th a) rs)) = me (objs th a) \<and>
    obj_ok ms (fst (yield_over r (objs th a) rs)) \<and> ctx_ok t a (fst (yield_over r (objs th a) rs)) \<and>
    state (fst (yield_over r (objs th a) rs)) = state (objs th a) \<and>
    (cpu th = Some (t, a) \<longrightarrow> yield_wait (fst (yield_over r (objs th a) rs)) = 0 \<and>
      yield_to (fst (yield_over r (objs th a) rs)) = 0)"
    using thread_okD(4,5) [OF assms] thread_okD(8) [OF assms(1), of t a]
    by (simp add: obj_ok_def ctx_ok_def)
qed

text \<open>Waking must not remove the running chroutine: a chroutine that wakes its own father while
  that father waits for it would lose its entry in the index.\<close>

definition awake_safe :: "addr \<Rightarrow> int \<Rightarrow> 'a world_t_scheme \<Rightarrow> bool" where
  "awake_safe t i w \<longleftrightarrow>
     (case get_chroutine i (threads w t) of
        None \<Rightarrow> True
      | Some a \<Rightarrow> running_id (threads w t) = INVALID_ID \<or>
          snd (snd (yield_over result_done (objs (threads w t) a) (reporters w))) \<noteq> running_id (threads w t))"

lemma awake_thread_ok:
  assumes ok: "thread_ok ms t (threads w t)" and safe: "awake_safe t i w"
    and aw: "awake_chroutine t i w = (w', r)"
  shows "thread_ok ms t (threads w' t)"
proof (cases "get_chroutine i (threads w t)")
  case None
  then show ?thesis using aw ok by (simp add: awake_chroutine_def)
next
  case (Some a)
  let ?y = "yield_over result_done (objs (threads w t) a) (reporters w)"
  have a: "a \<in> set (chroutines_sched (threads w t))"
    using Some index_ok_get thread_okD(2) [OF ok] by blast
  have eq: "threads w' t = remove_chroutine (snd (snd ?y)) (set_obj a (fst ?y) (threads w t))"
    using aw Some by (auto simp: awake_chroutine_def split: prod.splits)
  show ?thesis
    unfolding eq
  proof (rule remove_thread_ok [OF yield_over_ok [OF ok a]])
    assume "cpu (set_obj a (fst ?y) (threads w t)) \<noteq> None"
    then have "running_id (threads w t) \<noteq> INVALID_ID"
      using thread_ok_running(2) [OF ok] by auto
    then show "snd (snd ?y) \<noteq> running_id (set_obj a (fst ?y) (threads w t))"
      using safe Some by (simp add: awake_safe_def)
  qed
qed

lemma awake_frame:
  assumes "awake_chroutine t i w = (w', r)"
  shows "ms_chroutine_id w' = ms_chroutine_id w" "t' \<noteq> t \<Longrightarrow> threads w' t' = threads w t'"
  using assms by (auto simp: awake_chroutine_def split: option.splits prod.splits)

section \<open>Picking\<close>

lemma pick_scan_thread_ok:
  assumes ok: "thread_ok ms t th" and cpu: "cpu th = None" and ps: "pick_scan now th = (th', r)"
  shows "thread_ok ms t th'"
proof -
  note sc = pick_scan_sched [OF thread_okD(1) [OF ok] ps]
  have o: "me (objs th' b) = me (objs th b)" "state (objs th' b) = state (objs th b)"
    "ctx_ok t b (objs th' b) = ctx_ok t b (objs th b)" for b
    using sc(9) [of b] by (auto simp: ctx_ok_def)
  have "exec_ok t th'" using thread_okD(3) [OF ok] cpu sc(3-5) o by (simp add: exec_ok_def)
  then show ?thesis using sc(1) by (simp add: thread_ok_def)
qed

text \<open>The son to stop is never the picked chroutine itself.\<close>

lemma yield_over_son: "obj_ok ms c \<Longrightarrow> snd (snd (yield_over r c rs)) \<noteq> me c"
  by (auto simp: yield_over_def obj_ok_def INVALID_ID_def)

lemma pick_commit_eq:
  fixes th rs
  assumes "pick_commit en a th rs = (th', rs')"
  defines "y \<equiv> yield_over result_timeout (objs th a) rs"
  shows "th' = (set_obj a ((fst y)\<lparr>state := chroutine_state_running\<rparr>)
                 (remove_chroutine (snd (snd y)) (set_obj a (fst y) th)))
                 \<lparr>running_id := me (objs th a), m_entry_time := en\<rparr>"
    "rs' = fst (snd y)"
proof -
  obtain c rs1 s where y: "y = (c, rs1, s)" by (cases y) auto
  have "me c = me (objs th a)"
    using y yield_over_simps(1) [of result_timeout "objs th a" rs] unfolding y_def by (metis fst_conv)
  then show "th' = (set_obj a ((fst y)\<lparr>state := chroutine_state_running\<rparr>)
                 (remove_chroutine (snd (snd y)) (set_obj a (fst y) th)))
                 \<lparr>running_id := me (objs th a), m_entry_time := en\<rparr>" "rs' = fst (snd y)"
    using assms(1) y by (auto simp: pick_commit_def y_def Let_def set_entry_time_def)
qed

lemma pick_commit_ok:
  assumes ok: "thread_ok ms t th" and cpu: "cpu th = None"
    and a: "a \<in> set (chroutines_sched th)" and due: "due now (objs th a)"
    and pc: "pick_commit en a th rs = (th', rs')"
  shows "thread_ok ms t (th'\<lparr>cpu := Some (t, a)\<rparr>)"
    "get_chroutine (running_id th') th' = Some a" "ctx (objs th' a) = ctx (objs th a)"
    "state (objs th' a) = chroutine_state_running" "running_id th' = me (objs th a)"
proof -
  let ?y = "yield_over result_timeout (objs th a) rs"
  let ?th1 = "remove_chroutine (snd (snd ?y)) (set_obj a (fst ?y) th)"
  note th' = pick_commit_eq(1) [OF pc]
  have oka: "obj_ok ms (objs th a)" using thread_okD(5) [OF ok a] .
  have ok1: "thread_ok ms t ?th1" using remove_thread_ok [OF yield_over_ok [OF ok a]] cpu by simp
  have i1: "index_ok (set_obj a (fst ?y) th)" using thread_okD(2) [OF yield_over_ok [OF ok a]] .
  have a1: "a \<in> set (chroutines_sched ?th1)" "me (objs ?th1 a) = me (objs th a)"
    using a yield_over_son [OF oka, of result_timeout rs] by (auto simp: remove_sched [OF i1])
  have s: "chroutines_sched th' = chroutines_sched ?th1" "running_id th' = me (objs th a)"
    "chroutines_map th' = chroutines_map ?th1" "cpu th' = None"
    using th' cpu by simp_all
  have oa: "objs th' a = (objs ?th1 a)\<lparr>state := chroutine_state_running\<rparr>"
    and ob: "b \<noteq> a \<Longrightarrow> objs th' b = objs ?th1 b" for b using th' by simp_all
  have "struct_ok ms th'"
    using thread_okD(1) [OF ok1] thread_okD(5) [OF ok1 a1(1)] a1
    unfolding th' by (auto intro!: struct_ok_set_obj simp: obj_ok_def)
  moreover have "exec_ok t (th'\<lparr>cpu := Some (t, a)\<rparr>)"
  proof -
    have "state (objs th' b) = chroutine_state_running \<longleftrightarrow> me (objs th' b) = running_id th'"
      if b: "b \<in> set (chroutines_sched th')" for b
    proof (cases "b = a")
      case True
      then show ?thesis using oa a1 s by simp
    next
      case False
      then have "me (objs ?th1 b) \<noteq> me (objs ?th1 a)"
        using index_ok_me_inj [OF thread_okD(2) [OF ok1], of a b] a1(1) b s by metis
      moreover have "state (objs ?th1 b) \<noteq> chroutine_state_running"
        using thread_okD(6,7) [OF ok1] thread_okD(5) [OF ok1] me_not_invalid b s cpu by fastforce
      ultimately show ?thesis using False ob s a1 by simp
    qed
    moreover have "ctx_ok t b (objs th' b)" if "b \<in> set (chroutines_sched th')" for b
      using thread_okD(4) [OF ok1, of b] that s oa ob by (cases "b = a") (auto simp: ctx_ok_def)
    moreover have "yield_wait (objs th' a) = 0" "yield_to (objs th' a) = 0"
      using oa due oka by (auto simp: due_def obj_ok_def)
    ultimately show ?thesis using s a1 oa by (simp add: exec_ok_def)
  qed
  ultimately show "thread_ok ms t (th'\<lparr>cpu := Some (t, a)\<rparr>)" by (simp add: thread_ok_def)
  show "get_chroutine (running_id th') th' = Some a"
    using index_ok_get [OF thread_okD(2) [OF ok1], of "me (objs th a)" a] a1 s
    by (simp add: get_chroutine_def)
  show "ctx (objs th' a) = ctx (objs th a)" "state (objs th' a) = chroutine_state_running"
    "running_id th' = me (objs th a)" using oa s by simp_all
qed

end
