(* ===== verification/Thread_Step.thy ===== *)
theory Thread_Step
  imports Thread_Ops
begin

text \<open>
  The system of all threads as a state machine. \<open>thread_op\<close> lists the atomic steps: those of a
  thread's main loop, the calls the running chroutine makes (whose own code is arbitrary: any call
  may come next), and the calls made on a thread from outside. \<open>exec_op\<close> runs one step, \<open>None\<close> when
  the step is not enabled. \<open>reach\<close> is reachability from the state with only new threads; its argument
  says whether chroutines may be moved between threads.
\<close>

section \<open>One pick and one return, in a consistent thread\<close>

lemma set_obj_same [simp]: "set_obj a (objs th a) th = th"
  by (simp add: set_obj_def)

lemma set_obj_cpu: "(set_obj a c th)\<lparr>cpu := x\<rparr> = set_obj a c (th\<lparr>cpu := x\<rparr>)"
  by (simp add: set_obj_def)

lemma state_update_same: "state c = s \<Longrightarrow> c\<lparr>state := s\<rparr> = c"
  by (cases c) simp

lemma upd_thread_upd_thread [simp]: "upd_thread t f (upd_thread t g w) = upd_thread t (f \<circ> g) w"
  by (simp add: upd_thread_def)

lemma upd_thread_reporters: "(upd_thread t f w)\<lparr>reporters := rs\<rparr> = upd_thread t f (w\<lparr>reporters := rs\<rparr>)"
  by (simp add: upd_thread_def)

lemma pick_run_eq:
  assumes ok: "thread_ok ms t (threads w t)" and cpu: "cpu (threads w t) = None"
  shows "pick_run_chroutine t now en w =
    (case pick_scan now (threads w t) of
       (th, None) \<Rightarrow> (upd_thread t (\<lambda>_. th) w, 0, False)
     | (th, Some a) \<Rightarrow>
         (let (th', rs) = pick_commit en a th (reporters w)
          in (upd_thread t (\<lambda>_. th'\<lparr>cpu := Some (t, a)\<rparr>) (w\<lparr>reporters := rs\<rparr>), 1, True)))"
proof -
  have run: "running_id (threads w t) = INVALID_ID" using thread_okD(7) [OF ok cpu] .
  obtain th r where ps: "pick_scan now (threads w t) = (th, r)" by fastforce
  show ?thesis
  proof (cases r)
    case None
    then show ?thesis using run ps by (simp add: pick_run_chroutine_def)
  next
    case (Some a)
    note sc = pick_scan_sched [OF thread_okD(1) [OF ok] ps]
    have okth: "thread_ok ms t th" using pick_scan_thread_ok [OF ok cpu ps] .
    have a: "a \<in> set (chroutines_sched th)" "due now (objs th a)" using sc(6) [OF Some] sc(3) by auto
    obtain th' rs where pc: "pick_commit en a th (reporters w) = (th', rs)" by fastforce
    have cpu1: "cpu th = None" using sc(5) cpu by simp
    note pco = pick_commit_ok [OF okth cpu1 a pc]
    obtain u where u: "ctx (objs th' a) = Some u" "resume u = Fresh t \<or> resume u = Suspended t a"
      using thread_okD(4) [OF okth a(1)] pco(3) by (auto simp: ctx_ok_def)
    have "swap_to_chroutine t a (upd_thread t (\<lambda>_. th') (w\<lparr>reporters := rs\<rparr>)) =
      upd_thread t (\<lambda>_. th'\<lparr>cpu := Some (t, a)\<rparr>) (w\<lparr>reporters := rs\<rparr>)"
      using u pco(2,4)
      by (auto simp: swap_to_chroutine_def entry_begin_def upd_obj_def state_update_same comp_def)
    then show ?thesis using run ps Some pc by (simp add: pick_run_chroutine_def)
  qed
qed

lemma pick_run_thread_ok:
  assumes ok: "thread_ok ms t (threads w t)" and cpu: "cpu (threads w t) = None"
    and pr: "pick_run_chroutine t now en w = (w', k, sw)"
  shows "thread_ok ms t (threads w' t)" "ms_chroutine_id w' = ms_chroutine_id w"
    "t' \<noteq> t \<Longrightarrow> threads w' t' = threads w t'"
proof -
  obtain th r where ps: "pick_scan now (threads w t) = (th, r)" by fastforce
  note sc = pick_scan_sched [OF thread_okD(1) [OF ok] ps]
  have okth: "thread_ok ms t th" using pick_scan_thread_ok [OF ok cpu ps] .
  have "thread_ok ms t (threads w' t) \<and> ms_chroutine_id w' = ms_chroutine_id w \<and>
    (t' \<noteq> t \<longrightarrow> threads w' t' = threads w t')"
  proof (cases r)
    case None
    then show ?thesis using pr okth ps by (auto simp: pick_run_eq [OF ok cpu])
  next
    case (Some a)
    have a: "a \<in> set (chroutines_sched th)" "due now (objs th a)" using sc(6) [OF Some] sc(3) by auto
    obtain th' rs where pc: "pick_commit en a th (reporters w) = (th', rs)" by fastforce
    have "cpu th = None" using sc(5) cpu by simp
    then show ?thesis
      using pick_commit_ok(1) [OF okth _ a pc] pr Some ps pc by (auto simp: pick_run_eq [OF ok cpu])
  qed
  then show "thread_ok ms t (threads w' t)" "ms_chroutine_id w' = ms_chroutine_id w"
    "t' \<noteq> t \<Longrightarrow> threads w' t' = threads w t'" by blast+
qed

lemma finish_thread_ok:
  assumes ok: "thread_ok ms t th" and cpu: "cpu th = Some (p, a)"
  shows "thread_ok ms t ((remove_chroutine (me (objs th a)) th)\<lparr>running_id := INVALID_ID, cpu := None\<rparr>)"
proof -
  note i = thread_okD(2) [OF ok]
  have run: "me (objs th a) = running_id th" using thread_okD(8) [OF ok cpu] by simp
  have "struct_ok ms (remove_chroutine (me (objs th a)) th)"
    using remove_struct_ok thread_okD(1) [OF ok] .
  moreover have "b \<in> set (chroutines_sched th) \<Longrightarrow> me (objs th b) \<noteq> INVALID_ID" for b
    using thread_okD(5) [OF ok, of b] me_not_invalid by blast
  ultimately show ?thesis
    using thread_okD(4,6) [OF ok] run by (auto simp: thread_ok_def exec_ok_def remove_sched [OF i])
qed

lemma son_finished_ok:
  assumes ok: "thread_ok ms t th" and f: "f \<in> set (chroutines_sched th)"
  shows "thread_ok ms t (set_obj f (fst (son_finished (objs th f) rs)) th)"
proof (rule thread_ok_set_obj [OF ok])
  have "son (fst (son_finished (objs th f) rs)) = son (objs th f)" by (simp add: son_finished_def)
  then show "me (fst (son_finished (objs th f) rs)) = me (objs th f) \<and>
    obj_ok ms (fst (son_finished (objs th f) rs)) \<and> ctx_ok t f (fst (son_finished (objs th f) rs)) \<and>
    state (fst (son_finished (objs th f) rs)) = state (objs th f) \<and>
    (cpu th = Some (t, f) \<longrightarrow> yield_wait (fst (son_finished (objs th f) rs)) = 0 \<and>
      yield_to (fst (son_finished (objs th f) rs)) = 0)"
    using thread_okD(4,5) [OF ok f] thread_okD(8) [OF ok, of t f] by (simp add: obj_ok_def ctx_ok_def)
qed

lemma entry_end_eq:
  assumes ok: "thread_ok ms t (threads w t)" and cpu: "cpu (threads w t) = Some (p, a)"
  defines "th1 \<equiv> (remove_chroutine (me (objs (threads w t) a)) (threads w t))
                     \<lparr>running_id := INVALID_ID, cpu := None\<rparr>"
    and "c \<equiv> objs (threads w t) a"
  shows "entry_end t w =
    (case (if father c = INVALID_ID then None else get_chroutine (father c) th1) of
       None \<Rightarrow> upd_thread t (\<lambda>_. th1) w
     | Some f \<Rightarrow> (upd_thread t (\<lambda>_. set_obj f (fst (son_finished (objs th1 f) (reporters w))) th1) w)
                   \<lparr>reporters := snd (son_finished (objs th1 f) (reporters w))\<rparr>)"
proof -
  have p: "p = t" using thread_okD(8) [OF ok cpu] by simp
  have g: "get_chroutine i (th\<lparr>running_id := x\<rparr>) = get_chroutine i th"
    "get_chroutine i (th\<lparr>running_id := x, cpu := y\<rparr>) = get_chroutine i th" for i th x y
    by (simp_all add: get_chroutine_def)
  show ?thesis
    using cpu unfolding p th1_def c_def
    by (auto simp: entry_end_def upd_obj_def Let_def g upd_thread_reporters comp_def set_obj_cpu
        split: option.splits prod.splits) (simp_all add: upd_thread_def)
qed

lemma entry_end_thread_ok:
  assumes ok: "thread_ok ms t (threads w t)"
  shows "thread_ok ms t (threads (entry_end t w) t)"
    "ms_chroutine_id (entry_end t w) = ms_chroutine_id w"
    "t' \<noteq> t \<Longrightarrow> threads (entry_end t w) t' = threads w t'"
proof -
  have "thread_ok ms t (threads (entry_end t w) t) \<and>
    ms_chroutine_id (entry_end t w) = ms_chroutine_id w \<and>
    (t' \<noteq> t \<longrightarrow> threads (entry_end t w) t' = threads w t')"
  proof (cases "cpu (threads w t)")
    case None
    then show ?thesis using ok by (simp add: entry_end_def)
  next
    case (Some pa)
    then obtain p a where cpu: "cpu (threads w t) = Some (p, a)" by (cases pa) auto
    note ok1 = finish_thread_ok [OF ok cpu]
    show ?thesis
      using ok1 son_finished_ok [OF ok1] index_ok_get [OF thread_okD(2) [OF ok1]]
      by (auto simp: entry_end_eq [OF ok cpu] split: option.splits)
  qed
  then show "thread_ok ms t (threads (entry_end t w) t)"
    "ms_chroutine_id (entry_end t w) = ms_chroutine_id w"
    "t' \<noteq> t \<Longrightarrow> threads (entry_end t w) t' = threads w t'" by blast+
qed

section \<open>Steps\<close>

datatype thread_op =
    Op_enter addr tid
  | Op_pick addr int int int
  | Op_resume addr
  | Op_yield addr int
  | Op_wait addr int int
  | Op_sleep addr int int
  | Op_create addr "func_t option" void_ptr
  | Op_create_son addr "func_t option" addr
  | Op_awake addr int
  | Op_return addr
  | Op_stop addr
  | Op_unblock addr
  | Op_move addr addr

text \<open>A step is enabled when the thread is where the code calls the operation: picks and resumptions
  in the main context, the calls of a chroutine while one is on the CPU. Creation needs an id that
  has not been handed out: the 64-bit counter has not reached its end.\<close>

definition in_chroutine :: "addr \<Rightarrow> 'a world_t_scheme \<Rightarrow> bool" where
  "in_chroutine t w \<longleftrightarrow> cpu (threads w t) \<noteq> None"

lemma not_in_chroutine: "\<not> in_chroutine t w \<longleftrightarrow> cpu (threads w t) = None"
  by (cases "cpu (threads w t)") (auto simp: in_chroutine_def)

definition ids_left :: "'a world_t_scheme \<Rightarrow> bool" where
  "ids_left w \<longleftrightarrow> ms_chroutine_id w < 2 ^ 63 - 1"

fun exec_op :: "thread_op \<Rightarrow> world_t \<Rightarrow> world_t option" where
  "exec_op (Op_enter t cur) w = Some (upd_thread t (schedule_enter cur) w)"
| "exec_op (Op_pick t n now en) w =
     (if \<not> in_chroutine t w \<and> m_pending (threads w t) = None \<and> \<not> m_need_stop (threads w t)
      then Some (schedule_pick t n now en w) else None)"
| "exec_op (Op_resume t) w =
     (if \<not> in_chroutine t w \<and> m_pending (threads w t) \<noteq> None
      then Some (upd_thread t schedule_resume w) else None)"
| "exec_op (Op_yield t n) w =
     (if in_chroutine t w then Some (upd_thread t (thread_yield n) w) else None)"
| "exec_op (Op_wait t now ms) w =
     (if in_chroutine t w then Some (upd_thread t (thread_wait now ms) w) else None)"
| "exec_op (Op_sleep t now ms) w =
     (if in_chroutine t w then Some (upd_thread t (thread_sleep now ms) w) else None)"
| "exec_op (Op_create t f a) w =
     (if ids_left w then Some (fst (create_chroutine t f a w)) else None)"
| "exec_op (Op_create_son t f r) w =
     (if in_chroutine t w \<and> ids_left w then Some (fst (create_son_chroutine t f r w)) else None)"
| "exec_op (Op_awake t i) w =
     (if awake_safe t i w then Some (fst (awake_chroutine t i w)) else None)"
| "exec_op (Op_return t) w = (if in_chroutine t w then Some (entry_end t w) else None)"
| "exec_op (Op_stop t) w = Some (upd_thread t thread_stop w)"
| "exec_op (Op_unblock t) w = Some (upd_thread t (set_state thread_state_t_running) w)"
| "exec_op (Op_move t t') w = Some (move_chroutines_to_thread t t' w)"

definition init_world :: world_t where
  "init_world =
     \<lparr>ms_chroutine_id = 0, reporters = (\<lambda>_. \<lparr>data = 0, errcode = result_ready\<rparr>),
      threads = (\<lambda>_. new_thread)\<rparr>"

fun is_move :: "thread_op \<Rightarrow> bool" where
  "is_move (Op_move t t') = True"
| "is_move _ = False"

inductive reach :: "bool \<Rightarrow> world_t \<Rightarrow> bool" for migrating where
  start: "reach migrating init_world"
| step: "reach migrating w \<Longrightarrow> exec_op op w = Some w' \<Longrightarrow> is_move op \<longrightarrow> migrating \<Longrightarrow>
    reach migrating w'"

fun run_ops :: "thread_op list \<Rightarrow> world_t \<Rightarrow> world_t option" where
  "run_ops [] w = Some w"
| "run_ops (op # ops) w = (case exec_op op w of None \<Rightarrow> None | Some w' \<Rightarrow> run_ops ops w')"

lemma run_ops_reach:
  "reach migrating w \<Longrightarrow> run_ops ops w = Some w' \<Longrightarrow> (\<forall>op \<in> set ops. is_move op \<longrightarrow> migrating) \<Longrightarrow>
   reach migrating w'"
  by (induction ops arbitrary: w) (auto split: option.splits intro: reach.step)

section \<open>The invariant without migration\<close>

definition all_threads_ok :: "world_t \<Rightarrow> bool" where
  "all_threads_ok w \<longleftrightarrow> 0 \<le> ms_chroutine_id w \<and> (\<forall>t. thread_ok (ms_chroutine_id w) t (threads w t))"

lemma all_threads_ok_upd:
  assumes "all_threads_ok w" "\<And>t'. t' \<noteq> t \<Longrightarrow> threads w' t' = threads w t'"
    "ms_chroutine_id w \<le> ms_chroutine_id w'" "thread_ok (ms_chroutine_id w') t (threads w' t)"
  shows "all_threads_ok w'"
  unfolding all_threads_ok_def
proof (intro conjI allI)
  show "0 \<le> ms_chroutine_id w'" using assms(1,3) by (simp add: all_threads_ok_def)
  fix t'
  show "thread_ok (ms_chroutine_id w') t' (threads w' t')"
    using assms by (cases "t' = t") (auto simp: all_threads_ok_def intro: thread_ok_mono)
qed

lemma suspend_ops_ok:
  assumes "thread_ok ms t th"
  shows "thread_ok ms t (thread_yield n th)" "thread_ok ms t (thread_wait now k th)"
    "thread_ok ms t (thread_sleep now k th)"
  using assms suspend_thread_ok [OF assms wait_update_yield] suspend_thread_ok [OF assms wait_update_wait]
  by (auto simp: thread_yield_def yield_current_def thread_wait_def thread_sleep_def wait_current_def)

lemma schedule_resume_ok: "thread_ok ms t th \<Longrightarrow> thread_ok ms t (schedule_resume th)"
  by (auto simp: schedule_resume_def clear_entry_time_def split: option.splits)

lemma exec_op_ok:
  assumes ok: "all_threads_ok w" and ex: "exec_op op w = Some w'" and nm: "\<not> is_move op"
  shows "all_threads_ok w'"
proof -
  have tok: "thread_ok (ms_chroutine_id w) t (threads w t)" for t using ok by (simp add: all_threads_ok_def)
  have pos: "0 \<le> ms_chroutine_id w" using ok by (simp add: all_threads_ok_def)
  have local: "all_threads_ok (upd_thread t f w)" if "thread_ok (ms_chroutine_id w) t (f (threads w t))" for t f
    using that by (intro all_threads_ok_upd [OF ok, of t]) simp_all
  show ?thesis
  proof (cases op)
    case (Op_pick t n now en)
    obtain w1 k sw where pr: "pick_run_chroutine t now en w = (w1, k, sw)" by (metis prod_cases3)
    have "cpu (threads w t) = None" using ex Op_pick by (simp add: not_in_chroutine split: if_splits)
    from pick_run_thread_ok [OF tok this pr] show ?thesis
      using ex Op_pick pr
      by (intro all_threads_ok_upd [OF ok, of t]) (auto simp: schedule_pick_def split: if_splits)
  next
    case (Op_create t f a)
    obtain w1 i where cr: "create_chroutine t f a w = (w1, i)" by fastforce
    have "ms_chroutine_id w < 2 ^ 63 - 1" using ex Op_create by (simp add: ids_left_def split: if_splits)
    from create_thread_ok [OF tok pos this cr] show ?thesis
      using ex Op_create cr create_frame(2) [OF cr]
      by (intro all_threads_ok_upd [OF ok, of t]) (auto split: if_splits)
  next
    case (Op_create_son t f r)
    obtain w1 i where cr: "create_son_chroutine t f r w = (w1, i)" by fastforce
    have "ms_chroutine_id w < 2 ^ 63 - 1" using ex Op_create_son by (simp add: ids_left_def split: if_splits)
    from create_son_thread_ok [OF tok pos this cr] show ?thesis
      using ex Op_create_son cr create_son_frame [OF cr]
      by (intro all_threads_ok_upd [OF ok, of t]) (auto split: if_splits)
  next
    case (Op_awake t i)
    obtain w1 r where aw: "awake_chroutine t i w = (w1, r)" by fastforce
    have "awake_safe t i w" using ex Op_awake by (simp split: if_splits)
    from awake_thread_ok [OF tok this aw] show ?thesis
      using ex Op_awake aw awake_frame [OF aw]
      by (intro all_threads_ok_upd [OF ok, of t]) (auto split: if_splits)
  next
    case (Op_return t)
    then show ?thesis
      using ex entry_end_thread_ok [OF tok [of t]]
      by (intro all_threads_ok_upd [OF ok, of t]) (auto split: if_splits)
  qed (use ex nm tok in
      \<open>auto split: if_splits intro!: local suspend_ops_ok schedule_resume_ok
         simp: schedule_enter_def set_state_def update_thread_id_def thread_stop_def\<close>)
qed

lemma init_world_ok: "all_threads_ok init_world"
  by (simp add: all_threads_ok_def init_world_def new_thread_ok)

lemma reach_threads_ok: "reach False w \<Longrightarrow> all_threads_ok w"
  by (induction rule: reach.induct) (auto intro: init_world_ok exec_op_ok)

end
