(* ===== verification/Fairness.thy ===== *)
theory Fairness
  imports Thread_Step
begin

text \<open>
  Round robin. A round is one pass of the main loop: a pick, the picked chroutine running until it
  yields or sleeps, and the return to the main loop. The run queue read from the cursor on,
  circularly (\<open>circ\<close>), is rotated by every round, so a chroutine that is due is picked after at most
  as many rounds as the queue has entries.
\<close>

section \<open>Rounds\<close>

datatype suspension = Yield_for int | Sleep_for int int

fun suspend_by :: "suspension \<Rightarrow> chroutine_thread_t \<Rightarrow> chroutine_thread_t" where
  "suspend_by (Yield_for n) th = thread_yield n th"
| "suspend_by (Sleep_for now ms) th = thread_sleep now ms th"

fun suspends :: "suspension \<Rightarrow> bool" where
  "suspends (Yield_for n) = (n > 0)"
| "suspends (Sleep_for now ms) = (ms > 0)"

text \<open>The thread after a round and the address of the chroutine that ran, if any did.\<close>

definition round_robin ::
  "addr \<Rightarrow> int \<times> int \<times> suspension \<Rightarrow> world_t \<Rightarrow> world_t \<times> addr option" where
  "round_robin t r w =
     (case r of (now, en, s) \<Rightarrow>
        (let w1 = schedule_pick t 0 now en w
         in case cpu (threads w1 t) of
              None \<Rightarrow> (w1, None)
            | Some (p, a) \<Rightarrow> (upd_thread t (\<lambda>th. schedule_resume (suspend_by s th)) w1, Some a)))"

fun rounds :: "addr \<Rightarrow> (int \<times> int \<times> suspension) list \<Rightarrow> world_t \<Rightarrow> addr list" where
  "rounds t [] w = []"
| "rounds t (r # rs) w =
     (case round_robin t r w of
        (w', None) \<Rightarrow> rounds t rs w'
      | (w', Some a) \<Rightarrow> a # rounds t rs w')"

section \<open>The queue read circularly from the cursor\<close>

definition visited :: "chroutine_thread_t \<Rightarrow> addr list" where
  "visited th = take (length (chroutines_sched th) - length (upcoming th)) (chroutines_sched th)"

definition circ :: "chroutine_thread_t \<Rightarrow> addr list" where
  "circ th = upcoming th @ visited th"

lemma sched_split:
  assumes ok: "index_ok th"
  shows "chroutines_sched th = visited th @ upcoming th"
proof -
  have "\<exists>pre. chroutines_sched th = pre @ upcoming th"
    using iter_suffix_ex [of "sched_iter th" "chroutines_sched th"] index_okD(4) [OF ok]
    by (auto simp: upcoming_def)
  then show ?thesis by (auto simp: visited_def)
qed

lemma visited_eq: "chroutines_sched th = zs @ upcoming th \<Longrightarrow> visited th = zs"
  by (simp add: visited_def)

lemma upcoming_nonempty:
  assumes ok: "index_ok th" and ne: "chroutines_sched th \<noteq> []"
  shows "upcoming th \<noteq> []"
proof (cases "sched_iter th")
  case None
  then show ?thesis using ne by (simp add: upcoming_def)
next
  case (Some a)
  then show ?thesis
    using iter_suffix_ex [of "sched_iter th" "chroutines_sched th"] index_okD(4) [OF ok]
    by (auto simp: upcoming_def)
qed

lemma set_circ: "index_ok th \<Longrightarrow> set (circ th) = set (chroutines_sched th)"
  by (subst sched_split) (auto simp: circ_def)

lemma length_circ: "index_ok th \<Longrightarrow> length (circ th) = length (chroutines_sched th)"
  by (subst sched_split) (auto simp: circ_def)

text \<open>Moving the cursor behind a chroutine rotates the circular queue.\<close>

lemma circ_advance:
  assumes ok: "index_ok th" and ups: "upcoming th = xs @ ys"
    and sched: "chroutines_sched th' = chroutines_sched th" and it: "sched_iter th' = iter_begin ys"
  shows "circ th' = ys @ visited th @ xs"
proof -
  have s: "chroutines_sched th = visited th @ xs @ ys" using sched_split [OF ok] ups by simp
  have d: "distinct ((visited th @ xs) @ ys)" using index_okD(1) [OF ok] s by simp
  show ?thesis
  proof (cases ys)
    case Nil
    then show ?thesis using s it sched by (simp add: circ_def upcoming_def visited_def)
  next
    case (Cons y zs)
    then have "upcoming th' = ys"
      using iter_suffix_split [OF d] it sched s by (simp add: upcoming_def)
    then show ?thesis using s sched visited_eq [of th' "visited th @ xs"] by (simp add: circ_def)
  qed
qed

section \<open>The effect of a round\<close>

definition no_stop :: "chroutine_thread_t \<Rightarrow> bool" where
  "no_stop th \<longleftrightarrow> (\<forall>a \<in> set (chroutines_sched th). \<not> stop_son_when_yield_over (objs th a))"

lemma schedule_resume_simps [simp]:
  "chroutines_sched (schedule_resume th) = chroutines_sched th"
  "sched_iter (schedule_resume th) = sched_iter th"
  "objs (schedule_resume th) = objs th"
  "cpu (schedule_resume th) = cpu th"
  "chroutines_map (schedule_resume th) = chroutines_map th"
  by (auto simp: schedule_resume_def clear_entry_time_def split: option.splits)

lemma suspend_by_eq:
  assumes ok: "thread_ok ms t th" and cpu: "cpu th = Some (p, a)" and s: "suspends s"
  shows "cpu (suspend_by s th) = None" "chroutines_sched (suspend_by s th) = chroutines_sched th"
    "sched_iter (suspend_by s th) = sched_iter th"
    "b \<noteq> a \<Longrightarrow> objs (suspend_by s th) b = objs th b"
    "stop_son_when_yield_over (objs th a) = False \<Longrightarrow>
       \<not> stop_son_when_yield_over (objs (suspend_by s th) a)"
  using s by (cases s; simp add: thread_yield_def yield_current_def thread_sleep_def wait_current_def
      suspend_eq [OF ok cpu])+

lemma suspend_by_ok: "thread_ok ms t th \<Longrightarrow> thread_ok ms t (suspend_by s th)"
  by (cases s) (simp_all add: suspend_ops_ok)

lemma remove_invalid:
  assumes "thread_ok ms t th"
  shows "remove_chroutine INVALID_ID th = th"
proof (rule remove_absent [OF thread_okD(2) [OF assms]])
  have "get_chroutine INVALID_ID th \<noteq> Some a" for a
    using index_ok_get [OF thread_okD(2) [OF assms]] thread_okD(5) [OF assms] me_not_invalid by metis
  then show "get_chroutine INVALID_ID th = None" by (cases "get_chroutine INVALID_ID th") auto
qed

lemma pick_commit_plain:
  assumes ok: "thread_ok ms t th" and a: "a \<in> set (chroutines_sched th)"
    and ns: "\<not> stop_son_when_yield_over (objs th a)"
  shows "pick_commit en a th rs =
    ((set_obj a ((objs th a)\<lparr>yield_to := 0, state := chroutine_state_running\<rparr>) th)
        \<lparr>running_id := me (objs th a), m_entry_time := en\<rparr>, rs)"
proof -
  have y: "yield_over result_timeout (objs th a) rs = ((objs th a)\<lparr>yield_to := 0\<rparr>, rs, INVALID_ID)"
    using ns by (simp add: yield_over_def)
  have "thread_ok ms t (set_obj a ((objs th a)\<lparr>yield_to := 0\<rparr>) th)"
    using yield_over_ok [OF ok a, of result_timeout rs] y by simp
  then show ?thesis
    using y remove_invalid by (simp add: pick_commit_def set_entry_time_def) (simp add: set_obj_def)
qed

lemma round_effect:
  assumes ok: "thread_ok (ms_chroutine_id w) t (threads w t)" and cpu: "cpu (threads w t) = None"
    and ns: "no_stop (threads w t)" and s: "suspends s"
    and r: "round_robin t (now, en, s) w = (w', r)"
  defines "th \<equiv> threads w t" and "th' \<equiv> threads w' t"
  shows "thread_ok (ms_chroutine_id w') t th' \<and> cpu th' = None \<and> no_stop th' \<and>
    chroutines_sched th' = chroutines_sched th \<and>
    r = map_option fst (find_next (\<lambda>a. due now (objs th a)) (upcoming th)) \<and>
    sched_iter th' = (case find_next (\<lambda>a. due now (objs th a)) (upcoming th) of
                         None \<Rightarrow> None | Some (a, it) \<Rightarrow> it) \<and>
    (\<forall>b. r \<noteq> Some b \<longrightarrow> objs th' b = objs th b \<or> objs th' b = tick (objs th b))"
proof -
  obtain th1 q where ps: "pick_scan now th = (th1, q)" by fastforce
  note eq = ps [unfolded pick_scan_eq [OF thread_okD(2) [OF ok [folded th_def]]], symmetric]
  note sc = pick_scan_sched [OF thread_okD(1) [OF ok [folded th_def]] ps]
  have ok1: "thread_ok (ms_chroutine_id w) t th1"
    using pick_scan_thread_ok [OF ok [folded th_def] _ ps] cpu by (simp add: th_def)
  have ns1: "no_stop th1"
    using ns sc(3) sc(9) unfolding no_stop_def th_def [symmetric] by (metis tick_simps(10))
  have it: "sched_iter th1 = (case find_next (\<lambda>a. due now (objs th a)) (upcoming th) of
                         None \<Rightarrow> None | Some (a, it) \<Rightarrow> it)"
    and q: "q = map_option fst (find_next (\<lambda>a. due now (objs th a)) (upcoming th))"
    using eq by simp_all
  show ?thesis
  proof (cases q)
    case None
    then have pr: "pick_run_chroutine t now en w = (upd_thread t (\<lambda>_. th1) w, 0, False)"
      using pick_run_eq [OF ok cpu] ps by (simp add: th_def)
    have "cpu th1 = None" using sc(5) cpu by (simp add: th_def)
    then have "th' = th1\<lparr>m_load := load_update 0 (m_load th1)\<rparr>" "r = None"
      "ms_chroutine_id w' = ms_chroutine_id w"
      using r pr by (auto simp: round_robin_def schedule_pick_def th'_def)
    then show ?thesis
      using None ok1 ns1 it q sc(3,9) \<open>cpu th1 = None\<close> by (auto simp: no_stop_def)
  next
    case (Some a)
    have a: "a \<in> set (chroutines_sched th1)" "due now (objs th1 a)" using sc(6) [OF Some] sc(3) by auto
    have nsa: "\<not> stop_son_when_yield_over (objs th1 a)" using ns1 a(1) by (simp add: no_stop_def)
    note pc = pick_commit_plain [OF ok1 a(1) nsa, of en "reporters w"]
    let ?th2 = "(set_obj a ((objs th1 a)\<lparr>yield_to := 0, state := chroutine_state_running\<rparr>) th1)
        \<lparr>running_id := me (objs th1 a), m_entry_time := en, cpu := Some (t, a)\<rparr>"
    have ok2: "thread_ok (ms_chroutine_id w) t ?th2"
      using pick_commit_ok(1) [OF ok1 _ a pc] sc(5) cpu by (simp add: th_def)
    have pr: "pick_run_chroutine t now en w = (upd_thread t (\<lambda>_. ?th2) w, 1, True)"
      using pick_run_eq [OF ok cpu] ps Some pc by (simp add: th_def)
    let ?th3 = "?th2\<lparr>m_pending := Some 1\<rparr>"
    have ok3: "thread_ok (ms_chroutine_id w) t ?th3" using ok2 by simp
    have th': "th' = schedule_resume (suspend_by s ?th3)" and ra: "r = Some a"
      and ms: "ms_chroutine_id w' = ms_chroutine_id w"
      using r pr by (auto simp: round_robin_def schedule_pick_def th'_def)
    note sb = suspend_by_eq [OF ok3 _ s, of t a]
    have "thread_ok (ms_chroutine_id w) t th'"
      unfolding th' by (intro schedule_resume_ok suspend_by_ok ok3)
    moreover have "cpu th' = None" "chroutines_sched th' = chroutines_sched th" "sched_iter th' = sched_iter th1"
      using sb sc(3) by (simp_all add: th')
    moreover have "no_stop th'"
      unfolding no_stop_def
    proof
      fix b assume "b \<in> set (chroutines_sched th')"
      then show "\<not> stop_son_when_yield_over (objs th' b)"
        using sb ns1 nsa by (cases "b = a") (simp_all add: th' no_stop_def)
    qed
    moreover have "\<forall>b. r \<noteq> Some b \<longrightarrow> objs th' b = objs th b \<or> objs th' b = tick (objs th b)"
      using ra sb(4) sc(9) by (simp add: th')
    moreover have "r = map_option fst (find_next (\<lambda>a. due now (objs th a)) (upcoming th))"
      using ra q Some by simp
    ultimately show ?thesis unfolding ms it by blast
  qed
qed

section \<open>Bounded waiting\<close>

text \<open>The number of rounds before which the chroutine at address \<open>a\<close> is picked: its position in
  the circular queue.\<close>

definition rank :: "addr \<Rightarrow> chroutine_thread_t \<Rightarrow> nat" where
  "rank a th = length (takeWhile (\<lambda>x. x \<noteq> a) (circ th))"

lemma takeWhile_neq_less: "a \<in> set xs \<Longrightarrow> length (takeWhile (\<lambda>x. x \<noteq> a) xs) < length xs"
  by (induction xs) auto

lemma rank_less: "index_ok th \<Longrightarrow> a \<in> set (chroutines_sched th) \<Longrightarrow> rank a th < length (chroutines_sched th)"
  using takeWhile_neq_less [of a "circ th"] by (simp add: rank_def set_circ length_circ)

lemma takeWhile_neq_append: "a \<in> set ys \<Longrightarrow> a \<notin> set xs \<Longrightarrow>
  length (takeWhile (\<lambda>x. x \<noteq> a) (xs @ ys)) = length xs + length (takeWhile (\<lambda>x. x \<noteq> a) ys)"
  by (induction xs) auto

lemma rank_decreases:
  assumes ok: "index_ok th" and a: "a \<in> set (chroutines_sched th)"
    and ups: "upcoming th = xs @ ys" and xs: "xs \<noteq> []" "a \<notin> set xs"
    and sched: "chroutines_sched th' = chroutines_sched th" and it: "sched_iter th' = iter_begin ys"
  shows "rank a th' < rank a th"
proof -
  have s: "chroutines_sched th = visited th @ xs @ ys" using sched_split [OF ok] ups by simp
  then have in_rest: "a \<in> set (ys @ visited th)" using a xs by auto
  have "rank a th = length xs + length (takeWhile (\<lambda>x. x \<noteq> a) (ys @ visited th))"
    using takeWhile_neq_append [OF in_rest xs(2)] ups by (simp add: rank_def circ_def)
  moreover have "rank a th' = length (takeWhile (\<lambda>x. x \<noteq> a) (ys @ visited th))"
    using circ_advance [OF ok ups sched it] takeWhile_append1 [OF in_rest, of "\<lambda>x. x \<noteq> a" xs]
    by (simp add: rank_def)
  ultimately show ?thesis using xs(1) by (cases xs) simp_all
qed

lemma round_progress:
  assumes ok: "thread_ok (ms_chroutine_id w) t (threads w t)" and cpu: "cpu (threads w t) = None"
    and ns: "no_stop (threads w t)" and s: "suspends s"
    and r: "round_robin t (now, en, s) w = (w', r)"
    and a: "a \<in> set (chroutines_sched (threads w t))" and due: "due now (objs (threads w t) a)"
    and na: "r \<noteq> Some a"
  shows "rank a (threads w' t) < rank a (threads w t)"
    "objs (threads w' t) a = objs (threads w t) a"
proof -
  let ?th = "threads w t" and ?P = "\<lambda>b. due now (objs (threads w t) b)"
  note e = round_effect [OF ok cpu ns s r]
  note i = thread_okD(2) [OF ok]
  show "objs (threads w' t) a = objs ?th a" using e na tick_due [OF due] by metis
  have s': "chroutines_sched (threads w' t) = chroutines_sched ?th" using e by simp
  show "rank a (threads w' t) < rank a ?th"
  proof (cases "find_next ?P (upcoming ?th)")
    case None
    then have "a \<notin> set (upcoming ?th)" using due by (auto simp: find_next_None)
    moreover have "upcoming ?th \<noteq> []" using upcoming_nonempty [OF i] a by (metis empty_iff empty_set)
    ultimately show ?thesis
      using rank_decreases [OF i a, of "upcoming ?th" "[]", OF _ _ _ s'] e None by simp
  next
    case (Some bi)
    obtain b it where bi: "bi = (b, it)" by (cases bi)
    obtain pre suf where u: "upcoming ?th = pre @ b # suf" "\<forall>x \<in> set pre. \<not> ?P x" "it = iter_begin suf"
      using Some bi by (auto simp: find_next_Some)
    have "r = Some b" using e Some bi by simp
    then have "a \<notin> set (pre @ [b])" using u(2) due na by auto
    then show ?thesis
      using rank_decreases [OF i a, of "pre @ [b]" suf, OF _ _ _ s'] u e Some bi by simp
  qed
qed

lemma rounds_pick:
  assumes "thread_ok (ms_chroutine_id w) t (threads w t)" "cpu (threads w t) = None"
    "no_stop (threads w t)" "a \<in> set (chroutines_sched (threads w t))"
    "\<forall>(now, en, s) \<in> set rs. due now (objs (threads w t) a) \<and> suspends s"
    "rank a (threads w t) < length rs"
  shows "a \<in> set (rounds t rs w)"
  using assms
proof (induction rs arbitrary: w)
  case (Cons x rs)
  obtain now en s where x: "x = (now, en, s)" by (metis prod_cases3)
  obtain w' r where r: "round_robin t (now, en, s) w = (w', r)" by fastforce
  have due: "due now (objs (threads w t) a)" and s: "suspends s" using Cons.prems(5) x by auto
  show ?case
  proof (cases "r = Some a")
    case True
    then show ?thesis using r x by simp
  next
    case False
    note p = round_progress [OF Cons.prems(1-3) s r Cons.prems(4) due False]
    note e = round_effect [OF Cons.prems(1-3) s r]
    have "a \<in> set (rounds t rs w')"
    proof (rule Cons.IH)
      show "\<forall>(now, en, s) \<in> set rs. due now (objs (threads w' t) a) \<and> suspends s"
        using Cons.prems(5) p(2) by simp
      show "rank a (threads w' t) < length rs" using p(1) Cons.prems(6) by simp
    qed (use e Cons.prems(4) in auto)
    then show ?thesis using r x by (cases r) auto
  qed
qed simp

end
