(* ===== verification/Migration.thy ===== *)
theory Migration
  imports Thread_Step
begin

text \<open>
  Moving the chroutines of a blocked thread to another thread (\<^verbatim>\<open>move_chroutines_to_thread\<close>,
  \<^verbatim>\<open>resettle\<close>). The index, the run queue and the cursor of every thread stay consistent, no
  chroutine is lost or duplicated, and their order is kept. What does not survive a move is the
  activation of \<^verbatim>\<open>entry\<close>: it keeps the pointer to the thread the chroutine was created on.
\<close>

section \<open>The invariant with migration\<close>

definition world_ok :: "'a world_t_scheme \<Rightarrow> bool" where
  "world_ok w \<longleftrightarrow> 0 \<le> ms_chroutine_id w \<and>
     (\<forall>t. struct_ok (ms_chroutine_id w) (threads w t) \<and> running_ok (threads w t)) \<and>
     (\<forall>t t'. t \<noteq> t' \<longrightarrow> dom (chroutines_map (threads w t)) \<inter> dom (chroutines_map (threads w t')) = {})"

lemma world_okD:
  assumes "world_ok w"
  shows "0 \<le> ms_chroutine_id w" "struct_ok (ms_chroutine_id w) (threads w t)"
    "index_ok (threads w t)" "running_ok (threads w t)"
    "t \<noteq> t' \<Longrightarrow> dom (chroutines_map (threads w t)) \<inter> dom (chroutines_map (threads w t')) = {}"
  using assms by (auto simp: world_ok_def struct_ok_def)

text \<open>A step that changes one thread, and adds at most ids that were not handed out before.\<close>

lemma world_ok_upd:
  assumes ok: "world_ok w" and other: "\<And>t'. t' \<noteq> t \<Longrightarrow> threads w' t' = threads w t'"
    and ms: "ms_chroutine_id w \<le> ms_chroutine_id w'"
    and s: "struct_ok (ms_chroutine_id w') (threads w' t)" "running_ok (threads w' t)"
    and d: "\<And>i. i \<in> dom (chroutines_map (threads w' t)) \<Longrightarrow>
      i \<in> dom (chroutines_map (threads w t)) \<or> ms_chroutine_id w < i"
  shows "world_ok w'"
proof -
  have "struct_ok (ms_chroutine_id w') (threads w' t') \<and> running_ok (threads w' t')" for t'
    using s other world_okD(2,4) [OF ok] ms by (cases "t' = t") (auto intro: struct_ok_mono)
  moreover have disj: "dom (chroutines_map (threads w' t)) \<inter> dom (chroutines_map (threads w t')) = {}"
    if "t' \<noteq> t" for t'
    using d world_okD(5) [OF ok that] fresh_id [OF world_okD(2) [OF ok, of t']] by fastforce
  moreover have "dom (chroutines_map (threads w' t1)) \<inter> dom (chroutines_map (threads w' t2)) = {}"
    if "t1 \<noteq> t2" for t1 t2
    using that disj [of t1] disj [of t2] world_okD(5) [OF ok that] other
    by (cases "t1 = t"; cases "t2 = t") (simp_all add: Int_commute)
  ultimately show ?thesis using world_okD(1) [OF ok] ms by (simp add: world_ok_def)
qed

lemma world_ok_local:
  assumes ok: "world_ok w" and "struct_ok (ms_chroutine_id w) (f (threads w t))"
    "running_ok (f (threads w t))"
    "dom (chroutines_map (f (threads w t))) \<subseteq> dom (chroutines_map (threads w t))"
  shows "world_ok (upd_thread t f w)"
  using assms by (intro world_ok_upd [OF ok, of t]) auto

lemma dom_remove: "dom (chroutines_map (remove_chroutine i th)) = dom (chroutines_map th) - {i}"
  by (simp add: remove_map)

lemma running_ok_simps [simp]:
  "running_ok (th\<lparr>running_id := INVALID_ID\<rparr>)"
  "running_ok (th\<lparr>m_selector_list := x7\<rparr>) = running_ok th"
  "running_ok (th\<lparr>m_need_stop := x8\<rparr>) = running_ok th"
  "running_ok (th\<lparr>m_is_running := x9\<rparr>) = running_ok th"
  "running_ok (th\<lparr>m_std_thread_id := x10\<rparr>) = running_ok th"
  by (simp_all add: running_ok_def)

section \<open>The operations of one thread\<close>

lemma suspend_world_ok:
  assumes ok: "world_ok w" and f: "wait_update f"
  shows "world_ok (upd_thread t (suspend_current f) w)"
proof -
  let ?th = "threads w t"
  note s = world_okD(2) [OF ok, of t]
  show ?thesis
  proof (cases "running_id ?th = INVALID_ID")
    case True
    then show ?thesis using world_okD [OF ok] by (intro world_ok_local [OF ok]) (auto simp: suspend_current_def)
  next
    case False
    then obtain p where p: "chroutines_map ?th (running_id ?th) = Some p"
      using world_okD(4) [OF ok, of t] by (auto simp: running_ok_def)
    then obtain a where a: "chroutines_map ?th (running_id ?th) = Some (Some a)"
      using index_okD(3) [OF world_okD(3) [OF ok], of t "running_id ?th"] by (cases p) auto
    let ?c = "f ((objs ?th a)\<lparr>state := chroutine_state_suspend\<rparr>)"
    have "struct_ok (ms_chroutine_id w) 
      (set_obj a (save_ctx (cpu ?th) ?c) (set_obj a ?c (?th\<lparr>running_id := INVALID_ID\<rparr>)))"
      using struct_okD(2) [OF s] f s
      by (intro struct_ok_set_obj) (auto simp: wait_update_def obj_ok_def)
    then have "struct_ok (ms_chroutine_id w) (suspend_current f ?th)"
      using False a s by (auto simp: suspend_current_def swap_to_main_def set_obj_def)
    then show ?thesis
      using False a world_okD(4) [OF ok, of t]
      by (intro world_ok_local [OF ok]) (auto simp: suspend_current_def swap_to_main_def)
  qed
qed

lemma entry_begin_world_ok:
  assumes ok: "world_ok w"
  shows "world_ok (entry_begin t p w)"
proof -
  have cpu: "world_ok (upd_thread t (\<lambda>th. th\<lparr>cpu := x\<rparr>) v)" if "world_ok v" for v x
    using world_okD [OF that] by (intro world_ok_local [OF that]) auto
  have "world_ok (upd_obj p a (\<lambda>c. c\<lparr>state := s\<rparr>) w)" for a s
    unfolding upd_obj_def using world_okD(2,4) [OF ok, of p]
    by (intro world_ok_local [OF ok]) (auto intro!: struct_ok_set_obj dest: struct_okD(2))
  then show ?thesis using cpu ok by (auto simp: entry_begin_def split: option.splits)
qed

lemma swap_world_ok: "world_ok w \<Longrightarrow> world_ok (swap_to_chroutine t a w)"
  using world_okD entry_begin_world_ok
  by (auto simp: swap_to_chroutine_def split: option.splits resume_point.splits intro!: world_ok_local)

lemma pick_commit_struct:
  assumes s: "struct_ok ms th" and a: "a \<in> set (chroutines_sched th)"
    and pc: "pick_commit en a th rs = (th', rs')"
  shows "struct_ok ms th'" "running_ok th'" "dom (chroutines_map th') \<subseteq> dom (chroutines_map th)"
proof -
  let ?y = "yield_over result_timeout (objs th a) rs"
  let ?th1 = "remove_chroutine (snd (snd ?y)) (set_obj a (fst ?y) th)"
  note th' = pick_commit_eq(1) [OF pc]
  have oka: "obj_ok ms (objs th a)" "index_ok th" using s a by (auto simp: struct_ok_def)
  then have "obj_ok ms (fst ?y)" by (auto simp: obj_ok_def yield_over_def INVALID_ID_def)
  then have s1: "struct_ok ms (set_obj a (fst ?y) th)" using s by (intro struct_ok_set_obj) auto
  then have "struct_ok ms ?th1" by (rule remove_struct_ok)
  then show "struct_ok ms th'"
    using \<open>obj_ok ms (fst ?y)\<close> unfolding th' by (auto intro!: struct_ok_set_obj simp: obj_ok_def)
  have "chroutines_map th (me (objs th a)) = Some (Some a)"
    using index_okD(2) [OF oka(2)] a by blast
  then show "running_ok th'"
    using yield_over_son [OF oka(1), of result_timeout rs]
    unfolding th' by (auto simp: running_ok_def remove_map)
  show "dom (chroutines_map th') \<subseteq> dom (chroutines_map th)" unfolding th' by (auto simp: dom_remove)
qed

lemma world_ok_reporters [simp]: "world_ok (w\<lparr>reporters := rs\<rparr>) = world_ok w"
  by (simp add: world_ok_def)

lemma pick_world_ok:
  assumes ok: "world_ok w" and pr: "pick_run_chroutine t now en w = (w', k, sw)"
  shows "world_ok w'"
proof -
  obtain th r where ps: "pick_scan now (threads w t) = (th, r)" by fastforce
  note sc = pick_scan_sched [OF world_okD(2) [OF ok] ps]
  have run: "running_ok th" using sc(2,4) world_okD(4) [OF ok, of t] by (simp add: running_ok_def)
  show ?thesis
  proof (cases "running_id (threads w t) = INVALID_ID")
    case False
    then show ?thesis using pr ok by (simp add: pick_run_chroutine_def)
  next
    case idle: True
    show ?thesis
    proof (cases r)
      case None
      then have "w' = upd_thread t (\<lambda>_. th) w" using pr ps idle by (simp add: pick_run_chroutine_def)
      then show ?thesis using sc(1,2) run by (auto intro!: world_ok_local [OF ok])
    next
      case (Some a)
      obtain th' rs where pc: "pick_commit en a th (reporters w) = (th', rs)" by fastforce
      have "a \<in> set (chroutines_sched th)" using sc(3,6) Some by auto
      note c = pick_commit_struct [OF sc(1) this pc]
      have "world_ok (upd_thread t (\<lambda>_. th') (w\<lparr>reporters := rs\<rparr>))"
        using c sc(2) ok by (intro world_ok_local) auto
      then show ?thesis
        using pr ps idle Some pc swap_world_ok by (auto simp: pick_run_chroutine_def)
    qed
  qed
qed

lemma create_world_ok:
  assumes ok: "world_ok w" and ms: "ms_chroutine_id w < 2 ^ 63 - 1"
    and cr: "create_chroutine t f a w = (w', i)"
  shows "world_ok w'" "ms_chroutine_id w' = ms_chroutine_id w \<and> i = INVALID_ID \<or>
    ms_chroutine_id w' = ms_chroutine_id w + 1 \<and> i = ms_chroutine_id w + 1"
proof -
  note pos = world_okD(1) [OF ok]
  have "world_ok w' \<and> (ms_chroutine_id w' = ms_chroutine_id w \<and> i = INVALID_ID \<or>
    ms_chroutine_id w' = ms_chroutine_id w + 1 \<and> i = ms_chroutine_id w + 1)"
    using cr
  proof (cases rule: create_chroutine_cases)
    case refused
    then show ?thesis using ok by simp
  next
    case (created g c)
    then have i: "i = ms_chroutine_id w + 1" "me c = i" using gen_chroutine_id_fresh [OF pos ms] by simp_all
    have s: "struct_ok i (threads w t)" using world_okD(2) [OF ok, of t] i by (auto intro: struct_ok_mono)
    have n: "chroutines_map (threads w t) (me c) = None" using fresh_id [OF world_okD(2) [OF ok]] i by simp
    have "obj_ok i c" using created i pos by (simp add: obj_ok_def INVALID_ID_def)
    note so = add_obj_struct_ok [OF s n this]
    have "world_ok w'"
      using so i created(5) world_okD(4) [OF ok, of t]
      by (intro world_ok_upd [OF ok, of t]) (auto simp: running_ok_def)
    then show ?thesis using i created(5) by simp
  qed
  then show "world_ok w'" "ms_chroutine_id w' = ms_chroutine_id w \<and> i = INVALID_ID \<or>
    ms_chroutine_id w' = ms_chroutine_id w + 1 \<and> i = ms_chroutine_id w + 1" by blast+
qed

lemma link_world_ok:
  assumes ok: "world_ok w"
    and g: "\<And>c. me (g c) = me c \<and> yield_wait (g c) = yield_wait c"
    and s: "a \<in> set (chroutines_sched (threads w t)) \<Longrightarrow>
      son (g (objs (threads w t) a)) \<noteq> me (objs (threads w t) a)"
  shows "world_ok (upd_obj t a g w)"
  unfolding upd_obj_def
  using world_okD(2,4) [OF ok, of t] g s struct_okD(2) [OF world_okD(2) [OF ok, of t], of a]
  by (intro world_ok_local [OF ok]) (auto intro!: struct_ok_set_obj simp: obj_ok_def)

lemma create_son_world_ok:
  assumes ok: "world_ok w" and ms: "ms_chroutine_id w < 2 ^ 63 - 1"
    and cr: "create_son_chroutine t f r w = (w', i)"
  shows "world_ok w'"
proof (cases "get_chroutine (running_id (threads w t)) (threads w t)")
  case None
  then show ?thesis using cr ok by (auto simp: create_son_chroutine_def Let_def split: if_splits)
next
  case (Some pf)
  let ?w1 = "upd_obj t pf (\<lambda>c. c\<lparr>reporter := Some r\<rparr>) w"
  obtain w2 s where cr2: "create_chroutine t f (get_data r) ?w1 = (w2, s)" by fastforce
  have pf: "pf \<in> set (chroutines_sched (threads w t))"
    using Some index_ok_get world_okD(3) [OF ok] by blast
  note opf = struct_okD(2) [OF world_okD(2) [OF ok] pf]
  have ok1: "world_ok ?w1" using opf by (intro link_world_ok [OF ok]) (simp_all add: obj_ok_def)
  have ok2: "world_ok w2" and id2: "ms_chroutine_id w2 = ms_chroutine_id w \<and> s = INVALID_ID \<or>
    ms_chroutine_id w2 = ms_chroutine_id w + 1 \<and> s = ms_chroutine_id w + 1"
    using create_world_ok [OF ok1 _ cr2] ms by simp_all
  show ?thesis
  proof (cases "s = INVALID_ID \<or> state_value (m_state (threads w t)) > state_value thread_state_t_running")
    case True
    then show ?thesis using cr cr2 Some ok ok2 by (auto simp: create_son_chroutine_def Let_def split: if_splits)
  next
    case False
    let ?q = "next_obj (threads w t)"
    let ?w3 = "upd_obj t ?q (\<lambda>c. c\<lparr>father := running_id (threads w2 t)\<rparr>) w2"
    have g: "get_chroutine s (threads w2 t) = Some ?q" using create_frame(7) [OF cr2] False by simp
    have w': "w' = upd_obj t pf (\<lambda>c. c\<lparr>son := s\<rparr>) ?w3"
      using cr cr2 Some False g by (auto simp: create_son_chroutine_def Let_def)
    have ok3: "world_ok ?w3"
      using struct_okD(2) [OF world_okD(2) [OF ok2], of ?q t]
      by (intro link_world_ok [OF ok2]) (simp_all add: obj_ok_def)
    have "pf \<noteq> ?q" using index_okD(5) [OF world_okD(3) [OF ok] pf] by simp
    then have "me (objs (threads ?w3 t) pf) = me (objs (threads w t) pf)"
      using create_frame(6) [OF cr2, of pf] by simp
    then have "me (objs (threads ?w3 t) pf) \<noteq> s" using id2 opf False by (auto simp: obj_ok_def)
    then show ?thesis unfolding w' by (intro link_world_ok [OF ok3]) simp_all
  qed
qed

lemma awake_world_ok:
  assumes ok: "world_ok w" and safe: "awake_safe t i w" and aw: "awake_chroutine t i w = (w', r)"
  shows "world_ok w'"
proof (cases "get_chroutine i (threads w t)")
  case None
  then show ?thesis using aw ok by (simp add: awake_chroutine_def)
next
  case (Some a)
  let ?th = "threads w t"
  let ?y = "yield_over result_done (objs ?th a) (reporters w)"
  have a: "a \<in> set (chroutines_sched ?th)" using Some index_ok_get world_okD(3) [OF ok] by blast
  have w': "w' = upd_thread t (\<lambda>th. remove_chroutine (snd (snd ?y)) (set_obj a (fst ?y) th))
    (w\<lparr>reporters := fst (snd ?y)\<rparr>)"
    using aw Some by (auto simp: awake_chroutine_def split: prod.splits)
  have "obj_ok (ms_chroutine_id w) (fst ?y)"
    using struct_okD(2) [OF world_okD(2) [OF ok] a] by (auto simp: obj_ok_def yield_over_def INVALID_ID_def)
  then have "struct_ok (ms_chroutine_id w) (remove_chroutine (snd (snd ?y)) (set_obj a (fst ?y) ?th))"
    by (intro remove_struct_ok struct_ok_set_obj world_okD(2) [OF ok]) simp
  moreover have "running_ok (remove_chroutine (snd (snd ?y)) (set_obj a (fst ?y) ?th))"
    using safe Some world_okD(4) [OF ok, of t] by (intro remove_running_ok) (auto simp: awake_safe_def)
  ultimately show ?thesis unfolding w' using ok by (intro world_ok_local) (auto simp: dom_remove)
qed

lemma entry_end_world_ok:
  assumes ok: "world_ok w"
  shows "world_ok (entry_end t w)"
proof (cases "cpu (threads w t)")
  case None
  then show ?thesis using ok by (simp add: entry_end_def)
next
  case (Some pa)
  obtain p a where pa: "pa = (p, a)" by (cases pa)
  have cpu: "world_ok (upd_thread t (\<lambda>th. th\<lparr>cpu := x\<rparr>) v)" if "world_ok v" for v x
    using world_okD [OF that] by (intro world_ok_local [OF that]) auto
  let ?c = "objs (threads w p) a"
  let ?w1 = "upd_thread p (\<lambda>th. (remove_chroutine (me ?c) th)\<lparr>running_id := INVALID_ID\<rparr>) w"
  have ok1: "world_ok ?w1"
    using remove_struct_ok [OF world_okD(2) [OF ok]] by (intro world_ok_local [OF ok]) (auto simp: dom_remove)
  have fin: "world_ok (upd_obj p f (\<lambda>_. fst (son_finished (objs (threads ?w1 p) f) rs)) ?w1)"
    if "get_chroutine (father ?c) (threads ?w1 p) = Some f" for f rs
  proof -
    have "f \<in> set (chroutines_sched (threads ?w1 p))"
      using that index_ok_get [OF world_okD(3) [OF ok1]] by blast
    from struct_okD(2) [OF world_okD(2) [OF ok1] this]
    have "obj_ok (ms_chroutine_id ?w1) (fst (son_finished (objs (threads ?w1 p) f) rs))"
      by (simp add: obj_ok_def son_finished_def)
    then show ?thesis
      unfolding upd_obj_def using world_okD(2,4) [OF ok1, of p]
      by (intro world_ok_local [OF ok1]) (auto intro!: struct_ok_set_obj)
  qed
  show ?thesis
    using Some pa ok1 cpu fin
    by (auto simp: entry_end_def Let_def split: option.splits prod.splits)
      (metis fst_conv world_ok_reporters)
qed

section \<open>Adding objects to a thread\<close>

text \<open>What \<^verbatim>\<open>create_chroutine\<close> and \<^verbatim>\<open>resettle\<close> do with the new object under the lock.\<close>

definition add_obj :: "chroutine_t \<Rightarrow> chroutine_thread_t \<Rightarrow> chroutine_thread_t" where
  "add_obj c th = (set_obj (next_obj th) c th)\<lparr>next_obj := Suc (next_obj th),
     chroutines_map := (chroutines_map th)(me c \<mapsto> Some (next_obj th)),
     chroutines_sched := chroutines_sched th @ [next_obj th]\<rparr>"

text \<open>The object \<^verbatim>\<open>resettle\<close> builds for thread \<open>t\<close>.\<close>

definition settled :: "addr \<Rightarrow> chroutine_t \<Rightarrow> chroutine_t" where
  "settled t c = (fst (move_chroutine c))\<lparr>ctx := map_option (\<lambda>u. u\<lparr>uc_link := t\<rparr>) (ctx c)\<rparr>"

lemma settled_simps [simp]:
  "me (settled t c) = me c" "yield_wait (settled t c) = yield_wait c"
  "yield_to (settled t c) = yield_to c" "func (settled t c) = func c" "\<not> moved (settled t c)"
  "son (settled t c) = son c" "ctx (settled t c) = map_option (\<lambda>u. u\<lparr>uc_link := t\<rparr>) (ctx c)"
  by (simp_all add: settled_def move_chroutine_def default_chroutine_def)

lemma resettle_eq: "resettle t c th = (add_obj (settled t c) th, snd (move_chroutine c), me c)"
  by (simp add: resettle_def add_obj_def Let_def settled_def split: prod.splits)
    (metis fst_conv move_chroutine_simps(1) move_chroutine_simps(2))

text \<open>The chroutines of a thread, in the order of its run queue.\<close>

definition queue :: "chroutine_thread_t \<Rightarrow> chroutine_t list" where
  "queue th = map (objs th) (chroutines_sched th)"

lemma add_obj_frame [simp]:
  "running_id (add_obj c th) = running_id th" "cpu (add_obj c th) = cpu th"
  "m_state (add_obj c th) = m_state th" "sched_iter (add_obj c th) = sched_iter th"
  "chroutines_map (add_obj c th) = (chroutines_map th)(me c \<mapsto> Some (next_obj th))"
  by (simp_all add: add_obj_def)

lemma queue_add_obj: "index_ok th \<Longrightarrow> queue (add_obj c th) = queue th @ [c]"
  using index_okD(5) [of th] by (fastforce simp: queue_def add_obj_def)

lemma fold_add_obj:
  assumes "struct_ok ms th" "\<forall>c \<in> set cs. obj_ok ms c \<and> chroutines_map th (me c) = None"
    "distinct (map me cs)"
  shows "struct_ok ms (fold add_obj cs th) \<and> queue (fold add_obj cs th) = queue th @ cs \<and>
    dom (chroutines_map (fold add_obj cs th)) = dom (chroutines_map th) \<union> me ` set cs \<and>
    running_id (fold add_obj cs th) = running_id th \<and> cpu (fold add_obj cs th) = cpu th"
  using assms
proof (induction cs arbitrary: th)
  case (Cons c cs)
  have s: "struct_ok ms (add_obj c th)"
    using add_obj_struct_ok [of ms th c] Cons.prems by (simp add: add_obj_def)
  have "\<forall>c' \<in> set cs. obj_ok ms c' \<and> chroutines_map (add_obj c th) (me c') = None"
    using Cons.prems by (auto simp: image_iff)
  from Cons.IH [OF s this] Cons.prems queue_add_obj [OF struct_okD(1) [OF Cons.prems(1)], of c]
  show ?case by auto
qed simp

section \<open>The move loop\<close>

lemma move_loop_eq:
  assumes "distinct as"
  defines "mv th \<equiv> filter (\<lambda>a. me (objs th a) \<noteq> running_id th) as"
  shows "move_loop t' as th other =
    (th\<lparr>objs := (\<lambda>a. if a \<in> set (mv th) then set_moved (snd (move_chroutine (objs th a))) else objs th a)\<rparr>,
     fold add_obj (map (\<lambda>a. settled t' (objs th a)) (mv th)) other,
     map (\<lambda>a. me (objs th a)) (mv th))"
  using assms(1) unfolding mv_def
proof (induction as arbitrary: th other)
  case (Cons a as)
  show ?case
  proof (cases "me (objs th a) = running_id th")
    case True
    then show ?thesis using Cons by (auto simp: fun_eq_iff)
  next
    case False
    let ?x = "set_moved (snd (move_chroutine (objs th a)))"
    let ?th = "set_obj a ?x th"
    have same: "objs ?th b = objs th b" if "b \<in> set as" for b using that Cons.prems by auto
    have f: "filter (\<lambda>b. me (objs ?th b) \<noteq> running_id ?th) as = filter (\<lambda>b. me (objs th b) \<noteq> running_id th) as"
      using same by (intro filter_cong) auto
    have m: "map (\<lambda>b. g (objs ?th b)) (filter P as) = map (\<lambda>b. g (objs th b)) (filter P as)" for g P
      using same by (intro map_cong) auto
    note IH = Cons.IH [of ?th "add_obj (settled t' (objs th a)) other", unfolded f m]
    have h: "(\<lambda>b. if b \<in> set (filter (\<lambda>b. me (objs th b) \<noteq> running_id th) as)
        then set_moved (snd (move_chroutine (objs ?th b))) else objs ?th b) =
      (\<lambda>b. if b \<in> set (filter (\<lambda>b. me (objs th b) \<noteq> running_id th) (a # as))
        then set_moved (snd (move_chroutine (objs th b))) else objs th b)"
      using False Cons.prems by (auto simp: fun_eq_iff)
    show ?thesis
      using False Cons.prems IH h by (simp add: resettle_eq Let_def) (simp add: set_obj_def)
  qed
qed simp

lemma remove_sched_filter:
  assumes ok: "index_ok th"
  shows "chroutines_sched (remove_chroutine i th) = filter (\<lambda>a. me (objs th a) \<noteq> i) (chroutines_sched th)"
proof (cases "get_chroutine i th")
  case None
  then have "\<forall>a \<in> set (chroutines_sched th). me (objs th a) \<noteq> i"
    using index_ok_get [OF ok, of i] by auto
  then show ?thesis using remove_absent [OF ok None] by (simp add: filter_id_conv)
next
  case (Some a)
  obtain pre suf where s: "chroutines_sched th = pre @ a # suf"
    "\<forall>b \<in> set pre \<union> set suf. me (objs th b) \<noteq> i" "a \<notin> set pre \<union> set suf" "distinct (pre @ suf)"
    by (rule index_ok_split [OF ok Some])
  have "me (objs th a) = i" using Some index_ok_get [OF ok] by simp
  moreover have "filter (\<lambda>a. me (objs th a) \<noteq> i) pre = pre" "filter (\<lambda>a. me (objs th a) \<noteq> i) suf = suf"
    using s(2) by (simp_all add: filter_id_conv)
  ultimately show ?thesis using remove_present [OF ok Some s(1)] s(1) by simp
qed

lemma fold_remove:
  assumes "struct_ok ms th"
  shows "struct_ok ms (fold remove_chroutine is th) \<and> objs (fold remove_chroutine is th) = objs th \<and>
    chroutines_sched (fold remove_chroutine is th) =
      filter (\<lambda>a. me (objs th a) \<notin> set is) (chroutines_sched th) \<and>
    dom (chroutines_map (fold remove_chroutine is th)) = dom (chroutines_map th) - set is \<and>
    running_id (fold remove_chroutine is th) = running_id th \<and>
    cpu (fold remove_chroutine is th) = cpu th"
  using assms
proof (induction "is" arbitrary: th)
  case (Cons i "is")
  from Cons.IH [OF remove_struct_ok [OF Cons.prems, of i]]
  show ?case
    by (auto simp: remove_sched_filter [OF struct_okD(1) [OF Cons.prems]] dom_remove
        intro: filter_cong)
qed simp

section \<open>The move as a whole\<close>

text \<open>The chroutines a move takes away from a thread: all but the one that runs.\<close>

definition movable :: "chroutine_thread_t \<Rightarrow> addr list" where
  "movable th = filter (\<lambda>a. me (objs th a) \<noteq> running_id th) (chroutines_sched th)"

definition hollow :: "addr set \<Rightarrow> chroutine_thread_t \<Rightarrow> chroutine_thread_t" where
  "hollow A th = th\<lparr>objs := (\<lambda>a. if a \<in> A then set_moved (snd (move_chroutine (objs th a))) else objs th a)\<rparr>"

lemma move_chroutines_eq:
  assumes ok: "index_ok (threads w t)" and ne: "t' \<noteq> t"
  defines "th \<equiv> threads w t"
  shows "move_chroutines_to_thread t t' w =
    upd_thread t (\<lambda>_. set_state thread_state_t_blocking
        (fold remove_chroutine (map (\<lambda>a. me (objs th a)) (movable th))
          (hollow (set (movable th)) (set_state thread_state_t_shifting th))))
      (upd_thread t' (\<lambda>_. fold add_obj (map (\<lambda>a. settled t' (objs th a)) (movable th)) (threads w t')) w)"
proof -
  have f: "objs (set_state s th) = objs th" "running_id (set_state s th) = running_id th"
    "chroutines_sched (set_state s th) = chroutines_sched th" for s
    by (simp_all add: set_state_def)
  have d: "distinct (chroutines_sched th)" using index_okD(1) [OF ok] th_def by simp
  note m = move_loop_eq [of "chroutines_sched th" t' "set_state thread_state_t_shifting th" "threads w t'",
      unfolded f, folded movable_def, OF d]
  show ?thesis
    using ne m unfolding move_chroutines_to_thread_def Let_def th_def [symmetric]
    by (simp add: f hollow_def cong: if_cong)
qed

lemma hollow_struct_ok:
  assumes "struct_ok ms th"
  shows "struct_ok ms (hollow A th)"
proof (rule struct_ok_update [OF assms])
  fix a assume "a \<in> set (chroutines_sched th)"
  from struct_okD(2) [OF assms this] show "obj_ok ms (objs (hollow A th) a)"
    by (simp add: hollow_def obj_ok_def move_chroutine_def set_moved_def)
qed (simp_all add: hollow_def)

lemma hollow_frame [simp]:
  "chroutines_sched (hollow A th) = chroutines_sched th" "running_id (hollow A th) = running_id th"
  "chroutines_map (hollow A th) = chroutines_map th" "cpu (hollow A th) = cpu th"
  "me (objs (hollow A th) a) = me (objs th a)" "a \<notin> A \<Longrightarrow> objs (hollow A th) a = objs th a"
  by (simp_all add: hollow_def)

text \<open>What a move does to the two threads.\<close>

lemma move_effect:
  assumes ok: "world_ok w" and ne: "t' \<noteq> t"
  defines "th \<equiv> threads w t" and "w' \<equiv> move_chroutines_to_thread t t' w"
  defines "ids \<equiv> me ` objs th ` set (movable th)"
  shows "struct_ok (ms_chroutine_id w) (threads w' t)" "struct_ok (ms_chroutine_id w) (threads w' t')"
    and "queue (threads w' t) = filter (\<lambda>c. me c = running_id th) (queue th)"
    and "queue (threads w' t') = queue (threads w t') @
      map (settled t') (filter (\<lambda>c. me c \<noteq> running_id th) (queue th))"
    and "dom (chroutines_map (threads w' t)) = dom (chroutines_map th) - ids"
    and "dom (chroutines_map (threads w' t')) = dom (chroutines_map (threads w t')) \<union> ids"
    and "running_id (threads w' t) = running_id th" "running_id (threads w' t') = running_id (threads w t')"
    and "cpu (threads w' t) = cpu th" "cpu (threads w' t') = cpu (threads w t')"
    and "m_state (threads w' t) = thread_state_t_blocking"
proof -
  note so = world_okD(2) [OF ok] and io = world_okD(3) [OF ok]
  let ?cs = "map (\<lambda>a. settled t' (objs th a)) (movable th)"
  let ?is = "map (\<lambda>a. me (objs th a)) (movable th)"
  let ?h = "hollow (set (movable th)) (set_state thread_state_t_shifting th)"
  have w': "w' = upd_thread t (\<lambda>_. set_state thread_state_t_blocking (fold remove_chroutine ?is ?h))
      (upd_thread t' (\<lambda>_. fold add_obj ?cs (threads w t')) w)"
    using move_chroutines_eq [OF io ne] unfolding w'_def th_def .
  have mv: "set (movable th) \<subseteq> set (chroutines_sched th)" by (auto simp: movable_def)
  have "\<forall>c \<in> set ?cs. obj_ok (ms_chroutine_id w) c \<and> chroutines_map (threads w t') (me c) = None"
  proof
    fix c assume "c \<in> set ?cs"
    then obtain a where a: "a \<in> set (chroutines_sched th)" "c = settled t' (objs th a)" using mv by auto
    have "obj_ok (ms_chroutine_id w) (objs th a)" using struct_okD(2) [OF so] a(1) th_def by simp
    moreover have "chroutines_map th (me c) = Some (Some a)" using index_okD(2) [OF io] a th_def by simp
    moreover have "dom (chroutines_map th) \<inter> dom (chroutines_map (threads w t')) = {}"
      using world_okD(5) [OF ok, of t t'] ne th_def by simp
    ultimately show "obj_ok (ms_chroutine_id w) c \<and> chroutines_map (threads w t') (me c) = None"
      using a(2) by (auto simp: obj_ok_def)
  qed
  moreover have inj: "inj_on (\<lambda>a. me (objs th a)) (set (movable th))"
    using index_ok_me_inj [OF io, of _ t] mv unfolding th_def inj_on_def by blast
  moreover have "distinct (movable th)" using index_okD(1) [OF io] by (simp add: movable_def th_def)
  ultimately have add: "struct_ok (ms_chroutine_id w) (fold add_obj ?cs (threads w t')) \<and>
      queue (fold add_obj ?cs (threads w t')) = queue (threads w t') @ ?cs \<and>
      dom (chroutines_map (fold add_obj ?cs (threads w t'))) = dom (chroutines_map (threads w t')) \<union> me ` set ?cs \<and>
      running_id (fold add_obj ?cs (threads w t')) = running_id (threads w t') \<and>
      cpu (fold add_obj ?cs (threads w t')) = cpu (threads w t')"
    by (intro fold_add_obj [OF so]) (simp_all add: distinct_map comp_def)
  have "struct_ok (ms_chroutine_id w) ?h"
    using so [of t] by (intro hollow_struct_ok) (simp add: set_state_def th_def)
  note rem = fold_remove [OF this, of ?is]
  have h: "me (objs ?h a) = me (objs th a)" "chroutines_sched ?h = chroutines_sched th" for a
    by (simp_all add: set_state_def)
  have left: "filter (\<lambda>a. me (objs th a) \<notin> set ?is) (chroutines_sched th) =
      filter (\<lambda>a. me (objs th a) = running_id th) (chroutines_sched th)"
    using index_ok_me_inj [OF io, of _ t] by (intro filter_cong) (auto simp: movable_def th_def)
  show "struct_ok (ms_chroutine_id w) (threads w' t)" "struct_ok (ms_chroutine_id w) (threads w' t')"
    using rem add ne by (simp_all add: w' set_state_def)
  show "queue (threads w' t') = queue (threads w t') @
      map (settled t') (filter (\<lambda>c. me c \<noteq> running_id th) (queue th))"
    using add ne by (simp add: w' queue_def movable_def filter_map comp_def)
  have "queue (threads w' t) = map (objs ?h) (filter (\<lambda>a. me (objs th a) = running_id th) (chroutines_sched th))"
    using rem ne left h by (simp add: w' queue_def) (simp add: set_state_def)
  also have "\<dots> = map (objs th) (filter (\<lambda>a. me (objs th a) = running_id th) (chroutines_sched th))"
    by (rule map_cong) (auto simp: hollow_def movable_def set_state_def)
  finally show "queue (threads w' t) = filter (\<lambda>c. me c = running_id th) (queue th)"
    by (simp add: queue_def filter_map comp_def)
  show "dom (chroutines_map (threads w' t)) = dom (chroutines_map th) - ids"
    "dom (chroutines_map (threads w' t')) = dom (chroutines_map (threads w t')) \<union> ids"
    using rem add ne by (simp_all add: w' ids_def set_state_def image_image)
  show "running_id (threads w' t) = running_id th" "running_id (threads w' t') = running_id (threads w t')"
    "cpu (threads w' t) = cpu th" "cpu (threads w' t') = cpu (threads w t')"
    "m_state (threads w' t) = thread_state_t_blocking"
    using rem add ne by (simp_all add: w' set_state_def)
qed

lemma move_frame: "u \<noteq> t \<Longrightarrow> u \<noteq> t' \<Longrightarrow> threads (move_chroutines_to_thread t t' w) u = threads w u"
  "ms_chroutine_id (move_chroutines_to_thread t t' w) = ms_chroutine_id w"
  "world_t.more (move_chroutines_to_thread t t' w) = world_t.more w"
  "reporters (move_chroutines_to_thread t t' w) = reporters w"
  by (simp_all add: move_chroutines_to_thread_def Let_def split: prod.splits)

lemma disjoint_transfer:
  assumes "\<And>u v. u \<noteq> v \<Longrightarrow> D u \<inter> D v = {}" "I \<subseteq> D t" "u \<noteq> v" "t \<noteq> t'"
  shows "(D(t := D t - I, t' := D t' \<union> I)) u \<inter> (D(t := D t - I, t' := D t' \<union> I)) v = {}"
  using assms(1) [of u v] assms(1) [of t u] assms(1) [of t v] assms(1) [of t t'] assms(2-)
  unfolding disjoint_iff subset_iff by auto

lemma union_transfer:
  assumes "I \<subseteq> D t" "t \<noteq> t'"
  shows "(\<Union>u. (D(t := D t - I, t' := D t' \<union> I)) u) = (\<Union>u. D u)" (is "(\<Union>u. ?D u) = _")
proof (rule set_eqI)
  fix x
  have "x \<in> (\<Union>u. ?D u)" if "x \<in> D u" for u
  proof (cases "u = t \<and> x \<in> I")
    case True
    then have "x \<in> ?D t'" by simp
    then show ?thesis by blast
  next
    case False
    then have "x \<in> ?D u" using that by auto
    then show ?thesis by blast
  qed
  then show "x \<in> (\<Union>u. ?D u) \<longleftrightarrow> x \<in> (\<Union>u. D u)" using assms by (auto split: if_splits)
qed

lemma move_world_ok:
  assumes ok: "world_ok w"
  shows "world_ok (move_chroutines_to_thread t t' w)" (is "world_ok ?w")
proof (cases "t' = t")
  case True
  then show ?thesis using ok by (simp add: move_chroutines_to_thread_def)
next
  case False
  let ?ids = "me ` objs (threads w t) ` set (movable (threads w t))"
  let ?d = "\<lambda>w u. dom (chroutines_map (threads w u))"
  note e = move_effect [OF ok False]
  have ids: "?ids \<subseteq> ?d w t"
    using index_okD(2) [OF world_okD(3) [OF ok]] by (fastforce simp: movable_def)
  have d: "?d ?w u = ((?d w)(t := ?d w t - ?ids, t' := ?d w t' \<union> ?ids)) u" for u
    using e(5,6) move_frame(1) [of u t t' w] False by auto
  have "?d ?w u \<inter> ?d ?w v = {}" if "u \<noteq> v" for u v
    using disjoint_transfer [of "?d w" ?ids t u v t'] world_okD(5) [OF ok] ids that False unfolding d by simp
  moreover have "running_id (threads w t) \<notin> ?ids" by (auto simp: movable_def)
  then have "running_ok (threads ?w u)" for u
    using world_okD(4) [OF ok, of u] e(7,8) d [of u] move_frame(1) [of u t t' w]
    unfolding running_ok_def domIff [symmetric] by (cases "u = t"; cases "u = t'") auto
  moreover have "struct_ok (ms_chroutine_id w) (threads ?w u)" for u
    using e(1,2) world_okD(2) [OF ok, of u] move_frame(1) [of u t t' w] by (cases "u = t"; cases "u = t'") auto
  ultimately show ?thesis
    using world_okD(1) [OF ok] unfolding world_ok_def move_frame(2) by blast
qed

section \<open>Every reachable state is consistent\<close>

lemma exec_op_world_ok:
  assumes ok: "world_ok w" and ex: "exec_op op w = Some w'"
  shows "world_ok w'"
proof -
  have upd: "world_ok (upd_thread t f v)"
    if "world_ok v" "struct_ok (ms_chroutine_id v) (f (threads v t)) = struct_ok (ms_chroutine_id v) (threads v t)"
      "running_ok (f (threads v t)) = running_ok (threads v t)"
      "chroutines_map (f (threads v t)) = chroutines_map (threads v t)" for t f v
    using that world_okD [OF that(1)] by (intro world_ok_local [OF that(1)]) auto
  have keep: "upd_thread t (\<lambda>th. th) w = w" for t by (simp add: upd_thread_def)
  show ?thesis
  proof (cases op)
    case (Op_pick t n now en)
    obtain w1 k sw where pr: "pick_run_chroutine t now en w = (w1, k, sw)" by (metis prod_cases3)
    show ?thesis
      using ex Op_pick pr upd [OF pick_world_ok [OF ok pr]] by (auto simp: schedule_pick_def split: if_splits)
  next
    case (Op_create t f a)
    obtain w1 i where cr: "create_chroutine t f a w = (w1, i)" by fastforce
    then show ?thesis
      using ex Op_create create_world_ok(1) [OF ok _ cr] by (auto simp: ids_left_def split: if_splits)
  next
    case (Op_create_son t f r)
    obtain w1 i where cr: "create_son_chroutine t f r w = (w1, i)" by fastforce
    then show ?thesis
      using ex Op_create_son create_son_world_ok [OF ok _ cr] by (auto simp: ids_left_def split: if_splits)
  next
    case (Op_awake t i)
    obtain w1 r where aw: "awake_chroutine t i w = (w1, r)" by fastforce
    then show ?thesis using ex Op_awake awake_world_ok [OF ok _ aw] by (auto split: if_splits)
  next
    case (Op_resume t)
    then show ?thesis
      using ex upd [OF ok, of schedule_resume t]
      by (auto simp: schedule_resume_def clear_entry_time_def split: if_splits)
  next
    case (Op_yield t n)
    have "thread_yield n = (if n \<le> 0 then (\<lambda>th. th) else suspend_current (\<lambda>c. c\<lparr>yield_wait := yield_wait c + n\<rparr>))"
      by (auto simp: fun_eq_iff thread_yield_def yield_current_def)
    then show ?thesis
      using ex Op_yield ok suspend_world_ok [OF ok wait_update_yield] by (auto simp: keep split: if_splits)
  next
    case (Op_wait t now ms)
    have "thread_wait now ms = (if ms \<le> 0 then (\<lambda>th. th) else suspend_current
        (\<lambda>c. c\<lparr>yield_to := now + ms, stop_son_when_yield_over := True\<rparr>))"
      by (auto simp: fun_eq_iff thread_wait_def wait_current_def)
    then show ?thesis
      using ex Op_wait ok suspend_world_ok [OF ok wait_update_wait] by (auto simp: keep split: if_splits)
  next
    case (Op_sleep t now ms)
    have "thread_sleep now ms = (if ms \<le> 0 then (\<lambda>th. th) else suspend_current
        (\<lambda>c. c\<lparr>yield_to := now + ms, stop_son_when_yield_over := False\<rparr>))"
      by (auto simp: fun_eq_iff thread_sleep_def wait_current_def)
    then show ?thesis
      using ex Op_sleep ok suspend_world_ok [OF ok wait_update_wait] by (auto simp: keep split: if_splits)
  next
    case (Op_return t)
    then show ?thesis using ex entry_end_world_ok [OF ok] by (auto split: if_splits)
  next
    case (Op_move t t')
    then show ?thesis using ex move_world_ok [OF ok, of t t'] by simp
  qed (use ex in \<open>auto intro!: upd [OF ok]
         simp: schedule_enter_def set_state_def update_thread_id_def thread_stop_def\<close>)
qed

lemma reach_world_ok: "reach m w \<Longrightarrow> world_ok w"
proof (induction rule: reach.induct)
  case start
  have "struct_ok 0 new_thread" using thread_okD(1) [OF new_thread_ok] .
  moreover have "running_ok new_thread" by (simp add: running_ok_def new_thread_def)
  ultimately show ?case by (simp add: world_ok_def init_world_def) (simp add: new_thread_def)
next
  case step
  then show ?case using exec_op_world_ok by blast
qed

end
