(* ===== verification/Thread_Props.thy ===== *)
theory Thread_Props
  imports Fairness Migration
begin

text \<open>
  The properties of the chroutine scheduler: consistency of the index and the run queue in every
  reachable state, exclusive execution, the choice \<^verbatim>\<open>pick_run_chroutine\<close> makes, timing of yields and
  sleeps, bounded waiting, the father/son protocol, creation, and what migration keeps and loses.
  \<open>sample_world\<close> is a state the witnesses evaluate: one thread with a running chroutine and a
  second one in its queue.
\<close>

lemmas sched_defs =
  schedule_enter_def set_state_def update_thread_id_def create_chroutine_def gen_chroutine_id_def
  wrap64_def new_chroutine_def default_chroutine_def new_thread_def init_world_def INVALID_ID_def
  STACK_SIZE_def upd_thread_def upd_obj_def set_obj_def in_chroutine_def ids_left_def
  NULL_THREAD_ID_def init_load_def COUNT_CIRCAL_def

lemmas pick_defs =
  schedule_pick_def pick_run_chroutine_def pick_scan_def pick_commit_def chroutine_wait_def
  yield_over_def remove_chroutine_def swap_to_chroutine_def entry_begin_def get_chroutine_def
  set_entry_time_def iter_suffix_def iter_begin_def load_update_def

lemmas suspend_defs =
  thread_yield_def yield_current_def thread_sleep_def thread_wait_def wait_current_def
  suspend_current_def swap_to_main_def save_ctx_def schedule_resume_def clear_entry_time_def

definition sample_ops :: "thread_op list" where
  "sample_ops =
     [Op_enter 3 7, Op_create 3 (Some (User 0)) nullptr, Op_create 3 (Some (User 1)) nullptr,
      Op_pick 3 0 100 100]"

definition world_after :: "thread_op list \<Rightarrow> world_t" where
  "world_after ops = (case run_ops ops init_world of Some w \<Rightarrow> w | None \<Rightarrow> init_world)"

lemma world_after_reach: "\<forall>op \<in> set ops. is_move op \<longrightarrow> m \<Longrightarrow> reach m (world_after ops)"
  using run_ops_reach [OF reach.start, of ops] reach.start by (auto simp: world_after_def split: option.splits)

definition sample_world :: world_t where
  "sample_world = world_after sample_ops"

lemma sample_world_reach: "reach False sample_world"
  by (simp add: sample_world_def world_after_reach sample_ops_def)

lemma sample_thread:
  "cpu (threads sample_world 3) = Some (3, 0)" "running_id (threads sample_world 3) = 1"
  "chroutines_sched (threads sample_world 3) = [0, 1]" "me (objs (threads sample_world 3) 0) = 1"
  "me (objs (threads sample_world 3) 1) = 2" "sched_iter (threads sample_world 3) = Some 1"
  "chroutines_map (threads sample_world 3) = [1 \<mapsto> Some 0, 2 \<mapsto> Some 1]"
  "ms_chroutine_id sample_world = 2" "m_state (threads sample_world 3) = thread_state_t_running"
  "yield_wait (objs (threads sample_world 3) 1) = 0" "yield_to (objs (threads sample_world 3) 1) = 0"
  "m_need_stop (threads sample_world 3) = False" "moved (objs (threads sample_world 3) 1) = False"
  by (simp_all add: sample_world_def world_after_def sample_ops_def sched_defs pick_defs fun_eq_iff)

lemmas sample_simps [simp] = sample_thread [unfolded One_nat_def]

text \<open>The same thread after its chroutine has yielded for two ticks: the main context is back.\<close>

definition idle_world :: world_t where
  "idle_world = world_after (sample_ops @ [Op_yield 3 2, Op_resume 3])"

lemma idle_world_reach: "reach False idle_world"
  by (simp add: idle_world_def world_after_reach sample_ops_def)

lemma idle_thread:
  "cpu (threads idle_world 3) = None" "chroutines_sched (threads idle_world 3) = [0, 1]"
  "sched_iter (threads idle_world 3) = Some 1" "yield_wait (objs (threads idle_world 3) 0) = 2"
  "yield_wait (objs (threads idle_world 3) 1) = 0" "yield_to (objs (threads idle_world 3) 1) = 0"
  "moved (objs (threads idle_world 3) 1) = False" "me (objs (threads idle_world 3) 1) = 2"
  "upcoming (threads idle_world 3) = [1]" "yield_to (objs (threads idle_world 3) 0) = 0"
  "moved (objs (threads idle_world 3) 0) = False"
  "stop_son_when_yield_over (objs (threads idle_world 3) 0) = False"
  "stop_son_when_yield_over (objs (threads idle_world 3) 1) = False"
  by (simp_all add: idle_world_def world_after_def sample_ops_def sched_defs pick_defs suspend_defs upcoming_def)

lemmas idle_simps [simp] = idle_thread [unfolded One_nat_def]

section \<open>Consistency\<close>





section \<open>Picking\<close>



text \<open>A chroutine that yields for \<open>n\<close> ticks leaves the CPU and becomes due after exactly \<open>n\<close>
  visits of the scheduler, at any time; its tick counter does not accumulate.\<close>

theorem yield_timing:
  assumes r: "reach False w" and cpu: "cpu (threads w t) = Some (p, a)" and n: "0 < n"
  defines "th' \<equiv> thread_yield n (threads w t)"
  shows "cpu th' = None \<and> running_id th' = INVALID_ID \<and>
    state (objs th' a) = chroutine_state_suspend \<and> yield_wait (objs th' a) = n \<and>
    (\<forall>k now. due now ((tick ^^ k) (objs th' a)) \<longleftrightarrow> n \<le> int k)"
proof -
  have ok: "thread_ok (ms_chroutine_id w) t (threads w t)"
    using reach_threads_ok [OF r] by (simp add: all_threads_ok_def)
  have a: "a \<in> set (chroutines_sched (threads w t))" using thread_okD(8) [OF ok cpu] by simp
  have th': "th' = (set_obj a (save_ctx (Some (t, a)) ((objs (threads w t) a)\<lparr>state := chroutine_state_suspend,
      yield_wait := yield_wait (objs (threads w t) a) + n\<rparr>)) (threads w t))\<lparr>running_id := INVALID_ID, cpu := None\<rparr>"
    using n suspend_eq [OF ok cpu, of "\<lambda>c. c\<lparr>yield_wait := yield_wait c + n\<rparr>"]
    by (simp add: th'_def thread_yield_def yield_current_def)
  let ?c = "objs th' a"
  have c: "yield_wait ?c = n" "yield_to ?c = 0" "\<not> moved ?c"
    using thread_okD(8) [OF ok cpu] thread_okD(4) [OF ok a] by (simp_all add: th' ctx_ok_def)
  have it: "yield_wait ((tick ^^ k) ?c) = max 0 (n - int k) \<and> yield_to ((tick ^^ k) ?c) = 0 \<and>
    \<not> moved ((tick ^^ k) ?c)" for k
    using c n by (induction k) (auto simp: tick_def)
  have "due now ((tick ^^ k) ?c) \<longleftrightarrow> n \<le> int k" for k now using it [of k] by (auto simp: due_def)
  moreover have "cpu th' = None" "running_id th' = INVALID_ID" "state ?c = chroutine_state_suspend"
    by (simp_all add: th')
  ultimately show ?thesis using c(1) by blast
qed

theorem yield_timing_witness:
  "\<not> due 100 (tick (objs (thread_yield 2 (threads sample_world 3)) 0)) \<and>
   due 100 (tick (tick (objs (thread_yield 2 (threads sample_world 3)) 0)))"
proof -
  note y = yield_timing [OF sample_world_reach sample_simps(1), of 2]
  have "\<not> due 100 ((tick ^^ 1) (objs (thread_yield 2 (threads sample_world 3)) 0))"
    "due 100 ((tick ^^ 2) (objs (thread_yield 2 (threads sample_world 3)) 0))"
    using y by (simp_all del: funpow.simps)
  then show ?thesis by (simp add: numeral_2_eq_2)
qed

text \<open>A chroutine that sleeps leaves the CPU and is not due before its deadline, however often
  the scheduler visits it, and due from the deadline on; a sleep never makes the scheduler stop a son.\<close>

theorem sleep_timing:
  assumes r: "reach False w" and cpu: "cpu (threads w t) = Some (p, a)"
    and ms: "0 < ms" and now: "0 \<le> now"
  defines "th' \<equiv> thread_sleep now ms (threads w t)"
  shows "cpu th' = None \<and> running_id th' = INVALID_ID \<and> \<not> stop_son_when_yield_over (objs th' a) \<and>
    (\<forall>k later. due later ((tick ^^ k) (objs th' a)) \<longleftrightarrow> now + ms \<le> later)"
proof -
  have ok: "thread_ok (ms_chroutine_id w) t (threads w t)"
    using reach_threads_ok [OF r] by (simp add: all_threads_ok_def)
  have a: "a \<in> set (chroutines_sched (threads w t))" using thread_okD(8) [OF ok cpu] by simp
  have th': "th' = (set_obj a (save_ctx (Some (t, a)) ((objs (threads w t) a)\<lparr>state := chroutine_state_suspend,
      yield_to := now + ms, stop_son_when_yield_over := False\<rparr>)) (threads w t))\<lparr>running_id := INVALID_ID, cpu := None\<rparr>"
    using ms suspend_eq [OF ok cpu, of "\<lambda>c. c\<lparr>yield_to := now + ms, stop_son_when_yield_over := False\<rparr>"]
    by (simp add: th'_def thread_sleep_def wait_current_def)
  let ?c = "objs th' a"
  have c: "yield_wait ?c = 0" "yield_to ?c = now + ms" "\<not> moved ?c"
    using thread_okD(8) [OF ok cpu] thread_okD(4) [OF ok a] by (simp_all add: th' ctx_ok_def)
  have "(tick ^^ k) ?c = ?c" for k using c by (induction k) (simp_all add: tick_def)
  then have "due later ((tick ^^ k) ?c) \<longleftrightarrow> now + ms \<le> later" for k later
    using c ms now by (auto simp: due_def)
  moreover have "cpu th' = None" "running_id th' = INVALID_ID" "\<not> stop_son_when_yield_over ?c"
    by (simp_all add: th')
  ultimately show ?thesis by blast
qed

theorem sleep_timing_witness:
  "\<not> due 149 (objs (thread_sleep 100 50 (threads sample_world 3)) 0) \<and>
   due 150 (objs (thread_sleep 100 50 (threads sample_world 3)) 0)"
proof -
  have "\<forall>k l. due l ((tick ^^ k) (objs (thread_sleep 100 50 (threads sample_world 3)) 0)) \<longleftrightarrow> 150 \<le> l"
    using sleep_timing [OF sample_world_reach sample_simps(1), of 50 100] by simp
  from this [rule_format, of _ 0] show ?thesis by simp
qed



section \<open>Fathers and sons\<close>

lemma reach_thread_ok: "reach False w \<Longrightarrow> thread_ok (ms_chroutine_id w) t (threads w t)"
  using reach_threads_ok by (simp add: all_threads_ok_def)

lemma get_invalid: "thread_ok ms t th \<Longrightarrow> get_chroutine INVALID_ID th = None"
  using index_ok_get [OF thread_okD(2), of ms t th INVALID_ID] thread_okD(5) [of ms t th] me_not_invalid
  by (metis not_None_eq)

lemma pick_run_swapped:
  assumes ok: "thread_ok ms t (threads w t)" and cpu: "cpu (threads w t) = None"
    and pr: "pick_run_chroutine t now en w = (w', k, swapped)" and c': "cpu (threads w' t) = Some (p, a)"
  defines "y \<equiv> yield_over result_timeout (objs (threads w t) a) (reporters w)"
  shows "a \<in> set (chroutines_sched (threads w t))" "due now (objs (threads w t) a)"
    "reporters w' = fst (snd y)"
    "chroutines_map (threads w' t) = (chroutines_map (threads w t))(snd (snd y) := None)"
    "chroutines_to_free (threads w' t) = (case chroutines_map (threads w t) (snd (snd y)) of
       None \<Rightarrow> [] | Some q \<Rightarrow> [q])"
    "objs (threads w' t) a = (fst y)\<lparr>state := chroutine_state_running\<rparr>"
proof -
  let ?th = "threads w t"
  obtain th1 r where ps: "pick_scan now ?th = (th1, r)" by fastforce
  have r: "r = Some a"
  proof (cases r)
    case None
    then show ?thesis using pr ps c' cpu pick_scan_sched(5) [OF thread_okD(1) [OF ok] ps] by (auto simp: pick_run_eq [OF ok cpu])
  next
    case (Some b)
    obtain th' rs where "pick_commit en b th1 (reporters w) = (th', rs)" by fastforce
    then show ?thesis using pr ps c' Some by (auto simp: pick_run_eq [OF ok cpu])
  qed
  note sc = pick_scan_sched [OF thread_okD(1) [OF ok] ps]
  show "a \<in> set (chroutines_sched ?th)" "due now (objs ?th a)" using sc(6) [OF r] by auto
  have o: "objs th1 a = objs ?th a" using sc(6) [OF r] by simp
  obtain th' rs where pc: "pick_commit en a th1 (reporters w) = (th', rs)" by fastforce
  note e = pick_commit_eq [OF pc, unfolded o, folded y_def]
  have w': "w' = upd_thread t (\<lambda>_. th'\<lparr>cpu := Some (t, a)\<rparr>) (w\<lparr>reporters := rs\<rparr>)"
    using pr ps pc r by (auto simp: pick_run_eq [OF ok cpu])
  show "reporters w' = fst (snd y)" using w' e(2) by simp
  show "chroutines_map (threads w' t) = (chroutines_map ?th)(snd (snd y) := None)"
    using w' e(1) sc(2) by (simp add: remove_map)
  show "objs (threads w' t) a = (fst y)\<lparr>state := chroutine_state_running\<rparr>" using w' e(1) by simp
  have "chroutines_to_free th1 = []" using ps pick_scan_eq [OF thread_okD(2) [OF ok], of now] by auto
  then show "chroutines_to_free (threads w' t) = (case chroutines_map ?th (snd (snd y)) of None \<Rightarrow> [] | Some q \<Rightarrow> [q])"
    using w' e(1) sc(2) by (simp add: remove_chroutine_def Let_def split: option.splits)
qed


text \<open>A father that waits for 50 ms on its son, with the son on the CPU.\<close>

definition son_ops :: "thread_op list" where
  "son_ops = sample_ops @
     [Op_create_son 3 (Some (User 2)) 9, Op_wait 3 100 50, Op_resume 3, Op_pick 3 0 100 100,
      Op_yield 3 100, Op_resume 3, Op_pick 3 0 100 100]"

lemmas son_defs = create_son_chroutine_def get_data_def

definition son_world :: world_t where
  "son_world = world_after son_ops"

lemma son_world_reach: "reach False son_world"
  by (simp add: son_world_def world_after_reach son_ops_def sample_ops_def)

lemma son_thread [simp]:
  "cpu (threads son_world 3) = Some (3, 2)" "father (objs (threads son_world 3) 2) = 1"
  "get_chroutine 1 (threads son_world 3) = Some 0" "reporter (objs (threads son_world 3) 0) = Some 9"
  "son (objs (threads son_world 3) 0) = 3" "me (objs (threads son_world 3) 2) = 3"
  "yield_to (objs (threads son_world 3) 0) = 150" "stop_son_when_yield_over (objs (threads son_world 3) 0)"
  "get_chroutine 3 (threads son_world 3) = Some 2" "running_id (threads son_world 3) = 3"
  by (simp_all add: son_world_def world_after_def son_ops_def sample_ops_def sched_defs pick_defs
      suspend_defs son_defs)


text \<open>The same family later: the son has yielded and the deadline has passed.\<close>

definition late_world :: world_t where
  "late_world = world_after (son_ops @ [Op_yield 3 100, Op_resume 3])"

lemma late_world_reach: "reach False late_world"
  by (simp add: late_world_def world_after_reach son_ops_def sample_ops_def)

lemma late_thread [simp]:
  "cpu (threads late_world 3) = None" "reporter (objs (threads late_world 3) 0) = Some 9"
  "son (objs (threads late_world 3) 0) = 3" "get_chroutine 3 (threads late_world 3) = Some 2"
  "yield_to (objs (threads late_world 3) 0) = 150" "stop_son_when_yield_over (objs (threads late_world 3) 0)"
  "cpu (threads (fst (pick_run_chroutine 3 200 200 late_world)) 3) = Some (3, 0)"
  by (simp_all add: late_world_def world_after_def son_ops_def sample_ops_def sched_defs pick_defs
      suspend_defs son_defs)

text \<open>When a father that waits for its son is picked because the time is out, the son leaves the
  index, its record stays owned until the next pick, the reporter says \<^verbatim>\<open>result_timeout\<close>, and every
  other chroutine stays indexed.\<close>

theorem son_timeout:
  assumes r: "reach False w" and cpu: "cpu (threads w t) = None"
    and pr: "pick_run_chroutine t now en w = (w', k, swapped)" and c': "cpu (threads w' t) = Some (p, a)"
  defines "c \<equiv> objs (threads w t) a"
  assumes stop: "stop_son_when_yield_over c" "yield_to c \<noteq> 0"
  shows "get_chroutine (son c) (threads w' t) = None \<and>
    (\<forall>b. get_chroutine (son c) (threads w t) = Some b \<longrightarrow> Some b \<in> set (chroutines_to_free (threads w' t))) \<and>
    (\<forall>q. reporter c = Some q \<longrightarrow> get_result q (reporters w') = result_timeout) \<and>
    son (objs (threads w' t) a) = INVALID_ID \<and> yield_to c \<le> now \<and>
    (\<forall>i. i \<noteq> son c \<longrightarrow> get_chroutine i (threads w' t) = get_chroutine i (threads w t))"
proof -
  note ok = reach_thread_ok [OF r, of t]
  note e = pick_run_swapped [OF ok cpu pr c', folded c_def]
  have y: "yield_over result_timeout c (reporters w) =
    (c\<lparr>son := INVALID_ID, stop_son_when_yield_over := False, yield_to := 0\<rparr>,
     (case reporter c of None \<Rightarrow> reporters w | Some q \<Rightarrow> set_result q result_timeout (reporters w)), son c)"
    using stop by (simp add: yield_over_def)
  show ?thesis
    using e(2-) stop(2) unfolding y
    by (auto simp: get_chroutine_def set_result_get due_def split: option.splits)
qed

theorem son_timeout_witness:
  "get_result 9 (reporters (fst (pick_run_chroutine 3 200 200 late_world))) = result_timeout \<and>
   get_chroutine 3 (threads (fst (pick_run_chroutine 3 200 200 late_world)) 3) = None"
proof -
  obtain w' k sw where pr: "pick_run_chroutine 3 200 200 late_world = (w', k, sw)" by (metis prod_cases3)
  have "cpu (threads w' 3) = Some (3, 0)" using late_thread(7) pr by simp
  from son_timeout [OF late_world_reach late_thread(1) pr this] show ?thesis by (simp add: pr)
qed

section \<open>Waking and creating\<close>

text \<open>Waking a chroutine that is not in the index fails with -1 and changes nothing; otherwise it
  returns 0, ends the wait for a deadline (so the chroutine is due as soon as its tick count is), and,
  when it was a father waiting for its son, reports \<^verbatim>\<open>result_done\<close> and removes exactly that son.\<close>

theorem awake_spec:
  fixes t :: addr
  assumes r: "reach m w"
  defines "th \<equiv> threads w t"
  shows "case get_chroutine i th of
      None \<Rightarrow> awake_chroutine t i w = (w, -1)
    | Some a \<Rightarrow> (\<exists>w'. awake_chroutine t i w = (w', 0) \<and> yield_to (objs (threads w' t) a) = 0 \<and>
        yield_wait (objs (threads w' t) a) = yield_wait (objs th a) \<and>
        (\<forall>b. b \<noteq> a \<longrightarrow> objs (threads w' t) b = objs th b) \<and>
        (if yield_to (objs th a) \<noteq> 0 \<and> stop_son_when_yield_over (objs th a)
         then (\<forall>j. get_chroutine j (threads w' t) = (if j = son (objs th a) then None else get_chroutine j th)) \<and>
           (\<forall>q. reporter (objs th a) = Some q \<longrightarrow> get_result q (reporters w') = result_done)
         else (\<forall>j. get_chroutine j (threads w' t) = get_chroutine j th) \<and> reporters w' = reporters w))"
proof (cases "get_chroutine i th")
  case None
  then show ?thesis by (simp add: awake_chroutine_def th_def)
next
  case (Some a)
  note ok = world_okD(2) [OF reach_world_ok [OF r], of t, folded th_def]
  have inv: "get_chroutine INVALID_ID th = None"
    using index_ok_get [OF struct_okD(1) [OF ok], of INVALID_ID] struct_okD(2) [OF ok] me_not_invalid
    by (metis not_None_eq)
  let ?y = "yield_over result_done (objs th a) (reporters w)"
  have aw: "awake_chroutine t i w = (upd_thread t (\<lambda>th. remove_chroutine (snd (snd ?y)) (set_obj a (fst ?y) th))
      (w\<lparr>reporters := fst (snd ?y)\<rparr>), 0)"
    using Some by (simp add: awake_chroutine_def th_def split: prod.splits)
  have so: "get_chroutine j (set_obj a x th) = get_chroutine j th" for j x by (simp add: get_chroutine_def)
  show ?thesis
    using Some inv by (auto simp: aw remove_get so th_def [symmetric])
      (auto simp: yield_over_def set_result_get)
qed

theorem awake_spec_witness:
  "snd (awake_chroutine 3 7 son_world) = -1 \<and>
   get_result 9 (reporters (fst (awake_chroutine 3 1 late_world))) = result_done"
proof
  show "snd (awake_chroutine 3 7 son_world) = -1"
  proof -
    have "get_chroutine 7 (threads son_world 3) = None"
      by (simp add: son_world_def world_after_def son_ops_def sample_ops_def sched_defs pick_defs
          suspend_defs son_defs)
    then show ?thesis using awake_spec [OF son_world_reach, of 3 7] by simp
  qed
  have "get_chroutine 1 (threads late_world 3) = Some 0"
    by (simp add: late_world_def world_after_def son_ops_def sample_ops_def sched_defs pick_defs
        suspend_defs son_defs)
  then show "get_result 9 (reporters (fst (awake_chroutine 3 1 late_world))) = result_done"
    using awake_spec [OF late_world_reach, of 3 1] by auto
qed

text \<open>Creation. A thread that is shifting, blocked or finished, or a null function, makes
  \<^verbatim>\<open>create_chroutine\<close> return \<^verbatim>\<open>INVALID_ID\<close> and change nothing; otherwise the id is new on every thread,
  the chroutine is appended to the run queue, due at once, with its function and argument, and no
  other chroutine changes.\<close>

theorem create_spec:
  fixes t :: addr
  assumes r: "reach m w" and ids: "ids_left w"
  defines "th \<equiv> threads w t"
  shows "if f = None \<or> state_value (m_state th) > state_value thread_state_t_running
    then create_chroutine t f x w = (w, INVALID_ID)
    else (\<exists>w' i c. create_chroutine t f x w = (w', i) \<and> 0 < i \<and>
      (\<forall>t'. get_chroutine i (threads w t') = None) \<and>
      queue (threads w' t) = queue th @ [c] \<and> me c = i \<and> func c = f \<and> arg c = x \<and> (\<forall>now. due now c) \<and>
      state c = chroutine_state_ready \<and> ctx c = Some \<lparr>resume = Fresh t, uc_link = t, ss_size = STACK_SIZE\<rparr> \<and>
      (\<forall>j. j \<noteq> i \<longrightarrow> get_chroutine j (threads w' t) = get_chroutine j th) \<and>
      (\<forall>t'. t' \<noteq> t \<longrightarrow> threads w' t' = threads w t'))"
proof (cases "f = None \<or> state_value (m_state th) > state_value thread_state_t_running")
  case True
  then show ?thesis by (auto simp: create_chroutine_def th_def Let_def split: option.splits)
next
  case False
  note wok = reach_world_ok [OF r]
  obtain w' i where cr: "create_chroutine t f x w = (w', i)" by fastforce
  then show ?thesis
  proof (cases rule: create_chroutine_cases)
    case refused
    then show ?thesis using False by (simp add: th_def)
  next
    case (created g c)
    have i: "i = ms_chroutine_id w + 1" "0 < i"
      using gen_chroutine_id_fresh [of w] world_okD(1) [OF wok] ids created by (simp_all add: ids_left_def)
    have new: "get_chroutine i (threads w t') = None" for t'
      using fresh_id [OF world_okD(2) [OF wok], of i t'] i by (simp add: get_chroutine_def)
    have th': "threads w' t = add_obj c th" using created i by (simp add: add_obj_def th_def)
    have "queue (threads w' t) = queue th @ [c]"
      using queue_add_obj [OF world_okD(3) [OF wok]] th' by (simp add: th_def)
    moreover have "get_chroutine j (threads w' t) = get_chroutine j th" if "j \<noteq> i" for j
      using that created by (simp add: th_def get_chroutine_def)
    moreover have "me c = i" "func c = f" "arg c = x" "due now c" "state c = chroutine_state_ready"
      "ctx c = Some \<lparr>resume = Fresh t, uc_link = t, ss_size = STACK_SIZE\<rparr>" for now
      using created by (simp_all add: due_def)
    ultimately show ?thesis
      unfolding if_not_P [OF False] using cr i(2) new create_frame(2) [OF cr] by blast
  qed
qed

theorem create_spec_witness:
  "\<exists>c. queue (threads (fst (create_chroutine 3 (Some (User 4)) nullptr sample_world)) 3) =
     queue (threads sample_world 3) @ [c] \<and> func c = Some (User 4)"
proof -
  have "ids_left sample_world" by (simp add: ids_left_def)
  from create_spec [OF sample_world_reach this, of "Some (User 4)" 3 nullptr] show ?thesis by auto
qed

text \<open>A chroutine must not wake its own waiting father. \<^verbatim>\<open>awake_chroutine\<close> then removes the caller
  itself from the index while it runs; from then on its yields and sleeps return without suspending it,
  so it keeps the thread until its function returns.\<close>

theorem awake_own_father:
  assumes r: "reach False w" and cpu: "cpu (threads w t) = Some (p, a)"
    and f: "get_chroutine i (threads w t) = Some f"
    and wait: "yield_to (objs (threads w t) f) \<noteq> 0" "stop_son_when_yield_over (objs (threads w t) f)"
    and son: "son (objs (threads w t) f) = running_id (threads w t)"
  defines "th' \<equiv> threads (fst (awake_chroutine t i w)) t"
  shows "get_chroutine (running_id th') th' = None \<and> running_id th' \<noteq> INVALID_ID \<and>
    (\<forall>n now. cpu (thread_yield n th') = Some (p, a) \<and> cpu (thread_sleep now n th') = Some (p, a) \<and>
      cpu (thread_wait now n th') = Some (p, a))"
proof -
  note ok = reach_thread_ok [OF r, of t]
  let ?y = "yield_over result_done (objs (threads w t) f) (reporters w)"
  have s: "snd (snd ?y) = running_id (threads w t)" using wait son by (simp add: yield_over_def)
  have th': "th' = remove_chroutine (running_id (threads w t)) (set_obj f (fst ?y) (threads w t))"
    using f s by (auto simp: th'_def awake_chroutine_def split: prod.splits)
  have m: "chroutines_map th' (running_id th') = None" "running_id th' = running_id (threads w t)"
    "cpu th' = Some (p, a)"
    using cpu by (simp_all add: th' remove_map)
  have "cpu (suspend_current g th') = Some (p, a)" for g
    using m by (simp add: suspend_current_def)
  then show ?thesis
    using m thread_ok_running(2) [OF ok cpu]
    by (simp add: get_chroutine_def thread_yield_def yield_current_def thread_sleep_def thread_wait_def
        wait_current_def)
qed

theorem awake_own_father_witness:
  "cpu (thread_yield 1 (threads (fst (awake_chroutine 3 1 son_world)) 3)) = Some (3, 2)"
  using awake_own_father [OF son_world_reach son_thread(1,3)] by simp

section \<open>Migration\<close>

text \<open>C7: moving a blocked thread's chroutines loses and duplicates none: all but the running one are
  appended to the other thread's run queue in their order, with their ids, functions and waits, linked
  to the new thread's main context; only the running one stays, and the thread is marked blocked.\<close>

theorem move_conserves:
  assumes r: "reach m w" and ne: "t \<noteq> t'"
  defines "w' \<equiv> move_chroutines_to_thread t t' w"
  shows "queue (threads w' t') = queue (threads w t') @
      map (settled t') (filter (\<lambda>c. me c \<noteq> running_id (threads w t)) (queue (threads w t))) \<and>
    queue (threads w' t) = filter (\<lambda>c. me c = running_id (threads w t)) (queue (threads w t)) \<and>
    m_state (threads w' t) = thread_state_t_blocking \<and>
    (\<forall>u. u \<noteq> t \<and> u \<noteq> t' \<longrightarrow> threads w' u = threads w u)"
  using move_effect(3,4,11) [OF reach_world_ok [OF r] ne [symmetric]] move_frame(1) unfolding w'_def by blast

theorem move_conserves_witness:
  "queue (threads (move_chroutines_to_thread 3 4 sample_world) 4) =
     queue (threads sample_world 4) @
       map (settled 4) (filter (\<lambda>c. me c \<noteq> 1) (queue (threads sample_world 3))) \<and>
   length (queue (threads (move_chroutines_to_thread 3 4 sample_world) 3)) = 1"
  using move_conserves [OF sample_world_reach, of 3 4] by (simp add: queue_def)

text \<open>What \<^verbatim>\<open>swapcontext\<close> into a never started chroutine does: it starts \<^verbatim>\<open>entry\<close> with the thread
  the context was made for.\<close>

lemma swap_fresh:
  assumes "ctx (objs (threads w t') b) = Some u" "resume u = Fresh t"
    and "get_chroutine (running_id (threads w t)) (threads w t) = Some r"
  shows "cpu (threads (swap_to_chroutine t' b w) t') = Some (t, r)"
  using assms by (simp add: swap_to_chroutine_def entry_begin_def)

lemma fold_remove_map:
  "chroutines_map (fold remove_chroutine is th) i = (if i \<in> set is then None else chroutines_map th i)"
  by (induction "is" arbitrary: th) (simp_all add: remove_map)

lemma fold_add_obj_iter [simp]: "sched_iter (fold add_obj cs th) = sched_iter th"
  by (induction cs arbitrary: th) simp_all

lemma move_running:
  assumes wok: "world_ok w" and ne: "t \<noteq> t'"
  defines "w1 \<equiv> move_chroutines_to_thread t t' w"
  shows "get_chroutine (running_id (threads w1 t)) (threads w1 t) =
    get_chroutine (running_id (threads w t)) (threads w t)"
proof -
  have "chroutines_map (threads w1 t) (running_id (threads w t)) = chroutines_map (threads w t) (running_id (threads w t))"
    using move_chroutines_eq [OF world_okD(3) [OF wok] ne [symmetric]] ne
    by (auto simp: w1_def set_state_def movable_def fold_remove_map)
  then show ?thesis using move_effect(7) [OF wok ne [symmetric]] by (simp add: get_chroutine_def w1_def)
qed

text \<open>C8: a chroutine that was moved before it first ran does not run on the new thread. The context
  still starts \<^verbatim>\<open>entry\<close> with the old thread, which looks up that thread's running chroutine: the new
  thread executes the function of the chroutine that blocks the old one, under the moved chroutine's id.\<close>

theorem moved_fresh_runs_blocked:
  assumes r: "reach False w" and ne: "t \<noteq> t'"
    and cpu: "cpu (threads w t) = Some (p, b)" and idle: "cpu (threads w t') = None"
    and empty: "chroutines_sched (threads w t') = []"
    and first: "movable (threads w t) = a # as"
    and fresh: "ctx (objs (threads w t) a) = Some u" "resume u = Fresh t"
    and due: "due now (objs (threads w t) a)"
  defines "w1 \<equiv> move_chroutines_to_thread t t' w"
  shows "\<exists>w2. pick_run_chroutine t' now en w1 = (w2, 1, True) \<and>
    running_id (threads w2 t') = me (objs (threads w t) a) \<and> cpu (threads w2 t') = Some (t, b) \<and>
    cpu (threads w2 t) = Some (t, b)"
proof -
  note ok = reach_thread_ok [OF r] and wok = reach_world_ok [OF r]
  note e = move_effect [OF wok ne [symmetric], folded w1_def]
  let ?th = "threads w t" and ?th1 = "threads w1 t'"
  let ?c = "settled t' (objs ?th a)"
  have run: "running_id ?th1 = INVALID_ID" using e(8) thread_okD(7) [OF ok idle] by simp
  have io: "index_ok ?th1" using struct_okD(1) [OF e(2)] .
  have it: "sched_iter (threads w t') = None"
    using index_okD(4) [OF thread_okD(2) [OF ok [of t']]] empty by (cases "sched_iter (threads w t')") auto
  have "filter (\<lambda>c. me c \<noteq> running_id ?th) (queue ?th) = map (objs ?th) (movable ?th)"
    by (simp add: queue_def movable_def filter_map comp_def)
  then have q: "queue ?th1 = ?c # map (settled t') (map (objs ?th) as)"
    using e(4) empty first by (simp add: queue_def)
  then obtain d ds where s: "chroutines_sched ?th1 = d # ds" and d: "objs ?th1 d = ?c"
    by (auto simp: queue_def map_eq_Cons_conv)
  have "sched_iter ?th1 = None"
    using it move_chroutines_eq [OF world_okD(3) [OF wok] ne [symmetric]] ne by (simp add: w1_def)
  then have up: "upcoming ?th1 = d # ds" using s by (simp add: upcoming_def)
  have dd: "due now (objs ?th1 d)" using due d by (simp add: due_def)
  obtain th2 where ps: "pick_scan now ?th1 = (th2, Some d)"
    using pick_scan_eq [OF io, of now] dd by (simp add: up)
  note sc = pick_scan_sched [OF e(2) ps]
  have o: "objs th2 d = ?c" using sc(6) [of d] d by simp
  obtain th3 rs where pc: "pick_commit en d th2 (reporters w1) = (th3, rs)" by fastforce
  note th3 = pick_commit_eq(1) [OF pc, unfolded o]
  let ?w = "upd_thread t' (\<lambda>_. th3) (w1\<lparr>reporters := rs\<rparr>)"
  have "p = t" using thread_okD(8) [OF ok cpu] by simp
  have gb: "get_chroutine (running_id (threads w1 t)) (threads w1 t) = Some b"
    using move_running [OF wok ne] thread_ok_running(1) [OF ok cpu] by (simp add: w1_def)
  have "ctx (objs th3 d) = Some (u\<lparr>uc_link := t'\<rparr>)" using th3 fresh(1) by simp
  then have "cpu (threads (swap_to_chroutine t' d ?w) t') = Some (t, b)"
    using swap_fresh [of ?w t' d "u\<lparr>uc_link := t'\<rparr>" t b] fresh(2) gb ne by simp
  moreover have "cpu (threads (swap_to_chroutine t' d ?w) t) = Some (t, b)"
    "running_id (threads (swap_to_chroutine t' d ?w) t') = me (objs ?th a)"
    using th3 cpu e(9) \<open>p = t\<close> ne
    by (auto simp: swap_to_chroutine_def entry_begin_def split: option.splits resume_point.splits)
  ultimately show ?thesis using run ps pc by (simp add: pick_run_chroutine_def)
qed

theorem moved_fresh_runs_blocked_witness:
  "\<exists>w2. pick_run_chroutine 4 100 100 (move_chroutines_to_thread 3 4 sample_world) = (w2, 1, True) \<and>
     running_id (threads w2 4) = 2 \<and> cpu (threads w2 4) = Some (3, 0) \<and> cpu (threads w2 3) = Some (3, 0)"
proof -
  have m: "movable (threads sample_world 3) = [1]" by (simp add: movable_def)
  have o: "cpu (threads sample_world 4) = None" "chroutines_sched (threads sample_world 4) = []"
    "ctx (objs (threads sample_world 3) 1) = Some \<lparr>resume = Fresh 3, uc_link = 3, ss_size = STACK_SIZE\<rparr>"
    by (simp_all add: sample_world_def world_after_def sample_ops_def sched_defs pick_defs)
  have d: "due 100 (objs (threads sample_world 3) 1)" by (simp add: due_def)
  show ?thesis
    using moved_fresh_runs_blocked [OF sample_world_reach _ sample_thread(1) o(1,2) m o(3) _ d] by simp
qed


definition stalled_ops :: "thread_op list" where
  "stalled_ops = sample_ops @ [Op_move 3 4, Op_pick 4 0 100 100]"


section \<open>Load and exit\<close>

definition load_ok :: "int \<Rightarrow> load_t \<Rightarrow> bool" where
  "load_ok B l \<longleftrightarrow> 1 \<le> counting_left l \<and> counting_left l \<le> COUNT_CIRCAL \<and> 0 \<le> working l \<and>
     working l \<le> B * (COUNT_CIRCAL - counting_left l) \<and> -1 \<le> last_load l \<and> last_load l \<le> B * COUNT_CIRCAL"

lemma load_update_ok:
  assumes ok: "load_ok B l" and w: "0 \<le> n" "n \<le> B"
  shows "load_ok B (load_update n l)"
proof -
  have B: "0 \<le> B" using w by simp
  have "working l + n \<le> B * (COUNT_CIRCAL - (counting_left l - 1))"
    using ok w by (simp add: load_ok_def algebra_simps)
  moreover have "B * (COUNT_CIRCAL - (counting_left l - 1)) \<le> B * (COUNT_CIRCAL - (counting_left l - 100))"
    "B * (COUNT_CIRCAL - (counting_left l - 1)) \<le> B * COUNT_CIRCAL"
    using B ok by (simp_all add: mult_left_mono load_ok_def)
  ultimately show ?thesis
    using ok w B by (auto simp: load_ok_def load_update_def Let_def COUNT_CIRCAL_def)
qed

text \<open>The load counter. With at most \<open>B\<close> pieces of work per pass of the main loop the reported
  load stays between 0 and \<open>B\<close> (in thousandths); with no selectable objects, where a pass does at most
  one piece of work, it is a fraction between 0 and 1.\<close>

theorem load_bounds:
  assumes "\<forall>n \<in> set ns. 0 \<le> n \<and> n \<le> B" "0 \<le> B"
  shows "0 \<le> load_milli (fold load_update ns init_load) \<and>
    load_milli (fold load_update ns init_load) \<le> B * 1000 \<and>
    1 \<le> counting_left (fold load_update ns init_load) \<and> counting_left (fold load_update ns init_load) \<le> 1000"
proof -
  have "load_ok B l \<Longrightarrow> load_ok B (fold load_update ns l)" for l
    using assms(1) by (induction ns arbitrary: l) (auto intro: load_update_ok)
  then have "load_ok B (fold load_update ns init_load)"
    using assms(2) by (simp add: load_ok_def init_load_def COUNT_CIRCAL_def)
  then show ?thesis using assms(2) by (simp add: load_ok_def load_milli_def COUNT_CIRCAL_def)
qed

theorem load_bounds_witness:
  "load_milli (fold load_update [1, 0, 1, 1, 0, 0, 0, 0, 0, 0, 0, 0, 0, 0] init_load) \<le> 1000"
  using load_bounds [of "[1, 0, 1, 1, 0, 0, 0, 0, 0, 0, 0, 0, 0, 0]" 1] by simp

end
