(* ===== verification/Engine.thy ===== *)
theory Engine
  imports Migration
begin

text \<open>
  The engine (\<^verbatim>\<open>engine_t\<close>, engin/engine.hpp and engine.cpp) and the registration of selectable
  objects (engin/selectable_obj.cpp). The engine record extends the world of threads with the thread
  pool, the start-up state and the special threads.

  \<^item> The singleton \<^verbatim>\<open>engine_t::instance()\<close> is the state; \<open>cur\<close> is \<^verbatim>\<open>std::this_thread::get_id()\<close>
    of the caller. \<open>config_t\<close> holds the build switches \<^verbatim>\<open>ENABLE_EPOLL\<close> and \<^verbatim>\<open>ENABLE_HTTP_PLUGIN\<close>.
  \<^item> \<open>next_addr\<close> allocates thread objects and selectable objects; \<open>deleted\<close> lists the destructor runs
    of selectable objects.
  \<^item> \<^verbatim>\<open>init\<close> is split where other threads may run in between: up to the loop, one iteration of the
    loop, and the part after the waiting loop. \<^verbatim>\<open>create_son_chroutine\<close> with a timeout is split at the
    wait.
\<close>

record config_t =
  enable_epoll :: bool
  enable_http :: bool

record engine_t = world_t +
  m_pool :: "(tid, addr) omap"
  m_creating :: "addr list"
  m_init_over :: bool
  m_dispatch_seed :: int
  m_http_stubs :: "(tid, addr) omap"
  m_main_thread :: "addr option"
  m_epoll_thread :: "addr option"
  m_epoll :: "addr option"
  m_flush_timer :: "addr option"
  next_addr :: addr
  deleted :: "addr list"

text \<open>The static instance before \<^verbatim>\<open>init\<close>.\<close>

definition engine_instance :: engine_t where
  "engine_instance =
     \<lparr>ms_chroutine_id = 0, reporters = (\<lambda>_. \<lparr>data = 0, errcode = result_ready\<rparr>),
      threads = (\<lambda>_. new_thread), m_pool = [], m_creating = [], m_init_over = False,
      m_dispatch_seed = 0, m_http_stubs = [], m_main_thread = None, m_epoll_thread = None,
      m_epoll = None, m_flush_timer = None, next_addr = 1, deleted = []\<rparr>"

section \<open>Finding a thread\<close>

definition get_thread_by_id :: "tid \<Rightarrow> engine_t \<Rightarrow> addr option" where
  "get_thread_by_id i e =
     (if \<not> m_init_over e then None
      else case m_main_thread e of
        Some m \<Rightarrow>
          (if i = m_std_thread_id (threads e m) then Some m
           else case m_epoll_thread e of
             Some p \<Rightarrow> (if i = m_std_thread_id (threads e p) then Some p else omap_find i (m_pool e))
           | None \<Rightarrow> omap_find i (m_pool e))
      | None \<Rightarrow>
          (case m_epoll_thread e of
             Some p \<Rightarrow> (if i = m_std_thread_id (threads e p) then Some p else omap_find i (m_pool e))
           | None \<Rightarrow> omap_find i (m_pool e)))"

definition get_current_thread :: "tid \<Rightarrow> engine_t \<Rightarrow> addr option" where
  "get_current_thread cur e = get_thread_by_id cur e"

text \<open>\<^verbatim>\<open>m_dispatch_seed++ % m_creating.size()\<close>: the \<^verbatim>\<open>int\<close> is converted to \<^verbatim>\<open>size_t\<close>; its increment is
  taken to wrap at 32 bits.\<close>

definition next_seed :: "int \<Rightarrow> int" where
  "next_seed s = (if s = 2 ^ 31 - 1 then - (2 ^ 31) else s + 1)"

definition seed_index :: "int \<Rightarrow> nat \<Rightarrow> nat" where
  "seed_index s n = nat ((s mod 2 ^ 64) mod int n)"

definition get_lightest_thread :: "engine_t \<Rightarrow> engine_t \<times> addr option" where
  "get_lightest_thread e =
     (if \<not> m_init_over e then (e, None)
      else if m_creating e = [] then (e, None)
      else (e\<lparr>m_dispatch_seed := next_seed (m_dispatch_seed e)\<rparr>,
            Some (m_creating e ! seed_index (m_dispatch_seed e) (length (m_creating e)))))"

section \<open>Selectable objects\<close>

definition register_select_obj :: "addr option \<Rightarrow> tid \<Rightarrow> tid \<Rightarrow> engine_t \<Rightarrow> engine_t \<times> int" where
  "register_select_obj p i cur e =
     (case (if i = NULL_THREAD_ID then get_current_thread cur e else get_thread_by_id i e) of
        None \<Rightarrow> (e, -1)
      | Some t \<Rightarrow> (upd_thread t (register_selector p) e, 0))"

definition unregister_select_obj :: "addr \<Rightarrow> tid \<Rightarrow> tid \<Rightarrow> engine_t \<Rightarrow> engine_t \<times> int" where
  "unregister_select_obj key i cur e =
     (case (if i = NULL_THREAD_ID then get_current_thread cur e else get_thread_by_id i e) of
        None \<Rightarrow> (e, -1)
      | Some t \<Rightarrow> (upd_thread t (unregister_selector key) e, 0))"

text \<open>\<^verbatim>\<open>register_to_engin\<close> wraps \<^verbatim>\<open>this\<close> into a shared pointer; on failure the pointer goes out of
  scope and deletes the object.\<close>

definition register_to_engin :: "addr \<Rightarrow> tid \<Rightarrow> tid \<Rightarrow> engine_t \<Rightarrow> engine_t \<times> addr option" where
  "register_to_engin p i cur e =
     (case register_select_obj (Some p) i cur e of
        (e1, r) \<Rightarrow> (if r = 0 then (e1, Some p) else (e1\<lparr>deleted := deleted e1 @ [p]\<rparr>, None)))"

definition unregister_from_engin :: "addr \<Rightarrow> tid \<Rightarrow> tid \<Rightarrow> engine_t \<Rightarrow> engine_t \<times> int" where
  "unregister_from_engin p i cur e = unregister_select_obj p i cur e"

text \<open>The \<^verbatim>\<open>create\<close> functions of the selectable classes: a new object, its registration, and
  \<^verbatim>\<open>delete p_this\<close> when it failed.\<close>

definition create_selectable :: "tid \<Rightarrow> tid \<Rightarrow> engine_t \<Rightarrow> engine_t \<times> addr option" where
  "create_selectable i cur e =
     (let p = next_addr e
      in case register_to_engin p i cur (e\<lparr>next_addr := Suc p\<rparr>) of
           (e1, None) \<Rightarrow> (e1\<lparr>deleted := deleted e1 @ [p]\<rparr>, None)
         | (e1, Some q) \<Rightarrow> (e1, Some q))"

section \<open>Start-up\<close>

definition alloc_thread :: "thread_type_t \<Rightarrow> engine_t \<Rightarrow> engine_t \<times> addr" where
  "alloc_thread ty e =
     (let a = next_addr e
      in (upd_thread a (\<lambda>_. set_type ty new_thread) (e\<lparr>next_addr := Suc a\<rparr>), a))"

text \<open>\<^verbatim>\<open>init\<close> up to its loop; \<open>None\<close> when it returns at once.\<close>

definition engine_init_enter :: "config_t \<Rightarrow> engine_t \<Rightarrow> engine_t option" where
  "engine_init_enter cfg e =
     (if m_creating e \<noteq> [] then None
      else if enable_epoll cfg
           then (let (e1, a) = alloc_thread epoll_type e
                 in Some (upd_thread a (\<lambda>th. fst (thread_start 0 th)) (e1\<lparr>m_epoll_thread := Some a\<rparr>)))
           else Some e)"

text \<open>The loop body for index \<open>i\<close>: the new thread is listed, then started.\<close>

definition engine_init_push :: "nat \<Rightarrow> engine_t \<Rightarrow> engine_t" where
  "engine_init_push i e =
     (let (e1, a) = alloc_thread worker e
      in upd_thread a (\<lambda>th. fst (thread_start i th)) (e1\<lparr>m_creating := m_creating e1 @ [a]\<rparr>))"

text \<open>What follows the loop that waits for \<^verbatim>\<open>m_init_over\<close>.\<close>

definition engine_init_finish :: "engine_t \<Rightarrow> engine_t option" where
  "engine_init_finish e =
     (if m_init_over e
      then (let (e1, a) = alloc_thread main_type e in Some (e1\<lparr>m_main_thread := Some a\<rparr>))
      else None)"

definition curl_stub_create :: "tid \<Rightarrow> tid \<Rightarrow> engine_t \<Rightarrow> engine_t" where
  "curl_stub_create cur i e =
     (case create_selectable i cur e of
        (e1, None) \<Rightarrow> e1
      | (e1, Some q) \<Rightarrow> e1\<lparr>m_http_stubs := omap_put i q (m_http_stubs e1)\<rparr>)"

definition epoll_thread_id :: "engine_t \<Rightarrow> tid" where
  "epoll_thread_id e =
     (case m_epoll_thread e of None \<Rightarrow> NULL_THREAD_ID | Some p \<Rightarrow> m_std_thread_id (threads e p))"

text \<open>\<^verbatim>\<open>epoll_t::create\<close> with its assertion; \<open>None\<close> is the abort.\<close>

definition epoll_create :: "tid \<Rightarrow> engine_t \<Rightarrow> engine_t option" where
  "epoll_create cur e =
     (if epoll_thread_id e = NULL_THREAD_ID then None
      else (let (e1, q) = create_selectable (epoll_thread_id e) cur e in Some (e1\<lparr>m_epoll := q\<rparr>)))"

text \<open>\<^verbatim>\<open>on_thread_ready\<close>, called by a worker on entering \<^verbatim>\<open>schedule\<close>. \<open>None\<close>: the
  assertion in \<^verbatim>\<open>epoll_t::create\<close> fails, or \<^verbatim>\<open>m_creating\<close> is read out of range (\<^verbatim>\<open>size() - 1\<close>
  wraps for an empty vector).\<close>

definition on_thread_ready :: "config_t \<Rightarrow> nat \<Rightarrow> tid \<Rightarrow> engine_t \<Rightarrow> engine_t option" where
  "on_thread_ready cfg idx i e =
     (if int idx > (int (length (m_creating e)) - 1) mod 2 ^ 64 then Some e
      else if length (m_creating e) \<le> idx then None
      else (let e1 = e\<lparr>m_pool := omap_put i (m_creating e ! idx) (m_pool e)\<rparr>
            in if length (m_pool e1) = length (m_creating e1)
               then (let e2 = e1\<lparr>m_init_over := True\<rparr>;
                         e3 = (if enable_http cfg
                               then fold (curl_stub_create i) (map fst (m_pool e2)) e2 else e2)
                     in if enable_epoll cfg then epoll_create i e3 else Some e3)
               else Some e1))"

text \<open>A started worker thread \<open>a\<close> begins \<^verbatim>\<open>schedule\<close> as OS thread \<open>i\<close>.\<close>

definition worker_enter :: "config_t \<Rightarrow> addr \<Rightarrow> tid \<Rightarrow> engine_t \<Rightarrow> engine_t option" where
  "worker_enter cfg a i e =
     on_thread_ready cfg (m_creating_index (threads e a)) i (upd_thread a (schedule_enter i) e)"

section \<open>Calls made by chroutines and applications\<close>

definition engine_yield :: "int \<Rightarrow> tid \<Rightarrow> engine_t \<Rightarrow> engine_t" where
  "engine_yield tck cur e =
     (case get_current_thread cur e of None \<Rightarrow> e | Some t \<Rightarrow> upd_thread t (thread_yield tck) e)"

definition engine_wait :: "int \<Rightarrow> int \<Rightarrow> tid \<Rightarrow> engine_t \<Rightarrow> engine_t" where
  "engine_wait now ms cur e =
     (case get_current_thread cur e of None \<Rightarrow> e | Some t \<Rightarrow> upd_thread t (thread_wait now ms) e)"

definition engine_sleep :: "int \<Rightarrow> int \<Rightarrow> tid \<Rightarrow> engine_t \<Rightarrow> engine_t" where
  "engine_sleep now ms cur e =
     (case get_current_thread cur e of None \<Rightarrow> e | Some t \<Rightarrow> upd_thread t (thread_sleep now ms) e)"

text \<open>\<^verbatim>\<open>HOLD()\<close>\<close>

definition HOLD_MS :: int where
  "HOLD_MS = 0xDC46C32800"

definition engine_create_chroutine :: "func_t option \<Rightarrow> void_ptr \<Rightarrow> engine_t \<Rightarrow> engine_t \<times> int" where
  "engine_create_chroutine f x e =
     (case get_lightest_thread e of
        (e1, None) \<Rightarrow> (e1, INVALID_ID)
      | (e1, Some t) \<Rightarrow> create_chroutine t f x e1)"

definition create_chroutine_in_mainthread ::
  "func_t option \<Rightarrow> void_ptr \<Rightarrow> engine_t \<Rightarrow> engine_t \<times> int" where
  "create_chroutine_in_mainthread f x e =
     (case m_main_thread e of None \<Rightarrow> (e, INVALID_ID) | Some t \<Rightarrow> create_chroutine t f x e)"

definition engine_create_son :: "func_t option \<Rightarrow> void_ptr \<Rightarrow> tid \<Rightarrow> engine_t \<Rightarrow> engine_t \<times> int" where
  "engine_create_son f x cur e =
     (case get_current_thread cur e of None \<Rightarrow> (e, INVALID_ID) | Some t \<Rightarrow> create_chroutine t f x e)"

text \<open>\<^verbatim>\<open>create_son_chroutine(func, reporter, timeout_ms)\<close> up to the wait: \<open>Inl\<close> is its result when it
  returns without waiting, \<open>Inr t\<close> the thread on which \<open>create_son_report_end\<close> follows once the
  father runs again.\<close>

definition create_son_report_begin ::
  "func_t option \<Rightarrow> addr \<Rightarrow> int \<Rightarrow> int \<Rightarrow> tid \<Rightarrow> engine_t \<Rightarrow> engine_t \<times> (addr option + addr)" where
  "create_son_report_begin f r timeout_ms now cur e =
     (if timeout_ms = 0 then (fst (engine_create_son f nullptr cur e), Inl None)
      else case get_current_thread cur e of
        None \<Rightarrow> (e, Inl None)
      | Some t \<Rightarrow> (upd_thread t (thread_wait now timeout_ms) (fst (create_son_chroutine t f r e)), Inr t))"

definition create_son_report_end :: "addr \<Rightarrow> engine_t \<Rightarrow> addr option" where
  "create_son_report_end t e = get_current_reporter (threads e t)"

definition get_my_reporter :: "tid \<Rightarrow> engine_t \<Rightarrow> addr option" where
  "get_my_reporter cur e =
     (case get_current_thread cur e of None \<Rightarrow> None | Some t \<Rightarrow> get_current_reporter (threads e t))"

definition get_current_chroutine_id :: "tid \<Rightarrow> engine_t \<Rightarrow> int" where
  "get_current_chroutine_id cur e =
     (case get_current_thread cur e of None \<Rightarrow> INVALID_ID | Some t \<Rightarrow> running_id (threads e t))"

definition engine_awake :: "int \<Rightarrow> tid \<Rightarrow> engine_t \<Rightarrow> engine_t \<times> int" where
  "engine_awake i cur e =
     (case get_current_thread cur e of None \<Rightarrow> (e, -1) | Some t \<Rightarrow> awake_chroutine t i e)"

definition engine_awake_on :: "tid \<Rightarrow> int \<Rightarrow> engine_t \<Rightarrow> engine_t \<times> int" where
  "engine_awake_on th_id i e =
     (case get_thread_by_id th_id e of None \<Rightarrow> (e, -1) | Some t \<Rightarrow> awake_chroutine t i e)"

section \<open>Supervision of the workers\<close>

definition MAX_ENTRY_CALL_TIME_MS :: int where
  "MAX_ENTRY_CALL_TIME_MS = 500"

definition ENTRY_CALL_CHECK_TIMER_MS :: int where
  "ENTRY_CALL_CHECK_TIMER_MS = MAX_ENTRY_CALL_TIME_MS div 2"

fun check_loop ::
  "int \<Rightarrow> addr list \<Rightarrow> engine_t \<Rightarrow> addr list \<Rightarrow> addr list \<Rightarrow> engine_t \<times> addr list \<times> addr list" where
  "check_loop now [] e goods bads = (e, goods, bads)"
| "check_loop now (t # ts) e goods bads =
     (let th = threads e t in
      if m_entry_time th \<noteq> 0 \<and> now > MAX_ENTRY_CALL_TIME_MS + m_entry_time th
      then (if m_state th = thread_state_t_running then check_loop now ts e goods (bads @ [t])
            else check_loop now ts e goods bads)
      else (if m_state th = thread_state_t_blocking
            then check_loop now ts (upd_thread t (set_state thread_state_t_running) e) goods bads
            else check_loop now ts e (goods @ [t]) bads))"

fun move_bads :: "addr list \<Rightarrow> nat \<Rightarrow> addr list \<Rightarrow> engine_t \<Rightarrow> engine_t" where
  "move_bads goods k [] e = e"
| "move_bads goods k (b # bs) e =
     move_bads goods (Suc k) bs (move_chroutines_to_thread b (goods ! (k mod length goods)) e)"

definition check_threads :: "int \<Rightarrow> engine_t \<Rightarrow> engine_t" where
  "check_threads now e =
     (case check_loop now (map snd (m_pool e)) e [] [] of
        (e1, goods, bads) \<Rightarrow> (if bads = [] \<or> goods = [] then e1 else move_bads goods 0 bads e1))"

section \<open>Stopping\<close>

definition stop_main :: "engine_t \<Rightarrow> engine_t" where
  "stop_main e = fst (create_chroutine_in_mainthread (Some Stop_main_task) nullptr e)"

definition stop_all :: "engine_t \<Rightarrow> engine_t" where
  "stop_all e = stop_main (fold (\<lambda>t. upd_thread t thread_stop) (map snd (m_pool e)) e)"

end
