(* ===== verification/Engine_Props.thy ===== *)
theory Engine_Props
  imports Engine Thread_Props
begin

text \<open>
  Properties of the engine: round-robin dispatch, start-up of the pool and its races, registration of
  selectable objects, and the supervision that moves chroutines away from blocked workers.
\<close>

section \<open>Dispatch\<close>

lemma seed_index_nonneg: "0 \<le> s \<Longrightarrow> s < 2 ^ 31 \<Longrightarrow> seed_index s n = nat s mod n"
  by (simp add: seed_index_def nat_mod_distrib)

lemma seed_index_less: "0 < n \<Longrightarrow> seed_index s n < n"
  by (simp add: seed_index_def) (metis of_nat_0_less_iff nat_less_iff pos_mod_bound pos_mod_sign)

fun dispatches :: "nat \<Rightarrow> engine_t \<Rightarrow> addr option list" where
  "dispatches 0 e = []"
| "dispatches (Suc k) e = (let (e', r) = get_lightest_thread e in r # dispatches k e')"

lemma dispatches_eq:
  assumes "m_init_over e" "m_creating e \<noteq> []" "0 \<le> m_dispatch_seed e" "m_dispatch_seed e + int k \<le> 2 ^ 31"
  shows "dispatches k e = map (\<lambda>j. Some (m_creating e ! ((nat (m_dispatch_seed e) + j) mod length (m_creating e)))) [0..<k]"
  using assms
proof (induction k arbitrary: e)
  case (Suc k)
  let ?e = "e\<lparr>m_dispatch_seed := next_seed (m_dispatch_seed e)\<rparr>"
  have r: "get_lightest_thread e =
      (?e, Some (m_creating e ! (nat (m_dispatch_seed e) mod length (m_creating e))))"
    using Suc.prems by (simp add: get_lightest_thread_def seed_index_nonneg)
  show ?case
  proof (cases k)
    case 0
    then show ?thesis using r by simp
  next
    case (Suc k')
    then have s: "next_seed (m_dispatch_seed e) = m_dispatch_seed e + 1"
      using Suc.prems by (simp add: next_seed_def)
    have "dispatches k ?e = map (\<lambda>j. Some (m_creating e ! ((nat (m_dispatch_seed e + 1) + j) mod length (m_creating e)))) [0..<k]"
      using Suc.IH [of ?e] Suc.prems s by simp
    moreover have "nat (m_dispatch_seed e + 1) + j = nat (m_dispatch_seed e) + Suc j" for j
      using Suc.prems by simp
    moreover have "[0..<Suc k] = 0 # map Suc [0..<k]" by (simp add: map_Suc_upt upt_conv_Cons del: upt_Suc)
    ultimately show ?thesis using r by (simp add: comp_def del: upt_Suc)
  qed
qed simp

lemma mod_image: "0 < n \<Longrightarrow> (\<lambda>j. (s + j) mod n) ` {..<n} = {..<(n::nat)}"
proof -
  assume n: "0 < n"
  have "inj_on (\<lambda>j. (s + j) mod n) {..<n}"
  proof (rule inj_onI)
    fix i j assume a: "i \<in> {..<n}" "j \<in> {..<n}" "(s + i) mod n = (s + j) mod n"
    then obtain q1 q2 where "s + i + n * q1 = s + j + n * q2" using nat_mod_eq_iff by blast
    then have "(i + n * q1) mod n = (j + n * q2) mod n" by simp
    then show "i = j" using a by simp
  qed
  then have "card ((\<lambda>j. (s + j) mod n) ` {..<n}) = n" by (simp add: card_image)
  moreover have "(\<lambda>j. (s + j) mod n) ` {..<n} \<subseteq> {..<n}" using n by auto
  ultimately show ?thesis using card_subset_eq [of "{..<n}"] by simp
qed

text \<open>New chroutines are dealt to the workers in turn: as long as the 32-bit dispatch counter does
  not overflow, as many consecutive dispatches as there are workers choose each worker exactly once.\<close>

theorem dispatch_round_robin:
  assumes "m_init_over e" "m_creating e = ts" "ts \<noteq> []" "distinct ts"
    and "0 \<le> m_dispatch_seed e" "m_dispatch_seed e + int (length ts) \<le> 2 ^ 31"
  shows "distinct (dispatches (length ts) e) \<and> set (dispatches (length ts) e) = Some ` set ts"
proof -
  let ?n = "length ts" and ?s = "nat (m_dispatch_seed e)"
  have d: "dispatches ?n e = map (\<lambda>j. Some (ts ! ((?s + j) mod ?n))) [0..<?n]"
    using dispatches_eq [of e ?n] assms by simp
  have n: "0 < ?n" using assms(3) by simp
  have "set (dispatches ?n e) = Some ` (!) ts ` (\<lambda>j. (?s + j) mod ?n) ` {..<?n}"
    unfolding d by (simp add: image_image lessThan_atLeast0)
  also have "\<dots> = Some ` set ts"
    unfolding mod_image [OF n] by (auto simp: set_conv_nth image_iff)
  finally have s: "set (dispatches ?n e) = Some ` set ts" .
  then have "card (set (dispatches ?n e)) = length (dispatches ?n e)"
    using assms(4) by (simp add: d card_image distinct_card)
  then show ?thesis using s card_distinct by blast
qed

theorem dispatch_round_robin_witness:
  "set (dispatches 3 (engine_instance\<lparr>m_init_over := True, m_creating := [4, 5, 6], m_dispatch_seed := 7\<rparr>)) =
     {Some 4, Some 5, Some 6}"
  using dispatch_round_robin
    [of "engine_instance\<lparr>m_init_over := True, m_creating := [4, 5, 6], m_dispatch_seed := 7\<rparr>" "[4, 5, 6]"]
  by (simp add: numeral_3_eq_3 del: dispatches.simps)

text \<open>The worker that is next in turn gets the chroutine even if it is blocked, finished or being
  emptied: creation then fails with \<^verbatim>\<open>INVALID_ID\<close> although other workers are running.\<close>

theorem dispatch_ignores_state:
  assumes "m_init_over e" "m_creating e \<noteq> []"
    and "state_value thread_state_t_running <
      state_value (m_state (threads e (m_creating e ! seed_index (m_dispatch_seed e) (length (m_creating e)))))"
  shows "snd (engine_create_chroutine f x e) = INVALID_ID \<and>
    threads (fst (engine_create_chroutine f x e)) = threads e"
  using assms by (simp add: engine_create_chroutine_def get_lightest_thread_def create_chroutine_def)

theorem dispatch_ignores_state_witness:
  "snd (engine_create_chroutine (Some (User 0)) nullptr
     (engine_instance\<lparr>m_init_over := True, m_creating := [4, 5],
        threads := (\<lambda>_. new_thread)(4 := set_state thread_state_t_blocking new_thread)\<rparr>)) = INVALID_ID"
  using dispatch_ignores_state [of "engine_instance\<lparr>m_init_over := True, m_creating := [4, 5],
        threads := (\<lambda>_. new_thread)(4 := set_state thread_state_t_blocking new_thread)\<rparr>" "Some (User 0)" nullptr]
  by (simp add: engine_instance_def seed_index_def set_state_def)

section \<open>Registration\<close>

text \<open>When a selectable object cannot be registered (no such thread, or the engine is not ready),
  \<^verbatim>\<open>create\<close> returns null after the object was deleted twice, by the shared pointer in
  \<^verbatim>\<open>register_to_engin\<close> and by \<^verbatim>\<open>create\<close> itself; when it can, it is deleted never, and the thread's
  selector list has it.\<close>

theorem create_selectable_spec:
  "case (if i = NULL_THREAD_ID then get_current_thread cur e else get_thread_by_id i e) of
      None \<Rightarrow> snd (create_selectable i cur e) = None \<and>
        deleted (fst (create_selectable i cur e)) = deleted e @ [next_addr e, next_addr e]
    | Some a \<Rightarrow> snd (create_selectable i cur e) = Some (next_addr e) \<and>
        deleted (fst (create_selectable i cur e)) = deleted e \<and>
        omap_find (next_addr e) (m_selector_list (threads (fst (create_selectable i cur e)) a)) \<noteq> None"
proof -
  have g: "get_thread_by_id i (e\<lparr>next_addr := x\<rparr>) = get_thread_by_id i e" for i x
    by (simp add: get_thread_by_id_def cong: option.case_cong if_cong)
  then have g': "get_current_thread i (e\<lparr>next_addr := x\<rparr>) = get_current_thread i e" for i x
    by (simp add: get_current_thread_def)
  have d: "deleted (upd_thread a f e') = deleted e'" for a f e' by (simp add: upd_thread_def)
  show ?thesis
    unfolding create_selectable_def register_to_engin_def register_select_obj_def Let_def g g'
    by (auto simp: d register_selector_def omap_find_put split: option.splits)
qed

section \<open>Start-up\<close>

lemma length_omap_put:
  "omap_ok m \<Longrightarrow> length (omap_put k v m) = (if omap_find k m = None then Suc (length m) else length m)"
proof (induction m)
  case (Cons p m)
  then show ?case by (cases p) (auto, fastforce dest: omap_find_in_set)
qed simp

lemma create_selectable_frame:
  "m_pool (fst (create_selectable i cur e)) = m_pool e"
  "m_creating (fst (create_selectable i cur e)) = m_creating e"
  "m_init_over (fst (create_selectable i cur e)) = m_init_over e"
  "m_epoll_thread (fst (create_selectable i cur e)) = m_epoll_thread e"
  "m_std_thread_id (threads (fst (create_selectable i cur e)) a) = m_std_thread_id (threads e a)"
  by (auto simp: create_selectable_def register_to_engin_def register_select_obj_def Let_def upd_thread_def
      register_selector_def split: option.splits prod.splits)

lemma epoll_thread_id_frame [simp]:
  "epoll_thread_id (e\<lparr>m_pool := x1\<rparr>) = epoll_thread_id e"
  "epoll_thread_id (e\<lparr>m_init_over := x2\<rparr>) = epoll_thread_id e"
  "epoll_thread_id (e\<lparr>m_epoll := x3\<rparr>) = epoll_thread_id e"
  "epoll_thread_id (e\<lparr>m_http_stubs := x4\<rparr>) = epoll_thread_id e"
  by (simp_all add: epoll_thread_id_def cong: option.case_cong)

lemma engine_init_push_frame [simp]:
  "m_pool (engine_init_push i e) = m_pool e" "m_init_over (engine_init_push i e) = m_init_over e"
  "m_creating (engine_init_push i e) = m_creating e @ [next_addr e]"
  "next_addr (engine_init_push i e) = Suc (next_addr e)" "m_epoll_thread (engine_init_push i e) = m_epoll_thread e"
  by (simp_all add: engine_init_push_def alloc_thread_def upd_thread_def Let_def)

lemma engine_instance_simps [simp]:
  "m_pool engine_instance = []" "\<not> m_init_over engine_instance" "m_creating engine_instance = []"
  "m_epoll_thread engine_instance = None" "next_addr engine_instance = 1"
  by (simp_all add: engine_instance_def)

lemma curl_stub_create_frame [simp]:
  "m_pool (curl_stub_create cur i e) = m_pool e" "m_creating (curl_stub_create cur i e) = m_creating e"
  "m_init_over (curl_stub_create cur i e) = m_init_over e"
  "epoll_thread_id (curl_stub_create cur i e) = epoll_thread_id e"
proof -
  obtain e1 q where "create_selectable i cur e = (e1, q)" by fastforce
  then show "m_pool (curl_stub_create cur i e) = m_pool e" "m_creating (curl_stub_create cur i e) = m_creating e"
    "m_init_over (curl_stub_create cur i e) = m_init_over e"
    "epoll_thread_id (curl_stub_create cur i e) = epoll_thread_id e"
    using create_selectable_frame [where i = i and cur = cur and e = e]
    by (auto simp: curl_stub_create_def epoll_thread_id_def split: option.splits)
qed

lemma fold_stubs_frame [simp]:
  "m_pool (fold (curl_stub_create cur) is e) = m_pool e" "m_creating (fold (curl_stub_create cur) is e) = m_creating e"
  "m_init_over (fold (curl_stub_create cur) is e) = m_init_over e"
  "epoll_thread_id (fold (curl_stub_create cur) is e) = epoll_thread_id e"
  by (induction "is" arbitrary: e) simp_all

lemma epoll_create_some:
  assumes "epoll_thread_id e \<noteq> NULL_THREAD_ID"
  obtains e' where "epoll_create cur e = Some e'" "m_pool e' = m_pool e" "m_creating e' = m_creating e"
    "m_init_over e' = m_init_over e" "epoll_thread_id e' = epoll_thread_id e"
proof -
  obtain e1 q where c: "create_selectable (epoll_thread_id e) cur e = (e1, q)" by fastforce
  have "epoll_create cur e = Some (e1\<lparr>m_epoll := q\<rparr>)" using assms c by (simp add: epoll_create_def)
  then show ?thesis
    using that create_selectable_frame [where i = "epoll_thread_id e" and cur = cur and e = e] c
    by (simp add: epoll_thread_id_def cong: option.case_cong)
qed

text \<open>One worker reports in.\<close>

lemma on_thread_ready_some:
  fixes i :: tid
  assumes idx: "idx < length (m_creating e)" and len: "length (m_creating e) \<le> 2 ^ 64"
    and ep: "enable_epoll cfg \<longrightarrow> epoll_thread_id e \<noteq> NULL_THREAD_ID"
  defines "pool \<equiv> omap_put i (m_creating e ! idx) (m_pool e)"
  obtains e' where "on_thread_ready cfg idx i e = Some e'" "m_pool e' = pool" "m_creating e' = m_creating e"
    "m_init_over e' \<longleftrightarrow> m_init_over e \<or> length pool = length (m_creating e)"
    "epoll_thread_id e' = epoll_thread_id e"
proof -
  have "int (length (m_creating e)) \<le> int (2 ^ 64)" using len by (simp only: of_nat_le_iff)
  then have "(int (length (m_creating e)) - 1) mod 2 ^ 64 = int (length (m_creating e)) - 1"
    using idx by (intro mod_pos_pos_trivial) auto
  then have g: "\<not> int idx > (int (length (m_creating e)) - 1) mod 2 ^ 64" using idx by simp
  let ?e1 = "e\<lparr>m_pool := pool\<rparr>"
  show ?thesis
  proof (cases "length pool = length (m_creating e)")
    case False
    then have "on_thread_ready cfg idx i e = Some ?e1"
      using g idx by (simp add: on_thread_ready_def Let_def pool_def)
    then show ?thesis using that [of ?e1] False by simp
  next
    case True
    let ?e3 = "if enable_http cfg then fold (curl_stub_create i) (map fst pool) (?e1\<lparr>m_init_over := True\<rparr>)
      else ?e1\<lparr>m_init_over := True\<rparr>"
    have r: "on_thread_ready cfg idx i e = (if enable_epoll cfg then epoll_create i ?e3 else Some ?e3)"
      using g idx True by (simp add: on_thread_ready_def Let_def pool_def)
    have f: "m_pool ?e3 = pool" "m_creating ?e3 = m_creating e" "m_init_over ?e3"
      "epoll_thread_id ?e3 = epoll_thread_id e"
      by simp_all
    show ?thesis
    proof (cases "enable_epoll cfg")
      case en: True
      then obtain e' where e': "epoll_create i ?e3 = Some e'" "m_pool e' = m_pool ?e3" "m_creating e' = m_creating ?e3"
        "m_init_over e' = m_init_over ?e3" "epoll_thread_id e' = epoll_thread_id ?e3"
        using epoll_create_some [of ?e3 i] ep f(4) by metis
      show ?thesis by (rule that [of e']) (use e' f r True en in auto)
    next
      case False
      show ?thesis by (rule that [of ?e3]) (use f r True False in auto)
    qed
  qed
qed

fun ready_all :: "config_t \<Rightarrow> (nat \<times> tid) list \<Rightarrow> engine_t \<Rightarrow> engine_t option" where
  "ready_all cfg [] e = Some e"
| "ready_all cfg ((idx, i) # xs) e =
     (case on_thread_ready cfg idx i e of None \<Rightarrow> None | Some e' \<Rightarrow> ready_all cfg xs e')"

lemma ready_all_some:
  assumes "omap_ok (m_pool e)" "distinct (map snd xs)" "length (m_creating e) \<le> 2 ^ 64"
    "\<forall>(idx, i) \<in> set xs. idx < length (m_creating e) \<and> omap_find i (m_pool e) = None"
    "length (m_pool e) + length xs \<le> length (m_creating e)"
    "enable_epoll cfg \<longrightarrow> epoll_thread_id e \<noteq> NULL_THREAD_ID"
  shows "\<exists>e'. ready_all cfg xs e = Some e' \<and> m_creating e' = m_creating e \<and>
    (m_init_over e' \<longleftrightarrow> m_init_over e \<or> xs \<noteq> [] \<and> length (m_pool e) + length xs = length (m_creating e)) \<and>
    (\<forall>(idx, i) \<in> set xs. omap_find i (m_pool e') = Some (m_creating e ! idx)) \<and>
    (\<forall>i. i \<notin> snd ` set xs \<longrightarrow> omap_find i (m_pool e') = omap_find i (m_pool e))"
  using assms
proof (induction xs arbitrary: e)
  case (Cons x xs)
  obtain idx i where x: "x = (idx, i)" by (cases x)
  let ?pool = "omap_put i (m_creating e ! idx) (m_pool e)"
  have idx: "idx < length (m_creating e)" "omap_find i (m_pool e) = None" using Cons.prems(4) x by auto
  obtain e1 where e1: "on_thread_ready cfg idx i e = Some e1" "m_pool e1 = ?pool" "m_creating e1 = m_creating e"
    "m_init_over e1 \<longleftrightarrow> m_init_over e \<or> length ?pool = length (m_creating e)" "epoll_thread_id e1 = epoll_thread_id e"
    using on_thread_ready_some [OF idx(1) Cons.prems(3,6)] by metis
  have len: "length (m_pool e1) = Suc (length (m_pool e))"
    using e1(2) length_omap_put [OF Cons.prems(1)] idx(2) by simp
  have ni: "i \<notin> snd ` set xs" "distinct (map snd xs)" using Cons.prems(2) x by auto
  have "\<forall>(idx', j) \<in> set xs. idx' < length (m_creating e1) \<and> omap_find j (m_pool e1) = None"
    using Cons.prems(4) ni(1) e1(2,3) by (force simp: omap_find_put)
  moreover have "omap_ok (m_pool e1)" "length (m_creating e1) \<le> 2 ^ 64"
    "length (m_pool e1) + length xs \<le> length (m_creating e1)" "enable_epoll cfg \<longrightarrow> epoll_thread_id e1 \<noteq> NULL_THREAD_ID"
    using Cons.prems e1 len omap_ok_put by simp_all
  ultimately obtain e' where e': "ready_all cfg xs e1 = Some e'" "m_creating e' = m_creating e1"
    "m_init_over e' \<longleftrightarrow> m_init_over e1 \<or> xs \<noteq> [] \<and> length (m_pool e1) + length xs = length (m_creating e1)"
    "\<forall>(idx, i) \<in> set xs. omap_find i (m_pool e') = Some (m_creating e1 ! idx)"
    "\<forall>i. i \<notin> snd ` set xs \<longrightarrow> omap_find i (m_pool e') = omap_find i (m_pool e1)"
    using Cons.IH [of e1, OF _ ni(2)] by blast
  have "omap_find i (m_pool e') = Some (m_creating e ! idx)"
    using e'(5) ni(1) e1(2) by (simp add: omap_find_put)
  moreover have "m_init_over e' \<longleftrightarrow> m_init_over e \<or> length (m_pool e) + length (x # xs) = length (m_creating e)"
    using e'(3) e1(2,3,4) len Cons.prems(5) by (cases xs) auto
  ultimately show ?case using e1 e' x by (auto simp: omap_find_put)
qed simp

text \<open>Start-up. Once all workers are listed and the epoll thread runs, workers may report in in
  any order: each report enters its thread in the pool under its own thread id, and \<^verbatim>\<open>m_init_over\<close>
  becomes true with the last report and not before.\<close>

theorem startup_completes:
  assumes "m_pool e = []" "\<not> m_init_over e" "length (m_creating e) \<le> 2 ^ 64"
    and "enable_epoll cfg \<longrightarrow> epoll_thread_id e \<noteq> NULL_THREAD_ID"
    and "distinct (map snd xs)" "\<forall>(idx, i) \<in> set xs. idx < length (m_creating e)"
    and "length xs \<le> length (m_creating e)" "xs \<noteq> []"
  shows "\<exists>e'. ready_all cfg xs e = Some e' \<and>
    (m_init_over e' \<longleftrightarrow> length xs = length (m_creating e)) \<and>
    (\<forall>(idx, i) \<in> set xs. omap_find i (m_pool e') = Some (m_creating e ! idx))"
  using ready_all_some [of e xs cfg] assms by (auto simp: case_prod_beta)

theorem startup_completes_witness:
  "\<exists>e'. ready_all \<lparr>enable_epoll = False, enable_http = True\<rparr> [(1, 70), (0, 60)]
      (engine_init_push 1 (engine_init_push 0 engine_instance)) = Some e' \<and> m_init_over e'"
proof -
  let ?e = "engine_init_push 1 (engine_init_push 0 engine_instance)" and ?cfg = "\<lparr>enable_epoll = False, enable_http = True\<rparr>"
  have "\<exists>e'. ready_all ?cfg [(1, 70), (0, 60)] ?e = Some e' \<and> (m_init_over e' \<longleftrightarrow> (2::nat) = 2) \<and>
    (\<forall>(idx, i) \<in> set [(1, 70), (0, 60)]. omap_find i (m_pool e') = Some (m_creating ?e ! idx))"
    using startup_completes [of ?e ?cfg "[(1, 70), (0, 60)]"] by (simp del: ready_all.simps)
  then show ?thesis by blast
qed



section \<open>Supervision\<close>

text \<open>A thread whose chroutine has been on the CPU for more than 500 ms.\<close>

definition stuck :: "int \<Rightarrow> chroutine_thread_t \<Rightarrow> bool" where
  "stuck now th \<longleftrightarrow> m_entry_time th \<noteq> 0 \<and> now > MAX_ENTRY_CALL_TIME_MS + m_entry_time th"

definition unblock :: "int \<Rightarrow> chroutine_thread_t \<Rightarrow> chroutine_thread_t" where
  "unblock now th = (if \<not> stuck now th \<and> m_state th = thread_state_t_blocking
     then set_state thread_state_t_running th else th)"

definition is_good :: "int \<Rightarrow> chroutine_thread_t \<Rightarrow> bool" where
  "is_good now th \<longleftrightarrow> \<not> stuck now th \<and> m_state th \<noteq> thread_state_t_blocking"

definition is_bad :: "int \<Rightarrow> chroutine_thread_t \<Rightarrow> bool" where
  "is_bad now th \<longleftrightarrow> stuck now th \<and> m_state th = thread_state_t_running"

lemma check_loop_eq:
  assumes "distinct ts"
  shows "check_loop now ts e goods bads =
    (fold (\<lambda>t. upd_thread t (unblock now)) ts e,
     goods @ filter (\<lambda>t. is_good now (threads e t)) ts, bads @ filter (\<lambda>t. is_bad now (threads e t)) ts)"
  using assms
proof (induction ts arbitrary: e goods bads)
  case (Cons t ts)
  have u: "upd_thread t (unblock now) e =
      (if \<not> stuck now (threads e t) \<and> m_state (threads e t) = thread_state_t_blocking
       then upd_thread t (set_state thread_state_t_running) e else e)"
    by (simp add: upd_thread_def unblock_def)
  have o: "filter (\<lambda>s. P (threads (upd_thread t (unblock now) e) s)) ts = filter (\<lambda>s. P (threads e s)) ts" for P
    using Cons.prems by (intro filter_cong) auto
  have IH: "check_loop now ts (upd_thread t (unblock now) e) g b =
      (fold (\<lambda>t. upd_thread t (unblock now)) ts (upd_thread t (unblock now) e),
       g @ filter (\<lambda>t. is_good now (threads e t)) ts, b @ filter (\<lambda>t. is_bad now (threads e t)) ts)" for g b
    using Cons.IH [of "upd_thread t (unblock now) e"] Cons.prems o [of "is_good now"] o [of "is_bad now"] by simp
  have step: "check_loop now (t # ts) e goods bads = check_loop now ts (upd_thread t (unblock now) e)
      (if is_good now (threads e t) then goods @ [t] else goods) (if is_bad now (threads e t) then bads @ [t] else bads)"
    unfolding u by (simp add: Let_def stuck_def [symmetric] is_good_def is_bad_def)
  show ?case unfolding step IH by simp
qed simp

lemma fold_unblock_threads:
  "distinct ts \<Longrightarrow> threads (fold (\<lambda>t. upd_thread t (unblock now)) ts e) a =
     (if a \<in> set ts then unblock now (threads e a) else threads e a)"
  by (induction ts arbitrary: e) auto

lemma unblock_frame [simp]:
  "chroutines_map (unblock now th) = chroutines_map th" "queue (unblock now th) = queue th"
  "running_id (unblock now th) = running_id th"
  by (simp_all add: unblock_def set_state_def queue_def)

lemma unblock_world_ok: "world_ok (e :: engine_t) \<Longrightarrow> world_ok (upd_thread t (unblock now) e)"
  using world_okD [of e]
  by (intro world_ok_local) (auto simp: unblock_def set_state_def)

lemma fold_unblock_world_ok: "world_ok (e :: engine_t) \<Longrightarrow> world_ok (fold (\<lambda>t. upd_thread t (unblock now)) ts e)"
  by (induction ts arbitrary: e) (auto intro: unblock_world_ok)

text \<open>The ids of all chroutines of the process.\<close>

definition all_ids :: "'a world_t_scheme \<Rightarrow> int set" where
  "all_ids w = (\<Union>t. dom (chroutines_map (threads w t)))"

lemma move_all_ids:
  assumes ok: "world_ok w"
  shows "all_ids (move_chroutines_to_thread t t' w) = all_ids w"
proof (cases "t' = t")
  case True
  then show ?thesis by (simp add: move_chroutines_to_thread_def)
next
  case False
  let ?I = "me ` objs (threads w t) ` set (movable (threads w t))"
  let ?w = "move_chroutines_to_thread t t' w"
  have sub: "?I \<subseteq> dom (chroutines_map (threads w t))"
    using index_okD(2) [OF world_okD(3) [OF ok]] by (fastforce simp: movable_def)
  let ?D = "\<lambda>u. dom (chroutines_map (threads w u))"
  have "dom (chroutines_map (threads ?w u)) = (?D(t := ?D t - ?I, t' := ?D t' \<union> ?I)) u" for u
    using move_effect(5,6) [OF ok False] move_frame(1) [of u t t' w] False by auto
  then show ?thesis using union_transfer [of ?I ?D t t'] sub False unfolding all_ids_def by simp
qed

lemma move_bads_ok:
  "world_ok (e :: engine_t) \<Longrightarrow> world_ok (move_bads goods k bads e) \<and> all_ids (move_bads goods k bads e) = all_ids e"
proof (induction bads arbitrary: k e)
  case (Cons b bads)
  from Cons.IH [OF move_world_ok [OF Cons.prems]] show ?case by (simp add: move_all_ids [OF Cons.prems])
qed simp

lemma move_bads_frame:
  "goods \<noteq> [] \<Longrightarrow> t \<notin> set goods \<Longrightarrow> t \<notin> set bads \<Longrightarrow> threads (move_bads goods k bads e) t = threads e t"
proof (induction bads arbitrary: k e)
  case (Cons b bads)
  have "goods ! (k mod length goods) \<in> set goods" using Cons.prems(1) by simp
  then have "t \<noteq> goods ! (k mod length goods)" "t \<noteq> b" using Cons.prems by auto
  then show ?case using Cons by (simp add: move_frame(1))
qed simp

lemma move_bads_bad:
  assumes "world_ok (e :: engine_t)" "goods \<noteq> []" "distinct bads" "set bads \<inter> set goods = {}" "b \<in> set bads"
  shows "queue (threads (move_bads goods k bads e) b) =
      filter (\<lambda>c. me c = running_id (threads e b)) (queue (threads e b)) \<and>
    m_state (threads (move_bads goods k bads e) b) = thread_state_t_blocking"
  using assms
proof (induction bads arbitrary: k e)
  case (Cons x bads)
  let ?g = "goods ! (k mod length goods)"
  let ?e = "move_chroutines_to_thread x ?g e"
  have g: "?g \<in> set goods" using Cons.prems(2) by simp
  show ?case
  proof (cases "b = x")
    case True
    then have "threads (move_bads goods (Suc k) bads ?e) b = threads ?e b"
      using Cons.prems by (intro move_bads_frame) auto
    moreover have "?g \<noteq> x" using g Cons.prems(4) by auto
    ultimately show ?thesis using move_effect(3,11) [OF Cons.prems(1), of ?g x] True by simp
  next
    case False
    have "b \<noteq> ?g" using g Cons.prems(4,5) by auto
    then have "threads ?e b = threads e b" using False by (simp add: move_frame(1))
    then show ?thesis
      using Cons.IH [OF move_world_ok [OF Cons.prems(1)]] Cons.prems False by simp
  qed
qed simp

lemma check_threads_eq:
  assumes "distinct (map snd (m_pool e))"
  defines "ts \<equiv> map snd (m_pool e)"
  shows "check_threads now e =
    (let e1 = fold (\<lambda>t. upd_thread t (unblock now)) ts e;
         goods = filter (\<lambda>t. is_good now (threads e t)) ts; bads = filter (\<lambda>t. is_bad now (threads e t)) ts
     in if bads = [] \<or> goods = [] then e1 else move_bads goods 0 bads e1)"
  using check_loop_eq [OF assms(1), of now e "[]" "[]"] by (simp add: check_threads_def ts_def)

text \<open>A supervision pass keeps every thread's index and run queue consistent and neither loses nor
  duplicates a chroutine: the ids in the process are the same before and after.\<close>

theorem check_threads_conserves:
  assumes "world_ok e" "distinct (map snd (m_pool e))"
  shows "world_ok (check_threads now e) \<and> all_ids (check_threads now e) = all_ids e"
proof -
  let ?e = "fold (\<lambda>t. upd_thread t (unblock now)) (map snd (m_pool e)) e"
  have ok: "world_ok ?e" using fold_unblock_world_ok [OF assms(1)] .
  have "chroutines_map (threads ?e t) = chroutines_map (threads e t)" for t
    by (simp add: fold_unblock_threads [OF assms(2)])
  then have "all_ids ?e = all_ids e" by (simp add: all_ids_def)
  then show ?thesis using ok move_bads_ok [OF ok] by (simp add: check_threads_eq [OF assms(2)] Let_def)
qed

text \<open>What a supervision pass changes. A running worker whose chroutine has held the CPU for more
  than 500 ms keeps only that chroutine when some worker is free to take the others; a blocked worker
  that has its CPU back is running again; when no worker is stuck, no run queue changes.\<close>

theorem check_threads_spec:
  fixes now :: int
  assumes ok: "world_ok e" and d: "distinct (map snd (m_pool e))" and t: "t \<in> snd ` set (m_pool e)"
  defines "e' \<equiv> check_threads now e"
  shows "(is_bad now (threads e t) \<and> (\<exists>g \<in> snd ` set (m_pool e). is_good now (threads e g)) \<longrightarrow>
      queue (threads e' t) = filter (\<lambda>c. me c = running_id (threads e t)) (queue (threads e t)) \<and>
      m_state (threads e' t) = thread_state_t_blocking) \<and>
    (\<not> stuck now (threads e t) \<and> m_state (threads e t) = thread_state_t_blocking \<longrightarrow>
      threads e' t = set_state thread_state_t_running (threads e t)) \<and>
    ((\<forall>b \<in> snd ` set (m_pool e). \<not> stuck now (threads e b)) \<longrightarrow>
      queue (threads e' t) = queue (threads e t))"
proof -
  let ?ts = "map snd (m_pool e)"
  let ?e = "fold (\<lambda>t. upd_thread t (unblock now)) ?ts e"
  let ?goods = "filter (\<lambda>t. is_good now (threads e t)) ?ts" and ?bads = "filter (\<lambda>t. is_bad now (threads e t)) ?ts"
  have ok1: "world_ok ?e" using fold_unblock_world_ok [OF ok] .
  have th: "threads ?e t = unblock now (threads e t)" using t by (simp add: fold_unblock_threads [OF d])
  note e' = check_threads_eq [OF d, of now, folded e'_def, unfolded Let_def]
  have "?bads = [] \<or> ?goods = [] \<longrightarrow> threads e' t = unblock now (threads e t)" using th e' by simp
  moreover have "threads e' t = unblock now (threads e t)"
    if "\<not> is_good now (threads e t)" "\<not> is_bad now (threads e t)"
    using that th e' move_bads_frame [of ?goods t ?bads 0 ?e] by (auto split: if_splits)
  moreover have "queue (threads e' t) = filter (\<lambda>c. me c = running_id (threads e t)) (queue (threads e t)) \<and>
      m_state (threads e' t) = thread_state_t_blocking"
    if b: "is_bad now (threads e t)" and g: "\<exists>g \<in> snd ` set (m_pool e). is_good now (threads e g)"
  proof -
    have tb: "t \<in> set ?bads" using b t by simp
    then have ne: "?bads \<noteq> []" "?goods \<noteq> []" using g by (auto simp: filter_empty_conv)
    have "set ?bads \<inter> set ?goods = {}" by (auto simp: is_good_def is_bad_def)
    from move_bads_bad [OF ok1 ne(2) _ this tb, of 0] show ?thesis
      using d th e' ne by (simp add: distinct_filter)
  qed
  moreover have "?bads = []" if "\<forall>b \<in> snd ` set (m_pool e). \<not> stuck now (threads e b)"
    using that by (auto simp: filter_empty_conv is_bad_def)
  ultimately show ?thesis
    by (auto simp: is_good_def is_bad_def unblock_def) (simp_all add: set_state_def queue_def)
qed

text \<open>Two workers, the first stuck in its chroutine since time 100 with a second one waiting.\<close>

definition stuck_engine :: engine_t where
  "stuck_engine = engine_instance\<lparr>m_init_over := True, m_creating := [3, 4], m_pool := [(60, 3), (70, 4)],
     ms_chroutine_id := ms_chroutine_id sample_world, threads := threads sample_world\<rparr>"

lemma stuck_engine_ok: "world_ok stuck_engine"
  using reach_world_ok [OF sample_world_reach] by (simp add: world_ok_def stuck_engine_def engine_instance_def)

lemma stuck_engine_simps [simp]:
  "m_pool stuck_engine = [(60, 3), (70, 4)]" "threads stuck_engine = threads sample_world"
  by (simp_all add: stuck_engine_def)

lemma stuck_workers:
  "is_bad 700 (threads sample_world 3)" "is_good 700 (threads sample_world 4)"
  by (simp_all add: is_bad_def is_good_def stuck_def MAX_ENTRY_CALL_TIME_MS_def sample_world_def world_after_def
      sample_ops_def sched_defs pick_defs)

theorem check_threads_conserves_witness:
  "all_ids (check_threads 700 stuck_engine) = all_ids stuck_engine"
  using check_threads_conserves [OF stuck_engine_ok] by simp

theorem check_threads_spec_witness:
  "queue (threads (check_threads 700 stuck_engine) 3) =
     filter (\<lambda>c. me c = 1) (queue (threads sample_world 3)) \<and>
   m_state (threads (check_threads 700 stuck_engine) 3) = thread_state_t_blocking"
  using check_threads_spec [OF stuck_engine_ok, of 3 700] stuck_workers by simp

section \<open>Stopping\<close>

lemma fold_stop_threads:
  "threads (fold (\<lambda>t. upd_thread t thread_stop) ts e) a = (if a \<in> set ts then thread_stop (threads e a) else threads e a)"
  by (induction ts arbitrary: e) (auto simp: thread_stop_def)

text \<open>\<^verbatim>\<open>stop_all\<close> tells every worker of the pool to leave its loop and gives the main thread, when it can
  still run chroutines, the task that stops the timer, the main and the epoll thread.\<close>

theorem stop_all_spec:
  "(\<forall>t \<in> snd ` set (m_pool e). m_main_thread e \<noteq> Some t \<longrightarrow> m_need_stop (threads (stop_all e) t)) \<and>
   (case m_main_thread e of
      None \<Rightarrow> True
    | Some m \<Rightarrow> (if state_value (m_state (threads e m)) \<le> state_value thread_state_t_running
        then chroutines_sched (threads (stop_all e) m) = chroutines_sched (threads e m) @ [next_obj (threads e m)] \<and>
          func (objs (threads (stop_all e) m) (next_obj (threads e m))) = Some Stop_main_task
        else chroutines_sched (threads (stop_all e) m) = chroutines_sched (threads e m)))"
proof -
  let ?e = "fold (\<lambda>t. upd_thread t thread_stop) (map snd (m_pool e)) e"
  have m: "m_main_thread (fold (\<lambda>t. upd_thread t thread_stop) ts e) = m_main_thread e" for ts
    by (induction ts arbitrary: e) (simp_all add: upd_thread_def)
  show ?thesis
  proof (cases "m_main_thread e")
    case None
    then show ?thesis
      by (auto simp: stop_all_def stop_main_def create_chroutine_in_mainthread_def m fold_stop_threads thread_stop_def)
  next
    case (Some t)
    obtain e' i where c: "create_chroutine t (Some Stop_main_task) nullptr ?e = (e', i)" by fastforce
    have s: "stop_all e = e'" using Some c by (simp add: stop_all_def stop_main_def create_chroutine_in_mainthread_def m)
    show ?thesis
      unfolding s using c Some create_frame(2) [OF c]
      by (cases rule: create_chroutine_cases) (auto simp: fold_stop_threads thread_stop_def split: if_splits)
  qed
qed

theorem stop_all_spec_witness:
  "m_need_stop (threads (stop_all stuck_engine) 3) \<and> m_need_stop (threads (stop_all stuck_engine) 4)"
proof -
  have "m_main_thread stuck_engine = None" by (simp add: stuck_engine_def engine_instance_def)
  then show ?thesis using stop_all_spec [of stuck_engine] by simp
qed

end
