(* ===== verification/Chutex.thy ===== *)
theory Chutex
  imports Prelude
begin

text \<open>
  The spin lock of util/chutex.hpp and chutex.cpp, and the time helpers of util/tools.cpp.

  \<^item> A \<^verbatim>\<open>chutex_t\<close> is its flag. One pass of the loop of \<^verbatim>\<open>lock\<close> is \<open>lock_attempt\<close>;
    \<^verbatim>\<open>compare_exchange_weak\<close> may fail although the flag is clear, which is the argument \<open>spurious\<close>.
  \<^item> \<open>lock_step\<close> is the system of any number of clients that use one lock through
    \<^verbatim>\<open>chutex_guard_t\<close>: a client constructs a guard (starts to lock), its attempts fail or succeed, and the
    guard's destructor unlocks.
  \<^item> \<open>lock_ops\<close> is the interface the guarded sections rely on; the flag interprets it.
\<close>

section \<open>The lock\<close>

record chutex_t =
  m_flag :: bool

definition new_chutex :: chutex_t where
  "new_chutex = \<lparr>m_flag = False\<rparr>"

text \<open>One pass of the loop in \<^verbatim>\<open>lock\<close>: the lock afterwards, and whether the loop ends (otherwise the
  caller yields and tries again).\<close>

definition lock_attempt :: "bool \<Rightarrow> chutex_t \<Rightarrow> chutex_t \<times> bool" where
  "lock_attempt spurious c =
     (if \<not> m_flag c \<and> \<not> spurious then (c\<lparr>m_flag := True\<rparr>, True) else (c, False))"

text \<open>\<^verbatim>\<open>lock\<close> with a bound on its passes: \<open>None\<close> when it has not returned within them.\<close>

fun lock_loop :: "bool list \<Rightarrow> chutex_t \<Rightarrow> chutex_t option" where
  "lock_loop [] c = None"
| "lock_loop (s # ss) c =
     (case lock_attempt s c of (c', True) \<Rightarrow> Some c' | (c', False) \<Rightarrow> lock_loop ss c')"

definition chutex_unlock :: "chutex_t \<Rightarrow> chutex_t" where
  "chutex_unlock c = c\<lparr>m_flag := False\<rparr>"

definition chutex_try_lock :: "chutex_t \<Rightarrow> chutex_t \<times> bool" where
  "chutex_try_lock c = (if m_flag c then (c, False) else (c\<lparr>m_flag := True\<rparr>, True))"

section \<open>The lock interface\<close>

locale lock_ops =
  fixes held :: "'l \<Rightarrow> bool" and attempt :: "'l \<Rightarrow> 'l \<times> bool" and release :: "'l \<Rightarrow> 'l"
  assumes attempt_success: "snd (attempt l) \<Longrightarrow> \<not> held l \<and> held (fst (attempt l))"
    and attempt_failure: "\<not> snd (attempt l) \<Longrightarrow> fst (attempt l) = l"
    and attempt_free: "\<not> held l \<Longrightarrow> snd (attempt l)"
    and release_free: "\<not> held (release l)"
begin

lemma attempt_iff: "snd (attempt l) \<longleftrightarrow> \<not> held l"
  using attempt_success attempt_free by blast

lemma attempt_held: "held (fst (attempt l))"
  using attempt_success attempt_failure attempt_free by (cases "snd (attempt l)") auto

lemma not_reentrant: "\<not> snd (attempt (fst (attempt l)))"
  using attempt_iff attempt_held by blast

lemma release_attempt: "snd (attempt (release l))"
  using release_free attempt_free by blast

end

interpretation trylock: lock_ops m_flag chutex_try_lock chutex_unlock
  by unfold_locales (auto simp: chutex_try_lock_def chutex_unlock_def split: if_splits)

interpretation spin: lock_ops m_flag "lock_attempt False" chutex_unlock
  by unfold_locales (auto simp: lock_attempt_def chutex_unlock_def split: if_splits)

section \<open>Clients\<close>

datatype client = Outside | Locking | Inside

record lock_system =
  the_lock :: chutex_t
  clients :: "nat \<Rightarrow> client"

inductive lock_step :: "lock_system \<Rightarrow> lock_system \<Rightarrow> bool" where
  start: "clients s i = Outside \<Longrightarrow> lock_step s (s\<lparr>clients := (clients s)(i := Locking)\<rparr>)"
| attempt: "clients s i = Locking \<Longrightarrow> lock_attempt b (the_lock s) = (c, ok) \<Longrightarrow>
    lock_step s (s\<lparr>the_lock := c, clients := (clients s)(i := (if ok then Inside else Locking))\<rparr>)"
| leave: "clients s i = Inside \<Longrightarrow>
    lock_step s (s\<lparr>the_lock := chutex_unlock (the_lock s), clients := (clients s)(i := Outside)\<rparr>)"

inductive_cases lock_stepE: "lock_step s s'"

definition lock_start :: lock_system where
  "lock_start = \<lparr>the_lock = new_chutex, clients = (\<lambda>_. Outside)\<rparr>"

inductive lock_reach :: "lock_system \<Rightarrow> bool" where
  start: "lock_reach lock_start"
| step: "lock_reach s \<Longrightarrow> lock_step s s' \<Longrightarrow> lock_reach s'"

definition lock_inv :: "lock_system \<Rightarrow> bool" where
  "lock_inv s \<longleftrightarrow> (m_flag (the_lock s) \<longleftrightarrow> (\<exists>i. clients s i = Inside)) \<and>
     (\<forall>i j. clients s i = Inside \<longrightarrow> clients s j = Inside \<longrightarrow> i = j)"

lemma lock_step_inv:
  assumes "lock_inv s" "lock_step s s'"
  shows "lock_inv s'"
  using assms(2,1)
  by (cases rule: lock_step.cases)
    (auto simp: lock_inv_def lock_attempt_def chutex_unlock_def split: if_splits, (metis client.distinct)+)

lemma lock_reach_inv: "lock_reach s \<Longrightarrow> lock_inv s"
proof (induction rule: lock_reach.induct)
  case start
  then show ?case by (simp add: lock_inv_def lock_start_def new_chutex_def)
next
  case step
  then show ?case using lock_step_inv by blast
qed

text \<open>C37: mutual exclusion. Whatever the interleaving and however often the compare-and-exchange fails
  spuriously, at most one client is between its lock and its unlock, and the flag says exactly whether
  one is.\<close>

theorem mutual_exclusion:
  assumes "lock_reach s"
  shows "(\<forall>i j. clients s i = Inside \<and> clients s j = Inside \<longrightarrow> i = j) \<and>
    (m_flag (the_lock s) \<longleftrightarrow> (\<exists>i. clients s i = Inside))"
  using lock_reach_inv [OF assms] by (auto simp: lock_inv_def)

definition one_inside :: lock_system where
  "one_inside = \<lparr>the_lock = \<lparr>m_flag = True\<rparr>, clients = (\<lambda>_. Outside)(4 := Inside, 5 := Locking)\<rparr>"

lemma one_inside_reach: "lock_reach one_inside"
proof -
  let ?s1 = "lock_start\<lparr>clients := (clients lock_start)(4 := Locking)\<rparr>"
  have 1: "lock_reach ?s1" by (intro lock_reach.step [OF lock_reach.start] lock_step.start) (simp add: lock_start_def)
  let ?s2 = "?s1\<lparr>clients := (clients ?s1)(5 := Locking)\<rparr>"
  have 2: "lock_reach ?s2" by (intro lock_reach.step [OF 1] lock_step.start) (simp add: lock_start_def)
  let ?s3 = "?s2\<lparr>the_lock := \<lparr>m_flag = True\<rparr>, clients := (clients ?s2)(4 := (if True then Inside else Locking))\<rparr>"
  have "lock_reach ?s3"
    by (rule lock_reach.step [OF 2], rule lock_step.attempt [where b = False])
      (simp_all add: lock_start_def lock_attempt_def new_chutex_def)
  moreover have "?s3 = one_inside" by (auto simp: one_inside_def lock_start_def)
  ultimately show ?thesis by simp
qed

theorem mutual_exclusion_witness:
  "clients one_inside 4 = Inside \<and> clients one_inside 5 \<noteq> Inside \<and> m_flag (the_lock one_inside)"
  using mutual_exclusion [OF one_inside_reach] by (auto simp: one_inside_def)

text \<open>The lock returns as soon as the flag is clear and the exchange does not fail spuriously, and
  never before the holder releases it: a caller that already holds it spins for ever.\<close>

theorem lock_loop_spec:
  "lock_loop ss c = (if \<not> m_flag c \<and> False \<in> set ss then Some \<lparr>m_flag = True\<rparr> else None)"
proof (induction ss)
  case (Cons s ss)
  show ?case
  proof (cases "m_flag c \<or> s")
    case True
    then have "lock_attempt s c = (c, False)" by (auto simp: lock_attempt_def)
    then show ?thesis using Cons True by auto
  next
    case False
    then show ?thesis by (cases c) (simp add: lock_attempt_def)
  qed
qed simp

section \<open>Time\<close>

text \<open>\<^verbatim>\<open>get_time_stamp\<close> of a system clock that reads \<open>ns\<close> nanoseconds.\<close>

definition get_time_stamp :: "int \<Rightarrow> int" where
  "get_time_stamp ns = (if 0 \<le> ns then ns div 1000000 else - ((- ns) div 1000000))"

record timespec =
  tv_sec :: nat
  tv_nsec :: nat

definition timespec_ns :: "timespec \<Rightarrow> nat" where
  "timespec_ns ts = tv_sec ts * 1000000000 + tv_nsec ts"

text \<open>\<^verbatim>\<open>thread_ms_sleep\<close>. \<open>interrupts\<close> lists, for the calls of \<^verbatim>\<open>nanosleep\<close> a signal ends early,
  after how many nanoseconds it does; the remaining time is written back and the loop calls again. The
  result is the total time slept.\<close>

definition ms_timespec :: "nat \<Rightarrow> timespec" where
  "ms_timespec ms = \<lparr>tv_sec = ms div 1000, tv_nsec = (ms mod 1000) * 1000000\<rparr>"

fun nanosleep_loop :: "nat list \<Rightarrow> timespec \<Rightarrow> nat" where
  "nanosleep_loop [] ts = timespec_ns ts"
| "nanosleep_loop (d # ds) ts =
     (if timespec_ns ts \<le> d then timespec_ns ts
      else (let r = timespec_ns ts - d
            in d + nanosleep_loop ds \<lparr>tv_sec = r div 1000000000, tv_nsec = r mod 1000000000\<rparr>))"

definition thread_ms_sleep :: "nat list \<Rightarrow> nat \<Rightarrow> nat" where
  "thread_ms_sleep interrupts ms = nanosleep_loop interrupts (ms_timespec ms)"

lemma nanosleep_loop_total: "nanosleep_loop ds ts = timespec_ns ts"
  by (induction ds ts rule: nanosleep_loop.induct) (auto simp: timespec_ns_def Let_def)

text \<open>\<^verbatim>\<open>thread_ms_sleep\<close> passes \<^verbatim>\<open>nanosleep\<close> a normalised time and sleeps the whole requested
  time however often signals interrupt it.\<close>

theorem thread_ms_sleep_spec:
  "tv_nsec (ms_timespec ms) < 1000000000 \<and> thread_ms_sleep interrupts ms = ms * 1000000"
proof -
  have "timespec_ns (ms_timespec ms) = ms div 1000 * 1000000000 + ms mod 1000 * 1000000"
    by (simp add: timespec_ns_def ms_timespec_def)
  also have "\<dots> = ms * 1000000" using div_mult_mod_eq [of ms 1000] by linarith
  finally have "thread_ms_sleep interrupts ms = ms * 1000000"
    by (simp only: thread_ms_sleep_def nanosleep_loop_total)
  then show ?thesis by (simp add: ms_timespec_def)
qed

end
