(* ===== verification/Channel.thy ===== *)
theory Channel
  imports Engine Chutex
begin

text \<open>
  Channels (\<^verbatim>\<open>channel_t<T>\<close>, engin/channel.hpp): a ring buffer with a queue of blocked readers and a
  queue of blocked writers, guarded by a spin lock.

  \<^item> A call works on the channel, the memory \<open>mem\<close> the readers' \<^verbatim>\<open>T&\<close> arguments point into, and the
    engine. Array elements and the \<^verbatim>\<open>in_data\<close> of a reader are default-constructed, as \<open>None\<close>.
  \<^item> A call is its critical section followed by \<^verbatim>\<open>HOLD()\<close> when it has to wait: \<open>write_cs\<close> and
    \<open>read_cs\<close> are the critical sections, so that calls on other threads can be interleaved between
    the unlock and the \<^verbatim>\<open>HOLD()\<close>; \<open>chan_write\<close> and \<open>chan_read\<close> are the whole calls.
  \<^item> The critical section starts with \<^verbatim>\<open>m_lock.lock()\<close>, which returns only when the flag is clear:
    otherwise the outcome is \<open>Lock_spin\<close>, the caller spins (yielding) and the channel is unchanged.
\<close>

section \<open>Data\<close>

record 'a chan_context =
  thread_id :: tid
  chrotine_id :: int
  out_ptr :: "addr option"
  in_data :: "'a option"

record 'a channel_t =
  m_closed :: bool
  m_w_index :: int
  m_r_index :: int
  m_max_size :: int
  m_data_array :: "'a option list"
  m_unread :: int
  m_waiting_write_que :: "'a chan_context list"
  m_waiting_read_que :: "'a chan_context list"
  m_lock :: chutex_t

type_synonym 'a memory = "addr \<Rightarrow> 'a option"

datatype outcome =
    Returned bool
  | Must_hold
  | Lock_spin
  | Nested_spin
  | Nested_hold

definition chan_create :: "int \<Rightarrow> 'a channel_t" where
  "chan_create max_size =
     (let n = (if max_size \<le> 0 then 1 else max_size)
      in \<lparr>m_closed = False, m_w_index = 0, m_r_index = 0, m_max_size = n,
          m_data_array = replicate (nat n) None, m_unread = 0, m_waiting_write_que = [],
          m_waiting_read_que = [], m_lock = new_chutex\<rparr>)"

definition writable :: "'a channel_t \<Rightarrow> int" where
  "writable ch = m_max_size ch - m_unread ch"

definition readable :: "'a channel_t \<Rightarrow> int" where
  "readable ch = m_unread ch"

definition chan_reset :: "'a channel_t \<Rightarrow> 'a channel_t \<times> outcome" where
  "chan_reset ch =
     (case lock_attempt False (m_lock ch) of
        (_, False) \<Rightarrow> (ch, Lock_spin)
      | (l, True) \<Rightarrow>
          (ch\<lparr>m_lock := chutex_unlock l, m_w_index := 0, m_r_index := 0, m_unread := 0\<rparr>, Returned True))"

section \<open>The ring buffer\<close>

definition ring_put :: "'a option \<Rightarrow> 'a channel_t \<Rightarrow> 'a channel_t" where
  "ring_put x ch =
     ch\<lparr>m_data_array := (m_data_array ch)[nat (m_w_index ch) := x],
        m_unread := m_unread ch + 1,
        m_w_index := (m_w_index ch + 1) mod m_max_size ch\<rparr>"

definition ring_get :: "'a channel_t \<Rightarrow> 'a channel_t \<times> 'a option" where
  "ring_get ch =
     (ch\<lparr>m_unread := m_unread ch - 1, m_r_index := (m_r_index ch + 1) mod m_max_size ch\<rparr>,
      m_data_array ch ! nat (m_r_index ch))"

section \<open>Writing\<close>

definition write_cs ::
  "'a option \<Rightarrow> bool \<Rightarrow> tid \<Rightarrow> 'a channel_t \<times> 'a memory \<times> engine_t
   \<Rightarrow> ('a channel_t \<times> 'a memory \<times> engine_t) \<times> outcome" where
  "write_cs x tr cur s =
     (case s of (ch, mem, e) \<Rightarrow>
        (case lock_attempt False (m_lock ch) of
           (_, False) \<Rightarrow> ((ch, mem, e), Lock_spin)
         | (l, True) \<Rightarrow>
             (let ch0 = ch\<lparr>m_lock := l\<rparr> in
              if writable ch0 < 1
              then (if tr then ((ch0\<lparr>m_lock := chutex_unlock (m_lock ch0)\<rparr>, mem, e), Returned False)
                    else (let c = \<lparr>thread_id = cur, chrotine_id = get_current_chroutine_id cur e,
                                   out_ptr = None, in_data = x\<rparr>;
                              ch1 = ch0\<lparr>m_waiting_write_que := m_waiting_write_que ch0 @ [c]\<rparr>
                          in ((ch1\<lparr>m_lock := chutex_unlock (m_lock ch1)\<rparr>, mem, e), Must_hold)))
              else case m_waiting_read_que ch0 of
                c # cs \<Rightarrow>
                  (let mem1 = (case out_ptr c of None \<Rightarrow> mem | Some p \<Rightarrow> mem(p := x));
                       (e1, _) = engine_awake_on (thread_id c) (chrotine_id c) e;
                       ch1 = ch0\<lparr>m_waiting_read_que := cs\<rparr>
                   in ((ch1\<lparr>m_lock := chutex_unlock (m_lock ch1)\<rparr>, mem1, e1), Returned True))
              | [] \<Rightarrow>
                  (let ch1 = ring_put x ch0
                   in ((ch1\<lparr>m_lock := chutex_unlock (m_lock ch1)\<rparr>, mem, e), Returned True)))))"

text \<open>\<^verbatim>\<open>HOLD()\<close>\<close>

definition chan_hold :: "int \<Rightarrow> tid \<Rightarrow> engine_t \<Rightarrow> engine_t" where
  "chan_hold now cur e = engine_sleep now HOLD_MS cur e"

text \<open>The whole call: a call that has to wait ends in \<^verbatim>\<open>HOLD()\<close> and returns true when resumed.\<close>

definition chan_write ::
  "'a option \<Rightarrow> bool \<Rightarrow> int \<Rightarrow> tid \<Rightarrow> 'a channel_t \<times> 'a memory \<times> engine_t
   \<Rightarrow> ('a channel_t \<times> 'a memory \<times> engine_t) \<times> outcome" where
  "chan_write x tr now cur s =
     (case write_cs x tr cur s of
        ((ch, mem, e), Must_hold) \<Rightarrow> ((ch, mem, chan_hold now cur e), Must_hold)
      | r \<Rightarrow> r)"

section \<open>Reading\<close>

text \<open>A waiting writer's data is written with \<^verbatim>\<open>*this << context.in_data\<close>, a nested call of
  \<^verbatim>\<open>write\<close> on the same channel.\<close>

definition read_cs ::
  "addr \<Rightarrow> bool \<Rightarrow> int \<Rightarrow> tid \<Rightarrow> 'a channel_t \<times> 'a memory \<times> engine_t
   \<Rightarrow> ('a channel_t \<times> 'a memory \<times> engine_t) \<times> outcome" where
  "read_cs p tr now cur s =
     (case s of (ch, mem, e) \<Rightarrow>
        (case lock_attempt False (m_lock ch) of
           (_, False) \<Rightarrow> ((ch, mem, e), Lock_spin)
         | (l, True) \<Rightarrow>
             (let ch0 = ch\<lparr>m_lock := l\<rparr> in
              if readable ch0 < 1
              then (if tr then ((ch0\<lparr>m_lock := chutex_unlock (m_lock ch0)\<rparr>, mem, e), Returned False)
                    else (let c = \<lparr>thread_id = cur, chrotine_id = get_current_chroutine_id cur e,
                                   out_ptr = Some p, in_data = None\<rparr>;
                              ch1 = ch0\<lparr>m_waiting_read_que := m_waiting_read_que ch0 @ [c]\<rparr>
                          in ((ch1\<lparr>m_lock := chutex_unlock (m_lock ch1)\<rparr>, mem, e), Must_hold)))
              else
                (let (ch1, x) = ring_get ch0;
                     mem1 = mem(p := x)
                 in case m_waiting_write_que ch1 of
                      [] \<Rightarrow> ((ch1\<lparr>m_lock := chutex_unlock (m_lock ch1)\<rparr>, mem1, e), Returned True)
                    | c # _ \<Rightarrow>
                        (case chan_write (in_data c) False now cur (ch1, mem1, e) of
                           ((ch2, mem2, e2), Returned _) \<Rightarrow>
                             (let (e3, _) = engine_awake_on (thread_id c) (chrotine_id c) e2;
                                  ch3 = ch2\<lparr>m_waiting_write_que := tl (m_waiting_write_que ch2)\<rparr>
                              in ((ch3\<lparr>m_lock := chutex_unlock (m_lock ch3)\<rparr>, mem2, e3), Returned True))
                         | (s2, Must_hold) \<Rightarrow> (s2, Nested_hold)
                         | (s2, _) \<Rightarrow> (s2, Nested_spin))))))"

definition chan_read ::
  "addr \<Rightarrow> bool \<Rightarrow> int \<Rightarrow> tid \<Rightarrow> 'a channel_t \<times> 'a memory \<times> engine_t
   \<Rightarrow> ('a channel_t \<times> 'a memory \<times> engine_t) \<times> outcome" where
  "chan_read p tr now cur s =
     (case read_cs p tr now cur s of
        ((ch, mem, e), Must_hold) \<Rightarrow> ((ch, mem, chan_hold now cur e), Must_hold)
      | r \<Rightarrow> r)"

end
