(* ===== verification/Channel_Props.thy ===== *)
theory Channel_Props
  imports Channel Thread_Props
begin

text \<open>
  Properties of channels: the ring buffer is a bounded first-in first-out queue, the invariant of the
  indices and the waiting queues, what a read and a write do on every branch, and three ways in which
  the code goes wrong: the nested write under the lock, the wake-up that is lost between unlocking and
  suspending, and a call from outside a chroutine.

  \<open>bounded_fifo\<close> is the interface of a bounded queue; \<open>ring\<close> interprets it on the channel's buffer.
\<close>

section \<open>The ring buffer as a queue\<close>

text \<open>The values \<open>n\<close> reads take out.\<close>

fun drain :: "('q \<Rightarrow> 'q \<times> 'x) \<Rightarrow> nat \<Rightarrow> 'q \<Rightarrow> 'x list" where
  "drain get 0 q = []"
| "drain get (Suc n) q = snd (get q) # drain get n (fst (get q))"

locale bounded_fifo =
  fixes ok :: "'q \<Rightarrow> bool" and items :: "'q \<Rightarrow> 'x list" and capacity :: "'q \<Rightarrow> nat"
    and put :: "'x \<Rightarrow> 'q \<Rightarrow> 'q" and get :: "'q \<Rightarrow> 'q \<times> 'x"
  assumes put_ok: "ok q \<Longrightarrow> length (items q) < capacity q \<Longrightarrow> ok (put x q)"
    and put_items: "ok q \<Longrightarrow> length (items q) < capacity q \<Longrightarrow> items (put x q) = items q @ [x]"
    and put_capacity: "capacity (put x q) = capacity q"
    and get_ok: "ok q \<Longrightarrow> items q \<noteq> [] \<Longrightarrow> ok (fst (get q))"
    and get_items: "ok q \<Longrightarrow> items q \<noteq> [] \<Longrightarrow> items q = snd (get q) # items (fst (get q))"
    and get_capacity: "capacity (fst (get q)) = capacity q"
begin

lemma puts_items:
  "ok q \<Longrightarrow> length (items q) + length xs \<le> capacity q \<Longrightarrow>
   ok (fold put xs q) \<and> items (fold put xs q) = items q @ xs \<and> capacity (fold put xs q) = capacity q"
proof (induction xs arbitrary: q)
  case (Cons x xs)
  then have "ok (put x q)" "items (put x q) = items q @ [x]" using put_ok put_items by simp_all
  with Cons show ?case by (simp add: put_capacity)
qed simp

lemma gets_items: "ok q \<Longrightarrow> n \<le> length (items q) \<Longrightarrow> drain get n q = take n (items q)"
proof (induction n arbitrary: q)
  case (Suc n)
  then have "items q \<noteq> []" by auto
  with Suc get_items [of q] get_ok [of q] show ?case
    by (metis Suc_le_mono drain.simps(2) length_Cons take_Suc_Cons)
qed simp

lemma fifo: "ok q \<Longrightarrow> items q = [] \<Longrightarrow> length xs \<le> capacity q \<Longrightarrow> drain get (length xs) (fold put xs q) = xs"
  using puts_items [of q xs] gets_items [of "fold put xs q" "length xs"] by simp

end

definition ring_ok :: "'a channel_t \<Rightarrow> bool" where
  "ring_ok ch \<longleftrightarrow> 0 < m_max_size ch \<and> int (length (m_data_array ch)) = m_max_size ch \<and>
     0 \<le> m_r_index ch \<and> m_r_index ch < m_max_size ch \<and> 0 \<le> m_unread ch \<and> m_unread ch \<le> m_max_size ch \<and>
     m_w_index ch = (m_r_index ch + m_unread ch) mod m_max_size ch"

text \<open>The buffered values, oldest first.\<close>

definition content :: "'a channel_t \<Rightarrow> 'a option list" where
  "content ch = map (\<lambda>k. m_data_array ch ! nat ((m_r_index ch + int k) mod m_max_size ch)) [0..<nat (m_unread ch)]"

lemma length_content: "length (content ch) = nat (m_unread ch)"
  by (simp add: content_def)

lemma content_put:
  assumes ok: "ring_ok ch" and room: "m_unread ch < m_max_size ch"
  shows "ring_ok (ring_put x ch) \<and> content (ring_put x ch) = content ch @ [x]"
proof -
  let ?n = "m_max_size ch" and ?r = "m_r_index ch" and ?u = "m_unread ch"
  note o = ok [unfolded ring_ok_def]
  have w: "m_w_index ch = (?r + ?u) mod ?n" "0 \<le> m_w_index ch" "m_w_index ch < ?n" using o by simp_all
  have "(m_w_index ch + 1) mod ?n = (?r + (?u + 1)) mod ?n" using w(1) by (simp add: mod_simps add.assoc)
  then have rok: "ring_ok (ring_put x ch)" using o room by (simp add: ring_ok_def ring_put_def)
  have "(?r + int k) mod ?n \<noteq> m_w_index ch" if "k < nat ?u" for k
  proof
    assume "(?r + int k) mod ?n = m_w_index ch"
    then have "(?r + int k) mod ?n = (?r + ?u) mod ?n" using w(1) by simp
    then have "?n dvd (?r + ?u) - (?r + int k)" by (simp add: mod_eq_dvd_iff mod_0_imp_dvd dvd_diff_commute)
    then have "?n dvd ?u - int k" by simp
    moreover have "0 < ?u - int k" "?u - int k < ?n" using that room by linarith+
    ultimately show False using zdvd_imp_le by fastforce
  qed
  then have keep: "(m_data_array ch)[nat (m_w_index ch) := x] ! nat ((?r + int k) mod ?n) =
      m_data_array ch ! nat ((?r + int k) mod ?n)" if "k < nat ?u" for k
    using that w o by (metis nat_eq_iff2 nth_list_update_neq pos_mod_sign)
  have "nat (?u + 1) = Suc (nat ?u)" using o by linarith
  moreover have "nat (m_w_index ch) < length (m_data_array ch)" using w o by linarith
  ultimately have "content (ring_put x ch) = content ch @ [x]"
    using keep w(1) o by (simp add: content_def ring_put_def)
  then show ?thesis using rok by blast
qed

lemma content_get:
  assumes ok: "ring_ok ch" and some: "0 < m_unread ch"
  shows "ring_ok (fst (ring_get ch)) \<and> content ch = snd (ring_get ch) # content (fst (ring_get ch))"
proof -
  let ?n = "m_max_size ch" and ?r = "m_r_index ch" and ?u = "m_unread ch"
  note o = ok [unfolded ring_ok_def]
  have "((?r + 1) mod ?n + (?u - 1)) mod ?n = (?r + ?u) mod ?n" by (simp add: mod_simps)
  then have rok: "ring_ok (fst (ring_get ch))" using o some by (simp add: ring_ok_def ring_get_def)
  have shift: "((?r + 1) mod ?n + int k) mod ?n = (?r + int (Suc k)) mod ?n" for k
    by (simp add: mod_simps add.assoc)
  have u: "nat ?u = Suc (nat (?u - 1))" using some by simp
  have "content ch = m_data_array ch ! nat (?r mod ?n) #
      map (\<lambda>k. m_data_array ch ! nat ((?r + int (Suc k)) mod ?n)) [0..<nat (?u - 1)]"
    unfolding content_def u by (simp add: upt_conv_Cons map_Suc_upt [symmetric] comp_def del: upt_Suc)
  then have "content ch = snd (ring_get ch) # content (fst (ring_get ch))"
    using o by (simp add: content_def ring_get_def shift)
  then show ?thesis using rok by blast
qed

interpretation ring: bounded_fifo ring_ok content "\<lambda>ch. nat (m_max_size ch)" ring_put ring_get
proof
  fix ch :: "'a channel_t" and x
  assume ok: "ring_ok ch"
  then have "length (content ch) < nat (m_max_size ch) \<longleftrightarrow> m_unread ch < m_max_size ch"
    "content ch \<noteq> [] \<longleftrightarrow> 0 < m_unread ch"
    using length_content [of ch] by (auto simp: ring_ok_def simp flip: length_0_conv)
  then show "length (content ch) < nat (m_max_size ch) \<Longrightarrow> ring_ok (ring_put x ch)"
    "length (content ch) < nat (m_max_size ch) \<Longrightarrow> content (ring_put x ch) = content ch @ [x]"
    "content ch \<noteq> [] \<Longrightarrow> ring_ok (fst (ring_get ch))"
    "content ch \<noteq> [] \<Longrightarrow> content ch = snd (ring_get ch) # content (fst (ring_get ch))"
    using ok content_put [of ch x] content_get [of ch] by auto
qed (simp_all add: ring_put_def ring_get_def)

lemma chan_create_ok: "ring_ok (chan_create n :: 'a channel_t) \<and> content (chan_create n :: 'a channel_t) = []"
  by (simp add: chan_create_def ring_ok_def content_def Let_def)

text \<open>The ring buffer is a bounded first-in first-out queue: values written to a new channel, as
  many as its capacity, come out in the order in which they went in.\<close>

theorem ring_fifo:
  fixes xs :: "'a option list"
  assumes "length xs \<le> nat (max 1 n)"
  shows "drain ring_get (length xs) (fold ring_put xs (chan_create n)) = xs"
proof -
  have "nat (m_max_size (chan_create n :: 'a channel_t)) = nat (max 1 n)" by (simp add: chan_create_def Let_def max_def)
  then show ?thesis using ring.fifo [of "chan_create n" xs] chan_create_ok [where 'a = 'a and n = n] assms by simp
qed

theorem ring_fifo_witness:
  "drain ring_get 3 (fold ring_put [Some 7, Some 8, Some (9 :: int)] (chan_create 4)) = [Some 7, Some 8, Some 9]"
  using ring_fifo [of "[Some 7, Some 8, Some (9 :: int)]" 4] by (simp add: numeral_3_eq_3)

section \<open>The invariant and the behaviour of each call\<close>

definition chan_ok :: "'a channel_t \<Rightarrow> bool" where
  "chan_ok ch \<longleftrightarrow> ring_ok ch \<and> \<not> m_flag (m_lock ch) \<and>
     (m_waiting_read_que ch \<noteq> [] \<longrightarrow> m_unread ch = 0) \<and>
     (m_waiting_write_que ch \<noteq> [] \<longrightarrow> m_unread ch = m_max_size ch)"

lemma chan_create_chan_ok: "chan_ok (chan_create n)"
  using chan_create_ok by (auto simp: chan_ok_def) (simp_all add: chan_create_def new_chutex_def Let_def)

text \<open>Taking and giving back the free lock leaves the channel as it was.\<close>

lemma lock_free [simp]:
  "\<not> m_flag l \<Longrightarrow> lock_attempt False l = (l\<lparr>m_flag := True\<rparr>, True)"
  "m_flag l \<Longrightarrow> lock_attempt False l = (l, False)"
  "\<not> m_flag l \<Longrightarrow> chutex_unlock (l\<lparr>m_flag := True\<rparr>) = l"
  by (simp_all add: lock_attempt_def chutex_unlock_def)

lemma ring_frame [simp]:
  "ring_ok (ch\<lparr>m_lock := x1\<rparr>) = ring_ok ch" "content (ch\<lparr>m_lock := x1\<rparr>) = content ch"
  "ring_ok (ch\<lparr>m_waiting_read_que := x2\<rparr>) = ring_ok ch" "content (ch\<lparr>m_waiting_read_que := x2\<rparr>) = content ch"
  "ring_ok (ch\<lparr>m_waiting_write_que := x3\<rparr>) = ring_ok ch" "content (ch\<lparr>m_waiting_write_que := x3\<rparr>) = content ch"
  by (simp_all add: ring_ok_def content_def)

lemma ring_ops_frame [simp]:
  "m_waiting_read_que (ring_put x ch) = m_waiting_read_que ch" "m_waiting_write_que (ring_put x ch) = m_waiting_write_que ch"
  "m_lock (ring_put x ch) = m_lock ch" "m_max_size (ring_put x ch) = m_max_size ch"
  "m_waiting_read_que (fst (ring_get ch)) = m_waiting_read_que ch" "m_waiting_write_que (fst (ring_get ch)) = m_waiting_write_que ch"
  "m_lock (fst (ring_get ch)) = m_lock ch" "m_max_size (fst (ring_get ch)) = m_max_size ch"
  "ring_put x (ch\<lparr>m_lock := l\<rparr>) = (ring_put x ch)\<lparr>m_lock := l\<rparr>"
  "ring_get (ch\<lparr>m_lock := l\<rparr>) = ((fst (ring_get ch))\<lparr>m_lock := l\<rparr>, snd (ring_get ch))"
  by (simp_all add: ring_put_def ring_get_def)

text \<open>What a write does, as a function of the channel's contents.\<close>

definition write_effect ::
  "'a option \<Rightarrow> bool \<Rightarrow> tid \<Rightarrow> 'a channel_t \<times> 'a memory \<times> engine_t
   \<Rightarrow> ('a channel_t \<times> 'a memory \<times> engine_t) \<times> outcome" where
  "write_effect x tr cur s =
     (case s of (ch, mem, e) \<Rightarrow>
        if m_unread ch = m_max_size ch then
          (if tr then (s, Returned False)
           else ((ch\<lparr>m_waiting_write_que := m_waiting_write_que ch @
                     [\<lparr>thread_id = cur, chrotine_id = get_current_chroutine_id cur e, out_ptr = None, in_data = x\<rparr>]\<rparr>,
                  mem, e), Must_hold))
        else case m_waiting_read_que ch of
          c # cs \<Rightarrow> ((ch\<lparr>m_waiting_read_que := cs\<rparr>,
                     (case out_ptr c of None \<Rightarrow> mem | Some p \<Rightarrow> mem(p := x)),
                     fst (engine_awake_on (thread_id c) (chrotine_id c) e)), Returned True)
        | [] \<Rightarrow> ((ring_put x ch, mem, e), Returned True))"

lemma write_cs_eq:
  assumes "chan_ok ch"
  shows "write_cs x tr cur (ch, mem, e) = write_effect x tr cur (ch, mem, e)"
proof -
  have r: "m_unread ch \<le> m_max_size ch" "\<not> m_flag (m_lock ch)" using assms by (simp_all add: chan_ok_def ring_ok_def)
  have keep: "ch\<lparr>m_lock := m_lock ch\<rparr> = ch" by simp
  show ?thesis
    using r by (auto simp: write_cs_def write_effect_def writable_def keep Let_def split: list.splits prod.splits)
qed

lemma content_full: "ring_ok ch \<Longrightarrow> m_unread ch = m_max_size ch \<longleftrightarrow> length (content ch) = nat (m_max_size ch)"
  by (auto simp: length_content ring_ok_def)

text \<open>C11: a write on every branch. It keeps the invariant of the channel; into a full channel it fails
  (try) or queues the writer with its value and waits; otherwise the value goes to the longest waiting
  reader, which is woken, or to the end of the buffer. It always gives the lock back.\<close>

theorem write_spec:
  assumes ok: "chan_ok ch" and w: "write_cs x tr cur (ch, mem, e) = ((ch', mem', e'), r)"
  shows "chan_ok ch' \<and> m_max_size ch' = m_max_size ch \<and>
    (if length (content ch) = nat (m_max_size ch)
     then content ch' = content ch \<and> mem' = mem \<and> e' = e \<and> m_waiting_read_que ch' = m_waiting_read_que ch \<and>
       (if tr then r = Returned False \<and> m_waiting_write_que ch' = m_waiting_write_que ch
        else r = Must_hold \<and> m_waiting_write_que ch' = m_waiting_write_que ch @
          [\<lparr>thread_id = cur, chrotine_id = get_current_chroutine_id cur e, out_ptr = None, in_data = x\<rparr>])
     else r = Returned True \<and> m_waiting_write_que ch' = m_waiting_write_que ch \<and>
       (case m_waiting_read_que ch of
          [] \<Rightarrow> content ch' = content ch @ [x] \<and> mem' = mem \<and> e' = e \<and> m_waiting_read_que ch' = []
        | c # cs \<Rightarrow> content ch' = content ch \<and> m_waiting_read_que ch' = cs \<and>
            mem' = (case out_ptr c of None \<Rightarrow> mem | Some p \<Rightarrow> mem(p := x)) \<and>
            e' = fst (engine_awake_on (thread_id c) (chrotine_id c) e)))"
proof -
  note r = ok [unfolded chan_ok_def]
  note eff = w [unfolded write_cs_eq [OF ok]]
  show ?thesis
  proof (cases "m_unread ch = m_max_size ch")
    case True
    moreover have "0 < m_max_size ch" using r by (simp add: ring_ok_def)
    ultimately show ?thesis
      using eff r content_full [of ch] by (auto simp: write_effect_def chan_ok_def split: if_splits)
  next
    case False
    then have "m_unread ch < m_max_size ch" using r by (simp add: ring_ok_def)
    note put = content_put [OF _ this, of x]
    show ?thesis
      using eff r False content_full [of ch] put
      by (auto simp: write_effect_def chan_ok_def split: list.splits)
  qed
qed

text \<open>A read, while no writer waits, on every branch. It keeps the invariant; on an empty channel it
  fails (try) or queues the reader and waits; otherwise it stores the oldest value in the reader's
  variable.\<close>

theorem read_spec:
  assumes ok: "chan_ok ch" and nw: "m_waiting_write_que ch = []"
    and rd: "read_cs p tr now cur (ch, mem, e) = ((ch', mem', e'), r)"
  shows "chan_ok ch' \<and> m_max_size ch' = m_max_size ch \<and> m_waiting_write_que ch' = [] \<and> e' = e \<and>
    (case content ch of
       [] \<Rightarrow> content ch' = [] \<and> mem' = mem \<and>
         (if tr then r = Returned False \<and> m_waiting_read_que ch' = m_waiting_read_que ch
          else r = Must_hold \<and> m_waiting_read_que ch' = m_waiting_read_que ch @
            [\<lparr>thread_id = cur, chrotine_id = get_current_chroutine_id cur e, out_ptr = Some p, in_data = None\<rparr>])
     | x # xs \<Rightarrow> r = Returned True \<and> content ch' = xs \<and> mem' = mem(p := x) \<and>
         m_waiting_read_que ch' = m_waiting_read_que ch)"
proof -
  note o = ok [unfolded chan_ok_def]
  have keep: "ch\<lparr>m_lock := m_lock ch\<rparr> = ch" by simp
  show ?thesis
  proof (cases "m_unread ch < 1")
    case True
    then have "m_unread ch = 0" "content ch = []" using o length_content [of ch] by (simp_all add: ring_ok_def)
    then show ?thesis
      using rd o nw keep by (auto simp: read_cs_def readable_def chan_ok_def Let_def split: if_splits)
  next
    case False
    then have "0 < m_unread ch" by simp
    note get = content_get [OF _ this]
    have keep': "(fst (ring_get ch))\<lparr>m_lock := m_lock ch\<rparr> = fst (ring_get ch)" by (simp add: ring_get_def)
    have "m_waiting_read_que ch = []" using o False by auto
    then show ?thesis
      using rd o nw False get keep' by (auto simp: read_cs_def readable_def chan_ok_def Let_def)
  qed
qed

lemma triple_pair_cases:
  obtains a b c d where "y = ((a, b, c), d)"
  by (cases y) auto

section \<open>Refinement: tries on a channel without waiters\<close>

datatype 'a chan_op = Try_write "'a option" | Try_read addr

fun chan_run :: "'a chan_op list \<Rightarrow> tid \<Rightarrow> 'a channel_t \<times> 'a memory \<times> engine_t
    \<Rightarrow> ('a channel_t \<times> 'a memory \<times> engine_t) \<times> outcome list" where
  "chan_run [] cur s = (s, [])"
| "chan_run (Try_write x # ops) cur s =
     (let (s1, r) = chan_write x True 0 cur s; (s2, rs) = chan_run ops cur s1 in (s2, r # rs))"
| "chan_run (Try_read p # ops) cur s =
     (let (s1, r) = chan_read p True 0 cur s; (s2, rs) = chan_run ops cur s1 in (s2, r # rs))"

text \<open>The specification: a list of values with a capacity.\<close>

fun queue_run :: "nat \<Rightarrow> 'a chan_op list \<Rightarrow> 'a option list \<times> 'a memory \<Rightarrow> ('a option list \<times> 'a memory) \<times> outcome list" where
  "queue_run cap [] s = (s, [])"
| "queue_run cap (Try_write x # ops) (q, mem) =
     (if length q < cap then (let (s, rs) = queue_run cap ops (q @ [x], mem) in (s, Returned True # rs))
      else (let (s, rs) = queue_run cap ops (q, mem) in (s, Returned False # rs)))"
| "queue_run cap (Try_read p # ops) (q, mem) =
     (case q of
        [] \<Rightarrow> (let (s, rs) = queue_run cap ops (q, mem) in (s, Returned False # rs))
      | x # q' \<Rightarrow> (let (s, rs) = queue_run cap ops (q', mem(p := x)) in (s, Returned True # rs)))"

text \<open>C5: refinement. Any sequence of non-blocking reads and writes on a channel nobody waits on behaves
  as on a bounded list: the same results, the same values in the readers' variables, and the buffer holds
  exactly the list.\<close>

theorem try_ops_refine:
  assumes "chan_ok ch" "m_waiting_read_que ch = []" "m_waiting_write_que ch = []"
    and "queue_run (nat (m_max_size ch)) ops (content ch, mem) = ((q, mem'), rs)"
  shows "\<exists>ch'. chan_run ops cur (ch, mem, e) = ((ch', mem', e), rs) \<and> content ch' = q \<and> chan_ok ch'"
  using assms
proof (induction ops arbitrary: ch mem rs)
  case (Cons op ops)
  have len: "length (content ch) \<le> nat (m_max_size ch)"
    using Cons.prems(1) by (auto simp: chan_ok_def ring_ok_def length_content)
  show ?case
  proof (cases op)
    case (Try_write x)
    obtain ch1 mem1 e1 r where w: "write_cs x True cur (ch, mem, e) = ((ch1, mem1, e1), r)"
      by (rule triple_pair_cases)
    note sp = write_spec [OF Cons.prems(1) w]
    then have "chan_write x True 0 cur (ch, mem, e) = ((ch1, mem, e), r)"
      using w Cons.prems(2) by (auto simp: chan_write_def split: if_splits)
    moreover obtain rs' where "queue_run (nat (m_max_size ch1)) ops (content ch1, mem) = ((q, mem'), rs')" "rs = r # rs'"
      using Cons.prems(2,4) Try_write sp len by (auto split: if_splits prod.splits)
    ultimately show ?thesis
      using Cons.IH [of ch1 mem rs'] sp Cons.prems(2,3) Try_write by (auto split: if_splits)
  next
    case (Try_read p)
    obtain ch1 mem1 e1 r where w: "read_cs p True 0 cur (ch, mem, e) = ((ch1, mem1, e1), r)"
      by (rule triple_pair_cases)
    note sp = read_spec [OF Cons.prems(1,3) w]
    then have "chan_read p True 0 cur (ch, mem, e) = ((ch1, mem1, e), r)"
      using w by (auto simp: chan_read_def split: list.splits)
    moreover obtain rs' where "queue_run (nat (m_max_size ch1)) ops (content ch1, mem1) = ((q, mem'), rs')" "rs = r # rs'"
      using Cons.prems(4) Try_read sp by (auto split: list.splits prod.splits)
    ultimately show ?thesis
      using Cons.IH [of ch1 mem1 rs'] sp Cons.prems(2) Try_read by (auto split: list.splits)
  qed
qed simp

theorem try_ops_refine_witness:
  "\<exists>ch'. chan_run [Try_write (Some 5), Try_write (Some 6), Try_read 1, Try_read 2] 7
      (chan_create 1 :: int channel_t, \<lambda>_. None, engine_instance) =
     ((ch', (\<lambda>_. None)(1 := Some 5), engine_instance), [Returned True, Returned False, Returned True, Returned False])"
proof -
  let ?ch = "chan_create 1 :: int channel_t"
  have c: "m_waiting_read_que ?ch = []" "m_waiting_write_que ?ch = []" "content ?ch = []" "m_max_size ?ch = 1"
    using chan_create_ok [where 'a = int and n = 1] by (simp_all add: chan_create_def Let_def)
  show ?thesis
    using try_ops_refine [OF chan_create_chan_ok c(1,2),
        of "[Try_write (Some 5), Try_write (Some 6), Try_read 1, Try_read 2]" "\<lambda>_. None" "[]"
           "(\<lambda>_. None)(1 := Some 5)" "[Returned True, Returned False, Returned True, Returned False]" 7 engine_instance]
    by (auto simp: c simp del: chan_run.simps)
qed

section \<open>Where the code goes wrong\<close>

lemma locked_spin:
  "m_flag (m_lock ch) \<Longrightarrow> write_cs x tr cur (ch, m, d) = ((ch, m, d), Lock_spin)"
  "m_flag (m_lock ch) \<Longrightarrow> read_cs q tr now cur (ch, m, d) = ((ch, m, d), Lock_spin)"
  by (simp_all add: write_cs_def read_cs_def)

lemma waiting_writer_spins:
  assumes ok: "chan_ok ch" and ww: "m_waiting_write_que ch \<noteq> []"
  shows "read_cs p tr now cur (ch, mem, e) =
    (((fst (ring_get ch))\<lparr>m_lock := (m_lock ch)\<lparr>m_flag := True\<rparr>\<rparr>, mem(p := snd (ring_get ch)), e), Nested_spin)"
proof -
  have o: "\<not> m_flag (m_lock ch)" "m_unread ch = m_max_size ch" "0 < m_max_size ch"
    using ok ww by (simp_all add: chan_ok_def ring_ok_def)
  obtain c cs where cs: "m_waiting_write_que ch = c # cs" using ww by (cases "m_waiting_write_que ch") auto
  show ?thesis using o cs by (simp add: read_cs_def readable_def Let_def chan_write_def locked_spin)
qed

text \<open>C6: a read that finds data while a writer waits never returns: the nested write spins on the lock
  the read holds, the lock stays taken, and from then on every call on the channel, on any thread,
  spins.\<close>

theorem read_with_waiting_writer_deadlocks:
  assumes ok: "chan_ok ch" and ww: "m_waiting_write_que ch \<noteq> []"
  shows "\<exists>ch' mem'. read_cs p tr now cur (ch, mem, e) = ((ch', mem', e), Nested_spin) \<and>
    m_waiting_write_que ch' = m_waiting_write_que ch \<and>
    (\<forall>x q tr' now' cur' m d. write_cs x tr' cur' (ch', m, d) = ((ch', m, d), Lock_spin) \<and>
      read_cs q tr' now' cur' (ch', m, d) = ((ch', m, d), Lock_spin))"
  using waiting_writer_spins [OF ok ww, of p tr now cur mem e] by (auto simp: locked_spin)

text \<open>A channel of capacity 1 after one write, and a second write that waits.\<close>

definition blocked_chan :: "int channel_t" where
  "blocked_chan = fst (fst (write_cs (Some 6) False 9
     (fst (write_cs (Some 5) False 9 (chan_create 1, \<lambda>_. None, engine_instance)))))"

lemma blocked_chan_ok: "chan_ok blocked_chan" "m_waiting_write_que blocked_chan \<noteq> []"
  by (simp_all add: blocked_chan_def write_cs_def chan_create_def new_chutex_def writable_def ring_put_def
      chan_ok_def ring_ok_def Let_def chutex_unlock_def lock_attempt_def)

theorem read_with_waiting_writer_deadlocks_witness:
  "snd (read_cs 1 True 0 9 (blocked_chan, \<lambda>_. None, engine_instance)) = Nested_spin"
  using read_with_waiting_writer_deadlocks [OF blocked_chan_ok, of 1 True 0 9 "\<lambda>_. None" engine_instance] by auto

lemma chan_ok_empty: "chan_ok ch \<Longrightarrow> content ch = [] \<Longrightarrow> m_unread ch \<noteq> m_max_size ch \<and> m_unread ch < 1"
  using length_content [of ch] by (auto simp: chan_ok_def ring_ok_def)

text \<open>The reader's thread, as the channel sees it: OS thread \<open>i\<close> runs the chroutine at address \<open>a\<close>.\<close>

definition runs_on :: "tid \<Rightarrow> addr \<Rightarrow> addr \<Rightarrow> engine_t \<Rightarrow> bool" where
  "runs_on i t a e \<longleftrightarrow> get_thread_by_id i e = Some t \<and> thread_ok (ms_chroutine_id e) t (threads e t) \<and>
     cpu (threads e t) = Some (t, a)"

lemma upd_thread_same: "f (threads w t) = threads w t \<Longrightarrow> upd_thread t f w = w"
  by (simp add: upd_thread_def)

lemma awake_running:
  assumes "runs_on i t a e"
  shows "engine_awake_on i (running_id (threads e t)) e = (e, 0)"
proof -
  have ok: "thread_ok (ms_chroutine_id e) t (threads e t)" and cpu: "cpu (threads e t) = Some (t, a)"
    and g: "get_thread_by_id i e = Some t" using assms by (simp_all add: runs_on_def)
  let ?c = "objs (threads e t) a"
  have y: "yield_to ?c = 0" using thread_okD(8) [OF ok cpu] by simp
  have "yield_over result_done ?c (reporters e) = (?c\<lparr>yield_to := 0\<rparr>, reporters e, INVALID_ID)"
    using y by (simp add: yield_over_def)
  moreover have "?c\<lparr>yield_to := 0\<rparr> = ?c" using y by simp
  moreover have "remove_chroutine INVALID_ID (threads e t) = threads e t" using remove_invalid [OF ok] .
  ultimately have "awake_chroutine t (running_id (threads e t)) e = (e, 0)"
    using thread_ok_running(1) [OF ok cpu] by (simp add: awake_chroutine_def upd_thread_same)
  then show ?thesis using g by (simp add: engine_awake_on_def)
qed

lemma hold_running:
  assumes "runs_on i t a e" "0 \<le> now"
  defines "e' \<equiv> chan_hold now i e"
  shows "due later (objs (threads e' t) a) \<longleftrightarrow> now + HOLD_MS \<le> later"
    "e' = upd_thread t (\<lambda>_. threads e' t) e" "get_chroutine j (threads e' t) = get_chroutine j (threads e t)"
    "yield_wait (objs (threads e' t) a) = 0" "\<not> moved (objs (threads e' t) a)"
    "\<not> stop_son_when_yield_over (objs (threads e' t) a)" "m_std_thread_id (threads e' t) = m_std_thread_id (threads e t)"
proof -
  have ok: "thread_ok (ms_chroutine_id e) t (threads e t)" and cpu: "cpu (threads e t) = Some (t, a)"
    and g: "get_thread_by_id i e = Some t" using assms(1) by (simp_all add: runs_on_def)
  have a: "a \<in> set (chroutines_sched (threads e t))" "yield_wait (objs (threads e t) a) = 0"
    using thread_okD(8) [OF ok cpu] by simp_all
  have e': "e' = upd_thread t (thread_sleep now HOLD_MS) e"
    using g by (simp add: e'_def chan_hold_def engine_sleep_def get_current_thread_def)
  have th: "threads e' t = (set_obj a (save_ctx (Some (t, a)) ((objs (threads e t) a)\<lparr>state := chroutine_state_suspend,
      yield_to := now + HOLD_MS, stop_son_when_yield_over := False\<rparr>)) (threads e t))\<lparr>running_id := INVALID_ID, cpu := None\<rparr>"
    using suspend_eq [OF ok cpu, of "\<lambda>c. c\<lparr>yield_to := now + HOLD_MS, stop_son_when_yield_over := False\<rparr>"]
    by (simp add: e' thread_sleep_def wait_current_def HOLD_MS_def)
  show "due later (objs (threads e' t) a) \<longleftrightarrow> now + HOLD_MS \<le> later"
    using assms(2) a thread_okD(4) [OF ok a(1)] by (auto simp: th due_def HOLD_MS_def ctx_ok_def)
  show "e' = upd_thread t (\<lambda>_. threads e' t) e" by (simp add: e' upd_thread_def)
  show "get_chroutine j (threads e' t) = get_chroutine j (threads e t)" by (simp add: th get_chroutine_def)
  show "yield_wait (objs (threads e' t) a) = 0" "\<not> moved (objs (threads e' t) a)"
    "\<not> stop_son_when_yield_over (objs (threads e' t) a)" "m_std_thread_id (threads e' t) = m_std_thread_id (threads e t)"
    using a thread_okD(4) [OF ok a(1)] by (simp_all add: th ctx_ok_def)
qed

text \<open>C12: the lost wake-up. When a writer on another thread comes between the reader's unlock and its
  \<^verbatim>\<open>HOLD()\<close>, the value is delivered and the reader leaves the waiting queue, but its wake-up happens
  before it suspends: it then sleeps for 946080000000 ms, some 30 years.\<close>

theorem lost_wakeup:
  assumes on: "runs_on i t a e" and now: "0 \<le> now" and ok: "chan_ok ch" and empty: "content ch = []"
    and nw: "m_waiting_read_que ch = []"
  shows "\<exists>ch1 ch2. read_cs p False now i (ch, mem, e) = ((ch1, mem, e), Must_hold) \<and>
    write_cs x tr j (ch1, mem, e) = ((ch2, mem(p := x), e), Returned True) \<and>
    m_waiting_read_que ch2 = [] \<and>
    (\<forall>later. due later (objs (threads (chan_hold now i e) t) a) \<longleftrightarrow> now + 946080000000 \<le> later)"
proof -
  note em = chan_ok_empty [OF ok empty]
  let ?c = "\<lparr>thread_id = i, chrotine_id = running_id (threads e t), out_ptr = Some p, in_data = None\<rparr>"
  let ?ch1 = "ch\<lparr>m_waiting_read_que := [?c]\<rparr>"
  have id: "get_current_chroutine_id i e = running_id (threads e t)"
    using on by (simp add: runs_on_def get_current_chroutine_id_def get_current_thread_def)
  have "\<not> m_flag (m_lock ch)" "ch\<lparr>m_lock := m_lock ch\<rparr> = ch" using ok by (simp_all add: chan_ok_def)
  then have r: "read_cs p False now i (ch, mem, e) = ((?ch1, mem, e), Must_hold)"
    using em nw by (simp add: read_cs_def readable_def Let_def id)
  have ww: "m_waiting_write_que ch = []" using ok em by (auto simp: chan_ok_def ring_ok_def)
  have ok1: "chan_ok ?ch1" using ok em by (auto simp: chan_ok_def ring_ok_def)
  have "write_cs x tr j (?ch1, mem, e) = ((?ch1\<lparr>m_waiting_read_que := []\<rparr>, mem(p := x), e), Returned True)"
    using em awake_running [OF on] by (simp add: write_cs_eq [OF ok1] write_effect_def)
  then show ?thesis using r hold_running(1) [OF on now] by (auto simp: HOLD_MS_def)
qed

text \<open>When the writer comes after the reader has suspended, the value is delivered and the reader is
  due at once.\<close>

theorem handover_wakes_reader:
  assumes on: "runs_on i t a e" and now: "0 \<le> now" and ok: "chan_ok ch" and empty: "content ch = []"
    and nw: "m_waiting_read_que ch = []"
  shows "\<exists>ch1 ch2 e2. chan_read p False now i (ch, mem, e) = ((ch1, mem, chan_hold now i e), Must_hold) \<and>
    chan_write x tr now' j (ch1, mem, chan_hold now i e) = ((ch2, mem(p := x), e2), Returned True) \<and>
    m_waiting_read_que ch2 = [] \<and> (\<forall>later. due later (objs (threads e2 t) a))"
proof -
  note em = chan_ok_empty [OF ok empty] and h = hold_running [OF on now]
  let ?e = "chan_hold now i e"
  have tok: "thread_ok (ms_chroutine_id e) t (threads e t)" and cpu: "cpu (threads e t) = Some (t, a)"
    and g: "get_thread_by_id i e = Some t" using on by (simp_all add: runs_on_def)
  let ?c = "\<lparr>thread_id = i, chrotine_id = running_id (threads e t), out_ptr = Some p, in_data = None\<rparr>"
  let ?ch1 = "ch\<lparr>m_waiting_read_que := [?c]\<rparr>"
  have id: "get_current_chroutine_id i e = running_id (threads e t)"
    using g by (simp add: get_current_chroutine_id_def get_current_thread_def)
  have "\<not> m_flag (m_lock ch)" "ch\<lparr>m_lock := m_lock ch\<rparr> = ch" using ok by (simp_all add: chan_ok_def)
  then have r: "chan_read p False now i (ch, mem, e) = ((?ch1, mem, ?e), Must_hold)"
    using em nw by (simp add: chan_read_def read_cs_def readable_def Let_def id)
  have ok1: "chan_ok ?ch1" using ok em by (auto simp: chan_ok_def ring_ok_def)
  have f: "m_init_over ?e = m_init_over e" "m_main_thread ?e = m_main_thread e" "m_epoll_thread ?e = m_epoll_thread e"
    "m_pool ?e = m_pool e" "m_std_thread_id (threads ?e u) = m_std_thread_id (threads e u)" for u
    using arg_cong [OF h(2), of m_init_over] arg_cong [OF h(2), of m_main_thread] arg_cong [OF h(2), of m_epoll_thread]
      arg_cong [OF h(2), of m_pool] arg_cong [OF h(2), of "\<lambda>e. threads e u"] h(7)
    by (auto simp: upd_thread_def split: if_splits)
  have g1: "get_thread_by_id i ?e = Some t" using g unfolding get_thread_by_id_def f .
  have gc: "get_chroutine (running_id (threads e t)) (threads ?e t) = Some a"
    using h(3) thread_ok_running(1) [OF tok cpu] by simp
  let ?o = "objs (threads ?e t) a"
  have y: "yield_over result_done ?o (reporters ?e) = (?o\<lparr>yield_to := 0\<rparr>, reporters ?e, INVALID_ID)"
    using h(6) by (simp add: yield_over_def)
  let ?e2 = "upd_thread t (\<lambda>th. remove_chroutine INVALID_ID (set_obj a (?o\<lparr>yield_to := 0\<rparr>) th)) ?e"
  have "engine_awake_on i (running_id (threads e t)) ?e = (?e2, 0)"
    using g1 gc y by (simp add: engine_awake_on_def awake_chroutine_def)
  then have w: "chan_write x tr now' j (?ch1, mem, ?e) = ((?ch1\<lparr>m_waiting_read_que := []\<rparr>, mem(p := x), ?e2), Returned True)"
    using em by (simp add: chan_write_def write_cs_eq [OF ok1] write_effect_def)
  have "due later (objs (threads ?e2 t) a)" for later using h(4,5) by (simp add: due_def)
  then show ?thesis using r w by auto
qed

text \<open>An engine whose OS thread 7 runs a chroutine.\<close>

definition reader_engine :: engine_t where
  "reader_engine = engine_instance\<lparr>m_init_over := True, m_creating := [3], m_pool := [(7, 3)],
     ms_chroutine_id := ms_chroutine_id sample_world, threads := threads sample_world\<rparr>"

lemma reader_engine_runs: "runs_on 7 3 0 reader_engine"
  using reach_thread_ok [OF sample_world_reach, of 3]
  by (simp add: runs_on_def reader_engine_def get_thread_by_id_def engine_instance_def)

theorem lost_wakeup_witness:
  "\<not> due 1000000 (objs (threads (chan_hold 100 7 reader_engine) 3) 0)"
proof -
  have "m_waiting_read_que (chan_create 1 :: int channel_t) = []" by (simp add: chan_create_def)
  from lost_wakeup [OF reader_engine_runs _ chan_create_chan_ok _ this, of 100 1 "\<lambda>_. None" None True 8]
  show ?thesis using chan_create_ok [where 'a = int and n = 1] by auto
qed

theorem handover_wakes_reader_witness:
  "\<exists>ch2 e2. fst (chan_write (Some 5) False 200 8
       (fst (chan_read 1 False 100 7 (chan_create 1 :: int channel_t, \<lambda>_. None, reader_engine)))) =
     (ch2, (\<lambda>_. None)(1 := Some 5), e2) \<and> due 200 (objs (threads e2 3) 0)"
proof -
  have "m_waiting_read_que (chan_create 1 :: int channel_t) = []" by (simp add: chan_create_def)
  from handover_wakes_reader [OF reader_engine_runs _ chan_create_chan_ok _ this, of 100 1 "\<lambda>_. None" "Some 5" False 200 8]
  show ?thesis using chan_create_ok [where 'a = int and n = 1] by auto
qed

text \<open>A blocking read outside a chroutine (a thread unknown to the engine, or a main context) does not
  block: on an empty channel it returns true at once without a value, and leaves a waiting entry with
  the id \<^verbatim>\<open>INVALID_ID\<close> and a pointer to the caller's variable behind, which a later write stores to.\<close>

theorem read_outside_chroutine:
  assumes out: "get_current_chroutine_id i e = INVALID_ID" and ok: "chan_ok ch" and empty: "content ch = []"
  shows "\<exists>ch'. chan_read p False now i (ch, mem, e) = ((ch', mem, e), Must_hold) \<and> chan_hold now i e = e \<and>
    m_waiting_read_que ch' = m_waiting_read_que ch @
      [\<lparr>thread_id = i, chrotine_id = INVALID_ID, out_ptr = Some p, in_data = None\<rparr>]"
proof -
  have hold: "chan_hold now i e = e"
    using out by (auto simp: chan_hold_def engine_sleep_def get_current_chroutine_id_def thread_sleep_def
        wait_current_def suspend_current_def upd_thread_same split: option.splits)
  have "\<not> m_flag (m_lock ch)" "ch\<lparr>m_lock := m_lock ch\<rparr> = ch" using ok by (simp_all add: chan_ok_def)
  then show ?thesis
    using chan_ok_empty [OF ok empty] hold out by (simp add: chan_read_def read_cs_def readable_def Let_def)
qed

theorem read_outside_chroutine_witness:
  "fst (snd (fst (chan_read 1 False 100 99 (chan_create 1 :: int channel_t, \<lambda>_. Some 0, reader_engine)))) 1 = Some 0"
proof -
  have "get_current_chroutine_id 99 reader_engine = INVALID_ID"
    by (simp add: get_current_chroutine_id_def get_current_thread_def get_thread_by_id_def reader_engine_def engine_instance_def)
  from read_outside_chroutine [OF this, of "chan_create 1 :: int channel_t" 1 100 "\<lambda>_. Some 0"]
  show ?thesis using chan_create_ok [where 'a = int and n = 1] chan_create_chan_ok [where 'a = int and n = 1] by auto
qed

theorem write_spec_witness:
  "snd (write_cs (Some 6) True 9 (blocked_chan, \<lambda>_. None, engine_instance)) = Returned False"
proof -
  obtain ch m e r where w: "write_cs (Some 6) True 9 (blocked_chan, \<lambda>_. None, engine_instance) = ((ch, m, e), r)"
    by (rule triple_pair_cases)
  have "length (content blocked_chan) = nat (m_max_size blocked_chan)"
    using blocked_chan_ok content_full [of blocked_chan] by (simp add: chan_ok_def)
  then show ?thesis using write_spec [OF blocked_chan_ok(1) w] w by simp
qed

theorem read_spec_witness:
  "snd (read_cs 1 True 0 9 (chan_create 2 :: int channel_t, \<lambda>_. None, engine_instance)) = Returned False"
proof -
  obtain ch m e r where w: "read_cs 1 True 0 9 (chan_create 2 :: int channel_t, \<lambda>_. None, engine_instance) = ((ch, m, e), r)"
    by (rule triple_pair_cases)
  have "m_waiting_write_que (chan_create 2 :: int channel_t) = []" by (simp add: chan_create_def Let_def)
  from read_spec [OF chan_create_chan_ok this w] show ?thesis
    using chan_create_ok [where 'a = int and n = 2] w by simp
qed

end
