(* ===== verification/Chan_Selecter.thy ===== *)
theory Chan_Selecter
  imports Channel_Props
begin

text \<open>
  Selecting among channels (\<^verbatim>\<open>chan_selecter_t\<close>, engin/chan_selecter.hpp and .cpp). The cases are a
  \<^verbatim>\<open>std::map\<close> keyed by the channel's address, so they are tried in address order. A callback is a
  name; \<open>None\<close> is a null \<^verbatim>\<open>std::function\<close>. Channels live in a store; all channels of a selecter have
  elements of one type.

  \<open>select_once\<close> returns which callback to run, since callbacks are application code; \<open>select_pass\<close>
  is one pass of the loop of \<^verbatim>\<open>select\<close>.
\<close>

datatype act_type_t = selecter_type_unknown | selecter_type_default | selecter_type_read

record chan_select_node_t =
  chan :: "addr option"
  act_type :: act_type_t
  data_ptr :: "addr option"
  callback :: "nat option"

definition default_node :: chan_select_node_t where
  "default_node = \<lparr>chan = None, act_type = selecter_type_unknown, data_ptr = None, callback = None\<rparr>"

record chan_selecter_t =
  m_default :: chan_select_node_t
  m_cases :: "(addr, chan_select_node_t) omap"

definition new_selecter :: chan_selecter_t where
  "new_selecter = \<lparr>m_default = default_node, m_cases = []\<rparr>"

text \<open>What the calls work on: the channels, the memory read into, the engine.\<close>

type_synonym 'a chan_world = "(addr \<Rightarrow> 'a channel_t) \<times> 'a memory \<times> engine_t"

definition add_case ::
  "addr option \<Rightarrow> addr option \<Rightarrow> nat option \<Rightarrow> chan_selecter_t \<Rightarrow> chan_selecter_t \<times> int" where
  "add_case ch p cb s =
     (case (ch, p) of
        (Some c, Some d) \<Rightarrow>
          (let s1 = (case omap_find c (m_cases s) of
                       None \<Rightarrow> s
                     | Some _ \<Rightarrow> s\<lparr>m_cases := omap_erase c (m_cases s)\<rparr>);
               node = \<lparr>chan = Some c, act_type = selecter_type_read, data_ptr = Some d, callback = cb\<rparr>
           in (s1\<lparr>m_cases := omap_put c node (m_cases s1)\<rparr>, 0))
      | _ \<Rightarrow> (s, -1))"

definition default_case :: "nat option \<Rightarrow> chan_selecter_t \<Rightarrow> chan_selecter_t" where
  "default_case cb s =
     s\<lparr>m_default := (m_default s)\<lparr>act_type := selecter_type_default, callback := cb\<rparr>\<rparr>"

definition del_case :: "addr \<Rightarrow> chan_selecter_t \<Rightarrow> chan_selecter_t \<times> int" where
  "del_case c s =
     (case omap_find c (m_cases s) of
        None \<Rightarrow> (s, 0)
      | Some _ \<Rightarrow> (s\<lparr>m_cases := omap_erase c (m_cases s)\<rparr>, 0))"

datatype select_result =
    Sel_none
  | Sel_called "nat option"
  | Sel_stuck outcome

fun select_loop ::
  "tid \<Rightarrow> (addr \<times> chan_select_node_t) list \<Rightarrow> 'a chan_world \<Rightarrow> 'a chan_world \<times> select_result" where
  "select_loop cur [] w = (w, Sel_none)"
| "select_loop cur ((k, node) # ns) (chans, mem, e) =
     (case (chan node, data_ptr node) of
        (Some c, Some d) \<Rightarrow>
          (if act_type node = selecter_type_read
           then (case chan_read d True 0 cur (chans c, mem, e) of
                   ((ch, mem1, e1), Returned True) \<Rightarrow> ((chans(c := ch), mem1, e1), Sel_called (callback node))
                 | ((ch, mem1, e1), Returned False) \<Rightarrow> select_loop cur ns (chans(c := ch), mem1, e1)
                 | ((ch, mem1, e1), r) \<Rightarrow> ((chans(c := ch), mem1, e1), Sel_stuck r))
           else select_loop cur ns (chans, mem, e))
      | _ \<Rightarrow> select_loop cur ns (chans, mem, e))"

definition select_once :: "tid \<Rightarrow> chan_selecter_t \<Rightarrow> 'a chan_world \<Rightarrow> 'a chan_world \<times> select_result" where
  "select_once cur s w = select_loop cur (m_cases s) w"

text \<open>The value \<^verbatim>\<open>select_once\<close> returns.\<close>

definition select_count :: "select_result \<Rightarrow> int" where
  "select_count r = (case r of Sel_called _ \<Rightarrow> 1 | _ \<Rightarrow> 0)"

text \<open>One pass of the loop of \<^verbatim>\<open>select\<close>: the loop ends after running a callback, or sleeps 10 ms and
  goes on.\<close>

datatype pass_result = Pass_done "nat option" | Pass_sleep | Pass_stuck outcome

definition select_pass ::
  "int \<Rightarrow> tid \<Rightarrow> chan_selecter_t \<Rightarrow> 'a chan_world \<Rightarrow> 'a chan_world \<times> pass_result" where
  "select_pass now cur s w =
     (case select_once cur s w of
        (w1, Sel_called cb) \<Rightarrow> (w1, Pass_done cb)
      | (w1, Sel_stuck r) \<Rightarrow> (w1, Pass_stuck r)
      | (w1, Sel_none) \<Rightarrow>
          (if callback (m_default s) \<noteq> None then (w1, Pass_done (callback (m_default s)))
           else (case w1 of (chans, mem, e) \<Rightarrow> ((chans, mem, engine_sleep now 10 cur e), Pass_sleep))))"

section \<open>The cases\<close>

definition selecter_ok :: "chan_selecter_t \<Rightarrow> bool" where
  "selecter_ok s \<longleftrightarrow> omap_ok (m_cases s) \<and>
     (\<forall>(k, n) \<in> set (m_cases s). chan n = Some k \<and> act_type n = selecter_type_read \<and> data_ptr n \<noteq> None)"

lemma new_selecter_ok: "selecter_ok new_selecter"
  by (simp add: new_selecter_def selecter_ok_def)

lemma selecter_ok_put:
  assumes "selecter_ok s" "omap_ok m" "set m \<subseteq> set (m_cases s)"
    "chan n = Some c" "act_type n = selecter_type_read" "data_ptr n \<noteq> None"
  shows "selecter_ok (s\<lparr>m_cases := omap_put c n m\<rparr>)"
  using assms omap_ok_put [of m c n] set_omap_put [of c n m] unfolding selecter_ok_def by auto blast+

text \<open>The cases of a selecter. Adding a case fails for a null channel or variable and otherwise
  replaces the case of that channel and no other; deleting removes exactly that channel's case; both keep
  the cases sorted and readable.\<close>

theorem cases_spec:
  assumes ok: "selecter_ok s"
  shows "selecter_ok (fst (add_case ch p cb s)) \<and> selecter_ok (fst (del_case c s)) \<and>
    (case (ch, p) of
       (Some a, Some d) \<Rightarrow> snd (add_case ch p cb s) = 0 \<and>
         (\<forall>j. omap_find j (m_cases (fst (add_case ch p cb s))) =
            (if j = a then Some \<lparr>chan = Some a, act_type = selecter_type_read, data_ptr = Some d, callback = cb\<rparr>
             else omap_find j (m_cases s)))
     | _ \<Rightarrow> add_case ch p cb s = (s, -1)) \<and>
    (\<forall>j. omap_find j (m_cases (fst (del_case c s))) = (if j = c then None else omap_find j (m_cases s)))"
proof -
  have o: "omap_ok (m_cases s)" using ok by (simp add: selecter_ok_def)
  have "selecter_ok (fst (del_case c s))"
    using ok o set_omap_erase [of c "m_cases s"]
    by (auto simp: del_case_def selecter_ok_def omap_ok_erase split: option.splits)
  moreover have "selecter_ok (fst (add_case ch p cb s))"
  proof (cases "ch = None \<or> p = None")
    case True
    then show ?thesis using ok by (auto simp: add_case_def split: option.splits)
  next
    case False
    then obtain a d where "ch = Some a" "p = Some d" by auto
    then show ?thesis
      using selecter_ok_put [OF ok o] selecter_ok_put [OF ok omap_ok_erase [OF o] set_omap_erase]
      by (auto simp: add_case_def Let_def split: option.splits)
  qed
  moreover have "omap_find j (m_cases (fst (del_case c s))) = (if j = c then None else omap_find j (m_cases s))" for j
    using o by (auto simp: del_case_def omap_find_erase split: option.splits)
  ultimately show ?thesis
    using o by (auto simp: add_case_def Let_def omap_find_put omap_find_erase split: option.splits)
qed

theorem cases_spec_witness:
  "omap_find 5 (m_cases (fst (add_case (Some 5) (Some 8) (Some 1) new_selecter))) =
     Some \<lparr>chan = Some 5, act_type = selecter_type_read, data_ptr = Some 8, callback = Some 1\<rparr>"
  using cases_spec [OF new_selecter_ok, of "Some 5" "Some 8" "Some 1" 0] by simp

section \<open>Selecting\<close>

lemma try_read_empty:
  assumes ok: "chan_ok ch" and empty: "content ch = []"
  shows "chan_read d True now cur (ch, mem, e) = ((ch, mem, e), Returned False)"
proof -
  have "\<not> m_flag (m_lock ch)" "ch\<lparr>m_lock := m_lock ch\<rparr> = ch" using ok by (simp_all add: chan_ok_def)
  then show ?thesis
    using chan_ok_empty [OF ok empty] by (simp add: chan_read_def read_cs_def readable_def Let_def)
qed

lemma try_read_data:
  assumes ok: "chan_ok ch" and nw: "m_waiting_write_que ch = []" and data: "content ch \<noteq> []"
  shows "chan_read d True now cur (ch, mem, e) =
    ((fst (ring_get ch), mem(d := hd (content ch)), e), Returned True)"
    "content (fst (ring_get ch)) = tl (content ch)"
proof -
  have o: "\<not> m_flag (m_lock ch)" "ring_ok ch" using ok by (simp_all add: chan_ok_def)
  have u: "0 < m_unread ch" using data length_content [of ch] by (cases "m_unread ch \<le> 0") auto
  have c: "content ch = snd (ring_get ch) # content (fst (ring_get ch))" using content_get [OF o(2) u] by simp
  have "(fst (ring_get ch))\<lparr>m_lock := m_lock ch\<rparr> = fst (ring_get ch)" by (simp add: ring_get_def)
  then show "chan_read d True now cur (ch, mem, e) = ((fst (ring_get ch), mem(d := hd (content ch)), e), Returned True)"
    using o u nw c by (simp add: chan_read_def read_cs_def readable_def Let_def)
  show "content (fst (ring_get ch)) = tl (content ch)" using c by (metis list.sel(3))
qed

lemma select_loop_spec:
  assumes "\<forall>(k, n) \<in> set ns. chan n = Some k \<and> act_type n = selecter_type_read \<and> data_ptr n \<noteq> None \<and>
      chan_ok (chans k) \<and> m_waiting_write_que (chans k) = []"
  shows "case find (\<lambda>(k, n). content (chans k) \<noteq> []) ns of
      None \<Rightarrow> select_loop cur ns (chans, mem, e) = ((chans, mem, e), Sel_none)
    | Some (k, n) \<Rightarrow> \<exists>d. data_ptr n = Some d \<and> select_loop cur ns (chans, mem, e) =
        ((chans(k := fst (ring_get (chans k))), mem(d := hd (content (chans k))), e), Sel_called (callback n)) \<and>
        content (fst (ring_get (chans k))) = tl (content (chans k))"
  using assms
proof (induction ns)
  case (Cons x xs)
  obtain k n where x: "x = (k, n)" by (cases x)
  then have n: "chan n = Some k" "act_type n = selecter_type_read" "chan_ok (chans k)" "m_waiting_write_que (chans k) = []"
    and "data_ptr n \<noteq> None" using Cons.prems by auto
  then obtain d where d: "data_ptr n = Some d" by auto
  show ?case
  proof (cases "content (chans k) = []")
    case True
    have eq: "select_loop cur (x # xs) (chans, mem, e) = select_loop cur xs (chans, mem, e)"
      using n d try_read_empty [OF n(3) True] by (simp add: x)
    have f: "find (\<lambda>(k, n). content (chans k) \<noteq> []) (x # xs) = find (\<lambda>(k, n). content (chans k) \<noteq> []) xs"
      using True by (simp add: x)
    show ?thesis unfolding eq f using Cons.IH Cons.prems by auto
  next
    case False
    then show ?thesis using n d try_read_data [OF n(3,4) False] by (simp add: x)
  qed
qed simp

text \<open>C39: one pass over the cases. If the channels are consistent and no writer waits on them, the first
  case in address order whose channel has data is served: its oldest value is stored in the case's
  variable and its callback is the one called; the channels before and after it are untouched. With no
  data anywhere nothing changes.\<close>

theorem select_once_spec:
  assumes ok: "selecter_ok s" and ch: "\<forall>k \<in> fst ` set (m_cases s). chan_ok (chans k) \<and> m_waiting_write_que (chans k) = []"
  shows "case find (\<lambda>(k, n). content (chans k) \<noteq> []) (m_cases s) of
      None \<Rightarrow> select_once cur s (chans, mem, e) = ((chans, mem, e), Sel_none)
    | Some (k, n) \<Rightarrow> \<exists>d. data_ptr n = Some d \<and> select_once cur s (chans, mem, e) =
        ((chans(k := fst (ring_get (chans k))), mem(d := hd (content (chans k))), e), Sel_called (callback n)) \<and>
        content (fst (ring_get (chans k))) = tl (content (chans k))"
proof -
  have "\<forall>(k, n) \<in> set (m_cases s). chan n = Some k \<and> act_type n = selecter_type_read \<and> data_ptr n \<noteq> None \<and>
      chan_ok (chans k) \<and> m_waiting_write_que (chans k) = []"
    using ok ch by (fastforce simp: selecter_ok_def)
  from select_loop_spec [OF this] show ?thesis unfolding select_once_def .
qed

definition demo_chan :: "int channel_t" where
  "demo_chan = ring_put (Some 5) (chan_create 1)"

definition demo_selecter :: chan_selecter_t where
  "demo_selecter = fst (add_case (Some 5) (Some 8) (Some 1) (fst (add_case (Some 6) (Some 9) (Some 2) new_selecter)))"

theorem select_once_spec_witness:
  "snd (select_once 7 demo_selecter ((\<lambda>_. chan_create 1)(6 := demo_chan), \<lambda>_. None, engine_instance)) = Sel_called (Some 2)"
proof -
  let ?chans = "(\<lambda>_. chan_create 1)(6 := demo_chan)"
  have s: "selecter_ok demo_selecter"
    using cases_spec [OF new_selecter_ok, of "Some 6" "Some 9" "Some 2" 0]
      cases_spec [of "fst (add_case (Some 6) (Some 9) (Some 2) new_selecter)" "Some 5" "Some 8" "Some 1" 0]
    by (simp add: demo_selecter_def)
  have m: "m_cases demo_selecter =
      [(5, \<lparr>chan = Some 5, act_type = selecter_type_read, data_ptr = Some 8, callback = Some 1\<rparr>),
       (6, \<lparr>chan = Some 6, act_type = selecter_type_read, data_ptr = Some 9, callback = Some 2\<rparr>)]"
    by (simp add: demo_selecter_def add_case_def new_selecter_def)
  have c: "content (chan_create 1 :: int channel_t) = []" "content demo_chan = [Some 5]"
    "chan_ok (chan_create 1 :: int channel_t)" "chan_ok demo_chan"
    "m_waiting_write_que (chan_create 1 :: int channel_t) = []" "m_waiting_write_que demo_chan = []"
    by (simp_all add: chan_create_def demo_chan_def content_def ring_put_def chan_ok_def ring_ok_def new_chutex_def)
  show ?thesis
    using select_once_spec [OF s, of ?chans 7 "\<lambda>_. None" engine_instance] by (auto simp: m c)
qed

end
