(* ===== verification/Timer.thy ===== *)
theory Timer
  imports Chan_Selecter Engine_Props
begin

text \<open>
  Timers (\<^verbatim>\<open>chr_timer_t\<close>, util/timer.hpp and timer.cpp) and the main loop of the process
  (\<^verbatim>\<open>engine_t::run\<close> and the tasks it starts, engin/engine.cpp), which uses one.

  \<^item> \<open>runtime_t\<close> puts the engine, the channels, the variables read into, and the timers together. The
    trigger channel and the variable \<^verbatim>\<open>m_d\<close> of the timer at address \<open>p\<close> have the address \<open>p\<close> in
    their own stores.
  \<^item> The lambdas \<^verbatim>\<open>start\<close> passes to the engine are \<open>Timer_trigger p\<close> and \<open>Timer_callback p\<close>; the
    code of the first is \<open>trigger_enter\<close> and \<open>trigger_iter\<close> (one pass of its loop), cut where it
    suspends. \<^verbatim>\<open>stop\<close> is cut at the \<^verbatim>\<open>SLEEP(5)\<close> of its waiting loop.
\<close>

record chr_timer_t =
  m_running :: bool
  m_interval_ms :: int
  m_cb :: "nat option"
  m_selecter :: chan_selecter_t
  m_trigger_chroutine_id :: int
  m_trigger :: addr
  m_once :: bool

record runtime_t =
  eng :: engine_t
  chans :: "addr \<Rightarrow> int channel_t"
  mem :: "int memory"
  timers :: "addr \<Rightarrow> chr_timer_t"

definition upd_timer :: "addr \<Rightarrow> (chr_timer_t \<Rightarrow> chr_timer_t) \<Rightarrow> runtime_t \<Rightarrow> runtime_t" where
  "upd_timer p f rt = rt\<lparr>timers := (timers rt)(p := f (timers rt p))\<rparr>"

text \<open>A call on the engine alone.\<close>

definition on_eng :: "(engine_t \<Rightarrow> engine_t) \<Rightarrow> runtime_t \<Rightarrow> runtime_t" where
  "on_eng f rt = rt\<lparr>eng := f (eng rt)\<rparr>"

definition new_timer :: "int \<Rightarrow> nat option \<Rightarrow> addr \<Rightarrow> chr_timer_t" where
  "new_timer interval_ms cb p =
     \<lparr>m_running = False, m_interval_ms = interval_ms, m_cb = cb, m_selecter = new_selecter,
      m_trigger_chroutine_id = INVALID_ID, m_trigger = p, m_once = False\<rparr>"

definition timer_create :: "int \<Rightarrow> nat option \<Rightarrow> tid \<Rightarrow> runtime_t \<Rightarrow> runtime_t \<times> addr option" where
  "timer_create interval_ms cb cur rt =
     (let p = next_addr (eng rt);
          rt1 = upd_timer p (\<lambda>_. new_timer interval_ms cb p) (rt\<lparr>chans := (chans rt)(p := chan_create 1)\<rparr>);
          (e, r) = create_selectable NULL_THREAD_ID cur (eng rt1)
      in (rt1\<lparr>eng := e\<rparr>, r))"

text \<open>\<^verbatim>\<open>m_selecter.select_once()\<close> on the runtime.\<close>

definition timer_select_once :: "addr \<Rightarrow> tid \<Rightarrow> runtime_t \<Rightarrow> runtime_t \<times> select_result" where
  "timer_select_once p cur rt =
     (case select_once cur (m_selecter (timers rt p)) (chans rt, mem rt, eng rt) of
        ((cs, m, e), r) \<Rightarrow> (rt\<lparr>chans := cs, mem := m, eng := e\<rparr>, r))"

text \<open>The callback of the select case, run on the thread of the selecter.\<close>

definition timer_case :: "addr \<Rightarrow> tid \<Rightarrow> runtime_t \<Rightarrow> runtime_t" where
  "timer_case p cur rt =
     (if \<not> m_running (timers rt p) then rt
      else on_eng (\<lambda>e. fst (engine_create_son (Some (Timer_callback p)) nullptr cur e)) rt)"

text \<open>\<^verbatim>\<open>select_once\<close> with its callback.\<close>

definition timer_poll :: "addr \<Rightarrow> tid \<Rightarrow> runtime_t \<Rightarrow> runtime_t \<times> int" where
  "timer_poll p cur rt =
     (case timer_select_once p cur rt of
        (rt1, Sel_called _) \<Rightarrow> (timer_case p cur rt1, 1)
      | (rt1, _) \<Rightarrow> (rt1, 0))"

definition timer_select :: "addr \<Rightarrow> tid \<Rightarrow> runtime_t \<Rightarrow> runtime_t \<times> int" where
  "timer_select p cur rt = (if \<not> m_running (timers rt p) then (rt, 0) else timer_poll p cur rt)"

definition timer_start :: "addr \<Rightarrow> bool \<Rightarrow> tid \<Rightarrow> runtime_t \<Rightarrow> runtime_t \<times> bool" where
  "timer_start p once cur rt =
     (let tm = timers rt p in
      if m_running tm then (rt, False)
      else if m_cb tm = None \<or> m_interval_ms tm = 0 then (rt, False)
      else (let rt1 = upd_timer p (\<lambda>tm. tm\<lparr>m_running := True, m_once := once\<rparr>) rt;
                (e, i) = engine_create_son (Some (Timer_trigger p)) nullptr cur (eng rt1);
                rt2 = upd_timer p (\<lambda>tm. tm\<lparr>m_trigger_chroutine_id := i,
                        m_selecter := fst (add_case (Some (m_trigger tm)) (Some p) (Some p) (m_selecter tm))\<rparr>)
                        (rt1\<lparr>eng := e\<rparr>)
            in (rt2, True)))"

text \<open>The trigger chroutine: the first sleep, then one pass of its loop. The result of a pass says whether
  the chroutine goes on; when the write has to wait, the sleep follows on resumption.\<close>

definition trigger_enter :: "addr \<Rightarrow> int \<Rightarrow> tid \<Rightarrow> runtime_t \<Rightarrow> runtime_t" where
  "trigger_enter p now cur rt = on_eng (engine_sleep now (m_interval_ms (timers rt p)) cur) rt"

definition trigger_iter :: "addr \<Rightarrow> int \<Rightarrow> tid \<Rightarrow> runtime_t \<Rightarrow> runtime_t \<times> bool" where
  "trigger_iter p now cur rt =
     (if m_running (timers rt p)
      then (let c = m_trigger (timers rt p) in
            case chan_write (Some 1) False now cur (chans rt c, mem rt, eng rt) of
              ((ch, m, e), r) \<Rightarrow>
                (let rt1 = rt\<lparr>chans := (chans rt)(c := ch), mem := m, eng := e\<rparr>
                 in (if r = Returned True then trigger_enter p now cur rt1 else rt1, True)))
      else (upd_timer p (\<lambda>tm. tm\<lparr>m_trigger_chroutine_id := INVALID_ID\<rparr>) rt, False))"

text \<open>\<^verbatim>\<open>stop\<close> up to its waiting loop, and the test of that loop.\<close>

definition timer_stop :: "addr \<Rightarrow> tid \<Rightarrow> runtime_t \<Rightarrow> runtime_t" where
  "timer_stop p cur rt =
     (if \<not> m_running (timers rt p) then rt
      else (let rt1 = upd_timer p (\<lambda>tm. tm\<lparr>m_running := False\<rparr>) rt;
                (rt2, _) = timer_poll p cur rt1;
                rt3 = upd_timer p (\<lambda>tm. tm\<lparr>m_selecter := fst (del_case (m_trigger tm) (m_selecter tm))\<rparr>) rt2;
                i = m_trigger_chroutine_id (timers rt3 p)
            in if i \<noteq> INVALID_ID then on_eng (\<lambda>e. fst (engine_awake i cur e)) rt3 else rt3))"

definition timer_stop_waits :: "addr \<Rightarrow> runtime_t \<Rightarrow> bool" where
  "timer_stop_waits p rt \<longleftrightarrow> m_trigger_chroutine_id (timers rt p) \<noteq> INVALID_ID"

definition timer_abandon :: "addr \<Rightarrow> tid \<Rightarrow> runtime_t \<Rightarrow> runtime_t" where
  "timer_abandon p cur rt =
     on_eng (\<lambda>e. fst (unregister_from_engin p NULL_THREAD_ID cur e))
       (if m_running (timers rt p) then timer_stop p cur rt else rt)"

section \<open>The main thread\<close>

definition FLUSH_TIMER_MS :: int where
  "FLUSH_TIMER_MS = 5000"

definition FLUSH_CB :: nat where
  "FLUSH_CB = 0"

text \<open>\<^verbatim>\<open>run\<close> up to the loop of \<^verbatim>\<open>schedule\<close>; \<open>None\<close> when it returns at once.\<close>

definition engine_run :: "tid \<Rightarrow> runtime_t \<Rightarrow> runtime_t option" where
  "engine_run cur rt =
     (case m_main_thread (eng rt) of
        None \<Rightarrow> None
      | Some m \<Rightarrow>
          (if m_is_running (threads (eng rt) m) then None
           else (let rt1 = on_eng (upd_thread m (update_thread_id cur)) rt;
                     rt2 = on_eng (\<lambda>e. fst (create_chroutine_in_mainthread (Some Check_threads_loop) nullptr e)) rt1;
                     (rt3, tm) = timer_create FLUSH_TIMER_MS (Some FLUSH_CB) cur rt2;
                     rt4 = on_eng (\<lambda>e. e\<lparr>m_flush_timer := tm\<rparr>) rt3;
                     rt5 = (case tm of None \<Rightarrow> rt4 | Some p \<Rightarrow> fst (timer_start p False cur rt4))
                 in Some (on_eng (upd_thread m (schedule_enter cur)) rt5))))"

text \<open>The body of the supervision chroutine, cut at its sleep.\<close>

definition check_loop_sleep :: "int \<Rightarrow> engine_t \<Rightarrow> engine_t" where
  "check_loop_sleep now e =
     (case m_main_thread e of None \<Rightarrow> e | Some m \<Rightarrow> upd_thread m (thread_sleep now ENTRY_CALL_CHECK_TIMER_MS) e)"

text \<open>The task \<^verbatim>\<open>stop_main\<close> creates, with \<^verbatim>\<open>stop\<close> cut at its waiting loop.\<close>

definition stop_main_task :: "tid \<Rightarrow> runtime_t \<Rightarrow> runtime_t" where
  "stop_main_task cur rt =
     (let rt1 = (case m_flush_timer (eng rt) of
                   None \<Rightarrow> rt
                 | Some p \<Rightarrow> on_eng (\<lambda>e. e\<lparr>m_flush_timer := None\<rparr>)
                              (timer_abandon p cur (timer_stop p cur rt)));
          rt2 = (case m_main_thread (eng rt1) of
                   None \<Rightarrow> rt1 | Some m \<Rightarrow> on_eng (upd_thread m thread_stop) rt1)
      in case m_epoll_thread (eng rt2) of
           None \<Rightarrow> rt2 | Some p \<Rightarrow> on_eng (upd_thread p thread_stop) rt2)"

section \<open>Properties\<close>

text \<open>The case of the timer at \<open>p\<close>, and its state between calls.\<close>

definition trigger_node :: "addr \<Rightarrow> chan_select_node_t" where
  "trigger_node p = \<lparr>chan = Some p, act_type = selecter_type_read, data_ptr = Some p, callback = Some p\<rparr>"

definition trigger_ready :: "addr \<Rightarrow> runtime_t \<Rightarrow> bool" where
  "trigger_ready p rt \<longleftrightarrow> m_trigger (timers rt p) = p \<and> chan_ok (chans rt p) \<and>
     m_waiting_write_que (chans rt p) = [] \<and> m_waiting_read_que (chans rt p) = [] \<and> m_max_size (chans rt p) = 1"

definition timer_ok :: "addr \<Rightarrow> runtime_t \<Rightarrow> bool" where
  "timer_ok p rt \<longleftrightarrow> trigger_ready p rt \<and>
     m_cases (m_selecter (timers rt p)) = (if m_running (timers rt p) then [(p, trigger_node p)] else [])"

lemma upd_timer_simps [simp]:
  "timers (upd_timer p f rt) q = (if q = p then f (timers rt p) else timers rt q)"
  "chans (upd_timer p f rt) = chans rt" "eng (upd_timer p f rt) = eng rt" "mem (upd_timer p f rt) = mem rt"
  by (simp_all add: upd_timer_def)

lemma on_eng_simps [simp]:
  "timers (on_eng f rt) = timers rt" "chans (on_eng f rt) = chans rt" "eng (on_eng f rt) = f (eng rt)"
  "mem (on_eng f rt) = mem rt"
  by (simp_all add: on_eng_def)

lemma poll_select:
  assumes r: "trigger_ready p rt" and c: "m_cases (m_selecter (timers rt p)) = [(p, trigger_node p)]"
  shows "timer_select_once p cur rt =
    (if content (chans rt p) = [] then (rt, Sel_none)
     else (rt\<lparr>chans := (chans rt)(p := fst (ring_get (chans rt p))), mem := (mem rt)(p := hd (content (chans rt p)))\<rparr>,
           Sel_called (Some p)))"
proof -
  have "selecter_ok (m_selecter (timers rt p))" using c by (simp add: selecter_ok_def trigger_node_def)
  moreover have "\<forall>k \<in> fst ` set (m_cases (m_selecter (timers rt p))). chan_ok (chans rt k) \<and> m_waiting_write_que (chans rt k) = []"
    using r c by (simp add: trigger_ready_def)
  ultimately show ?thesis
    using select_once_spec [of "m_selecter (timers rt p)" "chans rt" cur "mem rt" "eng rt"] c
    by (auto simp: timer_select_once_def trigger_node_def)
qed

lemma ready_get:
  assumes "trigger_ready p rt" "content (chans rt p) \<noteq> []"
  shows "content (fst (ring_get (chans rt p))) = []" "chan_ok (fst (ring_get (chans rt p)))"
proof -
  have ok: "chan_ok (chans rt p)" "m_waiting_write_que (chans rt p) = []" "m_waiting_read_que (chans rt p) = []"
    "m_max_size (chans rt p) = 1" using assms(1) by (simp_all add: trigger_ready_def)
  have "m_unread (chans rt p) \<le> 1" using ok(1,4) by (simp add: chan_ok_def ring_ok_def)
  then have "length (content (chans rt p)) \<le> 1" unfolding length_content by linarith
  then show "content (fst (ring_get (chans rt p))) = []"
    using try_read_data(2) [OF ok(1,2) assms(2)] by (cases "content (chans rt p)") auto
  have "0 < m_unread (chans rt p)" using assms(2) length_content [of "chans rt p"] by (cases "m_unread (chans rt p) \<le> 0") auto
  then show "chan_ok (fst (ring_get (chans rt p)))"
    using content_get [of "chans rt p"] ok by (simp add: chan_ok_def)
qed

lemma poll_ready:
  assumes r: "trigger_ready p rt" and c: "m_cases (m_selecter (timers rt p)) = [(p, trigger_node p)]"
    and po: "timer_poll p cur rt = (rt', n)"
  shows "trigger_ready p rt'" "content (chans rt' p) = []" "timers rt' = timers rt"
    "n = (if content (chans rt p) = [] then 0 else 1)"
    "eng rt' = (if content (chans rt p) \<noteq> [] \<and> m_running (timers rt p)
       then fst (engine_create_son (Some (Timer_callback p)) nullptr cur (eng rt)) else eng rt)"
  using po r ready_get [OF r] by (auto simp: timer_poll_def poll_select [OF r c] timer_case_def trigger_ready_def split: if_splits)

text \<open>A timer fires. While it runs, a pass of its selector takes the trigger out of the channel and
  creates one chroutine for the callback; without a trigger it does nothing; a timer that does not run is
  not polled. The timer stays consistent.\<close>

theorem timer_fires:
  assumes ok: "timer_ok p rt" and sel: "timer_select p cur rt = (rt', n)"
  shows "timer_ok p rt' \<and>
    (if m_running (timers rt p) \<and> content (chans rt p) \<noteq> []
     then n = 1 \<and> content (chans rt' p) = [] \<and>
       eng rt' = fst (engine_create_son (Some (Timer_callback p)) nullptr cur (eng rt))
     else n = 0 \<and> eng rt' = eng rt)"
proof (cases "m_running (timers rt p)")
  case False
  then show ?thesis using ok sel by (simp add: timer_select_def)
next
  case True
  have r: "trigger_ready p rt" and c: "m_cases (m_selecter (timers rt p)) = [(p, trigger_node p)]"
    using ok True by (simp_all add: timer_ok_def)
  have "timer_poll p cur rt = (rt', n)" using sel True by (simp add: timer_select_def)
  note po = poll_ready [OF r c this]
  show ?thesis using po c True by (auto simp: timer_ok_def)
qed

text \<open>Starting. A running timer, a null callback or a zero interval make \<^verbatim>\<open>start\<close> return false and
  change nothing; otherwise the timer runs, its trigger chroutine is the one the engine created, and the
  timer is consistent.\<close>

theorem timer_start_spec:
  assumes ok: "timer_ok p rt"
  shows "if m_running (timers rt p) \<or> m_cb (timers rt p) = None \<or> m_interval_ms (timers rt p) = 0
    then timer_start p once cur rt = (rt, False)
    else snd (timer_start p once cur rt) \<and> timer_ok p (fst (timer_start p once cur rt)) \<and>
      m_running (timers (fst (timer_start p once cur rt)) p) \<and>
      m_once (timers (fst (timer_start p once cur rt)) p) = once \<and>
      eng (fst (timer_start p once cur rt)) = fst (engine_create_son (Some (Timer_trigger p)) nullptr cur (eng rt)) \<and>
      m_trigger_chroutine_id (timers (fst (timer_start p once cur rt)) p) =
        snd (engine_create_son (Some (Timer_trigger p)) nullptr cur (eng rt))"
  using ok
  by (auto simp: timer_start_def timer_ok_def trigger_ready_def Let_def add_case_def trigger_node_def split: prod.splits)

text \<open>C40: stopping. \<^verbatim>\<open>stop\<close> empties the trigger channel, removes the case and wakes the trigger
  chroutine; the next pass of that chroutine's loop ends it, and with it the waiting loop of
  \<^verbatim>\<open>stop\<close>. No callback is created by the stop itself.\<close>

theorem timer_stop_spec:
  fixes cur :: tid
  assumes ok: "timer_ok p rt" and run: "m_running (timers rt p)"
    and i: "m_trigger_chroutine_id (timers rt p) = i" "i \<noteq> INVALID_ID"
  defines "rt' \<equiv> timer_stop p cur rt"
  shows "timer_ok p rt' \<and> \<not> m_running (timers rt' p) \<and> content (chans rt' p) = [] \<and>
    eng rt' = fst (engine_awake i cur (eng rt)) \<and> timer_stop_waits p rt' \<and>
    (\<forall>rt2 now. timers rt2 p = timers rt' p \<longrightarrow>
      snd (trigger_iter p now cur rt2) = False \<and> \<not> timer_stop_waits p (fst (trigger_iter p now cur rt2)))"
proof -
  let ?rt1 = "upd_timer p (\<lambda>tm. tm\<lparr>m_running := False\<rparr>) rt"
  have r: "trigger_ready p ?rt1" and c: "m_cases (m_selecter (timers ?rt1 p)) = [(p, trigger_node p)]"
    using ok run by (simp_all add: timer_ok_def trigger_ready_def)
  obtain rt2 n where po: "timer_poll p cur ?rt1 = (rt2, n)" by fastforce
  note pr = poll_ready [OF r c po]
  have t: "timers rt2 p = (timers rt p)\<lparr>m_running := False\<rparr>" using pr(3) by simp
  have tr: "m_trigger (timers rt p) = p" using r by (simp add: trigger_ready_def)
  have rt': "rt' = on_eng (\<lambda>e. fst (engine_awake i cur e))
      (upd_timer p (\<lambda>tm. tm\<lparr>m_selecter := fst (del_case (m_trigger tm) (m_selecter tm))\<rparr>) rt2)"
    using run po i t by (simp add: rt'_def timer_stop_def Let_def)
  have m: "m_cases (fst (del_case p (m_selecter (timers rt p)))) = []"
    using c by (simp add: del_case_def)
  have "timer_ok p rt'" using pr(1) t m tr by (simp add: rt' timer_ok_def trigger_ready_def)
  moreover have "eng rt' = fst (engine_awake i cur (eng rt))" using pr(5) by (simp add: rt')
  moreover have "\<not> m_running (timers rt' p)" "content (chans rt' p) = []" "timer_stop_waits p rt'"
    using pr(2) t i by (simp_all add: rt' timer_stop_waits_def)
  ultimately show ?thesis by (auto simp: trigger_iter_def timer_stop_waits_def)
qed

text \<open>The trigger. On a consistent running timer whose channel is empty the trigger chroutine's loop
  body never blocks: it puts one trigger into the channel and sleeps for the interval.\<close>

theorem trigger_tick:
  fixes cur :: tid and now :: int
  assumes ok: "timer_ok p rt" and run: "m_running (timers rt p)" and empty: "content (chans rt p) = []"
  defines "rt' \<equiv> fst (trigger_iter p now cur rt)"
  shows "snd (trigger_iter p now cur rt) \<and> timer_ok p rt' \<and> content (chans rt' p) = [Some 1] \<and>
    eng rt' = engine_sleep now (m_interval_ms (timers rt p)) cur (eng rt)"
proof -
  have r: "m_trigger (timers rt p) = p" "chan_ok (chans rt p)" "m_waiting_write_que (chans rt p) = []"
    "m_waiting_read_que (chans rt p) = []" "m_max_size (chans rt p) = 1"
    using ok by (simp_all add: timer_ok_def trigger_ready_def)
  obtain ch m e r1 where w: "write_cs (Some 1) False cur (chans rt p, mem rt, eng rt) = ((ch, m, e), r1)"
    by (rule triple_pair_cases)
  have sp: "chan_ok ch" "m_max_size ch = 1" "r1 = Returned True" "m_waiting_write_que ch = []" "content ch = [Some 1]"
    "m = mem rt" "e = eng rt" "m_waiting_read_que ch = []"
    using write_spec [OF r(2) w] r empty by simp_all
  have "chan_write (Some 1) False now cur (chans rt p, mem rt, eng rt) = ((ch, mem rt, eng rt), Returned True)"
    using w sp by (simp add: chan_write_def)
  then show ?thesis
    using run r sp ok
    by (simp add: rt'_def trigger_iter_def trigger_enter_def Let_def timer_ok_def trigger_ready_def)
qed

text \<open>A runtime with one timer, created on the thread that runs a chroutine, and started.\<close>

definition timer_runtime :: runtime_t where
  "timer_runtime = \<lparr>eng = reader_engine, chans = (\<lambda>_. chan_create 1), mem = (\<lambda>_. None),
     timers = (\<lambda>p. new_timer 20 (Some 4) p)\<rparr>"

lemma timer_runtime_ok: "timer_ok p timer_runtime"
  using chan_create_chan_ok [where 'a = int and n = 1]
  by (simp add: timer_ok_def trigger_ready_def timer_runtime_def new_timer_def new_selecter_def chan_create_def)

lemma timer_runtime_simps [simp]:
  "\<not> m_running (timers timer_runtime p)" "m_cb (timers timer_runtime p) \<noteq> None"
  "m_interval_ms (timers timer_runtime p) = 20"
  by (simp_all add: timer_runtime_def new_timer_def)

theorem timer_start_spec_witness:
  "snd (timer_start 5 False 7 timer_runtime) \<and> m_running (timers (fst (timer_start 5 False 7 timer_runtime)) 5)"
  using timer_start_spec [OF timer_runtime_ok, of 5 False 7] by simp

definition started_runtime :: runtime_t where
  "started_runtime = fst (timer_start 5 False 7 timer_runtime)"

lemma started_runtime_facts:
  "timer_ok 5 started_runtime" "m_running (timers started_runtime 5)" "content (chans started_runtime 5) = []"
  "m_trigger_chroutine_id (timers started_runtime 5) = 3"
proof -
  have e: "engine_create_son (Some (Timer_trigger 5)) nullptr 7 reader_engine =
      create_chroutine 3 (Some (Timer_trigger 5)) nullptr reader_engine"
    using reader_engine_runs by (simp add: engine_create_son_def runs_on_def get_current_thread_def)
  have i: "snd (create_chroutine 3 (Some (Timer_trigger 5)) nullptr reader_engine) = 3"
    by (simp add: create_chroutine_def reader_engine_def Let_def gen_chroutine_id_def)
  have c: "chans started_runtime = chans timer_runtime"
    by (simp add: started_runtime_def timer_start_def Let_def split: prod.splits)
  show "timer_ok 5 started_runtime" "m_running (timers started_runtime 5)"
    "m_trigger_chroutine_id (timers started_runtime 5) = 3"
    using timer_runtime_ok [of 5] e i
    by (auto simp: started_runtime_def timer_start_def timer_ok_def trigger_ready_def Let_def add_case_def
        trigger_node_def split: prod.splits) (simp_all add: timer_runtime_def)
  show "content (chans started_runtime 5) = []"
    using c chan_create_ok [where 'a = int and n = 1] by (simp add: timer_runtime_def)
qed

theorem trigger_tick_witness:
  "content (chans (fst (trigger_iter 5 100 7 started_runtime)) 5) = [Some 1]"
  using trigger_tick [OF started_runtime_facts(1-3), of 100 7] by simp

theorem timer_stop_spec_witness:
  "\<not> m_running (timers (timer_stop 5 7 started_runtime) 5) \<and> timer_stop_waits 5 (timer_stop 5 7 started_runtime)"
  using timer_stop_spec [OF started_runtime_facts(1,2,4), of 7] by (simp add: INVALID_ID_def)

theorem timer_fires_witness:
  "snd (timer_select 5 7 (fst (trigger_iter 5 100 7 started_runtime))) = 1"
proof -
  let ?rt = "fst (trigger_iter 5 100 7 started_runtime)"
  have ok: "timer_ok 5 ?rt" "content (chans ?rt 5) = [Some 1]" "timers ?rt = timers started_runtime"
    using trigger_tick [OF started_runtime_facts(1-3), of 100 7]
    by (auto simp: trigger_iter_def trigger_enter_def Let_def started_runtime_facts split: prod.splits)
  obtain rt' n where s: "timer_select 5 7 ?rt = (rt', n)" by fastforce
  show ?thesis using timer_fires [OF ok(1) s] ok started_runtime_facts(2) s by simp
qed

end
