(* ===== verification/Socket.thy ===== *)
theory Socket
  imports Channel_Props "HOL-Library.Word"
begin

text \<open>
  The poller and the sockets of the raw TCP endpoints (net/epoll/epoll.cpp, socket.hpp and socket.cpp).

  \<^item> Sockets live in a store of addresses; the poller's map, the clients and the servers hold addresses.
    \<open>freed\<close> lists the destroyed ones. The store keeps the contents of a destroyed socket, and a use of
    it is logged as \<open>Freed_use\<close>: from there on the C++ program is undefined, and the model goes on
    with the stale contents.
  \<^item> System calls answer from \<open>sys\<close>, one list of coming results per call; a list that has run out
    answers as a kernel with nothing to do: \<^verbatim>\<open>EAGAIN\<close> for reads, writes and accepts, success for
    \<^verbatim>\<open>epoll_ctl\<close> and \<^verbatim>\<open>fcntl\<close>. What the program asks of the kernel is appended to \<open>net_log\<close>.
  \<^item> A socket tells its sink, a client or a server, about data and its end. \<^verbatim>\<open>close_fd\<close>,
    \<^verbatim>\<open>on_close\<close>, \<^verbatim>\<open>on_closed\<close> and \<^verbatim>\<open>~socket_t\<close> call one another: they are mutually recursive, and
    their termination rests on the number of sockets that are owned.
  \<^item> Assertions are on, as the build files have it (Debug); \<open>None\<close> is the abort.
\<close>

unbundle bit_operations_syntax

section \<open>Blocks of data\<close>

type_synonym byte_t = "8 word"

text \<open>The pointer \<^verbatim>\<open>m_buf\<close>: null, an allocated array, or one that is already deleted.\<close>

datatype buf_ptr = Null | Live "byte_t list" | Dangling

record raw_data_block_t =
  m_buf :: buf_ptr
  m_len :: int
  m_key :: "addr option"

definition empty_block :: raw_data_block_t where
  "empty_block = \<lparr>m_buf = Null, m_len = 0, m_key = None\<rparr>"

text \<open>The constructors; \<open>dat\<close> is \<open>None\<close> for a null pointer, and has at least \<open>len\<close> bytes otherwise.\<close>

definition new_block :: "byte_t list option \<Rightarrow> int \<Rightarrow> addr option \<Rightarrow> raw_data_block_t" where
  "new_block dat len key =
     (case dat of
        Some bs \<Rightarrow> (if len > 0 then \<lparr>m_buf = Live (take (nat len) bs), m_len = len, m_key = key\<rparr>
                    else empty_block)
      | None \<Rightarrow> empty_block)"

fun buf_bytes :: "buf_ptr \<Rightarrow> byte_t list" where
  "buf_bytes (Live bs) = bs"
| "buf_bytes _ = []"

fun buf_delete :: "buf_ptr \<Rightarrow> buf_ptr" where
  "buf_delete Null = Null"
| "buf_delete _ = Dangling"

definition copy_block :: "raw_data_block_t \<Rightarrow> raw_data_block_t" where
  "copy_block other =
     \<lparr>m_buf = (if m_len other \<noteq> 0 then Live (take (nat (m_len other)) (buf_bytes (m_buf other))) else Null),
      m_len = m_len other, m_key = m_key other\<rparr>"

definition assign_block :: "raw_data_block_t \<Rightarrow> raw_data_block_t \<Rightarrow> raw_data_block_t" where
  "assign_block this other =
     (let b = buf_delete (m_buf this)
      in \<lparr>m_buf = (if m_len other \<noteq> 0
                   then Live (take (nat (m_len other)) (buf_bytes (m_buf other))) else b),
          m_len = m_len other, m_key = m_key other\<rparr>)"

text \<open>The move constructor: the new block and what is left in the old one.\<close>

definition move_block :: "raw_data_block_t \<Rightarrow> raw_data_block_t \<times> raw_data_block_t" where
  "move_block other = (other, empty_block)"

text \<open>The destructor deletes \<^verbatim>\<open>m_buf\<close>: false when the array is already deleted.\<close>

definition delete_block :: "raw_data_block_t \<Rightarrow> bool" where
  "delete_block b = (m_buf b \<noteq> Dangling)"

section \<open>State\<close>

datatype protocol_t = protocol_unknown | protocol_tcp | protocol_udp

record peer_info_t =
  local_addr :: string
  remote_addr :: string
  local_port :: nat
  remote_port :: nat

text \<open>Clients and servers are numbered.\<close>

datatype sink_t = Client_sink nat | Server_sink nat

record socket_t =
  m_protocol :: protocol_t
  m_fd :: int
  m_sink :: sink_t
  m_peer_info :: peer_info_t
  m_is_listener :: bool
  m_write_pending_list :: "raw_data_block_t list"
  m_conn_res_chan :: bool

definition default_socket :: socket_t where
  "default_socket =
     \<lparr>m_protocol = protocol_unknown, m_fd = 0, m_sink = Client_sink 0,
      m_peer_info = \<lparr>local_addr = [], remote_addr = [], local_port = 0, remote_port = 0\<rparr>,
      m_is_listener = False, m_write_pending_list = [], m_conn_res_chan = False\<rparr>"

datatype client_state_t = client_creating | client_connecting | client_connected | client_disconnected

datatype server_state_t = server_creating | server_starting | server_serving

record raw_tcp_client_t =
  m_socket :: "addr option"
  client_state :: client_state_t
  client_host :: string
  client_port :: string
  client_read_chan :: "raw_data_block_t channel_t"
  client_write_chan :: "raw_data_block_t channel_t"
  m_conn_result_chan :: "int channel_t"

record raw_tcp_server_t =
  m_listener :: "addr option"
  server_state :: server_state_t
  m_connections :: "addr list"
  server_host :: string
  server_port :: string
  server_read_chan :: "raw_data_block_t channel_t"
  server_write_chan :: "raw_data_block_t channel_t"

datatype read_res = Rd_data "byte_t list" | Rd_eof | Rd_err int

datatype ctl_op = EPOLL_CTL_ADD | EPOLL_CTL_MOD | EPOLL_CTL_DEL

datatype net_event =
    Sys_ctl ctl_op int "32 word" int
  | Sys_write int "byte_t list"
  | Sys_close int
  | Freed_use addr
  | Destroyed addr

record sys_t =
  socket_r :: "int list"
  fcntl_r :: "int list"
  ctl_r :: "int list"
  read_r :: "read_res list"
  write_r :: "(int \<times> int) list"
  accept_r :: "int list"
  name_r :: "(string \<times> nat) option list"

record net_t =
  m_fd_map :: "int \<Rightarrow> addr option"
  objs :: "addr \<Rightarrow> socket_t"
  freed :: "addr list"
  next_sock :: addr
  clients :: "raw_tcp_client_t list"
  servers :: "raw_tcp_server_t list"
  net_mem :: "raw_data_block_t memory"
  conn_mem :: "int memory"
  net_eng :: engine_t
  sys :: sys_t
  net_log :: "net_event list"

definition EAGAIN :: int where
  "EAGAIN = 11"

definition EINTR :: int where
  "EINTR = 4"

definition EPOLLIN :: "32 word" where
  "EPOLLIN = 1"

definition EPOLLOUT :: "32 word" where
  "EPOLLOUT = 4"

definition EPOLLERR :: "32 word" where
  "EPOLLERR = 8"

definition EPOLLHUP :: "32 word" where
  "EPOLLHUP = 16"

definition EPOLLET :: "32 word" where
  "EPOLLET = 0x80000000"

definition log_ev :: "net_event \<Rightarrow> net_t \<Rightarrow> net_t" where
  "log_ev ev st = st\<lparr>net_log := net_log st @ [ev]\<rparr>"

definition upd_sock :: "addr \<Rightarrow> (socket_t \<Rightarrow> socket_t) \<Rightarrow> net_t \<Rightarrow> net_t" where
  "upd_sock a f st = st\<lparr>objs := (objs st)(a := f (objs st a))\<rparr>"

text \<open>A use of the socket at \<open>a\<close>.\<close>

definition touch :: "addr \<Rightarrow> net_t \<Rightarrow> net_t" where
  "touch a st = (if a \<in> set (freed st) then log_ev (Freed_use a) st else st)"

fun pop_default :: "'a \<Rightarrow> 'a list \<Rightarrow> 'a \<times> 'a list" where
  "pop_default d [] = (d, [])"
| "pop_default d (x # xs) = (x, xs)"

text \<open>\<^verbatim>\<open>epoll_ctl\<close> on the poller's descriptor.\<close>

definition epoll_ctl :: "ctl_op \<Rightarrow> int \<Rightarrow> 32 word \<Rightarrow> net_t \<Rightarrow> net_t \<times> int" where
  "epoll_ctl op fd ev st =
     (let (r, rs) = pop_default 0 (ctl_r (sys st))
      in (log_ev (Sys_ctl op fd ev r) (st\<lparr>sys := (sys st)\<lparr>ctl_r := rs\<rparr>\<rparr>), r))"

section \<open>Removing and closing a descriptor\<close>

definition get_fd :: "addr \<Rightarrow> net_t \<Rightarrow> int" where
  "get_fd a st = m_fd (objs st a)"

definition get_handler :: "int \<Rightarrow> net_t \<Rightarrow> addr option" where
  "get_handler fd st = m_fd_map st fd"

definition del_fd :: "addr option \<Rightarrow> net_t \<Rightarrow> net_t \<times> int" where
  "del_fd handler st =
     (case handler of
        None \<Rightarrow> (st, 0)
      | Some a \<Rightarrow>
          (let st1 = touch a st; fd = get_fd a st1 in
           if fd = 0 then (st1, 0)
           else (fst (epoll_ctl EPOLL_CTL_DEL fd 0 (st1\<lparr>m_fd_map := (m_fd_map st1)(fd := None)\<rparr>)), fd)))"

text \<open>The sockets that clients and servers own through their pointers and maps.\<close>

definition owned :: "net_t \<Rightarrow> nat" where
  "owned st = length (filter (\<lambda>c. m_socket c \<noteq> None) (clients st))
            + sum_list (map (\<lambda>s. length (m_connections s)) (servers st))"

text \<open>The last statement of \<^verbatim>\<open>on_close\<close>, \<^verbatim>\<open>return ::close(m_fd)\<close>; the result is ignored by all callers.\<close>

definition sys_close :: "addr \<Rightarrow> net_t \<Rightarrow> net_t" where
  "sys_close a st = (let st1 = touch a st in log_ev (Sys_close (get_fd a st1)) st1)"

text \<open>The end of a destruction: the members are destroyed, the memory is freed.\<close>

definition mark_destroyed :: "addr \<Rightarrow> net_t \<Rightarrow> net_t" where
  "mark_destroyed a st =
     log_ev (Destroyed a)
       (upd_sock a (\<lambda>s. s\<lparr>m_write_pending_list := []\<rparr>) (st\<lparr>freed := a # freed st\<rparr>))"

lemma sum_list_update_less:
  "s < length xs \<Longrightarrow> f y < f (xs ! s) \<Longrightarrow> sum_list (map f (xs[s := y])) < sum_list (map (f::'a \<Rightarrow> nat) xs)"
  by (induction xs arbitrary: s) (auto split: nat.splits)

lemma filter_update_less:
  "c < length xs \<Longrightarrow> P (xs ! c) \<Longrightarrow> \<not> P y \<Longrightarrow> length (filter P (xs[c := y])) < length (filter P xs)"
proof (induction xs arbitrary: c)
  case (Cons x xs)
  show ?case
  proof (cases c)
    case (Suc d)
    then have "length (filter P (xs[d := y])) < length (filter P xs)" using Cons by simp
    then show ?thesis using Suc by simp
  qed (use Cons.prems in \<open>simp add: less_Suc_eq_le\<close>)
qed simp

lemma owned_client_reset:
  "c < length (clients st) \<Longrightarrow> m_socket (clients st ! c) = Some b \<Longrightarrow>
   owned (st\<lparr>clients := (clients st)[c := (clients st ! c)\<lparr>client_state := client_disconnected, m_socket := None\<rparr>]\<rparr>) < owned st"
  by (simp add: owned_def filter_update_less)

lemma owned_server_erase:
  "s < length (servers st) \<Longrightarrow> a \<in> set (m_connections (servers st ! s)) \<Longrightarrow>
   owned (st\<lparr>servers := (servers st)[s := (servers st ! s)\<lparr>m_connections := remove1 a (m_connections (servers st ! s))\<rparr>]\<rparr>)
     < owned st"
proof -
  assume a: "s < length (servers st)" "a \<in> set (m_connections (servers st ! s))"
  have "m_connections (servers st ! s) \<noteq> []" using a(2) by auto
  then have "length (remove1 a (m_connections (servers st ! s))) < length (m_connections (servers st ! s))"
    using a(2) by (simp add: length_remove1)
  then show ?thesis using a(1) by (simp add: owned_def sum_list_update_less)
qed

lemma owned_log [simp]: "owned (log_ev ev st) = owned st"
  by (simp add: owned_def log_ev_def)

lemma owned_touch [simp]: "owned (touch a st) = owned st"
  by (simp add: touch_def)

lemma owned_del_fd [simp]: "owned (fst (del_fd h st)) = owned st"
  by (simp add: del_fd_def epoll_ctl_def touch_def log_ev_def owned_def Let_def split: option.splits prod.splits)

function (sequential) close_fd :: "addr \<Rightarrow> net_t \<Rightarrow> net_t"
  and on_close :: "addr \<Rightarrow> net_t \<Rightarrow> net_t"
  and on_closed :: "addr \<Rightarrow> net_t \<Rightarrow> net_t"
  and destroy_socket :: "addr \<Rightarrow> net_t \<Rightarrow> net_t" where
  "close_fd a st = on_close a (fst (del_fd (Some a) st))"
| "on_close a st = sys_close a (on_closed a (touch a st))"
| "on_closed a st =
     (case m_sink (objs st a) of
        Client_sink c \<Rightarrow>
          (if c < length (clients st)
           then (case m_socket (clients st ! c) of
                   None \<Rightarrow> st
                 | Some b \<Rightarrow>
                     destroy_socket b
                       (st\<lparr>clients := (clients st)[c := (clients st ! c)\<lparr>client_state := client_disconnected,
                                                                         m_socket := None\<rparr>]\<rparr>))
           else st)
      | Server_sink s \<Rightarrow>
          (if s < length (servers st) \<and> a \<in> set (m_connections (servers st ! s))
           then destroy_socket a
                  (st\<lparr>servers := (servers st)[s := (servers st ! s)
                        \<lparr>m_connections := remove1 a (m_connections (servers st ! s))\<rparr>]\<rparr>)
           else st))"
| "destroy_socket a st = mark_destroyed a (close_fd a st)"
  by pat_completeness auto
termination
  apply (relation "measure (\<lambda>x. case x of
      Inl (Inl (a, st)) \<Rightarrow> 5 * owned st + 3
    | Inl (Inr (a, st)) \<Rightarrow> 5 * owned st + 2
    | Inr (Inl (a, st)) \<Rightarrow> 5 * owned st + 1
    | Inr (Inr (a, st)) \<Rightarrow> 5 * owned st + 4)")
  apply (auto dest: owned_client_reset owned_server_erase)
  done


declare close_fd.simps [simp del] on_close.simps [simp del] on_closed.simps [simp del]
  destroy_socket.simps [simp del]

text \<open>\<^verbatim>\<open>close_fd(int)\<close>\<close>

definition close_fd_num :: "int \<Rightarrow> net_t \<Rightarrow> net_t" where
  "close_fd_num fd st = (case get_handler fd st of None \<Rightarrow> st | Some a \<Rightarrow> close_fd a st)"

section \<open>Registering a descriptor\<close>

definition add_fd :: "addr option \<Rightarrow> 32 word \<Rightarrow> net_t \<Rightarrow> net_t \<times> int" where
  "add_fd handler flag st =
     (case handler of
        None \<Rightarrow> (st, 0)
      | Some a \<Rightarrow>
          (let fd = get_fd a st in
           if fd \<le> 0 then (st, fd)
           else
             (let st1 = (case m_fd_map st fd of
                           None \<Rightarrow> st\<lparr>m_fd_map := (m_fd_map st)(fd := Some a)\<rparr>
                         | Some b \<Rightarrow>
                             (let st0 = fst (del_fd (Some b) st)
                              in case m_fd_map st0 fd of
                                   None \<Rightarrow> st0\<lparr>m_fd_map := (m_fd_map st0)(fd := Some a)\<rparr>
                                 | Some _ \<Rightarrow> st0));
                  (st2, r) = epoll_ctl EPOLL_CTL_ADD fd flag st1
              in if r < 0 then (close_fd a st2, 0) else (st2, fd))))"

definition mod_fd :: "int \<Rightarrow> 32 word \<Rightarrow> net_t \<Rightarrow> net_t \<times> int" where
  "mod_fd fd flag st =
     (case get_handler fd st of
        None \<Rightarrow> (st, -1)
      | Some a \<Rightarrow>
          (let (st1, r) = epoll_ctl EPOLL_CTL_MOD fd flag st
           in if r < 0 then (close_fd a st1, -1) else (st1, 0)))"

section \<open>Creating a socket\<close>

definition make_socket_non_blocking :: "int \<Rightarrow> net_t \<Rightarrow> net_t \<times> int" where
  "make_socket_non_blocking fd st =
     (let (flags, rs) = pop_default 0 (fcntl_r (sys st));
          st1 = st\<lparr>sys := (sys st)\<lparr>fcntl_r := rs\<rparr>\<rparr>
      in if flags = -1 then (st1, -1)
         else (let (r, rs2) = pop_default 0 rs;
                   st2 = st1\<lparr>sys := (sys st1)\<lparr>fcntl_r := rs2\<rparr>\<rparr>
               in if r = -1 then (st2, -1) else (st2, 0)))"

definition after_create :: "addr \<Rightarrow> net_t \<Rightarrow> net_t option" where
  "after_create a st =
     (case make_socket_non_blocking (get_fd a st) st of
        (st1, r) \<Rightarrow> (if r = 0 then Some (fst (add_fd (Some a) (EPOLLIN OR EPOLLET) st1)) else None))"

definition alloc_socket :: "socket_t \<Rightarrow> net_t \<Rightarrow> net_t \<times> addr" where
  "alloc_socket s st =
     (let a = next_sock st in (st\<lparr>next_sock := Suc a, objs := (objs st)(a := s)\<rparr>, a))"

text \<open>The two constructors; the poller they assert is the engine's.\<close>

definition new_socket :: "protocol_t \<Rightarrow> sink_t \<Rightarrow> net_t \<Rightarrow> (net_t \<times> addr) option" where
  "new_socket protocol sink st =
     (if protocol \<noteq> protocol_tcp then None
      else
        (let (fd, rs) = pop_default (-1) (socket_r (sys st));
             st1 = st\<lparr>sys := (sys st)\<lparr>socket_r := rs\<rparr>\<rparr>;
             (st2, a) = alloc_socket (default_socket\<lparr>m_protocol := protocol, m_fd := fd, m_sink := sink\<rparr>) st1
         in if fd > 0 then map_option (\<lambda>st3. (st3, a)) (after_create a st2) else Some (st2, a)))"

definition new_socket_fd :: "int \<Rightarrow> sink_t \<Rightarrow> protocol_t \<Rightarrow> net_t \<Rightarrow> (net_t \<times> addr) option" where
  "new_socket_fd fd sink protocol st =
     (if protocol \<noteq> protocol_tcp \<or> fd \<le> 0 then None
      else
        (let (st1, a) = alloc_socket (default_socket\<lparr>m_protocol := protocol, m_fd := fd, m_sink := sink\<rparr>) st
         in map_option (\<lambda>st2. (st2, a)) (after_create a st1)))"

definition update_peer_info :: "addr \<Rightarrow> net_t \<Rightarrow> net_t" where
  "update_peer_info a st =
     (let (l, rs) = pop_default None (name_r (sys st));
          st1 = (case l of
                   None \<Rightarrow> st
                 | Some (ip, port) \<Rightarrow>
                     upd_sock a (\<lambda>s. s\<lparr>m_peer_info := (m_peer_info s)\<lparr>local_addr := ip, local_port := port\<rparr>\<rparr>) st);
          st2 = st1\<lparr>sys := (sys st1)\<lparr>name_r := rs\<rparr>\<rparr>
      in if m_protocol (objs st2 a) = protocol_tcp
         then (let (r, rs2) = pop_default None rs;
                   st3 = (case r of
                            None \<Rightarrow> st2
                          | Some (ip, port) \<Rightarrow>
                              upd_sock a (\<lambda>s. s\<lparr>m_peer_info := (m_peer_info s)\<lparr>remote_addr := ip, remote_port := port\<rparr>\<rparr>) st2)
               in st3\<lparr>sys := (sys st3)\<lparr>name_r := rs2\<rparr>\<rparr>)
         else st2)"

section \<open>Writing\<close>

text \<open>The loop of \<^verbatim>\<open>::write\<close> calls over the results \<open>rs\<close>: what is left of the results and of the
  bytes, and the pieces the kernel took. A call takes at most the bytes it is given.\<close>

fun write_calls ::
  "(int \<times> int) list \<Rightarrow> byte_t list \<Rightarrow> (int \<times> int) list \<times> byte_t list \<times> byte_t list list" where
  "write_calls rs [] = (rs, [], [])"
| "write_calls [] bs = ([], bs, [])"
| "write_calls ((w, err) # rs) bs =
     (if w \<le> 0
      then (if err = EINTR then write_calls rs bs else (rs, bs, []))
      else (let (rs2, left, cs) = write_calls rs (drop (nat w) bs)
            in (rs2, left, take (nat w) bs # cs)))"

definition write_loop :: "int \<Rightarrow> byte_t list \<Rightarrow> net_t \<Rightarrow> net_t \<times> byte_t list" where
  "write_loop fd bs st =
     (let (rs, left, cs) = write_calls (write_r (sys st)) bs
      in (st\<lparr>sys := (sys st)\<lparr>write_r := rs\<rparr>, net_log := net_log st @ map (Sys_write fd) cs\<rparr>, left))"

definition has_write_pending :: "addr \<Rightarrow> net_t \<Rightarrow> bool" where
  "has_write_pending a st = (m_write_pending_list (objs st a) \<noteq> [])"

definition push_pending :: "raw_data_block_t \<Rightarrow> addr \<Rightarrow> net_t \<Rightarrow> net_t" where
  "push_pending b a st =
     upd_sock a (\<lambda>s. s\<lparr>m_write_pending_list := m_write_pending_list s @ [b]\<rparr>) (touch a st)"

text \<open>\<^verbatim>\<open>socket_t::write\<close>, for a buffer of exactly \<^verbatim>\<open>length\<close> bytes.\<close>

definition socket_write :: "addr \<Rightarrow> byte_t list option \<Rightarrow> net_t \<Rightarrow> net_t \<times> int" where
  "socket_write a buf st =
     (case buf of
        None \<Rightarrow> (st, 0)
      | Some bs \<Rightarrow>
          if bs = [] then (st, 0)
          else if has_write_pending a st
          then (push_pending (new_block (Some bs) (int (length bs)) (Some a)) a st, 0)
          else
            (let (st1, left) = write_loop (get_fd a st) bs st;
                 st2 = (if left = [] then st1
                        else (let st3 = (if has_write_pending a st1 then st1
                                         else fst (mod_fd (get_fd a st1) (EPOLLIN OR EPOLLOUT OR EPOLLET) st1))
                              in push_pending (new_block (Some left) (int (length left)) (Some a)) a st3))
             in (st2, int (length bs) - int (length left))))"

definition pop_pending :: "addr \<Rightarrow> net_t \<Rightarrow> net_t" where
  "pop_pending a st = upd_sock a (\<lambda>s. s\<lparr>m_write_pending_list := tl (m_write_pending_list s)\<rparr>) st"

definition push_front_pending :: "raw_data_block_t \<Rightarrow> addr \<Rightarrow> net_t \<Rightarrow> net_t" where
  "push_front_pending b a st =
     upd_sock a (\<lambda>s. s\<lparr>m_write_pending_list := b # m_write_pending_list s\<rparr>) (touch a st)"

text \<open>The loop of \<^verbatim>\<open>on_write\<close> over the pending blocks \<open>ds\<close>, which are those of the socket until the
  loop stops: the remainder of a block is pushed to the front, and then the front is popped.\<close>

fun pending_loop :: "raw_data_block_t list \<Rightarrow> addr \<Rightarrow> net_t \<Rightarrow> int \<Rightarrow> net_t \<times> int" where
  "pending_loop [] a st tot = (st, tot)"
| "pending_loop (d # ds) a st tot =
     (if m_buf d \<noteq> Null \<and> m_len d \<noteq> 0
      then
        (let bs = take (nat (m_len d)) (buf_bytes (m_buf d));
             (st1, left) = write_loop (get_fd a st) bs st;
             tot1 = tot + (int (length bs) - int (length left))
         in if left \<noteq> []
            then (let st2 = fst (mod_fd (get_fd a st1) (EPOLLIN OR EPOLLOUT OR EPOLLET) st1);
                      st3 = push_front_pending (new_block (Some left) (int (length left)) (Some a)) a st2
                  in (pop_pending a st3, tot1))
            else pending_loop ds a (pop_pending a st1) tot1)
      else pending_loop ds a (pop_pending a st) tot)"

text \<open>\<^verbatim>\<open>(*m_conn_res_chan) << 0\<close> on the channel of the connecting client; \<open>None\<close>: the call never returns.
  Outside a chroutine, where the poller runs, a call that has to wait returns at once.\<close>

definition returns :: "outcome \<Rightarrow> bool" where
  "returns r = (case r of Returned _ \<Rightarrow> True | Must_hold \<Rightarrow> True | _ \<Rightarrow> False)"

definition upd_client :: "nat \<Rightarrow> (raw_tcp_client_t \<Rightarrow> raw_tcp_client_t) \<Rightarrow> net_t \<Rightarrow> net_t" where
  "upd_client c f st = st\<lparr>clients := (clients st)[c := f (clients st ! c)]\<rparr>"

definition upd_server :: "nat \<Rightarrow> (raw_tcp_server_t \<Rightarrow> raw_tcp_server_t) \<Rightarrow> net_t \<Rightarrow> net_t" where
  "upd_server s f st = st\<lparr>servers := (servers st)[s := f (servers st ! s)]\<rparr>"

definition conn_result_write :: "int \<Rightarrow> nat \<Rightarrow> int \<Rightarrow> tid \<Rightarrow> net_t \<Rightarrow> (net_t \<times> outcome)" where
  "conn_result_write v c now cur st =
     (case chan_write (Some v) False now cur (m_conn_result_chan (clients st ! c), conn_mem st, net_eng st) of
        ((ch, mem, e), r) \<Rightarrow>
          (upd_client c (\<lambda>x. x\<lparr>m_conn_result_chan := ch\<rparr>) (st\<lparr>conn_mem := mem, net_eng := e\<rparr>), r))"

definition on_write :: "addr \<Rightarrow> int \<Rightarrow> tid \<Rightarrow> net_t \<Rightarrow> (net_t \<times> int) option" where
  "on_write a now cur st =
     (let st0 = touch a st;
          st1 = fst (mod_fd (get_fd a st0) (EPOLLIN OR EPOLLET) st0);
          st2 = (if m_conn_res_chan (objs st1 a)
                 then (case m_sink (objs st1 a) of
                         Client_sink c \<Rightarrow>
                           (case conn_result_write 0 c now cur st1 of
                              (st', r) \<Rightarrow>
                                if returns r then Some (upd_sock a (\<lambda>s. s\<lparr>m_conn_res_chan := False\<rparr>) st') else None)
                       | Server_sink _ \<Rightarrow> Some st1)
                 else Some st1)
      in map_option (\<lambda>st3. pending_loop (m_write_pending_list (objs st3 a)) a st3 0) st2)"


section \<open>What closing leaves alone\<close>

text \<open>The channels of all endpoints, and the parts of a socket that never change once it is made.\<close>

definition chans_of ::
  "net_t \<Rightarrow> (raw_data_block_t channel_t \<times> raw_data_block_t channel_t \<times> int channel_t) list
          \<times> (raw_data_block_t channel_t \<times> raw_data_block_t channel_t) list" where
  "chans_of st = (map (\<lambda>c. (client_read_chan c, client_write_chan c, m_conn_result_chan c)) (clients st),
                  map (\<lambda>s. (server_read_chan s, server_write_chan s)) (servers st))"

definition sock_ids :: "net_t \<Rightarrow> addr \<Rightarrow> int \<times> sink_t \<times> bool \<times> bool" where
  "sock_ids st a = (m_fd (objs st a), m_sink (objs st a), m_is_listener (objs st a), m_conn_res_chan (objs st a))"

definition net_frame where
  "net_frame st = (chans_of st, sock_ids st, net_mem st, conn_mem st, net_eng st, next_sock st,
     socket_r (sys st), fcntl_r (sys st), read_r (sys st), accept_r (sys st), name_r (sys st))"

lemma map_update_same: "f y = f (xs ! i) \<Longrightarrow> map f (xs[i := y]) = map f xs"
  by (metis list_update_id map_update)

lemma frame_log [simp]: "net_frame (log_ev ev st) = net_frame st"
  by (simp add: net_frame_def chans_of_def sock_ids_def log_ev_def fun_eq_iff)

lemma frame_touch [simp]: "net_frame (touch a st) = net_frame st"
  by (simp add: touch_def)

lemma frame_ctl [simp]: "net_frame (fst (epoll_ctl op fd ev st)) = net_frame st"
  by (simp add: epoll_ctl_def split: prod.splits) (simp add: net_frame_def chans_of_def sock_ids_def fun_eq_iff)

lemma frame_map [simp]: "net_frame (st\<lparr>m_fd_map := m\<rparr>) = net_frame st"
  by (simp add: net_frame_def chans_of_def sock_ids_def fun_eq_iff)

lemma frame_del_fd [simp]: "net_frame (fst (del_fd h st)) = net_frame st"
  by (simp add: del_fd_def Let_def split: option.splits)

lemma frame_sys_close [simp]: "net_frame (sys_close a st) = net_frame st"
  by (simp add: sys_close_def Let_def)

lemma frame_mark_destroyed [simp]: "net_frame (mark_destroyed a st) = net_frame st"
  by (simp add: mark_destroyed_def) (simp add: net_frame_def chans_of_def sock_ids_def upd_sock_def fun_eq_iff)

lemma frame_client_reset [simp]:
  "net_frame (st\<lparr>clients := (clients st)[c := (clients st ! c)\<lparr>client_state := x, m_socket := y\<rparr>]\<rparr>) = net_frame st"
  by (simp add: net_frame_def chans_of_def sock_ids_def map_update_same fun_eq_iff)

lemma frame_server_erase [simp]:
  "net_frame (st\<lparr>servers := (servers st)[s := (servers st ! s)\<lparr>m_connections := x\<rparr>]\<rparr>) = net_frame st"
  by (simp add: net_frame_def chans_of_def sock_ids_def map_update_same fun_eq_iff)

lemma frame_close:
  "net_frame (close_fd a st) = net_frame st"
  "net_frame (on_close a st) = net_frame st"
  "net_frame (on_closed a st) = net_frame st"
  "net_frame (destroy_socket a st) = net_frame st"
  by (induction a st and a st and a st and a st rule: close_fd_on_close_on_closed_destroy_socket.induct)
     (simp_all add: close_fd.simps on_close.simps on_closed.simps destroy_socket.simps
       split: option.splits sink_t.splits)

lemmas frame_closing [simp] = frame_close

lemma frame_close_num [simp]: "net_frame (close_fd_num fd st) = net_frame st"
  by (simp add: close_fd_num_def split: option.splits)

lemma frame_mod_fd [simp]: "net_frame (fst (mod_fd fd ev st)) = net_frame st"
proof -
  have "\<And>st1 r. epoll_ctl EPOLL_CTL_MOD fd ev st = (st1, r) \<Longrightarrow> net_frame st1 = net_frame st"
    by (metis fst_conv frame_ctl)
  then show ?thesis by (auto simp: mod_fd_def split: option.splits prod.splits)
qed

lemma frame_add_fd [simp]: "net_frame (fst (add_fd h ev st)) = net_frame st"
proof -
  have "\<And>st0 st1 r fd. epoll_ctl EPOLL_CTL_ADD fd ev st0 = (st1, r) \<Longrightarrow> net_frame st1 = net_frame st0"
    by (metis fst_conv frame_ctl)
  then show ?thesis by (auto simp: add_fd_def Let_def split: option.splits prod.splits)
qed

lemma frame_write_loop [simp]: "net_frame (fst (write_loop fd bs st)) = net_frame st"
  by (simp add: write_loop_def net_frame_def chans_of_def sock_ids_def fun_eq_iff split: prod.splits)

lemma frame_pending [simp]:
  "net_frame (upd_sock a (\<lambda>s. s\<lparr>m_write_pending_list := f s\<rparr>) st) = net_frame st"
  by (simp add: net_frame_def chans_of_def sock_ids_def upd_sock_def fun_eq_iff)

lemma frame_push_pending [simp]: "net_frame (push_pending b a st) = net_frame st"
  by (simp add: push_pending_def)

lemma frame_socket_write [simp]: "net_frame (fst (socket_write a buf st)) = net_frame st"
proof -
  have "\<And>fd bs st1 left. write_loop fd bs st = (st1, left) \<Longrightarrow> net_frame st1 = net_frame st"
    by (metis fst_conv frame_write_loop)
  then show ?thesis by (auto simp: socket_write_def Let_def split: option.splits prod.splits)
qed

end
