(* ===== verification/Raw_Tcp.thy ===== *)
theory Raw_Tcp
  imports Socket
begin

text \<open>
  The raw TCP client and server (net/epoll/raw_tcp_client.cpp, raw_tcp_server.cpp), the part of
  \<^verbatim>\<open>socket_t\<close> that calls them, and the \<^verbatim>\<open>select\<close> of the poller, which drives them all.

  \<^item> A block handed to the application goes through a \<^verbatim>\<open>channel_t\<close>, as modelled in Channel.thy; a write
    on a channel is the whole call there, and \<open>None\<close> stands for a call that never returns.
  \<^item> \<^verbatim>\<open>connect\<close> is cut where it waits for the result: \<open>connect_begin\<close> ends before
    \<^verbatim>\<open>(*m_conn_result_chan) >> conn_result\<close>, \<open>connect_end\<close> goes on with the value read.
\<close>

section \<open>Data from a socket\<close>

definition client_on_new_data :: "nat \<Rightarrow> addr \<Rightarrow> byte_t list \<Rightarrow> int \<Rightarrow> tid \<Rightarrow> net_t \<Rightarrow> net_t option" where
  "client_on_new_data c which dat now cur st =
     (if dat = [] then Some st
      else
        (case chan_write (Some (new_block (Some dat) (int (length dat)) (Some which))) False now cur
                (client_read_chan (clients st ! c), net_mem st, net_eng st) of
           ((ch, mem, e), r) \<Rightarrow>
             (if returns r
              then Some (upd_client c (\<lambda>x. x\<lparr>client_read_chan := ch\<rparr>) (st\<lparr>net_mem := mem, net_eng := e\<rparr>))
              else None)))"

definition server_on_new_data :: "nat \<Rightarrow> addr \<Rightarrow> byte_t list \<Rightarrow> int \<Rightarrow> tid \<Rightarrow> net_t \<Rightarrow> net_t option" where
  "server_on_new_data s which dat now cur st =
     (if which \<notin> set (m_connections (servers st ! s)) then Some st
      else if dat = [] then Some st
      else
        (case chan_write (Some (new_block (Some dat) (int (length dat)) (Some which))) False now cur
                (server_read_chan (servers st ! s), net_mem st, net_eng st) of
           ((ch, mem, e), r) \<Rightarrow>
             (if returns r
              then Some (upd_server s (\<lambda>x. x\<lparr>server_read_chan := ch\<rparr>) (st\<lparr>net_mem := mem, net_eng := e\<rparr>))
              else None)))"

text \<open>\<^verbatim>\<open>on_new_connection\<close>: the loop over the results of \<^verbatim>\<open>accept\<close>; \<open>None\<close>: an assertion of
  \<^verbatim>\<open>socket_t\<close> fails.\<close>

fun accept_loop :: "int list \<Rightarrow> nat \<Rightarrow> net_t \<Rightarrow> net_t option" where
  "accept_loop [] s st = Some (st\<lparr>sys := (sys st)\<lparr>accept_r := []\<rparr>\<rparr>)"
| "accept_loop (infd # rs) s st =
     (if infd \<le> 0 then Some (st\<lparr>sys := (sys st)\<lparr>accept_r := rs\<rparr>\<rparr>)
      else
        (case new_socket_fd infd (Server_sink s) protocol_tcp st of
           None \<Rightarrow> None
         | Some (st1, a) \<Rightarrow>
             accept_loop rs s
               (upd_server s (\<lambda>x. x\<lparr>m_connections := m_connections x @ [a]\<rparr>) (update_peer_info a st1))))"

definition on_new_connection :: "sink_t \<Rightarrow> net_t \<Rightarrow> net_t option" where
  "on_new_connection sink st =
     (case sink of
        Client_sink _ \<Rightarrow> Some st
      | Server_sink s \<Rightarrow> accept_loop (accept_r (sys st)) s st)"

definition READ_BUF :: nat where
  "READ_BUF = 1024"

definition on_read :: "addr \<Rightarrow> int \<Rightarrow> tid \<Rightarrow> net_t \<Rightarrow> (net_t \<times> int) option" where
  "on_read a now cur st =
     (let sk = objs st a in
      if m_is_listener sk then map_option (\<lambda>st1. (st1, -1)) (on_new_connection (m_sink sk) st)
      else
        (let (r, rs) = pop_default (Rd_err EAGAIN) (read_r (sys st));
             st1 = st\<lparr>sys := (sys st)\<lparr>read_r := rs\<rparr>\<rparr>
         in case r of
              Rd_err _ \<Rightarrow> Some (st1, -1)
            | Rd_eof \<Rightarrow> Some (st1, 0)
            | Rd_data bs \<Rightarrow>
                (let buf = take READ_BUF bs in
                 if buf = [] then Some (st1, 0)
                 else map_option (\<lambda>st2. (st2, int (length buf)))
                        (case m_sink sk of
                           Client_sink c \<Rightarrow> client_on_new_data c a buf now cur st1
                         | Server_sink s \<Rightarrow> server_on_new_data s a buf now cur st1))))"

section \<open>The poller\<close>

lemma on_read_consumes:
  "on_read a now cur st = Some (st1, n) \<Longrightarrow> n \<noteq> -1 \<Longrightarrow> n \<noteq> 0 \<Longrightarrow>
   length (read_r (sys st1)) < length (read_r (sys st))"
  by (cases "read_r (sys st)")
     (auto simp: on_read_def Let_def client_on_new_data_def server_on_new_data_def upd_client_def upd_server_def
       split: if_splits read_res.splits sink_t.splits prod.splits)

text \<open>The loop of \<^verbatim>\<open>on_read\<close> calls on one ready descriptor.\<close>

function read_loop :: "addr \<Rightarrow> int \<Rightarrow> tid \<Rightarrow> net_t \<Rightarrow> net_t option" where
  "read_loop a now cur st =
     (case on_read a now cur (touch a st) of
        None \<Rightarrow> None
      | Some (st1, n) \<Rightarrow>
          (if n = -1 then Some st1
           else if n = 0 then Some (close_fd a st1)
           else read_loop a now cur st1))"
  by pat_completeness auto
termination
proof (relation "measure (\<lambda>(a, now, cur, st). length (read_r (sys st)))", goal_cases)
  case (2 a now cur st x st1 n)
  then have "length (read_r (sys st1)) < length (read_r (sys (touch a st)))"
    using on_read_consumes[of a now cur "touch a st" st1 n] by simp
  then show ?case by (simp add: touch_def log_ev_def split: if_splits)
qed simp

declare read_loop.simps [simp del]

definition handle_event :: "int \<Rightarrow> 32 word \<Rightarrow> int \<Rightarrow> tid \<Rightarrow> net_t \<Rightarrow> net_t option" where
  "handle_event fd events now cur st =
     (if events AND EPOLLERR \<noteq> 0 \<or> events AND EPOLLHUP \<noteq> 0 then Some (close_fd_num fd st)
      else
        (case get_handler fd st of
           None \<Rightarrow> Some (fst (epoll_ctl EPOLL_CTL_DEL fd 0 st))
         | Some a \<Rightarrow>
             (case (if events AND EPOLLIN \<noteq> 0 then read_loop a now cur st else Some st) of
                None \<Rightarrow> None
              | Some st1 \<Rightarrow>
                  (if events AND EPOLLOUT \<noteq> 0 then map_option fst (on_write a now cur st1) else Some st1))))"

definition MAXEVENTS :: nat where
  "MAXEVENTS = 8"

fun events_loop :: "(int \<times> 32 word) list \<Rightarrow> int \<Rightarrow> tid \<Rightarrow> net_t \<Rightarrow> net_t option" where
  "events_loop [] now cur st = Some st"
| "events_loop ((fd, ev) # evs) now cur st =
     (case handle_event fd ev now cur st of None \<Rightarrow> None | Some st1 \<Rightarrow> events_loop evs now cur st1)"

text \<open>\<open>evs\<close> is what \<^verbatim>\<open>epoll_wait\<close> reports, \<open>None\<close> when it fails; it reports at most \<^verbatim>\<open>MAXEVENTS\<close>.\<close>

definition epoll_select :: "(int \<times> 32 word) list option \<Rightarrow> int \<Rightarrow> tid \<Rightarrow> net_t \<Rightarrow> (net_t \<times> int) option" where
  "epoll_select evs now cur st =
     (case evs of
        None \<Rightarrow> Some (st, -1)
      | Some xs \<Rightarrow>
          (let ys = take MAXEVENTS xs
           in map_option (\<lambda>st1. (st1, int (length ys))) (events_loop ys now cur st)))"

section \<open>The client\<close>

definition CHAN_SIZE :: int where
  "CHAN_SIZE = 1024"

definition new_raw_tcp_client :: "string \<Rightarrow> string \<Rightarrow> raw_tcp_client_t" where
  "new_raw_tcp_client host port =
     \<lparr>m_socket = None, client_state = client_creating, client_host = host, client_port = port,
      client_read_chan = chan_create CHAN_SIZE, client_write_chan = chan_create CHAN_SIZE,
      m_conn_result_chan = chan_create 1\<rparr>"

text \<open>\<^verbatim>\<open>create\<close>: the new client, registered on the poller's thread; \<open>None\<close> is the abort.\<close>

definition raw_tcp_client_create :: "string \<Rightarrow> string \<Rightarrow> tid \<Rightarrow> net_t \<Rightarrow> (net_t \<times> addr option) option" where
  "raw_tcp_client_create host port cur st =
     (if epoll_thread_id (net_eng st) = NULL_THREAD_ID then None
      else
        (case create_selectable (epoll_thread_id (net_eng st)) cur (net_eng st) of
           (e, q) \<Rightarrow>
             Some (st\<lparr>net_eng := e,
                      clients := (case q of None \<Rightarrow> clients st
                                  | Some _ \<Rightarrow> clients st @ [new_raw_tcp_client host port])\<rparr>, q)))"

definition EINPROGRESS :: int where
  "EINPROGRESS = 115"

datatype conn_outcome =
    Conn_ret int
  | Conn_waits
  | Conn_null

text \<open>The assignment \<^verbatim>\<open>m_socket = socket_uptr_t(new socket_t(...))\<close>: the pointer is replaced, then the
  old socket is destroyed.\<close>

definition assign_socket :: "nat \<Rightarrow> addr \<Rightarrow> net_t \<Rightarrow> net_t" where
  "assign_socket c a st =
     (let old = m_socket (clients st ! c);
          st1 = upd_client c (\<lambda>x. x\<lparr>m_socket := Some a\<rparr>) st
      in case old of None \<Rightarrow> st1 | Some b \<Rightarrow> destroy_socket b st1)"

text \<open>\<^verbatim>\<open>m_socket.reset()\<close>\<close>

definition reset_socket :: "nat \<Rightarrow> net_t \<Rightarrow> net_t" where
  "reset_socket c st =
     (let old = m_socket (clients st ! c);
          st1 = upd_client c (\<lambda>x. x\<lparr>m_socket := None\<rparr>) st
      in case old of None \<Rightarrow> st1 | Some b \<Rightarrow> destroy_socket b st1)"

text \<open>The end of \<^verbatim>\<open>connect\<close> with the value \<open>ret\<close>.\<close>

definition connect_done :: "nat \<Rightarrow> int \<Rightarrow> net_t \<Rightarrow> net_t \<times> conn_outcome" where
  "connect_done c ret st =
     (if ret = 0
      then (case m_socket (clients st ! c) of
              None \<Rightarrow> (st, Conn_null)
            | Some a \<Rightarrow>
                (update_peer_info a (upd_client c (\<lambda>x. x\<lparr>client_state := client_connected\<rparr>) st), Conn_ret ret))
      else (reset_socket c (upd_client c (\<lambda>x. x\<lparr>client_state := client_disconnected\<rparr>) st), Conn_ret ret))"

text \<open>\<open>res\<close> and \<open>err\<close> are the result of \<^verbatim>\<open>::connect\<close> and its errno.\<close>

definition connect_begin ::
  "nat \<Rightarrow> int \<Rightarrow> int \<Rightarrow> tid \<Rightarrow> net_t \<Rightarrow> (net_t \<times> conn_outcome) option" where
  "connect_begin c res err cur st =
     (case new_socket protocol_tcp (Client_sink c) st of
        None \<Rightarrow> None
      | Some (st1, a) \<Rightarrow>
          (let st2 = assign_socket c a st1 in
           case m_socket (clients st2 ! c) of
             None \<Rightarrow> Some (st2, Conn_null)
           | Some b \<Rightarrow>
               (if get_fd b st2 \<le> 0 then Some (st2, Conn_ret (-1))
                else if res < 0 \<and> err = EINPROGRESS
                then (case chan_reset (m_conn_result_chan (clients st2 ! c)) of
                        (ch, r) \<Rightarrow>
                          (if \<not> returns r then None
                           else
                             (let st3 = upd_client c (\<lambda>x. x\<lparr>m_conn_result_chan := ch,
                                                            client_state := client_connecting\<rparr>)
                                          (upd_sock b (\<lambda>s. s\<lparr>m_conn_res_chan := True\<rparr>) st2);
                                  e = fst (engine_create_son (Some (Connect_timeout c)) nullptr cur (net_eng st3))
                              in Some (st3\<lparr>net_eng := e\<rparr>, Conn_waits))))
                else Some (connect_done c res st2))))"

text \<open>The wait for the result, read into the memory cell \<open>p\<close>.\<close>

definition connect_wait :: "nat \<Rightarrow> addr \<Rightarrow> int \<Rightarrow> tid \<Rightarrow> net_t \<Rightarrow> net_t \<times> outcome" where
  "connect_wait c p now cur st =
     (case chan_read p False now cur (m_conn_result_chan (clients st ! c), conn_mem st, net_eng st) of
        ((ch, mem, e), r) \<Rightarrow>
          (upd_client c (\<lambda>x. x\<lparr>m_conn_result_chan := ch\<rparr>) (st\<lparr>conn_mem := mem, net_eng := e\<rparr>), r))"

text \<open>\<open>ret\<close> is the negative result of \<^verbatim>\<open>::connect\<close>; \<open>so\<close> what \<^verbatim>\<open>getsockopt(SO_ERROR)\<close> gives, \<open>None\<close> when
  that call fails.\<close>

definition connect_end :: "nat \<Rightarrow> int \<Rightarrow> int \<Rightarrow> int option \<Rightarrow> net_t \<Rightarrow> net_t \<times> conn_outcome" where
  "connect_end c ret conn_result so st =
     (if conn_result \<noteq> 0 then connect_done c ret st
      else if m_socket (clients st ! c) = None then (st, Conn_null)
      else connect_done c (case so of None \<Rightarrow> -1 | Some v \<Rightarrow> v) st)"

text \<open>The chroutine that reports the timeout, cut at its sleep.\<close>

definition CONNECT_TIMEOUT_MS :: int where
  "CONNECT_TIMEOUT_MS = 15000"

definition connect_timeout_enter :: "int \<Rightarrow> tid \<Rightarrow> net_t \<Rightarrow> net_t" where
  "connect_timeout_enter now cur st = st\<lparr>net_eng := engine_sleep now CONNECT_TIMEOUT_MS cur (net_eng st)\<rparr>"

definition connect_timeout_fire :: "nat \<Rightarrow> int \<Rightarrow> tid \<Rightarrow> net_t \<Rightarrow> net_t \<times> outcome" where
  "connect_timeout_fire c now cur st = conn_result_write (-2) c now cur st"

definition client_read :: "nat \<Rightarrow> addr \<Rightarrow> int \<Rightarrow> tid \<Rightarrow> net_t \<Rightarrow> net_t \<times> outcome" where
  "client_read c p now cur st =
     (case chan_read p False now cur (client_read_chan (clients st ! c), net_mem st, net_eng st) of
        ((ch, mem, e), r) \<Rightarrow>
          (upd_client c (\<lambda>x. x\<lparr>client_read_chan := ch\<rparr>) (st\<lparr>net_mem := mem, net_eng := e\<rparr>), r))"

definition client_write :: "nat \<Rightarrow> byte_t list option \<Rightarrow> int \<Rightarrow> tid \<Rightarrow> net_t \<Rightarrow> net_t \<times> outcome" where
  "client_write c dat now cur st =
     (case dat of
        None \<Rightarrow> (st, Returned True)
      | Some bs \<Rightarrow>
          if bs = [] then (st, Returned True)
          else
            (case chan_write (Some (new_block dat (int (length bs)) None)) False now cur
                    (client_write_chan (clients st ! c), net_mem st, net_eng st) of
               ((ch, mem, e), r) \<Rightarrow>
                 (upd_client c (\<lambda>x. x\<lparr>client_write_chan := ch\<rparr>) (st\<lparr>net_mem := mem, net_eng := e\<rparr>), r)))"

definition is_connected :: "nat \<Rightarrow> net_t \<Rightarrow> bool" where
  "is_connected c st = (client_state (clients st ! c) = client_connected)"


text \<open>A non-blocking read that succeeds takes an element out of the ring.\<close>

lemma try_read_consumes:
  assumes "chan_read p True now cur (ch, mem, e) = ((ch1, mem1, e1), Returned True)"
  shows "0 < m_unread ch \<and> m_unread ch1 = m_unread ch - 1"
proof (cases "m_flag (m_lock ch)")
  case True
  then show ?thesis using assms by (simp add: chan_read_def read_cs_def lock_attempt_def)
next
  case False
  show ?thesis
  proof (cases "m_waiting_write_que ch")
    case Nil
    then show ?thesis using assms False
      by (auto simp: chan_read_def read_cs_def lock_attempt_def ring_get_def readable_def Let_def
          split: if_splits)
  next
    case (Cons c cs)
    then show ?thesis using assms False
      by (auto simp: chan_read_def read_cs_def chan_write_def write_cs_def lock_attempt_def ring_get_def
          readable_def Let_def split: if_splits)
  qed
qed

text \<open>\<^verbatim>\<open>select\<close> of the client: the blocks of \<^verbatim>\<open>m_write_chan\<close> go to the socket while it is connected. \<open>p\<close> is
  the address of the local \<^verbatim>\<open>data_block\<close>.\<close>

definition client_try_read :: "nat \<Rightarrow> addr \<Rightarrow> tid \<Rightarrow> net_t \<Rightarrow> net_t \<times> outcome" where
  "client_try_read c p cur st =
     (case chan_read p True 0 cur (client_write_chan (clients st ! c), net_mem st, net_eng st) of
        ((ch, mem, e), r) \<Rightarrow>
          (upd_client c (\<lambda>x. x\<lparr>client_write_chan := ch\<rparr>) (st\<lparr>net_mem := mem, net_eng := e\<rparr>), r))"

definition client_send :: "nat \<Rightarrow> raw_data_block_t option \<Rightarrow> net_t \<Rightarrow> net_t" where
  "client_send c blk st =
     (case (blk, m_socket (clients st ! c)) of
        (Some b, Some a) \<Rightarrow>
          fst (socket_write a (if m_buf b = Null then None
                               else Some (take (nat (m_len b)) (buf_bytes (m_buf b)))) st)
      | _ \<Rightarrow> st)"

lemma frame_client_send [simp]: "net_frame (client_send c blk st) = net_frame st"
  by (simp add: client_send_def split: option.splits)

lemma frame_write_chan:
  assumes "net_frame st1 = net_frame st"
  shows "length (clients st1) = length (clients st)"
    and "c < length (clients st) \<Longrightarrow> client_write_chan (clients st1 ! c) = client_write_chan (clients st ! c)"
    and "length (servers st1) = length (servers st)"
    and "s < length (servers st) \<Longrightarrow> server_write_chan (servers st1 ! s) = server_write_chan (servers st ! s)"
    and "c < length (clients st) \<Longrightarrow> m_conn_result_chan (clients st1 ! c) = m_conn_result_chan (clients st ! c)"
proof -
  have m: "map (\<lambda>c. (client_read_chan c, client_write_chan c, m_conn_result_chan c)) (clients st1) =
           map (\<lambda>c. (client_read_chan c, client_write_chan c, m_conn_result_chan c)) (clients st)"
    and n: "map (\<lambda>s. (server_read_chan s, server_write_chan s)) (servers st1) =
            map (\<lambda>s. (server_read_chan s, server_write_chan s)) (servers st)"
    using assms by (simp_all add: net_frame_def chans_of_def)
  show l: "length (clients st1) = length (clients st)" "length (servers st1) = length (servers st)"
    using m n map_eq_imp_length_eq by blast+
  show "c < length (clients st) \<Longrightarrow> client_write_chan (clients st1 ! c) = client_write_chan (clients st ! c)"
    using arg_cong[OF m, of "\<lambda>xs. xs ! c"] l by simp
  show "s < length (servers st) \<Longrightarrow> server_write_chan (servers st1 ! s) = server_write_chan (servers st ! s)"
    using arg_cong[OF n, of "\<lambda>xs. xs ! s"] l by simp
  show "c < length (clients st) \<Longrightarrow> m_conn_result_chan (clients st1 ! c) = m_conn_result_chan (clients st ! c)"
    using arg_cong[OF m, of "\<lambda>xs. xs ! c"] l by simp
qed

lemma client_try_read_consumes:
  assumes "client_try_read c p cur st = (st1, Returned True)" "c < length (clients st)"
  shows "length (clients st1) = length (clients st) \<and>
    nat (m_unread (client_write_chan (clients st1 ! c))) < nat (m_unread (client_write_chan (clients st ! c)))"
proof -
  obtain ch mem e where r: "chan_read p True 0 cur (client_write_chan (clients st ! c), net_mem st, net_eng st)
      = ((ch, mem, e), Returned True)"
    and s: "st1 = upd_client c (\<lambda>x. x\<lparr>client_write_chan := ch\<rparr>) (st\<lparr>net_mem := mem, net_eng := e\<rparr>)"
    using assms(1) by (auto simp: client_try_read_def split: prod.splits)
  show ?thesis using try_read_consumes[OF r] assms(2) by (simp add: s upd_client_def)
qed

function client_select :: "nat \<Rightarrow> addr \<Rightarrow> tid \<Rightarrow> net_t \<Rightarrow> int \<Rightarrow> (net_t \<times> int) option" where
  "client_select c p cur st load =
     (if c < length (clients st) \<and> client_state (clients st ! c) = client_connected
      then (case client_try_read c p cur st of
              (st1, Returned True) \<Rightarrow> client_select c p cur (client_send c (net_mem st1 p) st1) (load + 1)
            | (st1, Returned False) \<Rightarrow> Some (st1, load)
            | (st1, _) \<Rightarrow> None)
      else Some (st, load))"
  by pat_completeness auto
termination
proof (relation "measure (\<lambda>(c, p, cur, st, load). nat (m_unread (client_write_chan (clients st ! c))))", goal_cases)
  case (2 c p cur st load st1 r x)
  then have "client_try_read c p cur st = (st1, Returned True)" "c < length (clients st)" by auto
  from client_try_read_consumes[OF this] frame_write_chan(2)[OF frame_client_send, of c st1 c "net_mem st1 p"]
  show ?case using \<open>c < length (clients st)\<close> by simp
qed simp

declare client_select.simps [simp del]

section \<open>The server\<close>

definition new_raw_tcp_server :: "string \<Rightarrow> string \<Rightarrow> raw_tcp_server_t" where
  "new_raw_tcp_server host port =
     \<lparr>m_listener = None, server_state = server_creating, m_connections = [], server_host = host,
      server_port = port, server_read_chan = chan_create CHAN_SIZE, server_write_chan = chan_create CHAN_SIZE\<rparr>"

definition raw_tcp_server_create :: "string \<Rightarrow> string \<Rightarrow> tid \<Rightarrow> net_t \<Rightarrow> (net_t \<times> addr option) option" where
  "raw_tcp_server_create host port cur st =
     (if epoll_thread_id (net_eng st) = NULL_THREAD_ID then None
      else
        (case create_selectable (epoll_thread_id (net_eng st)) cur (net_eng st) of
           (e, q) \<Rightarrow>
             Some (st\<lparr>net_eng := e,
                      servers := (case q of None \<Rightarrow> servers st
                                  | Some _ \<Rightarrow> servers st @ [new_raw_tcp_server host port])\<rparr>, q)))"

definition assign_listener :: "nat \<Rightarrow> addr \<Rightarrow> net_t \<Rightarrow> net_t" where
  "assign_listener s a st =
     (let old = m_listener (servers st ! s);
          st1 = upd_server s (\<lambda>x. x\<lparr>m_listener := Some a\<rparr>) st
      in case old of None \<Rightarrow> st1 | Some b \<Rightarrow> destroy_socket b st1)"

text \<open>The loop of \<^verbatim>\<open>start\<close> over the addresses found, each with the results of \<^verbatim>\<open>setsockopt\<close> and
  \<^verbatim>\<open>bind\<close>: whether one was bound. \<open>None\<close>: an assertion fails.\<close>

fun bind_loop :: "(int \<times> int) list \<Rightarrow> nat \<Rightarrow> net_t \<Rightarrow> (net_t \<times> bool) option" where
  "bind_loop [] s st = Some (st, False)"
| "bind_loop ((opt_r, bind_r) # rs) s st =
     (case new_socket protocol_tcp (Server_sink s) st of
        None \<Rightarrow> None
      | Some (st1, a) \<Rightarrow>
          (let st2 = assign_listener s a st1 in
           if get_fd a st2 \<le> 0 then bind_loop rs s st2
           else if opt_r = -1 then bind_loop rs s st2
           else if bind_r = 0 then Some (st2, True)
           else bind_loop rs s st2))"

text \<open>\<open>found\<close>: the error of \<^verbatim>\<open>getaddrinfo\<close> or what it found. No address bound: \<^verbatim>\<open>assert(0)\<close>.\<close>

definition server_start :: "nat \<Rightarrow> int + (int \<times> int) list \<Rightarrow> int \<Rightarrow> net_t \<Rightarrow> (net_t \<times> int) option" where
  "server_start s found listen_r st =
     (let st0 = upd_server s (\<lambda>x. x\<lparr>server_state := server_starting\<rparr>) st in
      case found of
        Inl err \<Rightarrow> Some (st0, err)
      | Inr rs \<Rightarrow>
          (case bind_loop rs s st0 of
             None \<Rightarrow> None
           | Some (st1, False) \<Rightarrow> None
           | Some (st1, True) \<Rightarrow>
               (if listen_r = -1 then Some (st1, -1)
                else
                  (case m_listener (servers st1 ! s) of
                     None \<Rightarrow> None
                   | Some a \<Rightarrow>
                       Some (upd_server s (\<lambda>x. x\<lparr>server_state := server_serving\<rparr>)
                               (update_peer_info a (upd_sock a (\<lambda>k. k\<lparr>m_is_listener := True\<rparr>) st1)), 0)))))"

definition server_read :: "nat \<Rightarrow> addr \<Rightarrow> int \<Rightarrow> tid \<Rightarrow> net_t \<Rightarrow> net_t \<times> outcome" where
  "server_read s p now cur st =
     (case chan_read p False now cur (server_read_chan (servers st ! s), net_mem st, net_eng st) of
        ((ch, mem, e), r) \<Rightarrow>
          (upd_server s (\<lambda>x. x\<lparr>server_read_chan := ch\<rparr>) (st\<lparr>net_mem := mem, net_eng := e\<rparr>), r))"

definition server_write ::
  "nat \<Rightarrow> addr option \<Rightarrow> byte_t list option \<Rightarrow> int \<Rightarrow> tid \<Rightarrow> net_t \<Rightarrow> net_t \<times> outcome" where
  "server_write s which dat now cur st =
     (case (which, dat) of
        (Some a, Some bs) \<Rightarrow>
          if bs = [] then (st, Returned True)
          else
            (case chan_write (Some (new_block dat (int (length bs)) which)) False now cur
                    (server_write_chan (servers st ! s), net_mem st, net_eng st) of
               ((ch, mem, e), r) \<Rightarrow>
                 (upd_server s (\<lambda>x. x\<lparr>server_write_chan := ch\<rparr>) (st\<lparr>net_mem := mem, net_eng := e\<rparr>), r))
      | _ \<Rightarrow> (st, Returned True))"

definition server_try_read :: "nat \<Rightarrow> addr \<Rightarrow> tid \<Rightarrow> net_t \<Rightarrow> net_t \<times> outcome" where
  "server_try_read s p cur st =
     (case chan_read p True 0 cur (server_write_chan (servers st ! s), net_mem st, net_eng st) of
        ((ch, mem, e), r) \<Rightarrow>
          (upd_server s (\<lambda>x. x\<lparr>server_write_chan := ch\<rparr>) (st\<lparr>net_mem := mem, net_eng := e\<rparr>), r))"

definition server_send :: "nat \<Rightarrow> raw_data_block_t option \<Rightarrow> net_t \<Rightarrow> net_t" where
  "server_send s blk st =
     (case blk of
        None \<Rightarrow> st
      | Some b \<Rightarrow>
          (case m_key b of
             None \<Rightarrow> st
           | Some a \<Rightarrow>
               (if a \<in> set (m_connections (servers st ! s))
                then fst (socket_write a (if m_buf b = Null then None
                                          else Some (take (nat (m_len b)) (buf_bytes (m_buf b)))) st)
                else st)))"

lemma frame_server_send [simp]: "net_frame (server_send s blk st) = net_frame st"
  by (simp add: server_send_def split: option.splits)

lemma server_try_read_consumes:
  assumes "server_try_read s p cur st = (st1, Returned True)" "s < length (servers st)"
  shows "length (servers st1) = length (servers st) \<and>
    nat (m_unread (server_write_chan (servers st1 ! s))) < nat (m_unread (server_write_chan (servers st ! s)))"
proof -
  obtain ch mem e where r: "chan_read p True 0 cur (server_write_chan (servers st ! s), net_mem st, net_eng st)
      = ((ch, mem, e), Returned True)"
    and q: "st1 = upd_server s (\<lambda>x. x\<lparr>server_write_chan := ch\<rparr>) (st\<lparr>net_mem := mem, net_eng := e\<rparr>)"
    using assms(1) by (auto simp: server_try_read_def split: prod.splits)
  show ?thesis using try_read_consumes[OF r] assms(2) by (simp add: q upd_server_def)
qed

function server_select :: "nat \<Rightarrow> addr \<Rightarrow> tid \<Rightarrow> net_t \<Rightarrow> int \<Rightarrow> (net_t \<times> int) option" where
  "server_select s p cur st load =
     (if s < length (servers st)
      then (case server_try_read s p cur st of
              (st1, Returned True) \<Rightarrow> server_select s p cur (server_send s (net_mem st1 p) st1) (load + 1)
            | (st1, Returned False) \<Rightarrow> Some (st1, load)
            | (st1, _) \<Rightarrow> None)
      else Some (st, load))"
  by pat_completeness auto
termination
proof (relation "measure (\<lambda>(s, p, cur, st, load). nat (m_unread (server_write_chan (servers st ! s))))", goal_cases)
  case (2 s p cur st load st1 r x)
  then have "server_try_read s p cur st = (st1, Returned True)" "s < length (servers st)" by auto
  from server_try_read_consumes[OF this] frame_write_chan(4)[OF frame_server_send, of s st1 s "net_mem st1 p"]
  show ?case using \<open>s < length (servers st)\<close> by simp
qed simp

declare server_select.simps [simp del]

end
