(* ===== verification/Bags.thy ===== *)
theory Bags
  imports Main "HOL-Library.Multiset"
begin

text \<open>
  Multisets of list elements, for the components that count what they own: the elements of a list of
  lists when one of the lists is replaced.
\<close>

lemma mset_concat_update:
  "i < length xs \<Longrightarrow>
   mset (concat (map f (xs[i := y]))) + mset (f (xs ! i)) = mset (concat (map f xs)) + mset (f y)"
proof (induction xs arbitrary: i)
  case (Cons x xs)
  show ?case
  proof (cases i)
    case (Suc j)
    then have "mset (concat (map f (xs[j := y]))) + mset (f (xs ! j)) = mset (concat (map f xs)) + mset (f y)"
      using Cons by simp
    then show ?thesis using Suc by (simp add: ac_simps)
  qed (simp add: ac_simps)
qed simp

lemma mset_concat_chain_update:
  "h < length t \<Longrightarrow> mset (concat (t[h := c])) + mset (t ! h) = mset (concat t) + mset c"
  using mset_concat_update[of h t "\<lambda>x. x" c] by simp

end
