(* ===== verification/Net_Inv.thy ===== *)
theory Net_Inv
  imports Raw_Tcp Bags
begin

text \<open>
  The invariant of the network layer: every socket that a client or a server holds is alive and held
  once, no socket is destroyed twice, and the poller's map has only live sockets, each under its own
  descriptor. It is proved for the mutually recursive closing functions first, by their induction rule
  (closing moves sockets from the owners to the freed ones), and then for every operation, as a step
  relation with the reachable states of a process that starts with no endpoint.
\<close>

section \<open>Ownership\<close>

definition client_owned :: "raw_tcp_client_t \<Rightarrow> addr list" where
  "client_owned c = (case m_socket c of None \<Rightarrow> [] | Some a \<Rightarrow> [a])"

definition server_owned :: "raw_tcp_server_t \<Rightarrow> addr list" where
  "server_owned s = (case m_listener s of None \<Rightarrow> [] | Some a \<Rightarrow> [a]) @ m_connections s"

definition owners :: "net_t \<Rightarrow> addr list" where
  "owners st = concat (map client_owned (clients st)) @ concat (map server_owned (servers st))"

definition census :: "net_t \<Rightarrow> addr multiset" where
  "census st = mset (owners st) + mset (freed st)"

lemma census_client:
  "c < length (clients st) \<Longrightarrow>
   census (st\<lparr>clients := (clients st)[c := x]\<rparr>) + mset (client_owned (clients st ! c)) =
   census st + mset (client_owned x)"
  using mset_concat_update[of c "clients st" client_owned x] by (simp add: census_def owners_def ac_simps)

lemma census_server:
  "s < length (servers st) \<Longrightarrow>
   census (st\<lparr>servers := (servers st)[s := x]\<rparr>) + mset (server_owned (servers st ! s)) =
   census st + mset (server_owned x)"
  using mset_concat_update[of s "servers st" server_owned x] by (simp add: census_def owners_def ac_simps)

lemma census_client_reset:
  "c < length (clients st) \<Longrightarrow> m_socket (clients st ! c) = Some b \<Longrightarrow>
   add_mset b (census (st\<lparr>clients := (clients st)[c := (clients st ! c)\<lparr>client_state := x, m_socket := None\<rparr>]\<rparr>))
     = census st"
  using census_client[of c st "(clients st ! c)\<lparr>client_state := x, m_socket := None\<rparr>"]
  by (simp add: client_owned_def)

lemma census_server_erase:
  assumes "s < length (servers st)" "a \<in> set (m_connections (servers st ! s))"
  shows "add_mset a (census (st\<lparr>servers := (servers st)[s := (servers st ! s)
      \<lparr>m_connections := remove1 a (m_connections (servers st ! s))\<rparr>]\<rparr>)) = census st"
proof -
  let ?x = "servers st ! s" and ?y = "(servers st ! s)\<lparr>m_connections := remove1 a (m_connections (servers st ! s))\<rparr>"
  have "add_mset a (mset (server_owned ?y)) = mset (server_owned ?x)"
    using assms(2) by (simp add: server_owned_def split: option.splits)
  then have "add_mset a (census st + mset (server_owned ?y)) = census st + mset (server_owned ?x)"
    by (metis union_mset_add_mset_right)
  then have "add_mset a (census (st\<lparr>servers := (servers st)[s := ?y]\<rparr>)) + mset (server_owned ?x) =
      census st + mset (server_owned ?x)"
    using census_server[OF assms(1), of ?y] by simp
  then show ?thesis by simp
qed

lemma census_frame [simp]:
  "census (log_ev ev st) = census st" "census (touch a st) = census st"
  "census (st\<lparr>m_fd_map := m\<rparr>) = census st" "census (st\<lparr>sys := y\<rparr>) = census st"
  "census (st\<lparr>objs := p\<rparr>) = census st" "census (st\<lparr>net_mem := u\<rparr>) = census st"
  "census (st\<lparr>conn_mem := v\<rparr>) = census st" "census (st\<lparr>net_eng := e\<rparr>) = census st"
  "census (st\<lparr>next_sock := n\<rparr>) = census st" "census (upd_sock a f st) = census st"
  "census (st\<lparr>net_log := l\<rparr>) = census st"
  by (simp_all add: census_def owners_def log_ev_def touch_def upd_sock_def)

lemma census_ctl [simp]: "census (fst (epoll_ctl op fd ev st)) = census st"
  by (simp add: epoll_ctl_def split: prod.splits)

lemma census_del_fd [simp]: "census (fst (del_fd h st)) = census st"
  by (simp add: del_fd_def Let_def split: option.splits)

lemma census_mark_destroyed: "census (mark_destroyed a st) = add_mset a (census st)"
  by (simp add: mark_destroyed_def) (simp add: census_def owners_def upd_sock_def)

text \<open>Closing a socket neither makes nor loses one: what its owner gives up is destroyed.\<close>

lemma census_close:
  "census (close_fd a st) = census st"
  "census (on_close a st) = census st"
  "census (on_closed a st) = census st"
  "census (destroy_socket a st) = add_mset a (census st)"
  by (induction a st and a st and a st and a st rule: close_fd_on_close_on_closed_destroy_socket.induct)
     (simp_all add: close_fd.simps on_close.simps on_closed.simps destroy_socket.simps sys_close_def Let_def
       census_mark_destroyed census_client_reset census_server_erase split: option.splits sink_t.splits)

lemmas census_closing [simp] = census_close

section \<open>The poller's map\<close>

definition map_ok :: "net_t \<Rightarrow> bool" where
  "map_ok st \<longleftrightarrow> (\<forall>fd a. m_fd_map st fd = Some a \<longrightarrow> a \<notin> set (freed st) \<and> a < next_sock st \<and> get_fd a st = fd \<and> fd \<noteq> 0)"

lemma net_sel [simp]:
  "m_fd_map (log_ev ev st) = m_fd_map st" "freed (log_ev ev st) = freed st" "objs (log_ev ev st) = objs st"
  "m_fd_map (touch a st) = m_fd_map st" "freed (touch a st) = freed st" "objs (touch a st) = objs st"
  "m_fd_map (fst (epoll_ctl op fd w st)) = m_fd_map st" "freed (fst (epoll_ctl op fd w st)) = freed st"
  "objs (fst (epoll_ctl op fd w st)) = objs st"
  "m_fd_map (upd_sock a f st) = m_fd_map st" "freed (upd_sock a f st) = freed st"
  "next_sock (log_ev ev st) = next_sock st" "next_sock (touch a st) = next_sock st"
  "next_sock (fst (epoll_ctl op fd w st)) = next_sock st" "next_sock (upd_sock a f st) = next_sock st"
  by (simp_all add: log_ev_def touch_def epoll_ctl_def upd_sock_def split: prod.splits)

lemma frame_fd: "net_frame st1 = net_frame st \<Longrightarrow> get_fd a st1 = get_fd a st"
  unfolding net_frame_def get_fd_def sock_ids_def by (auto dest: fun_cong)

lemma frame_next: "net_frame st1 = net_frame st \<Longrightarrow> next_sock st1 = next_sock st"
  by (simp add: net_frame_def)

lemma map_ok_sub:
  assumes "map_ok st" "m_fd_map st1 \<subseteq>\<^sub>m m_fd_map st" "freed st1 = freed st" "\<And>a. get_fd a st1 = get_fd a st"
    "next_sock st1 = next_sock st"
  shows "map_ok st1"
proof -
  have "\<And>fd a. m_fd_map st1 fd = Some a \<Longrightarrow> m_fd_map st fd = Some a"
    using assms(2) by (metis map_le_def domI)
  then show ?thesis using assms(1,3,4,5) by (auto simp: map_ok_def)
qed

lemma map_le_erase [simp]: "m(k := None) \<subseteq>\<^sub>m m"
  by (auto simp: map_le_def)

lemma del_fd_map:
  assumes "map_ok st"
  shows "map_ok (fst (del_fd (Some a) st)) \<and> m_fd_map (fst (del_fd (Some a) st)) \<subseteq>\<^sub>m m_fd_map st \<and>
    (\<forall>fd. m_fd_map (fst (del_fd (Some a) st)) fd \<noteq> Some a) \<and> freed (fst (del_fd (Some a) st)) = freed st"
proof -
  let ?st1 = "fst (del_fd (Some a) st)"
  have m: "m_fd_map ?st1 = (if get_fd a st = 0 then m_fd_map st else (m_fd_map st)(get_fd a st := None))"
    and f: "freed ?st1 = freed st"
    by (simp_all add: del_fd_def Let_def get_fd_def)
  have le: "m_fd_map ?st1 \<subseteq>\<^sub>m m_fd_map st" by (simp add: m)
  have n: "\<And>fd. m_fd_map ?st1 fd \<noteq> Some a" using assms by (auto simp: m map_ok_def)
  have "map_ok ?st1"
    by (rule map_ok_sub[OF assms le f]) (rule frame_fd frame_next, rule frame_del_fd)+
  then show ?thesis using le n f by blast
qed

lemma sys_close_sel [simp]:
  "m_fd_map (sys_close a st) = m_fd_map st" "freed (sys_close a st) = freed st" "objs (sys_close a st) = objs st"
  "next_sock (sys_close a st) = next_sock st"
  by (simp_all add: sys_close_def Let_def)

lemma map_ok_sys_close [simp]: "map_ok (sys_close a st) = map_ok st"
  by (simp add: map_ok_def get_fd_def)

lemma map_ok_touch [simp]: "map_ok (touch a st) = map_ok st"
  by (simp add: map_ok_def get_fd_def)

lemma map_ok_owner [simp]:
  "map_ok (st\<lparr>clients := x\<rparr>) = map_ok st" "map_ok (st\<lparr>servers := y\<rparr>) = map_ok st"
  by (simp_all add: map_ok_def get_fd_def)

lemma mark_destroyed_map:
  assumes "map_ok st" "\<forall>fd. m_fd_map st fd \<noteq> Some a"
  shows "map_ok (mark_destroyed a st)" "m_fd_map (mark_destroyed a st) = m_fd_map st"
  using assms by (auto simp: mark_destroyed_def map_ok_def get_fd_def upd_sock_def)

lemma map_close:
  "map_ok st \<Longrightarrow> map_ok (close_fd a st) \<and> m_fd_map (close_fd a st) \<subseteq>\<^sub>m m_fd_map st \<and>
     (\<forall>fd. m_fd_map (close_fd a st) fd \<noteq> Some a)"
  "map_ok st \<Longrightarrow> map_ok (on_close a st) \<and> m_fd_map (on_close a st) \<subseteq>\<^sub>m m_fd_map st"
  "map_ok st \<Longrightarrow> map_ok (on_closed a st) \<and> m_fd_map (on_closed a st) \<subseteq>\<^sub>m m_fd_map st"
  "map_ok st \<Longrightarrow> map_ok (destroy_socket a st) \<and> m_fd_map (destroy_socket a st) \<subseteq>\<^sub>m m_fd_map st"
proof (induction a st and a st and a st and a st rule: close_fd_on_close_on_closed_destroy_socket.induct)
  case (1 a st)
  let ?st1 = "fst (del_fd (Some a) st)"
  have d: "map_ok ?st1" "m_fd_map ?st1 \<subseteq>\<^sub>m m_fd_map st" "\<forall>fd. m_fd_map ?st1 fd \<noteq> Some a"
    using del_fd_map[OF 1(2)] by blast+
  have c: "map_ok (on_close a ?st1)" "m_fd_map (on_close a ?st1) \<subseteq>\<^sub>m m_fd_map ?st1"
    using 1(1) d(1) by blast+
  have "\<And>fd. m_fd_map (on_close a ?st1) fd \<noteq> Some a"
    using c(2) d(3) by (metis map_le_def domI)
  then show ?case using c d(2) by (simp add: close_fd.simps map_le_trans[OF c(2) d(2)])
next
  case (2 a st)
  then show ?case by (simp add: on_close.simps)
next
  case (3 a st)
  then show ?case by (simp add: on_closed.simps split: option.splits sink_t.splits)
next
  case (4 a st)
  then show ?case by (simp add: destroy_socket.simps mark_destroyed_map)
qed

section \<open>The invariant\<close>

text \<open>\<open>held\<close>: sockets in the hands of a running operation, not yet or no longer owned.\<close>

definition net_held :: "addr multiset \<Rightarrow> net_t \<Rightarrow> bool" where
  "net_held held st \<longleftrightarrow> map_ok st \<and>
     (\<forall>a. count (census st + held) a \<le> 1) \<and> (\<forall>a \<in># census st + held. a < next_sock st)"

definition net_ok :: "net_t \<Rightarrow> bool" where
  "net_ok st \<longleftrightarrow> map_ok st \<and> distinct (owners st @ freed st) \<and> (\<forall>a \<in> set (owners st @ freed st). a < next_sock st)"

lemma distinct_iff_count: "distinct xs \<longleftrightarrow> (\<forall>a. count (mset xs) a \<le> 1)"
proof (induction xs)
  case (Cons x xs)
  show ?case
  proof
    assume "distinct (x # xs)"
    then show "\<forall>a. count (mset (x # xs)) a \<le> 1"
      using Cons.IH by (auto simp: not_in_iff[symmetric])
  next
    assume a: "\<forall>a. count (mset (x # xs)) a \<le> 1"
    have "count (mset xs) b \<le> 1" for b using spec[OF a, of b] by (simp del: count_mset_0_iff split: if_splits)
    moreover have "count (mset xs) x = 0" using spec[OF a, of x] by simp
    ultimately show "distinct (x # xs)" using Cons.IH by simp
  qed
qed simp

lemma net_ok_held: "net_ok st \<longleftrightarrow> net_held {#} st"
proof -
  have "distinct (owners st @ freed st) \<longleftrightarrow> (\<forall>a. count (mset (owners st @ freed st)) a \<le> 1)"
    by (rule distinct_iff_count)
  then show ?thesis by (simp add: net_ok_def net_held_def census_def)
qed

lemma held_cong:
  "net_held h st \<Longrightarrow> map_ok st1 \<Longrightarrow> census st1 + h1 = census st + h \<Longrightarrow> next_sock st1 = next_sock st \<Longrightarrow> net_held h1 st1"
  by (simp add: net_held_def)

lemma held_close: "net_held h st \<Longrightarrow> net_held h (close_fd a st)"
  by (rule held_cong, assumption) (auto simp: net_held_def map_close intro: frame_next)

lemma held_destroy: "net_held (add_mset a h) st \<Longrightarrow> net_held h (destroy_socket a st)"
  by (rule held_cong, assumption) (auto simp: net_held_def map_close intro: frame_next)

lemma held_close_num: "net_held h st \<Longrightarrow> net_held h (close_fd_num fd st)"
  by (simp add: close_fd_num_def held_close split: option.splits)


subsection \<open>Operations that leave ownership alone\<close>

lemma held_same:
  assumes "m_fd_map st1 = m_fd_map st" "freed st1 = freed st" "\<And>a. get_fd a st1 = get_fd a st"
    "census st1 = census st" "next_sock st1 = next_sock st"
  shows "net_held h st1 = net_held h st"
  using assms by (simp add: net_held_def map_ok_def)

lemma held_simps [simp]:
  "net_held h (log_ev ev st) = net_held h st"
  "net_held h (touch a st) = net_held h st"
  "net_held h (st\<lparr>sys := y\<rparr>) = net_held h st"
  "net_held h (st\<lparr>net_mem := u\<rparr>) = net_held h st"
  "net_held h (st\<lparr>conn_mem := v\<rparr>) = net_held h st"
  "net_held h (st\<lparr>net_eng := e\<rparr>) = net_held h st"
  "net_held h (st\<lparr>net_log := l\<rparr>) = net_held h st"
  by (rule held_same; simp add: get_fd_def log_ev_def touch_def)+

lemma held_upd_sock [simp]:
  "(\<And>s. m_fd (f s) = m_fd s) \<Longrightarrow> net_held h (upd_sock a f st) = net_held h st"
  by (rule held_same) (simp_all add: get_fd_def upd_sock_def)

lemma held_ctl [simp]: "net_held h (fst (epoll_ctl op fd ev st)) = net_held h st"
  by (rule held_same) (simp_all add: get_fd_def)

lemma held_upd_client:
  "(\<And>x. m_socket (f x) = m_socket x) \<Longrightarrow> net_held h (upd_client c f st) = net_held h st"
proof (rule held_same)
  assume f: "\<And>x. m_socket (f x) = m_socket x"
  have "map client_owned ((clients st)[c := f (clients st ! c)]) = map client_owned (clients st)"
    by (rule map_update_same) (simp add: client_owned_def f)
  then show "census (upd_client c f st) = census st"
    by (simp add: upd_client_def census_def owners_def)
qed (simp_all add: upd_client_def get_fd_def)

lemma held_upd_server:
  "(\<And>x. m_connections (f x) = m_connections x) \<Longrightarrow> (\<And>x. m_listener (f x) = m_listener x) \<Longrightarrow>
   net_held h (upd_server c f st) = net_held h st"
proof (rule held_same)
  assume f: "\<And>x. m_connections (f x) = m_connections x" "\<And>x. m_listener (f x) = m_listener x"
  have "map server_owned ((servers st)[c := f (servers st ! c)]) = map server_owned (servers st)"
    by (rule map_update_same) (simp add: server_owned_def f)
  then show "census (upd_server c f st) = census st"
    by (simp add: upd_server_def census_def owners_def)
qed (simp_all add: upd_server_def get_fd_def)

lemma held_mod_fd: "net_held h st \<Longrightarrow> net_held h (fst (mod_fd fd ev st))"
proof -
  assume a: "net_held h st"
  have "\<And>st1 r. epoll_ctl EPOLL_CTL_MOD fd ev st = (st1, r) \<Longrightarrow> net_held h st1"
    using a by (metis fst_conv held_ctl)
  then show ?thesis using a by (auto simp: mod_fd_def held_close split: option.splits prod.splits)
qed

lemma held_write_loop: "net_held h (fst (write_loop fd bs st)) = net_held h st"
  by (simp add: write_loop_def split: prod.splits)

lemma held_push_pending [simp]: "net_held h (push_pending b a st) = net_held h st"
  by (simp add: push_pending_def)

lemma held_socket_write: "net_held h st \<Longrightarrow> net_held h (fst (socket_write a buf st))"
proof -
  assume a: "net_held h st"
  have "\<And>fd bs st1 left. write_loop fd bs st = (st1, left) \<Longrightarrow> net_held h st1"
    using a by (metis fst_conv held_write_loop)
  then show ?thesis using a by (auto simp: socket_write_def Let_def held_mod_fd split: option.splits prod.splits)
qed

lemma held_pending_loop: "net_held h st \<Longrightarrow> net_held h (fst (pending_loop ds a st t))"
proof (induction ds a st t rule: pending_loop.induct)
  case (2 d ds a st tot)
  obtain st1 left where w: "write_loop (get_fd a st) (take (nat (m_len d)) (buf_bytes (m_buf d))) st = (st1, left)"
    by (metis surj_pair)
  have "net_held h st1" using 2(3) held_write_loop w by (metis fst_conv)
  then show ?case using 2
    by (simp add: w Let_def pop_pending_def push_front_pending_def held_mod_fd)
qed simp

lemma held_conn_result_write: "conn_result_write v c now cur st = (st1, r) \<Longrightarrow> net_held h st1 = net_held h st"
  by (auto simp: conn_result_write_def held_upd_client split: prod.splits)

lemma held_on_write: "net_held h st \<Longrightarrow> on_write a now cur st = Some (st1, n) \<Longrightarrow> net_held h st1"
proof -
  assume a: "net_held h st" and w: "on_write a now cur st = Some (st1, n)"
  let ?s1 = "fst (mod_fd (get_fd a (touch a st)) (EPOLLIN OR EPOLLET) (touch a st))"
  have m: "net_held h ?s1" by (rule held_mod_fd) (simp add: a)
  have p: "st1 = fst (pending_loop (m_write_pending_list (objs s3 a)) a s3 0) \<Longrightarrow> net_held h s3 \<Longrightarrow> net_held h st1" for s3
    by (simp add: held_pending_loop)
  show "net_held h st1"
  proof (cases "m_conn_res_chan (objs ?s1 a)")
    case False
    then show ?thesis using w m by (intro p[of ?s1]) (simp_all add: on_write_def Let_def)
  next
    case True
    show ?thesis
    proof (cases "m_sink (objs ?s1 a)")
      case (Client_sink c)
      obtain s2 r where r: "conn_result_write 0 c now cur ?s1 = (s2, r)" by (metis surj_pair)
      show ?thesis using w m True Client_sink r held_conn_result_write[OF r, of h]
        by (intro p[of "upd_sock a (\<lambda>s. s\<lparr>m_conn_res_chan := False\<rparr>) s2"])
           (simp_all add: on_write_def Let_def split: if_splits)
    next
      case (Server_sink s)
      then show ?thesis using w m True by (intro p[of ?s1]) (simp_all add: on_write_def Let_def)
    qed
  qed
qed


subsection \<open>Registering and creating sockets\<close>

lemma held_not_freed: "net_held (add_mset a h) st \<Longrightarrow> a \<notin> set (freed st)"
proof
  assume "net_held (add_mset a h) st" and f: "a \<in> set (freed st)"
  then have "count (census st + add_mset a h) a \<le> 1" unfolding net_held_def by blast
  then have "count (mset (freed st)) a = 0" by (simp add: census_def)
  then show False using f by simp
qed

lemma held_insert:
  assumes "net_held h st" "a \<notin> set (freed st)" "a < next_sock st" "get_fd a st = fd" "fd \<noteq> 0"
  shows "net_held h (st\<lparr>m_fd_map := (m_fd_map st)(fd := Some a)\<rparr>)"
  using assms by (auto simp: net_held_def map_ok_def get_fd_def)

lemma held_del_fd: "net_held h st \<Longrightarrow> net_held h (fst (del_fd (Some a) st))"
  by (rule held_cong, assumption) (auto simp: net_held_def del_fd_map intro: frame_next)

lemma held_add_fd:
  assumes "net_held h st" "a \<notin> set (freed st)" "a < next_sock st"
  shows "net_held h (fst (add_fd (Some a) ev st))"
proof -
  let ?fd = "get_fd a st"
  have c: "epoll_ctl EPOLL_CTL_ADD fd ev s0 = (s1, r) \<Longrightarrow> net_held h s0 \<Longrightarrow> net_held h s1" for fd s0 s1 r
    by (metis fst_conv held_ctl)
  have d: "net_held h (fst (del_fd (Some b) st))" "get_fd a (fst (del_fd (Some b) st)) = ?fd"
    "a \<notin> set (freed (fst (del_fd (Some b) st)))" "a < next_sock (fst (del_fd (Some b) st))" for b
    using held_del_fd[OF assms(1)] frame_fd[OF frame_del_fd] frame_next[OF frame_del_fd] assms(2,3) del_fd_map assms(1)
    by (simp_all add: net_held_def)
  show ?thesis using assms d
    by (auto simp: add_fd_def Let_def held_insert intro!: held_close elim!: c split: option.splits prod.splits)
qed

lemma held_alloc:
  assumes "net_held h st" "alloc_socket s st = (st1, a)"
  shows "net_held (add_mset a h) st1 \<and> get_fd a st1 = m_fd s"
proof -
  have a: "a = next_sock st" "st1 = st\<lparr>next_sock := Suc a, objs := (objs st)(a := s)\<rparr>"
    using assms(2) by (auto simp: alloc_socket_def Let_def)
  have fresh: "a \<notin># census st + h" using assms(1) a(1) by (auto simp: net_held_def)
  have "map_ok st1"
    using assms(1) a by (auto simp: net_held_def map_ok_def get_fd_def intro: less_SucI)
  then show ?thesis using assms(1) fresh a
    by (auto simp: net_held_def get_fd_def not_in_iff less_SucI)
qed


lemma held_nonblocking: "make_socket_non_blocking fd st = (st1, r) \<Longrightarrow> net_held h st1 = net_held h st"
  by (auto simp: make_socket_non_blocking_def Let_def split: prod.splits if_splits)

lemma nonblocking_frame:
  "make_socket_non_blocking fd st = (st1, r) \<Longrightarrow> freed st1 = freed st \<and> next_sock st1 = next_sock st"
  by (auto simp: make_socket_non_blocking_def Let_def split: prod.splits if_splits)

lemma held_after_create:
  assumes "net_held (add_mset a h) st" "after_create a st = Some st1"
  shows "net_held (add_mset a h) st1"
proof -
  obtain s0 r where n: "make_socket_non_blocking (get_fd a st) st = (s0, r)" by (metis surj_pair)
  have "st1 = fst (add_fd (Some a) (EPOLLIN OR EPOLLET) s0)"
    using assms(2) by (auto simp: after_create_def n split: if_splits)
  moreover have "net_held (add_mset a h) s0" using assms(1) held_nonblocking[OF n] by simp
  moreover have "a < next_sock s0"
    using assms(1) nonblocking_frame[OF n] by (simp add: net_held_def)
  ultimately show ?thesis using held_add_fd held_not_freed by blast
qed

lemma held_new_socket:
  assumes "net_held h st" "new_socket pr sink st = Some (st1, a)"
  shows "net_held (add_mset a h) st1"
proof -
  obtain fd rs where p: "pop_default (-1) (socket_r (sys st)) = (fd, rs)" by (metis surj_pair)
  obtain s2 b where al: "alloc_socket (default_socket\<lparr>m_protocol := protocol_tcp, m_fd := fd, m_sink := sink\<rparr>)
      (st\<lparr>sys := (sys st)\<lparr>socket_r := rs\<rparr>\<rparr>) = (s2, b)" by (metis surj_pair)
  have "net_held (add_mset b h) s2" using held_alloc[OF _ al] assms(1) by simp
  then show ?thesis using assms(2)
    by (auto simp: new_socket_def p al Let_def held_after_create split: if_splits)
qed

lemma held_new_socket_fd:
  assumes "net_held h st" "new_socket_fd fd sink pr st = Some (st1, a)"
  shows "net_held (add_mset a h) st1"
proof -
  obtain s2 b where al: "alloc_socket (default_socket\<lparr>m_protocol := protocol_tcp, m_fd := fd, m_sink := sink\<rparr>) st = (s2, b)"
    by (metis surj_pair)
  have "net_held (add_mset b h) s2" using held_alloc[OF _ al] assms(1) by simp
  then show ?thesis using assms(2)
    by (auto simp: new_socket_fd_def al Let_def held_after_create split: if_splits)
qed

lemma held_peer_info [simp]: "net_held h (update_peer_info a st) = net_held h st"
  by (simp add: update_peer_info_def Let_def split: prod.splits option.splits)

lemma held_add_connection:
  assumes "net_held (add_mset a h) st" "s < length (servers st)"
  shows "net_held h (upd_server s (\<lambda>x. x\<lparr>m_connections := m_connections x @ [a]\<rparr>) st)"
proof -
  let ?y = "(servers st ! s)\<lparr>m_connections := m_connections (servers st ! s) @ [a]\<rparr>"
  have "mset (server_owned ?y) = add_mset a (mset (server_owned (servers st ! s)))"
    by (simp add: server_owned_def split: option.splits)
  then have "census (st\<lparr>servers := (servers st)[s := ?y]\<rparr>) = add_mset a (census st)"
    using census_server[OF assms(2), of ?y] by simp
  then show ?thesis using assms(1)
    by (intro held_cong[OF assms(1)]) (simp_all add: upd_server_def net_held_def)
qed


subsection \<open>Data, connections and events\<close>

lemma held_client_data:
  "client_on_new_data c a dat now cur st = Some st1 \<Longrightarrow> net_held h st1 = net_held h st"
  by (auto simp: client_on_new_data_def held_upd_client split: if_splits prod.splits)

lemma held_server_data:
  "server_on_new_data c a dat now cur st = Some st1 \<Longrightarrow> net_held h st1 = net_held h st"
  by (auto simp: server_on_new_data_def held_upd_server split: if_splits prod.splits)

text \<open>No operation removes a server.\<close>

lemma servers_frame: "net_frame st1 = net_frame st \<Longrightarrow> length (servers st1) = length (servers st)"
  by (rule frame_write_chan(3))

lemma nonblocking_servers: "make_socket_non_blocking fd st = (st1, r) \<Longrightarrow> servers st1 = servers st"
  by (auto simp: make_socket_non_blocking_def Let_def split: prod.splits if_splits)

lemma new_socket_fd_servers:
  assumes "new_socket_fd fd sink pr st = Some (st1, a)"
  shows "length (servers st1) = length (servers st)"
proof -
  let ?s = "default_socket\<lparr>m_protocol := protocol_tcp, m_fd := fd, m_sink := sink\<rparr>"
  let ?s2 = "st\<lparr>next_sock := Suc (next_sock st), objs := (objs st)(next_sock st := ?s)\<rparr>"
  obtain s3 r where n: "make_socket_non_blocking (get_fd (next_sock st) ?s2) ?s2 = (s3, r)" by (metis surj_pair)
  have "st1 = fst (add_fd (Some (next_sock st)) (EPOLLIN OR EPOLLET) s3)"
    using assms n by (auto simp: new_socket_fd_def alloc_socket_def after_create_def Let_def split: if_splits)
  then show ?thesis using servers_frame[OF frame_add_fd] nonblocking_servers[OF n] by simp
qed

lemma peer_info_servers [simp]: "servers (update_peer_info a st) = servers st"
  by (simp add: update_peer_info_def upd_sock_def Let_def split: prod.splits option.splits)

lemma held_accept_loop:
  "net_held h st \<Longrightarrow> s < length (servers st) \<Longrightarrow> accept_loop rs s st = Some st1 \<Longrightarrow> net_held h st1"
proof (induction rs s st rule: accept_loop.induct)
  case (2 infd rs s st)
  show ?case
  proof (cases "infd \<le> 0")
    case False
    then obtain s2 a where n: "new_socket_fd infd (Server_sink s) protocol_tcp st = Some (s2, a)"
      using 2(4) by (auto split: option.splits)
    let ?s3 = "upd_server s (\<lambda>x. x\<lparr>m_connections := m_connections x @ [a]\<rparr>) (update_peer_info a s2)"
    have l: "length (servers s2) = length (servers st)" by (rule new_socket_fd_servers[OF n])
    have "net_held h ?s3"
      using held_new_socket_fd[OF 2(2) n] 2(3) l by (intro held_add_connection) simp_all
    moreover have "s < length (servers ?s3)" using 2(3) l by (simp add: upd_server_def)
    ultimately show ?thesis using 2(1)[OF False n refl] 2(4) False n by simp
  qed (use 2 in auto)
qed auto

lemma on_new_connection_held:
  assumes "net_held h st" "on_new_connection sink st = Some st1"
    "\<And>s. sink = Server_sink s \<Longrightarrow> s < length (servers st)"
  shows "net_held h st1"
  using assms held_accept_loop by (auto simp: on_new_connection_def split: sink_t.splits)

text \<open>The sinks of all sockets exist.\<close>

definition sinks_ok :: "net_t \<Rightarrow> bool" where
  "sinks_ok st \<longleftrightarrow> (\<forall>a s. m_sink (objs st a) = Server_sink s \<longrightarrow> s < length (servers st))"

lemma sinks_frame: "net_frame st1 = net_frame st \<Longrightarrow> sinks_ok st1 = sinks_ok st"
proof -
  assume f: "net_frame st1 = net_frame st"
  then have "\<And>a. m_sink (objs st1 a) = m_sink (objs st a)"
    unfolding net_frame_def sock_ids_def by (auto dest: fun_cong)
  then show ?thesis using servers_frame[OF f] by (simp add: sinks_ok_def)
qed


lemma sinks_simps [simp]:
  "sinks_ok (st\<lparr>sys := y\<rparr>) = sinks_ok st" "sinks_ok (st\<lparr>net_mem := u\<rparr>) = sinks_ok st"
  "sinks_ok (st\<lparr>conn_mem := v\<rparr>) = sinks_ok st" "sinks_ok (st\<lparr>net_eng := e\<rparr>) = sinks_ok st"
  "sinks_ok (upd_client c f st) = sinks_ok st" "sinks_ok (upd_server s g st) = sinks_ok st"
  "sinks_ok (touch a st) = sinks_ok st" "sinks_ok (st\<lparr>net_log := l\<rparr>) = sinks_ok st"
  "sinks_ok (fst (epoll_ctl op fd w st)) = sinks_ok st"
  by (simp_all add: sinks_ok_def upd_client_def upd_server_def sinks_frame)
     (simp_all add: touch_def log_ev_def epoll_ctl_def split: prod.splits)

lemma sinks_upd_sock [simp]: "(\<And>s. m_sink (f s) = m_sink s) \<Longrightarrow> sinks_ok (upd_sock a f st) = sinks_ok st"
  by (auto simp: sinks_ok_def upd_sock_def)

lemma sinks_peer_info [simp]: "sinks_ok (update_peer_info a st) = sinks_ok st"
  by (simp add: update_peer_info_def Let_def split: prod.splits option.splits)

lemma sinks_after_create: "after_create a st = Some st1 \<Longrightarrow> sinks_ok st1 = sinks_ok st"
proof -
  assume c: "after_create a st = Some st1"
  obtain s0 r where n: "make_socket_non_blocking (get_fd a st) st = (s0, r)" by (metis surj_pair)
  have "st1 = fst (add_fd (Some a) (EPOLLIN OR EPOLLET) s0)"
    using c by (auto simp: after_create_def n split: if_splits)
  moreover have "sinks_ok s0 = sinks_ok st"
    using n by (auto simp: make_socket_non_blocking_def Let_def split: prod.splits if_splits)
  ultimately show ?thesis using sinks_frame[OF frame_add_fd] by simp
qed

lemma sinks_alloc:
  "sinks_ok st \<Longrightarrow> alloc_socket k st = (st1, a) \<Longrightarrow> (\<And>s. m_sink k = Server_sink s \<Longrightarrow> s < length (servers st)) \<Longrightarrow>
   sinks_ok st1"
  by (auto simp: alloc_socket_def sinks_ok_def Let_def split: if_splits)

lemma sinks_new_socket_fd:
  assumes "sinks_ok st" "new_socket_fd fd sink pr st = Some (st1, a)" "\<And>s. sink = Server_sink s \<Longrightarrow> s < length (servers st)"
  shows "sinks_ok st1"
proof -
  obtain s2 b where al: "alloc_socket (default_socket\<lparr>m_protocol := protocol_tcp, m_fd := fd, m_sink := sink\<rparr>) st = (s2, b)"
    by (metis surj_pair)
  have "sinks_ok s2" using sinks_alloc[OF assms(1) al] assms(3) by simp
  then show ?thesis using assms(2)
    by (auto simp: new_socket_fd_def al Let_def dest: sinks_after_create split: if_splits)
qed

lemma sinks_new_socket:
  assumes "sinks_ok st" "new_socket pr sink st = Some (st1, a)" "\<And>s. sink = Server_sink s \<Longrightarrow> s < length (servers st)"
  shows "sinks_ok st1"
proof -
  obtain fd rs where p: "pop_default (-1) (socket_r (sys st)) = (fd, rs)" by (metis surj_pair)
  obtain s2 b where al: "alloc_socket (default_socket\<lparr>m_protocol := protocol_tcp, m_fd := fd, m_sink := sink\<rparr>)
      (st\<lparr>sys := (sys st)\<lparr>socket_r := rs\<rparr>\<rparr>) = (s2, b)" by (metis surj_pair)
  have "sinks_ok s2" using sinks_alloc[OF _ al] assms(1,3) by simp
  then show ?thesis using assms(2)
    by (auto simp: new_socket_def p al Let_def dest: sinks_after_create split: if_splits)
qed

lemma sinks_accept_loop:
  "sinks_ok st \<Longrightarrow> s < length (servers st) \<Longrightarrow> accept_loop rs s st = Some st1 \<Longrightarrow> sinks_ok st1"
proof (induction rs s st rule: accept_loop.induct)
  case (2 infd rs s st)
  show ?case
  proof (cases "infd \<le> 0")
    case False
    then obtain s2 a where n: "new_socket_fd infd (Server_sink s) protocol_tcp st = Some (s2, a)"
      using 2(4) by (auto split: option.splits)
    have "sinks_ok s2" using sinks_new_socket_fd[OF 2(2) n] 2(3) by simp
    moreover have "s < length (servers s2)" using 2(3) new_socket_fd_servers[OF n] by simp
    ultimately show ?thesis using 2(1)[OF False n refl] 2(4) False n by (simp add: upd_server_def[of _ _ "update_peer_info a s2"])
       (metis sinks_peer_info sinks_simps(6) upd_server_def peer_info_servers)
  qed (use 2 in auto)
qed auto

definition net_good :: "addr multiset \<Rightarrow> net_t \<Rightarrow> bool" where
  "net_good h st \<longleftrightarrow> net_held h st \<and> sinks_ok st"

lemma good_on_read:
  assumes "net_good h st" "on_read a now cur st = Some (st1, n)"
  shows "net_good h st1"
proof (cases "m_is_listener (objs st a)")
  case True
  then have "on_new_connection (m_sink (objs st a)) st = Some st1"
    using assms(2) by (auto simp: on_read_def Let_def)
  moreover have "\<And>s. m_sink (objs st a) = Server_sink s \<Longrightarrow> s < length (servers st)"
    using assms(1) by (auto simp: net_good_def sinks_ok_def)
  ultimately show ?thesis using assms(1)
    by (auto simp: net_good_def on_new_connection_def intro: held_accept_loop sinks_accept_loop split: sink_t.splits)
next
  case False
  obtain r rs where p: "pop_default (Rd_err EAGAIN) (read_r (sys st)) = (r, rs)" by (metis surj_pair)
  have c: "client_on_new_data c b dat now cur s0 = Some s1 \<Longrightarrow> sinks_ok s1 = sinks_ok s0"
    and d: "server_on_new_data c b dat now cur s0 = Some s1 \<Longrightarrow> sinks_ok s1 = sinks_ok s0" for c b dat s0 s1
    by (auto simp: client_on_new_data_def server_on_new_data_def split: if_splits prod.splits)
  show ?thesis using False assms
    by (auto simp: on_read_def Let_def p net_good_def c d held_client_data held_server_data
        split: read_res.splits if_splits sink_t.splits)
qed


lemma frame_pending_loop [simp]: "net_frame (fst (pending_loop ds a st t)) = net_frame st"
proof (induction ds a st t rule: pending_loop.induct)
  case (2 d ds a st tot)
  obtain st1 left where w: "write_loop (get_fd a st) (take (nat (m_len d)) (buf_bytes (m_buf d))) st = (st1, left)"
    by (metis surj_pair)
  have "net_frame st1 = net_frame st" using frame_write_loop w by (metis fst_conv)
  then show ?case using 2 by (simp add: w Let_def pop_pending_def push_front_pending_def)
qed simp

lemma sinks_conn_result: "conn_result_write v c now cur st = (st1, r) \<Longrightarrow> sinks_ok st1 = sinks_ok st"
  by (auto simp: conn_result_write_def split: prod.splits)

lemma good_on_write:
  assumes "net_good h st" "on_write a now cur st = Some (st1, n)"
  shows "net_good h st1"
proof -
  let ?s1 = "fst (mod_fd (get_fd a (touch a st)) (EPOLLIN OR EPOLLET) (touch a st))"
  have m: "sinks_ok ?s1" using assms(1) sinks_frame[OF frame_mod_fd] by (simp add: net_good_def)
  have p: "sinks_ok (fst (pending_loop ds a s3 t)) = sinks_ok s3" for ds s3 t
    by (rule sinks_frame) simp
  have q: "pending_loop ds a s3 t = (st1, n) \<Longrightarrow> sinks_ok s3 \<Longrightarrow> sinks_ok st1" for ds s3 t
    using p by (metis fst_conv)
  have "sinks_ok st1" using assms(2) m
    by (auto simp: on_write_def Let_def sinks_conn_result elim!: q split: if_splits sink_t.splits prod.splits)
  then show ?thesis using assms held_on_write by (auto simp: net_good_def)
qed

lemma good_simps [simp]:
  "net_good h (touch a st) = net_good h st" "net_good h (fst (epoll_ctl op fd w st)) = net_good h st"
  by (simp_all add: net_good_def)

lemma good_close: "net_good h st \<Longrightarrow> net_good h (close_fd a st)"
  by (simp add: net_good_def held_close sinks_frame[OF frame_close(1)])

lemma good_close_num: "net_good h st \<Longrightarrow> net_good h (close_fd_num fd st)"
  by (simp add: close_fd_num_def good_close split: option.splits)

lemma good_read_loop: "net_good h st \<Longrightarrow> read_loop a now cur st = Some st1 \<Longrightarrow> net_good h st1"
proof (induction a now cur st arbitrary: st1 rule: read_loop.induct)
  case (1 a now cur st)
  obtain s2 n where r: "on_read a now cur (touch a st) = Some (s2, n)"
    using 1(3) by (auto simp: read_loop.simps[of a now cur st] split: option.splits)
  have "net_good h s2" using good_on_read[OF _ r] 1(2) by simp
  then show ?case using 1(1)[OF r refl] 1(3) good_close
    by (auto simp: read_loop.simps[of a now cur st] r split: if_splits)
qed

lemma good_event: "net_good h st \<Longrightarrow> handle_event fd ev now cur st = Some st1 \<Longrightarrow> net_good h st1"
  by (auto simp: handle_event_def good_close_num split: if_splits option.splits
      dest: good_read_loop good_on_write)

lemma good_events: "net_good h st \<Longrightarrow> events_loop evs now cur st = Some st1 \<Longrightarrow> net_good h st1"
  by (induction evs now cur st rule: events_loop.induct) (auto split: option.splits dest: good_event)

lemma good_epoll_select: "net_good h st \<Longrightarrow> epoll_select evs now cur st = Some (st1, n) \<Longrightarrow> net_good h st1"
  by (auto simp: epoll_select_def Let_def split: option.splits dest: good_events)

subsection \<open>Client and server operations\<close>

lemma good_destroy: "net_good (add_mset a h) st \<Longrightarrow> net_good h (destroy_socket a st)"
  by (simp add: net_good_def held_destroy sinks_frame[OF frame_close(4)])

lemma good_swap_client:
  assumes "net_good (add_mset a h) st" "c < length (clients st)"
  shows "net_good h (assign_socket c a st)"
proof -
  let ?x = "clients st ! c" and ?y = "(clients st ! c)\<lparr>m_socket := Some a\<rparr>"
  have c: "census (upd_client c (\<lambda>x. x\<lparr>m_socket := Some a\<rparr>) st) + mset (client_owned ?x) = add_mset a (census st)"
    using census_client[OF assms(2), of ?y] by (simp add: upd_client_def client_owned_def)
  have "net_held (h + mset (client_owned ?x)) (upd_client c (\<lambda>x. x\<lparr>m_socket := Some a\<rparr>) st)"
  proof (rule held_cong)
    show "census (upd_client c (\<lambda>x. x\<lparr>m_socket := Some a\<rparr>) st) + (h + mset (client_owned ?x)) = census st + add_mset a h"
      using arg_cong[OF c, of "\<lambda>m. m + h"] by (simp add: ac_simps)
  qed (use assms(1) in \<open>auto simp: net_good_def net_held_def upd_client_def\<close>)
  then show ?thesis using assms(1) good_destroy
    by (auto simp: assign_socket_def Let_def net_good_def client_owned_def held_destroy sinks_frame[OF frame_close(4)]
        split: option.splits)
qed

lemma good_reset_socket:
  assumes "net_good h st" "c < length (clients st)"
  shows "net_good h (reset_socket c st)"
proof -
  let ?x = "clients st ! c" and ?y = "(clients st ! c)\<lparr>m_socket := None\<rparr>"
  have c: "census (upd_client c (\<lambda>x. x\<lparr>m_socket := None\<rparr>) st) + mset (client_owned ?x) = census st"
    using census_client[OF assms(2), of ?y] by (simp add: upd_client_def client_owned_def)
  have "net_held (h + mset (client_owned ?x)) (upd_client c (\<lambda>x. x\<lparr>m_socket := None\<rparr>) st)"
  proof (rule held_cong)
    show "census (upd_client c (\<lambda>x. x\<lparr>m_socket := None\<rparr>) st) + (h + mset (client_owned ?x)) = census st + h"
      using arg_cong[OF c, of "\<lambda>m. m + h"] by (simp add: ac_simps)
  qed (use assms(1) in \<open>auto simp: net_good_def net_held_def upd_client_def\<close>)
  then show ?thesis using assms(1)
    by (auto simp: reset_socket_def Let_def net_good_def client_owned_def held_destroy sinks_frame[OF frame_close(4)]
        split: option.splits)
qed

lemma good_assign_listener:
  assumes "net_good (add_mset a h) st" "s < length (servers st)"
  shows "net_good h (assign_listener s a st)"
proof -
  let ?old = "case m_listener (servers st ! s) of None \<Rightarrow> {#} | Some b \<Rightarrow> {#b#}"
  let ?y = "(servers st ! s)\<lparr>m_listener := Some a\<rparr>"
  have "mset (server_owned ?y) + ?old = add_mset a (mset (server_owned (servers st ! s)))"
    by (simp add: server_owned_def split: option.splits)
  then have "census (st\<lparr>servers := (servers st)[s := ?y]\<rparr>) + ?old + mset (server_owned (servers st ! s))
      = add_mset a (census st) + mset (server_owned (servers st ! s))"
    using arg_cong[OF census_server[OF assms(2), of ?y], of "\<lambda>m. m + ?old"] by (simp add: ac_simps)
  then have c: "census (upd_server s (\<lambda>x. x\<lparr>m_listener := Some a\<rparr>) st) + ?old = add_mset a (census st)"
    by (simp add: upd_server_def)
  have "net_held (h + ?old) (upd_server s (\<lambda>x. x\<lparr>m_listener := Some a\<rparr>) st)"
  proof (rule held_cong)
    show "census (upd_server s (\<lambda>x. x\<lparr>m_listener := Some a\<rparr>) st) + (h + ?old) = census st + add_mset a h"
      using arg_cong[OF c, of "\<lambda>m. m + h"] by (simp add: ac_simps)
  qed (use assms(1) in \<open>auto simp: net_good_def net_held_def upd_server_def\<close>)
  then show ?thesis using assms(1)
    by (auto simp: assign_listener_def Let_def net_good_def held_destroy sinks_frame[OF frame_close(4)]
        split: option.splits)
qed


lemma good_upd_client: "(\<And>x. m_socket (f x) = m_socket x) \<Longrightarrow> net_good h (upd_client c f st) = net_good h st"
  by (simp add: net_good_def held_upd_client)

lemma good_upd_server:
  "(\<And>x. m_connections (f x) = m_connections x) \<Longrightarrow> (\<And>x. m_listener (f x) = m_listener x) \<Longrightarrow>
   net_good h (upd_server c f st) = net_good h st"
  by (simp add: net_good_def held_upd_server)

lemma good_fields [simp]:
  "net_good h (st\<lparr>net_mem := u\<rparr>) = net_good h st" "net_good h (st\<lparr>conn_mem := v\<rparr>) = net_good h st"
  "net_good h (st\<lparr>net_eng := e\<rparr>) = net_good h st" "net_good h (st\<lparr>sys := y\<rparr>) = net_good h st"
  "net_good h (update_peer_info a st) = net_good h st"
  by (simp_all add: net_good_def)

lemma clients_frame: "net_frame st1 = net_frame st \<Longrightarrow> length (clients st1) = length (clients st)"
  by (rule frame_write_chan(1))

lemma length_upd [simp]:
  "length (clients (upd_client c f st)) = length (clients st)" "length (servers (upd_server s g st)) = length (servers st)"
  "clients (upd_server s g st) = clients st" "servers (upd_client c f st) = servers st"
  by (simp_all add: upd_client_def upd_server_def)

lemma good_connect_done:
  assumes "net_good h st" "c < length (clients st)"
  shows "net_good h (fst (connect_done c ret st))"
  using assms
  by (auto simp: connect_done_def good_upd_client intro!: good_reset_socket split: option.splits)

lemma good_connect_end:
  assumes "net_good h st" "c < length (clients st)"
  shows "net_good h (fst (connect_end c ret v so st))"
  using assms by (auto simp: connect_end_def intro: good_connect_done)

lemma new_socket_lengths:
  assumes "new_socket pr sink st = Some (st1, a)"
  shows "length (servers st1) = length (servers st) \<and> length (clients st1) = length (clients st)"
proof -
  obtain fd rs where p: "pop_default (-1) (socket_r (sys st)) = (fd, rs)" by (metis surj_pair)
  let ?s = "default_socket\<lparr>m_protocol := protocol_tcp, m_fd := fd, m_sink := sink\<rparr>"
  let ?s2 = "st\<lparr>sys := (sys st)\<lparr>socket_r := rs\<rparr>, next_sock := Suc (next_sock st), objs := (objs st)(next_sock st := ?s)\<rparr>"
  obtain s3 r where n: "make_socket_non_blocking (get_fd (next_sock st) ?s2) ?s2 = (s3, r)" by (metis surj_pair)
  have l: "servers s3 = servers st" "clients s3 = clients st"
    using n by (auto simp: make_socket_non_blocking_def Let_def split: prod.splits if_splits)
  have "st1 = fst (add_fd (Some (next_sock st)) (EPOLLIN OR EPOLLET) s3) \<or> st1 = ?s2"
    using assms n by (auto simp: new_socket_def p alloc_socket_def after_create_def Let_def split: if_splits)
  then show ?thesis using servers_frame[OF frame_add_fd] clients_frame[OF frame_add_fd] l by auto
qed

lemma assign_socket_length [simp]: "length (clients (assign_socket c a st)) = length (clients st)"
  by (simp add: assign_socket_def Let_def clients_frame[OF frame_close(4)] split: option.splits)

lemma assign_listener_length [simp]: "length (servers (assign_listener s a st)) = length (servers st)"
  by (simp add: assign_listener_def Let_def servers_frame[OF frame_close(4)] split: option.splits)

lemma good_new_socket:
  assumes "net_good h st" "new_socket pr sink st = Some (st1, a)" "\<And>s. sink = Server_sink s \<Longrightarrow> s < length (servers st)"
  shows "net_good (add_mset a h) st1"
  using assms held_new_socket sinks_new_socket by (auto simp: net_good_def)

lemma good_connect_begin:
  assumes "net_good h st" "c < length (clients st)" "connect_begin c res err cur st = Some (st1, r)"
  shows "net_good h st1"
proof -
  obtain s2 a where n: "new_socket protocol_tcp (Client_sink c) st = Some (s2, a)"
    using assms(3) by (auto simp: connect_begin_def split: option.splits)
  let ?s3 = "assign_socket c a s2"
  have g: "net_good h ?s3" and l: "c < length (clients ?s3)"
    using good_swap_client[OF good_new_socket[OF assms(1) n]] new_socket_lengths[OF n] assms(2) by simp_all
  have u: "net_good h (upd_sock b (\<lambda>s. s\<lparr>m_conn_res_chan := True\<rparr>) ?s3)" for b
    using g by (simp add: net_good_def)
  have "net_good h (fst (connect_done c res ?s3))" by (rule good_connect_done[OF g l])
  then show ?thesis using assms(3) g u
    by (auto simp: connect_begin_def n Let_def good_upd_client split: option.splits if_splits prod.splits)
qed

lemma good_client_send: "net_good h st \<Longrightarrow> net_good h (client_send c blk st)"
  using sinks_frame[OF frame_client_send, of c blk st] held_socket_write[of h st]
  by (auto simp: net_good_def client_send_def split: option.splits)

lemma good_server_send: "net_good h st \<Longrightarrow> net_good h (server_send c blk st)"
  using sinks_frame[OF frame_server_send, of c blk st] held_socket_write[of h st]
  by (auto simp: net_good_def server_send_def split: option.splits)

lemma good_client_select:
  "net_good h st \<Longrightarrow> client_select c p cur st load = Some (st1, n) \<Longrightarrow> net_good h st1"
proof (induction c p cur st load rule: client_select.induct)
  case (1 c p cur st load)
  obtain s2 r where t: "client_try_read c p cur st = (s2, r)" by (metis surj_pair)
  have g: "net_good h s2" using t 1(2) by (auto simp: client_try_read_def good_upd_client split: prod.splits)
  show ?case
  proof (cases "c < length (clients st) \<and> client_state (clients st ! c) = client_connected")
    case True
    show ?thesis
    proof (cases "r = Returned True")
      case r: True
      then show ?thesis using 1(1)[OF True t[symmetric] r refl good_client_send[OF g]] 1(3) True t
        by (simp add: client_select.simps[of c p cur st])
    qed (use 1(3) True t g in \<open>auto simp: client_select.simps[of c p cur st] split: outcome.splits bool.splits\<close>)
  qed (use 1(2,3) in \<open>auto simp: client_select.simps[of c p cur st]\<close>)
qed

lemma good_server_select:
  "net_good h st \<Longrightarrow> server_select s p cur st load = Some (st1, n) \<Longrightarrow> net_good h st1"
proof (induction s p cur st load rule: server_select.induct)
  case (1 s p cur st load)
  obtain s2 r where t: "server_try_read s p cur st = (s2, r)" by (metis surj_pair)
  have g: "net_good h s2" using t 1(2) by (auto simp: server_try_read_def good_upd_server split: prod.splits)
  show ?case
  proof (cases "s < length (servers st)")
    case True
    show ?thesis
    proof (cases "r = Returned True")
      case r: True
      then show ?thesis using 1(1)[OF True t[symmetric] r refl good_server_send[OF g]] 1(3) True t
        by (simp add: server_select.simps[of s p cur st])
    qed (use 1(3) True t g in \<open>auto simp: server_select.simps[of s p cur st] split: outcome.splits bool.splits\<close>)
  qed (use 1(2,3) in \<open>auto simp: server_select.simps[of s p cur st]\<close>)
qed

lemma good_bind_loop:
  "net_good h st \<Longrightarrow> s < length (servers st) \<Longrightarrow> bind_loop rs s st = Some (st1, b) \<Longrightarrow>
   net_good h st1 \<and> length (servers st1) = length (servers st)"
proof (induction rs s st rule: bind_loop.induct)
  case (2 opt_r bind_r rs s st)
  obtain s2 a where n: "new_socket protocol_tcp (Server_sink s) st = Some (s2, a)"
    using "2.prems"(3) by (auto split: option.splits)
  let ?s3 = "assign_listener s a s2"
  have g: "net_good h ?s3" and l: "length (servers ?s3) = length (servers st)"
    using good_assign_listener[OF good_new_socket[OF "2.prems"(1) n]] new_socket_lengths[OF n] "2.prems"(2) by simp_all
  show ?case using "2.IH"[OF n refl refl] "2.prems"(2,3) g l n by (auto simp: Let_def split: if_splits)
qed simp

lemma good_server_start:
  assumes "net_good h st" "s < length (servers st)" "server_start s found lr st = Some (st1, r)"
  shows "net_good h st1"
proof -
  let ?s0 = "upd_server s (\<lambda>x. x\<lparr>server_state := server_starting\<rparr>) st"
  have g: "net_good h ?s0" using assms(1) by (simp add: good_upd_server)
  have u: "net_good h s2 \<Longrightarrow> net_good h (upd_sock a (\<lambda>k. k\<lparr>m_is_listener := True\<rparr>) s2)" for a s2
    by (simp add: net_good_def)
  show ?thesis
  proof (cases found)
    case (Inl err)
    then show ?thesis using assms(3) g by (simp add: server_start_def)
  next
    case (Inr rs)
    then obtain s2 where b: "bind_loop rs s ?s0 = Some (s2, True)"
      using assms(3) by (auto simp: server_start_def split: option.splits bool.splits)
    have "net_good h s2" using good_bind_loop[OF g _ b] assms(2) by simp
    then show ?thesis using assms(3) b Inr u
      by (auto simp: server_start_def good_upd_server split: option.splits if_splits)
  qed
qed


section \<open>Reachable states\<close>

definition net_init :: "engine_t \<Rightarrow> net_t" where
  "net_init e =
     \<lparr>m_fd_map = (\<lambda>_. None), objs = (\<lambda>_. default_socket), freed = [], next_sock = 2, clients = [], servers = [],
      net_mem = (\<lambda>_. None), conn_mem = (\<lambda>_. None), net_eng = e,
      sys = \<lparr>socket_r = [], fcntl_r = [], ctl_r = [], read_r = [], write_r = [], accept_r = [], name_r = []\<rparr>,
      net_log = []\<rparr>"

text \<open>One operation of the poller, of an endpoint or of its users. \<open>env\<close>: the kernel has new results
  ready, and the rest of the engine moves on.\<close>

inductive net_step :: "net_t \<Rightarrow> net_t \<Rightarrow> bool" where
  env: "net_step st (st\<lparr>sys := y, net_eng := e\<rparr>)"
| poll: "epoll_select evs now cur st = Some (st1, n) \<Longrightarrow> net_step st st1"
| client_create: "raw_tcp_client_create host port cur st = Some (st1, q) \<Longrightarrow> net_step st st1"
| connect: "c < length (clients st) \<Longrightarrow> connect_begin c res err cur st = Some (st1, r) \<Longrightarrow> net_step st st1"
| connect_wait: "connect_wait c p now cur st = (st1, q) \<Longrightarrow> net_step st st1"
| connected: "c < length (clients st) \<Longrightarrow> net_step st (fst (connect_end c ret v so st))"
| timeout_sleep: "net_step st (connect_timeout_enter now cur st)"
| timeout: "connect_timeout_fire c now cur st = (st1, q) \<Longrightarrow> net_step st st1"
| client_recv: "client_read c p now cur st = (st1, q) \<Longrightarrow> net_step st st1"
| client_put: "client_write c dat now cur st = (st1, q) \<Longrightarrow> net_step st st1"
| client_poll: "client_select c p cur st load = Some (st1, n) \<Longrightarrow> net_step st st1"
| server_create: "raw_tcp_server_create host port cur st = Some (st1, q) \<Longrightarrow> net_step st st1"
| start: "s < length (servers st) \<Longrightarrow> server_start s found lr st = Some (st1, r) \<Longrightarrow> net_step st st1"
| server_recv: "server_read s p now cur st = (st1, q) \<Longrightarrow> net_step st st1"
| server_put: "server_write s which dat now cur st = (st1, q) \<Longrightarrow> net_step st st1"
| server_poll: "server_select s p cur st load = Some (st1, n) \<Longrightarrow> net_step st st1"

inductive net_reach :: "engine_t \<Rightarrow> net_t \<Rightarrow> bool" for e where
  init: "net_reach e (net_init e)"
| step: "net_reach e st \<Longrightarrow> net_step st st1 \<Longrightarrow> net_reach e st1"

lemma good_new_client: "net_good h (st\<lparr>clients := clients st @ [new_raw_tcp_client host port]\<rparr>) = net_good h st"
proof -
  let ?st1 = "st\<lparr>clients := clients st @ [new_raw_tcp_client host port]\<rparr>"
  have "net_held h ?st1 = net_held h st"
    by (rule held_same)
       (simp_all add: get_fd_def census_def owners_def new_raw_tcp_client_def client_owned_def)
  then show ?thesis by (simp add: net_good_def sinks_ok_def)
qed

lemma good_new_server:
  "net_good h st \<Longrightarrow> net_good h (st\<lparr>servers := servers st @ [new_raw_tcp_server host port]\<rparr>)"
proof -
  let ?st1 = "st\<lparr>servers := servers st @ [new_raw_tcp_server host port]\<rparr>"
  assume g: "net_good h st"
  have "net_held h ?st1 = net_held h st"
    by (rule held_same)
       (simp_all add: get_fd_def census_def owners_def new_raw_tcp_server_def server_owned_def)
  moreover have "sinks_ok ?st1" using g by (auto simp: net_good_def sinks_ok_def intro: less_SucI)
  ultimately show ?thesis using g by (simp add: net_good_def)
qed

lemma good_client_create:
  assumes "net_good h st" "raw_tcp_client_create host port cur st = Some (st1, q)"
  shows "net_good h st1"
proof -
  obtain e where e: "st1 = st\<lparr>net_eng := e\<rparr> \<or>
      st1 = st\<lparr>net_eng := e, clients := clients (st\<lparr>net_eng := e\<rparr>) @ [new_raw_tcp_client host port]\<rparr>"
    using assms(2) by (auto simp: raw_tcp_client_create_def split: if_splits prod.splits option.splits)
  have "net_good h (st\<lparr>net_eng := e\<rparr>)" using assms(1) by simp
  then show ?thesis using e good_new_client[of h "st\<lparr>net_eng := e\<rparr>" host port] by auto
qed

lemma good_server_create:
  assumes "net_good h st" "raw_tcp_server_create host port cur st = Some (st1, q)"
  shows "net_good h st1"
proof -
  obtain e where e: "st1 = st\<lparr>net_eng := e\<rparr> \<or>
      st1 = st\<lparr>net_eng := e, servers := servers (st\<lparr>net_eng := e\<rparr>) @ [new_raw_tcp_server host port]\<rparr>"
    using assms(2) by (auto simp: raw_tcp_server_create_def split: if_splits prod.splits option.splits)
  have "net_good h (st\<lparr>net_eng := e\<rparr>)" using assms(1) by simp
  then show ?thesis using e good_new_server[of h "st\<lparr>net_eng := e\<rparr>" host port] by auto
qed

lemma good_channel_ops:
  "connect_wait c p now cur st = (st1, q) \<Longrightarrow> net_good h st \<Longrightarrow> net_good h st1"
  "connect_timeout_fire c now cur st = (st1, q) \<Longrightarrow> net_good h st \<Longrightarrow> net_good h st1"
  "client_read c p now cur st = (st1, q) \<Longrightarrow> net_good h st \<Longrightarrow> net_good h st1"
  "client_write c dat now cur st = (st1, q) \<Longrightarrow> net_good h st \<Longrightarrow> net_good h st1"
  "server_read s p now cur st = (st1, q) \<Longrightarrow> net_good h st \<Longrightarrow> net_good h st1"
  "server_write s which dat now cur st = (st1, q) \<Longrightarrow> net_good h st \<Longrightarrow> net_good h st1"
  by (auto simp: connect_wait_def connect_timeout_fire_def conn_result_write_def client_read_def client_write_def
      server_read_def server_write_def good_upd_client good_upd_server
      split: prod.splits option.splits if_splits)

lemma good_step: "net_step st st1 \<Longrightarrow> net_good {#} st \<Longrightarrow> net_good {#} st1"
proof (induction rule: net_step.induct)
  case (timeout_sleep st now cur)
  then show ?case by (simp add: connect_timeout_enter_def)
next
  case (env st y e)
  then show ?case by simp
qed (blast intro: good_channel_ops good_epoll_select good_client_create good_connect_begin good_connect_end
    good_client_select good_server_create good_server_start good_server_select)+

lemma reach_good: "net_reach e st \<Longrightarrow> net_good {#} st"
proof (induction rule: net_reach.induct)
  case init
  show ?case by (simp add: net_good_def net_held_def map_ok_def census_def owners_def net_init_def sinks_ok_def default_socket_def)
next
  case (step st st1)
  then show ?case using good_step by blast
qed

end
