(* ===== verification/Net_Props.thy ===== *)
theory Net_Props
  imports Net_Inv
begin

text \<open>
  Properties of the network layer: the invariant of the reachable states, the streams of bytes through
  \<^verbatim>\<open>socket_t::write\<close> and \<^verbatim>\<open>on_write\<close>, the delivery of received data to the application's channel, and
  what goes wrong when a descriptor is closed, a block is written in part, a connection is refused, a
  connected client connects again, or the application reads too slowly.
\<close>

section \<open>Closing\<close>

text \<open>The sink of the socket at \<open>a\<close> is the one that owns it.\<close>

definition endpoint_holds :: "addr \<Rightarrow> net_t \<Rightarrow> bool" where
  "endpoint_holds a st \<longleftrightarrow> a \<notin> set (freed st) \<and> m_fd (objs st a) \<noteq> 0 \<and>
     (case m_sink (objs st a) of
        Client_sink c \<Rightarrow> c < length (clients st) \<and> m_socket (clients st ! c) = Some a
      | Server_sink s \<Rightarrow> s < length (servers st) \<and> a \<in> set (m_connections (servers st ! s)) \<and>
          distinct (m_connections (servers st ! s)))"

lemma ctl_log: "\<exists>r. net_log (fst (epoll_ctl op fd ev st)) = net_log st @ [Sys_ctl op fd ev r]"
  by (simp add: epoll_ctl_def log_ev_def split: prod.splits)

lemma del_fd_live:
  assumes "a \<notin> set (freed st)" "m_fd (objs st a) \<noteq> 0"
  shows "\<exists>r. net_log (fst (del_fd (Some a) st)) = net_log st @ [Sys_ctl EPOLL_CTL_DEL (m_fd (objs st a)) 0 r]"
    and "objs (fst (del_fd (Some a) st)) = objs st" "freed (fst (del_fd (Some a) st)) = freed st"
      "clients (fst (del_fd (Some a) st)) = clients st" "servers (fst (del_fd (Some a) st)) = servers st"
  using assms by (simp_all add: del_fd_def touch_def get_fd_def epoll_ctl_def log_ev_def Let_def split: prod.splits)

text \<open>A socket nobody owns is closed once.\<close>

lemma close_unowned:
  assumes a: "a \<notin> set (freed st)" "m_fd (objs st a) \<noteq> 0"
    and n: "\<And>st1. objs st1 = objs st \<Longrightarrow> clients st1 = clients st \<Longrightarrow> servers st1 = servers st \<Longrightarrow> on_closed a st1 = st1"
  shows "\<exists>r. net_log (close_fd a st) = net_log st @ [Sys_ctl EPOLL_CTL_DEL (m_fd (objs st a)) 0 r, Sys_close (m_fd (objs st a))]"
    and "objs (close_fd a st) = objs st" "freed (close_fd a st) = freed st"
proof -
  let ?s1 = "fst (del_fd (Some a) st)"
  note d = del_fd_live[OF a]
  have t: "touch a ?s1 = ?s1" using a by (simp add: touch_def d)
  have "close_fd a st = log_ev (Sys_close (m_fd (objs st a))) ?s1"
    using n[of ?s1] by (simp add: close_fd.simps on_close.simps t d sys_close_def get_fd_def)
  then show "\<exists>r. net_log (close_fd a st) = net_log st @ [Sys_ctl EPOLL_CTL_DEL (m_fd (objs st a)) 0 r, Sys_close (m_fd (objs st a))]"
    "objs (close_fd a st) = objs st" "freed (close_fd a st) = freed st"
    using d(1) by (auto simp: d log_ev_def)
qed

lemma on_closed_holder:
  assumes "endpoint_holds a st"
  obtains st1 where "on_closed a st = destroy_socket a st1" "objs st1 = objs st" "freed st1 = freed st" "net_log st1 = net_log st"
    "\<And>st2. objs st2 = objs st \<Longrightarrow> clients st2 = clients st1 \<Longrightarrow> servers st2 = servers st1 \<Longrightarrow> on_closed a st2 = st2"
proof (cases "m_sink (objs st a)")
  case (Client_sink c)
  let ?s1 = "st\<lparr>clients := (clients st)[c := (clients st ! c)\<lparr>client_state := client_disconnected, m_socket := None\<rparr>]\<rparr>"
  show ?thesis using assms Client_sink
    by (intro that[of ?s1]) (auto simp: endpoint_holds_def on_closed.simps)
next
  case (Server_sink s)
  let ?s1 = "st\<lparr>servers := (servers st)[s := (servers st ! s)\<lparr>m_connections := remove1 a (m_connections (servers st ! s))\<rparr>]\<rparr>"
  show ?thesis using assms Server_sink
    by (intro that[of ?s1]) (auto simp: endpoint_holds_def on_closed.simps)
qed

text \<open>C14: closing a descriptor that an endpoint owns, on an error or at the end of the stream, destroys the
  socket inside its own \<^verbatim>\<open>on_close\<close>: its destructor closes the descriptor, then \<^verbatim>\<open>on_close\<close> reads
  \<^verbatim>\<open>m_fd\<close> from the freed socket and closes the same descriptor number a second time.\<close>

theorem close_owned_twice:
  assumes h: "endpoint_holds a st"
  defines "fd \<equiv> m_fd (objs st a)"
  shows "\<exists>r1 r2. net_log (close_fd a st) = net_log st @
    [Sys_ctl EPOLL_CTL_DEL fd 0 r1, Sys_ctl EPOLL_CTL_DEL fd 0 r2, Sys_close fd, Destroyed a, Freed_use a, Sys_close fd]"
proof -
  have a: "a \<notin> set (freed st)" "m_fd (objs st a) \<noteq> 0" using h by (simp_all add: endpoint_holds_def)
  let ?s1 = "fst (del_fd (Some a) st)"
  note d = del_fd_live[OF a]
  have h1: "endpoint_holds a ?s1" using h by (simp add: endpoint_holds_def d split: sink_t.splits)
  obtain st1 where s: "on_closed a ?s1 = destroy_socket a st1" "objs st1 = objs ?s1" "freed st1 = freed ?s1"
    "net_log st1 = net_log ?s1" and n: "\<And>st2. objs st2 = objs ?s1 \<Longrightarrow> clients st2 = clients st1 \<Longrightarrow> servers st2 = servers st1 \<Longrightarrow> on_closed a st2 = st2"
    using on_closed_holder[OF h1] by blast
  have t: "touch a ?s1 = ?s1" using a by (simp add: touch_def d)
  have c: "objs (close_fd a st1) = objs st" "freed (close_fd a st1) = freed st"
    "\<exists>r. net_log (close_fd a st1) = net_log ?s1 @ [Sys_ctl EPOLL_CTL_DEL fd 0 r, Sys_close fd]"
    using close_unowned[of a st1] a n s d(2,3) by (auto simp: fd_def)
  have "close_fd a st = sys_close a (mark_destroyed a (close_fd a st1))"
    by (simp add: close_fd.simps[of a st] on_close.simps t s destroy_socket.simps)
  then have "net_log (close_fd a st) = net_log (close_fd a st1) @ [Destroyed a, Freed_use a, Sys_close fd]"
    by (simp add: sys_close_def mark_destroyed_def touch_def log_ev_def upd_sock_def get_fd_def c fd_def)
  then show ?thesis using c(3) d(1) by (auto simp: fd_def)
qed


section \<open>The stream of bytes to the peer\<close>

fun wire :: "int \<Rightarrow> net_event list \<Rightarrow> byte_t list" where
  "wire fd [] = []"
| "wire fd (Sys_write g bs # evs) = (if g = fd then bs else []) @ wire fd evs"
| "wire fd (_ # evs) = wire fd evs"

definition block_bytes :: "raw_data_block_t \<Rightarrow> byte_t list" where
  "block_bytes b = take (nat (m_len b)) (buf_bytes (m_buf b))"

text \<open>What the kernel has taken for the socket's descriptor, followed by what is still to be written.\<close>

definition stream :: "addr \<Rightarrow> net_t \<Rightarrow> byte_t list" where
  "stream a st = wire (m_fd (objs st a)) (net_log st) @ concat (map block_bytes (m_write_pending_list (objs st a)))"

definition ctl_succeeds :: "net_t \<Rightarrow> bool" where
  "ctl_succeeds st \<longleftrightarrow> (\<forall>r \<in> set (ctl_r (sys st)). 0 \<le> r)"

lemma wire_append [simp]: "wire fd (xs @ ys) = wire fd xs @ wire fd ys"
  by (induction fd xs rule: wire.induct) auto

lemma wire_writes: "wire fd (map (Sys_write fd) cs) = concat cs"
  by (induction cs) auto

lemma block_bytes_new: "bs \<noteq> [] \<Longrightarrow> block_bytes (new_block (Some bs) (int (length bs)) k) = bs"
  by (simp add: block_bytes_def new_block_def)

lemma write_calls_split: "write_calls rs bs = (rs1, left, cs) \<Longrightarrow> concat cs @ left = bs"
  by (induction rs bs arbitrary: rs1 left cs rule: write_calls.induct)
     (auto simp: Let_def split: if_splits prod.splits)

lemma write_loop_effect:
  assumes "write_loop fd bs st = (st1, left)"
  obtains cs rs where "concat cs @ left = bs"
    "st1 = st\<lparr>sys := (sys st)\<lparr>write_r := rs\<rparr>, net_log := net_log st @ map (Sys_write fd) cs\<rparr>"
proof -
  obtain rs l cs where "write_calls (write_r (sys st)) bs = (rs, l, cs)" by (metis prod_cases3)
  then show thesis using assms write_calls_split that[of cs rs] by (auto simp: write_loop_def)
qed

lemma pop_default_set: "pop_default d xs = (x, ys) \<Longrightarrow> x \<in> insert d (set xs) \<and> set ys \<subseteq> set xs"
  by (cases xs) auto

lemma mod_fd_succeeds:
  assumes "ctl_succeeds st"
  shows "objs (fst (mod_fd fd ev st)) = objs st \<and> freed (fst (mod_fd fd ev st)) = freed st \<and>
    wire g (net_log (fst (mod_fd fd ev st))) = wire g (net_log st) \<and> ctl_succeeds (fst (mod_fd fd ev st)) \<and>
    clients (fst (mod_fd fd ev st)) = clients st \<and> write_r (sys (fst (mod_fd fd ev st))) = write_r (sys st)"
proof (cases "m_fd_map st fd")
  case (Some a)
  obtain r rs where p: "pop_default 0 (ctl_r (sys st)) = (r, rs)" by (metis surj_pair)
  have "0 \<le> r" "set rs \<subseteq> set (ctl_r (sys st))"
    using pop_default_set[OF p] assms by (auto simp: ctl_succeeds_def)
  then show ?thesis using assms Some
    by (auto simp: mod_fd_def get_handler_def epoll_ctl_def p log_ev_def ctl_succeeds_def)
qed (use assms in \<open>simp add: mod_fd_def get_handler_def\<close>)

lemma push_pending_live:
  "a \<notin> set (freed st) \<Longrightarrow>
   push_pending b a st = upd_sock a (\<lambda>s. s\<lparr>m_write_pending_list := m_write_pending_list s @ [b]\<rparr>) st"
  by (simp add: push_pending_def touch_def)

lemma stream_push: "stream a (upd_sock a (\<lambda>s. s\<lparr>m_write_pending_list := m_write_pending_list s @ [b]\<rparr>) st) =
    stream a st @ block_bytes b"
  by (simp add: stream_def upd_sock_def)

text \<open>C15: \<^verbatim>\<open>socket_t::write\<close> neither loses nor reorders bytes: however the kernel takes them, with
  interruptions and in parts, the bytes taken and those kept for later are the earlier ones followed by
  the new ones. The result is the number of bytes taken at once.\<close>

theorem socket_write_stream:
  assumes a: "a \<notin> set (freed st)" and ok: "ctl_succeeds st"
    and w: "socket_write a (Some bs) st = (st1, n)"
  shows "stream a st1 = stream a st @ bs \<and> 0 \<le> n \<and> n \<le> int (length bs) \<and>
    wire (m_fd (objs st a)) (net_log st1) = wire (m_fd (objs st a)) (net_log st) @ take (nat n) bs"
proof (cases "bs = [] \<or> has_write_pending a st")
  case True
  show ?thesis
  proof (cases "bs = []")
    case True
    then show ?thesis using w by (simp add: socket_write_def)
  next
    case ne: False
    then have "n = 0" "st1 = upd_sock a (\<lambda>s. s\<lparr>m_write_pending_list := m_write_pending_list s @
        [new_block (Some bs) (int (length bs)) (Some a)]\<rparr>) st"
      using True w a by (auto simp: socket_write_def push_pending_live)
    then show ?thesis using ne by (simp add: stream_push block_bytes_new) (simp add: upd_sock_def)
  qed
next
  case False
  let ?fd = "m_fd (objs st a)"
  obtain s1 left where l: "write_loop ?fd bs st = (s1, left)" by (metis surj_pair)
  obtain cs rs where c: "concat cs @ left = bs"
    "s1 = st\<lparr>sys := (sys st)\<lparr>write_r := rs\<rparr>, net_log := net_log st @ map (Sys_write ?fd) cs\<rparr>"
    using write_loop_effect[OF l] by blast
  have ok1: "ctl_succeeds s1" using ok c(2) by (simp add: ctl_succeeds_def)
  have p1: "m_write_pending_list (objs s1 a) = []" using False c(2) by (simp add: has_write_pending_def)
  have n: "n = int (length (concat cs))"
    using w False l c(1) by (auto simp: socket_write_def get_fd_def Let_def)
  let ?s2 = "if left = [] then s1 else fst (mod_fd ?fd (EPOLLIN OR EPOLLOUT OR EPOLLET) s1)"
  have m: "objs ?s2 = objs st" "freed ?s2 = freed st" "wire ?fd (net_log ?s2) = wire ?fd (net_log st) @ concat cs"
    using mod_fd_succeeds[OF ok1] c(2) by (auto simp: wire_writes)
  have st1: "st1 = (if left = [] then ?s2 else push_pending (new_block (Some left) (int (length left)) (Some a)) a ?s2)"
    using w False l p1 c(2) by (auto simp: socket_write_def get_fd_def has_write_pending_def Let_def)
  have s2: "stream a ?s2 = stream a st @ concat cs"
    using m p1 c(2) False by (simp add: stream_def has_write_pending_def)
  have "take (nat n) bs = concat cs" using c(1) n by (metis append_eq_conv_conj nat_int)
  moreover have "int (length (concat cs)) \<le> int (length bs)" using c(1) by (metis length_append of_nat_mono le_add1)
  moreover have "stream a st1 = stream a st @ bs"
    using st1 s2 m(2) a c(1) by (auto simp: push_pending_live stream_push block_bytes_new simp del: if_split_asm)
  moreover have "net_log st1 = net_log ?s2" using st1 m(2) a by (auto simp: push_pending_live upd_sock_def)
  ultimately show ?thesis using n m(3) by simp
qed


lemma pop_pending_eq: "pop_pending a st = upd_sock a (\<lambda>s. s\<lparr>m_write_pending_list := tl (m_write_pending_list s)\<rparr>) st"
  by (simp add: pop_pending_def)

lemma pending_upd [simp]:
  "m_write_pending_list (objs (upd_sock a (\<lambda>s. s\<lparr>m_write_pending_list := f s\<rparr>) st) a) = f (objs st a)"
  "m_fd (objs (upd_sock a (\<lambda>s. s\<lparr>m_write_pending_list := f s\<rparr>) st) a) = m_fd (objs st a)"
  "net_log (upd_sock a g st) = net_log st" "ctl_succeeds (upd_sock a g st) = ctl_succeeds st"
  by (simp_all add: upd_sock_def ctl_succeeds_def)

lemma pending_loop_spec:
  assumes "m_write_pending_list (objs st a) = ds" "a \<notin> set (freed st)" "ctl_succeeds st"
    "pending_loop ds a st t = (st1, t1)"
  shows "\<exists>k m. k \<le> length ds \<and> m_write_pending_list (objs st1 a) = drop k ds \<and> m_fd (objs st1 a) = m_fd (objs st a) \<and>
    (if k < length ds then m < length (block_bytes (ds ! k)) else m = 0) \<and>
    wire (m_fd (objs st a)) (net_log st1) = wire (m_fd (objs st a)) (net_log st) @
      concat (map block_bytes (take k ds)) @ take m (block_bytes (ds ! k)) \<and>
    t1 = t + int (length (concat (map block_bytes (take k ds)))) + int m"
  using assms
proof (induction ds arbitrary: st t)
  case Nil
  then show ?case by simp
next
  case (Cons d ds)
  let ?fd = "m_fd (objs st a)"
  let ?P = "\<lambda>ds st t k m. k \<le> length ds \<and> m_write_pending_list (objs st1 a) = drop k ds \<and> m_fd (objs st1 a) = m_fd (objs st a) \<and>
    (if k < length ds then m < length (block_bytes (ds ! k)) else m = 0) \<and>
    wire (m_fd (objs st a)) (net_log st1) = wire (m_fd (objs st a)) (net_log st) @
      concat (map block_bytes (take k ds)) @ take m (block_bytes (ds ! k)) \<and>
    t1 = t + int (length (concat (map block_bytes (take k ds)))) + int m"
  show ?case
  proof (cases "m_buf d \<noteq> Null \<and> m_len d \<noteq> 0")
    case False
    then have e: "block_bytes d = []" by (auto simp: block_bytes_def)
    have "pending_loop ds a (pop_pending a st) t = (st1, t1)" using False Cons.prems(4) by auto
    from Cons.IH[OF _ _ _ this] Cons.prems(1-3) obtain k m where "?P ds (pop_pending a st) t k m"
      by (auto simp: pop_pending_eq)
    then have "?P (d # ds) st t (Suc k) m" using e by (simp add: pop_pending_eq)
    then show ?thesis by blast
  next
    case True
    obtain s1 left where l: "write_loop ?fd (block_bytes d) st = (s1, left)" by (metis surj_pair)
    obtain cs rs where c: "concat cs @ left = block_bytes d"
      "s1 = st\<lparr>sys := (sys st)\<lparr>write_r := rs\<rparr>, net_log := net_log st @ map (Sys_write ?fd) cs\<rparr>"
      using write_loop_effect[OF l] by blast
    have len: "int (length (block_bytes d)) - int (length left) = int (length (concat cs))"
      using c(1) by (metis add_diff_cancel_right' length_append of_nat_add)
    have s1: "objs s1 = objs st" "freed s1 = freed st" "ctl_succeeds s1" "net_log s1 = net_log st @ map (Sys_write ?fd) cs"
      using Cons.prems(3) c(2) by (simp_all add: ctl_succeeds_def)
    note w = l[unfolded block_bytes_def] len[unfolded block_bytes_def]
    show ?thesis
    proof (cases "left = []")
      case whole: True
      then have "pending_loop ds a (pop_pending a s1) (t + int (length (concat cs))) = (st1, t1)"
        using True Cons.prems(4) w by (auto simp: get_fd_def)
      from Cons.IH[OF _ _ _ this] Cons.prems(1,2) s1 obtain k m
        where "?P ds (pop_pending a s1) (t + int (length (concat cs))) k m" by (auto simp: pop_pending_eq)
      then have "?P (d # ds) st t (Suc k) m" using whole c(1) s1 by (simp add: pop_pending_eq wire_writes)
      then show ?thesis by blast
    next
      case False
      let ?s2 = "fst (mod_fd ?fd (EPOLLIN OR EPOLLOUT OR EPOLLET) s1)"
      note m = mod_fd_succeeds[OF s1(3), of ?fd "EPOLLIN OR EPOLLOUT OR EPOLLET" ?fd]
      have "st1 = pop_pending a (push_front_pending (new_block (Some left) (int (length left)) (Some a)) a ?s2)"
        and t1: "t1 = t + int (length (concat cs))"
        using True False Cons.prems(4) w s1(1) by (auto simp: get_fd_def)
      then have st1: "st1 = upd_sock a (\<lambda>s. s\<lparr>m_write_pending_list := tl (m_write_pending_list s)\<rparr>)
          (upd_sock a (\<lambda>s. s\<lparr>m_write_pending_list := new_block (Some left) (int (length left)) (Some a) # m_write_pending_list s\<rparr>) ?s2)"
        using Cons.prems(2) s1(2) m by (simp add: push_front_pending_def pop_pending_eq touch_def)
      have "length (concat cs) < length (block_bytes d)" "take (length (concat cs)) (block_bytes d) = concat cs"
        using False c(1) by (metis length_append length_greater_0_conv less_add_same_cancel1, metis append_eq_conv_conj)
      then have "?P (d # ds) st t 0 (length (concat cs))"
        using st1 m s1 t1 Cons.prems(1) by (simp add: wire_writes)
      then show ?thesis by blast
    qed
  qed
qed



section \<open>Data to the application\<close>

lemma chan_write_room:
  assumes "chan_ok ch" "m_waiting_read_que ch = []" "length (content ch) < nat (m_max_size ch)"
  shows "\<exists>ch1. chan_write x tr now cur (ch, mem, e) = ((ch1, mem, e), Returned True) \<and> chan_ok ch1 \<and>
    content ch1 = content ch @ [x] \<and> m_waiting_read_que ch1 = [] \<and> m_max_size ch1 = m_max_size ch"
proof -
  have r: "ring_ok ch" "m_unread ch \<noteq> m_max_size ch" "m_unread ch < m_max_size ch"
    using assms by (auto simp: chan_ok_def length_content ring_ok_def)
  then show ?thesis using assms content_put[OF r(1,3), of x]
    by (auto simp: chan_write_def write_cs_eq write_effect_def chan_ok_def)
qed

text \<open>The block a server puts into its channel.\<close>

abbreviation data_block :: "addr \<Rightarrow> byte_t list \<Rightarrow> raw_data_block_t option" where
  "data_block a d \<equiv> Some (new_block (Some d) (int (length d)) (Some a))"

text \<open>The data of a ready connection reaches the application in order: the loop of reads ends when the
  kernel has no more, and the server's channel has got one block per read, each with the bytes read and
  the key of its connection, as long as there is room for them.\<close>

theorem read_loop_delivers:
  assumes "m_sink (objs st a) = Server_sink s" "\<not> m_is_listener (objs st a)" "a \<notin> set (freed st)"
    and "s < length (servers st)" "a \<in> set (m_connections (servers st ! s))"
    and "read_r (sys st) = map Rd_data ds @ [Rd_err err]" "\<forall>d \<in> set ds. d \<noteq> [] \<and> length d \<le> READ_BUF"
    and "chan_ok (server_read_chan (servers st ! s))" "m_waiting_read_que (server_read_chan (servers st ! s)) = []"
    and "length (content (server_read_chan (servers st ! s))) + length ds
           \<le> nat (m_max_size (server_read_chan (servers st ! s)))"
  shows "\<exists>st1. read_loop a now cur st = Some st1 \<and> read_r (sys st1) = [] \<and> net_log st1 = net_log st \<and>
    content (server_read_chan (servers st1 ! s)) =
      content (server_read_chan (servers st ! s)) @ map (data_block a) ds"
  using assms
proof (induction ds arbitrary: st)
  case Nil
  then show ?case by (simp add: read_loop.simps on_read_def touch_def)
next
  case (Cons d ds)
  let ?ch = "server_read_chan (servers st ! s)"
  let ?s1 = "st\<lparr>sys := (sys st)\<lparr>read_r := map Rd_data ds @ [Rd_err err]\<rparr>\<rparr>"
  obtain ch1 where c: "chan_write (data_block a d) False now cur (?ch, net_mem st, net_eng st)
      = ((ch1, net_mem st, net_eng st), Returned True)" "chan_ok ch1" "content ch1 = content ?ch @ [data_block a d]"
    "m_waiting_read_que ch1 = []" "m_max_size ch1 = m_max_size ?ch"
    using chan_write_room[OF Cons.prems(8,9)] Cons.prems(10) by fastforce
  let ?s2 = "upd_server s (\<lambda>x. x\<lparr>server_read_chan := ch1\<rparr>) ?s1"
  have t: "touch a st = st" using Cons.prems(3) by (simp add: touch_def)
  have d: "d \<noteq> []" "take READ_BUF d = d" using Cons.prems(7) by auto
  have "server_on_new_data s a d now cur ?s1 = Some (?s2\<lparr>net_mem := net_mem st, net_eng := net_eng st\<rparr>)"
    using c(1) d Cons.prems(5) by (simp add: server_on_new_data_def returns_def upd_server_def)
  moreover have "?s2\<lparr>net_mem := net_mem st, net_eng := net_eng st\<rparr> = ?s2" by (simp add: upd_server_def)
  ultimately have "on_read a now cur st = Some (?s2, int (length d))"
    using d Cons.prems(1,2,6) by (simp add: on_read_def)
  then have l: "read_loop a now cur st = read_loop a now cur ?s2"
    using d by (simp add: read_loop.simps[of a now cur st] t)
  have "\<exists>st1. read_loop a now cur ?s2 = Some st1 \<and> read_r (sys st1) = [] \<and> net_log st1 = net_log ?s2 \<and>
      content (server_read_chan (servers st1 ! s)) = content (server_read_chan (servers ?s2 ! s)) @ map (data_block a) ds"
    using Cons.prems c by (intro Cons.IH) (simp_all add: upd_server_def)
  then show ?case using l c(3) Cons.prems(4) by (simp add: upd_server_def)
qed


text \<open>C17: an application that reads too slowly stops the server for good. When the channel is full, the next
  block is queued as that of a waiting writer; the next read by the application then spins for ever under
  the channel's lock, and the poller spins for ever on the next data of any connection.\<close>

theorem slow_reader_deadlocks:
  assumes s: "s < length (servers st)" and a: "a \<in> set (m_connections (servers st ! s))" and d: "d \<noteq> []"
    and ok: "chan_ok (server_read_chan (servers st ! s))"
    and full: "length (content (server_read_chan (servers st ! s))) = nat (m_max_size (server_read_chan (servers st ! s)))"
  shows "\<exists>st1 st2. server_on_new_data s a d now cur st = Some st1 \<and>
    server_read s p now1 cur1 st1 = (st2, Nested_spin) \<and>
    (\<forall>b d2 now2 cur2. b \<in> set (m_connections (servers st ! s)) \<longrightarrow> d2 \<noteq> [] \<longrightarrow>
       server_on_new_data s b d2 now2 cur2 st2 = None)"
proof -
  let ?ch = "server_read_chan (servers st ! s)"
  let ?c = "\<lparr>thread_id = cur, chrotine_id = get_current_chroutine_id cur (net_eng st), out_ptr = None, in_data = data_block a d\<rparr>"
  let ?ch1 = "?ch\<lparr>m_waiting_write_que := m_waiting_write_que ?ch @ [?c]\<rparr>"
  let ?e1 = "chan_hold now cur (net_eng st)"
  have f: "m_unread ?ch = m_max_size ?ch" using ok full by (simp add: chan_ok_def content_full)
  then have w: "chan_write (data_block a d) False now cur (?ch, net_mem st, net_eng st) = ((?ch1, net_mem st, ?e1), Must_hold)"
    by (simp add: chan_write_def write_cs_eq[OF ok] write_effect_def)
  let ?st1 = "upd_server s (\<lambda>x. x\<lparr>server_read_chan := ?ch1\<rparr>) (st\<lparr>net_mem := net_mem st, net_eng := ?e1\<rparr>)"
  have 1: "server_on_new_data s a d now cur st = Some ?st1"
    using a d w by (simp add: server_on_new_data_def returns_def)
  have ok1: "chan_ok ?ch1" using ok f by (simp add: chan_ok_def ring_ok_def)
  let ?ch2 = "(fst (ring_get ?ch1))\<lparr>m_lock := (m_lock ?ch1)\<lparr>m_flag := True\<rparr>\<rparr>"
  have r: "chan_read p False now1 cur1 (?ch1, net_mem st, ?e1) = ((?ch2, (net_mem st)(p := snd (ring_get ?ch1)), ?e1), Nested_spin)"
    using waiting_writer_spins[OF ok1] by (simp add: chan_read_def)
  let ?st2 = "upd_server s (\<lambda>x. x\<lparr>server_read_chan := ?ch2\<rparr>) (?st1\<lparr>net_mem := (net_mem st)(p := snd (ring_get ?ch1)), net_eng := ?e1\<rparr>)"
  have 2: "server_read s p now1 cur1 ?st1 = (?st2, Nested_spin)"
    using r s by (simp add: server_read_def upd_server_def)
  have fl: "m_flag (m_lock (server_read_chan (servers ?st2 ! s)))" using s by (simp add: upd_server_def)
  have "server_on_new_data s b d2 now2 cur2 ?st2 = None"
    if "b \<in> set (m_connections (servers st ! s))" "d2 \<noteq> []" for b d2 now2 cur2
  proof -
    have "b \<in> set (m_connections (servers ?st2 ! s))" using that(1) s by (simp add: upd_server_def)
    then show ?thesis using that(2) locked_spin(1)[OF fl]
      by (simp add: server_on_new_data_def chan_write_def returns_def)
  qed
  then show ?thesis using 1 2 by blast
qed

section \<open>Connecting and accepting\<close>

lemma close_no_owner:
  assumes "m_sink (objs st a) = Client_sink c" "c < length (clients st)" "m_socket (clients st ! c) = None"
  shows "clients (close_fd a st) = clients st"
proof -
  let ?s1 = "touch a (fst (del_fd (Some a) st))"
  have s: "clients ?s1 = clients st" "objs ?s1 = objs st"
    by (simp_all add: del_fd_def touch_def epoll_ctl_def log_ev_def Let_def split: prod.splits)
  then have "on_closed a ?s1 = ?s1" using assms by (simp add: on_closed.simps)
  then show ?thesis using s
    by (simp add: close_fd.simps on_close.simps) (simp add: sys_close_def touch_def log_ev_def Let_def)
qed

text \<open>A refused connection is not reported: the event that closes the connecting socket drops it without
  writing to the channel the connecting chroutine waits on, and wakes nobody. Only the timeout chroutine
  ends the wait, 15 seconds after the start.\<close>

theorem refused_connection_unreported:
  assumes h: "endpoint_holds a st" and c: "m_sink (objs st a) = Client_sink c"
    and m: "m_fd_map st fd = Some a" and ev: "ev AND EPOLLERR \<noteq> 0 \<or> ev AND EPOLLHUP \<noteq> 0"
  shows "\<exists>st1. handle_event fd ev now cur st = Some st1 \<and> m_socket (clients st1 ! c) = None \<and>
    client_state (clients st1 ! c) = client_disconnected \<and>
    m_conn_result_chan (clients st1 ! c) = m_conn_result_chan (clients st ! c) \<and>
    conn_mem st1 = conn_mem st \<and> net_eng st1 = net_eng st"
proof -
  let ?st1 = "close_fd a st"
  have a: "a \<notin> set (freed st)" "m_fd (objs st a) \<noteq> 0" "c < length (clients st)" "m_socket (clients st ! c) = Some a"
    using h c by (simp_all add: endpoint_holds_def)
  note d = del_fd_live[OF a(1,2)]
  have f: "net_frame ?st1 = net_frame st" by simp
  have ch: "m_conn_result_chan (clients ?st1 ! c) = m_conn_result_chan (clients st ! c)"
    by (rule frame_write_chan(5)[OF f a(3)])
  have e: "conn_mem ?st1 = conn_mem st" "net_eng ?st1 = net_eng st" using f by (simp_all add: net_frame_def)
  let ?s1 = "fst (del_fd (Some a) st)"
  let ?x = "(clients st ! c)\<lparr>client_state := client_disconnected, m_socket := None\<rparr>"
  let ?s2 = "?s1\<lparr>clients := (clients st)[c := ?x]\<rparr>"
  have t: "touch a ?s1 = ?s1" using a by (simp add: touch_def d)
  have n: "clients (close_fd a ?s2) = clients ?s2"
    by (rule close_no_owner[of ?s2 a c]) (use a(3) c d in simp_all)
  have "clients ?st1 = clients (close_fd a ?s2)"
    using a c d by (simp add: close_fd.simps[of a st] on_close.simps[of a ?s1] t on_closed.simps[of a ?s1]
        destroy_socket.simps sys_close_def Let_def log_ev_def touch_def mark_destroyed_def upd_sock_def)
  then have "clients ?st1 = (clients st)[c := ?x]" using n by simp
  then show ?thesis using a(3) ch e m ev
    by (simp add: handle_event_def close_fd_num_def get_handler_def)
qed


definition fcntl_succeeds :: "net_t \<Rightarrow> bool" where
  "fcntl_succeeds st \<longleftrightarrow> -1 \<notin> set (fcntl_r (sys st))"

text \<open>What making and registering a socket leaves alone while the kernel obliges.\<close>

definition same_owners :: "net_t \<Rightarrow> net_t \<Rightarrow> bool" where
  "same_owners st st1 \<longleftrightarrow> clients st1 = clients st \<and> servers st1 = servers st \<and> objs st1 = objs st \<and>
     freed st1 = freed st \<and> next_sock st1 = next_sock st \<and> ctl_succeeds st1 \<and>
     (fcntl_succeeds st \<longrightarrow> fcntl_succeeds st1) \<and> accept_r (sys st1) = accept_r (sys st)"

lemma ctl_effect:
  assumes "ctl_succeeds st" "epoll_ctl op fd ev st = (st1, r)"
  shows "0 \<le> r \<and> same_owners st st1 \<and> m_fd_map st1 = m_fd_map st"
proof -
  obtain rs where p: "pop_default 0 (ctl_r (sys st)) = (r, rs)"
    using assms(2) by (auto simp: epoll_ctl_def split: prod.splits)
  have "0 \<le> r" "set rs \<subseteq> set (ctl_r (sys st))"
    using pop_default_set[OF p] assms(1) by (auto simp: ctl_succeeds_def)
  moreover have "st1 = log_ev (Sys_ctl op fd ev r) (st\<lparr>sys := (sys st)\<lparr>ctl_r := rs\<rparr>\<rparr>)"
    using assms(2) p by (simp add: epoll_ctl_def)
  ultimately show ?thesis using assms(1)
    by (auto simp: same_owners_def log_ev_def ctl_succeeds_def fcntl_succeeds_def)
qed

lemma add_fd_effect:
  assumes "ctl_succeeds st" "0 < get_fd a st" "m_fd_map st (get_fd a st) = None"
  shows "same_owners st (fst (add_fd (Some a) ev st)) \<and>
    m_fd_map (fst (add_fd (Some a) ev st)) = (m_fd_map st)(get_fd a st := Some a)"
proof -
  let ?s0 = "st\<lparr>m_fd_map := (m_fd_map st)(get_fd a st := Some a)\<rparr>"
  obtain s1 r where c: "epoll_ctl EPOLL_CTL_ADD (get_fd a st) ev ?s0 = (s1, r)" by (metis surj_pair)
  have "ctl_succeeds ?s0" using assms(1) by (simp add: ctl_succeeds_def)
  from ctl_effect[OF this c] assms(2,3) c show ?thesis
    by (auto simp: add_fd_def same_owners_def fcntl_succeeds_def)
qed

lemma nonblocking_effect:
  assumes "fcntl_succeeds st"
  shows "\<exists>rs. make_socket_non_blocking fd st = (st\<lparr>sys := (sys st)\<lparr>fcntl_r := rs\<rparr>\<rparr>, 0) \<and> set rs \<subseteq> set (fcntl_r (sys st))"
proof -
  obtain f rs where p: "pop_default 0 (fcntl_r (sys st)) = (f, rs)" by (metis surj_pair)
  obtain g rs2 where q: "pop_default 0 rs = (g, rs2)" by (metis surj_pair)
  have "f \<noteq> -1" "g \<noteq> -1" "set rs2 \<subseteq> set (fcntl_r (sys st))"
    using pop_default_set[OF p] pop_default_set[OF q] assms by (auto simp: fcntl_succeeds_def)
  then show ?thesis using p q by (auto simp: make_socket_non_blocking_def)
qed

lemma new_socket_fd_effect:
  assumes "ctl_succeeds st" "fcntl_succeeds st" "0 < fd" "m_fd_map st fd = None"
  defines "a \<equiv> next_sock st"
  shows "\<exists>st1. new_socket_fd fd sink protocol_tcp st = Some (st1, a) \<and> m_fd_map st1 = (m_fd_map st)(fd := Some a) \<and>
    m_fd (objs st1 a) = fd \<and> m_sink (objs st1 a) = sink \<and> (\<forall>b. b \<noteq> a \<longrightarrow> objs st1 b = objs st b) \<and>
    clients st1 = clients st \<and> servers st1 = servers st \<and> next_sock st1 = Suc a \<and> ctl_succeeds st1 \<and>
    fcntl_succeeds st1 \<and> accept_r (sys st1) = accept_r (sys st)"
proof -
  let ?k = "default_socket\<lparr>m_protocol := protocol_tcp, m_fd := fd, m_sink := sink\<rparr>"
  let ?s0 = "st\<lparr>next_sock := Suc a, objs := (objs st)(a := ?k)\<rparr>"
  have "fcntl_succeeds ?s0" using assms(2) by (simp add: fcntl_succeeds_def)
  from nonblocking_effect[OF this] obtain rs where
    n: "make_socket_non_blocking fd ?s0 = (?s0\<lparr>sys := (sys st)\<lparr>fcntl_r := rs\<rparr>\<rparr>, 0)" "set rs \<subseteq> set (fcntl_r (sys st))"
    by fastforce
  let ?s1 = "?s0\<lparr>sys := (sys st)\<lparr>fcntl_r := rs\<rparr>\<rparr>"
  have s1: "ctl_succeeds ?s1" "fcntl_succeeds ?s1" "get_fd a ?s1 = fd" "m_fd_map ?s1 = m_fd_map st"
    using assms(1,2) n(2) by (auto simp: ctl_succeeds_def fcntl_succeeds_def get_fd_def)
  have c: "new_socket_fd fd sink protocol_tcp st = Some (fst (add_fd (Some a) (EPOLLIN OR EPOLLET) ?s1), a)"
    using assms(3) n(1) by (simp add: new_socket_fd_def alloc_socket_def after_create_def a_def[symmetric] get_fd_def)
  note e = add_fd_effect[of ?s1 a "EPOLLIN OR EPOLLET", unfolded s1(3,4), OF s1(1) assms(3,4)]
  show ?thesis using c e s1 assms(3) by (auto simp: same_owners_def)
qed

lemma peer_info_frame:
  "m_fd_map (update_peer_info a st) = m_fd_map st" "next_sock (update_peer_info a st) = next_sock st"
  "ctl_succeeds (update_peer_info a st) = ctl_succeeds st" "fcntl_succeeds (update_peer_info a st) = fcntl_succeeds st"
  "accept_r (sys (update_peer_info a st)) = accept_r (sys st)"
  by (simp_all add: update_peer_info_def upd_sock_def ctl_succeeds_def fcntl_succeeds_def Let_def split: prod.splits option.splits)

text \<open>A listener accepts every pending connection, in order, until the kernel has none: each becomes a
  new connection of the server, and the poller's map leads from its descriptor to its socket.\<close>

theorem accept_all:
  assumes "s < length (servers st)" "ctl_succeeds st" "fcntl_succeeds st"
    and "\<forall>fd \<in> set fds. 0 < fd \<and> m_fd_map st fd = None" "distinct fds" "r \<le> 0"
  shows "\<exists>st1. accept_loop (fds @ [r]) s st = Some st1 \<and>
    m_connections (servers st1 ! s) = m_connections (servers st ! s) @ [next_sock st ..< next_sock st + length fds] \<and>
    (\<forall>i < length fds. m_fd_map st1 (fds ! i) = Some (next_sock st + i)) \<and>
    (\<forall>fd. fd \<notin> set fds \<longrightarrow> m_fd_map st1 fd = m_fd_map st fd)"
  using assms
proof (induction fds arbitrary: st)
  case (Cons fd fds)
  let ?a = "next_sock st"
  obtain st1 where n: "new_socket_fd fd (Server_sink s) protocol_tcp st = Some (st1, ?a)"
    and e: "m_fd_map st1 = (m_fd_map st)(fd := Some ?a)" "servers st1 = servers st" "next_sock st1 = Suc ?a"
      "ctl_succeeds st1" "fcntl_succeeds st1"
    using new_socket_fd_effect[OF Cons.prems(2,3), of fd "Server_sink s"] Cons.prems(4) by auto
  let ?s2 = "upd_server s (\<lambda>x. x\<lparr>m_connections := m_connections x @ [?a]\<rparr>) (update_peer_info ?a st1)"
  have s2: "m_fd_map ?s2 = (m_fd_map st)(fd := Some ?a)" "next_sock ?s2 = Suc ?a"
    "m_connections (servers ?s2 ! s) = m_connections (servers st ! s) @ [?a]" "s < length (servers ?s2)"
    "ctl_succeeds ?s2" "fcntl_succeeds ?s2"
    using e Cons.prems(1) by (simp_all add: upd_server_def peer_info_frame)
      (simp_all add: ctl_succeeds_def fcntl_succeeds_def peer_info_frame[unfolded ctl_succeeds_def fcntl_succeeds_def])
  have "\<exists>st3. accept_loop (fds @ [r]) s ?s2 = Some st3 \<and>
    m_connections (servers st3 ! s) = m_connections (servers ?s2 ! s) @ [next_sock ?s2 ..< next_sock ?s2 + length fds] \<and>
    (\<forall>i < length fds. m_fd_map st3 (fds ! i) = Some (next_sock ?s2 + i)) \<and>
    (\<forall>g. g \<notin> set fds \<longrightarrow> m_fd_map st3 g = m_fd_map ?s2 g)"
    using Cons.prems(4-6) s2 by (intro Cons.IH) auto
  then obtain st3 where st3: "accept_loop (fds @ [r]) s ?s2 = Some st3"
    "m_connections (servers st3 ! s) = m_connections (servers st ! s) @ ?a # [Suc ?a ..< Suc ?a + length fds]"
    "\<And>i. i < length fds \<Longrightarrow> m_fd_map st3 (fds ! i) = Some (Suc ?a + i)"
    "\<And>g. g \<notin> set fds \<Longrightarrow> m_fd_map st3 g = ((m_fd_map st)(fd := Some ?a)) g"
    by (auto simp: s2)
  have "m_fd_map st3 ((fd # fds) ! i) = Some (?a + i)" if "i < length (fd # fds)" for i
    using st3(3,4) Cons.prems(5) that by (cases i) auto
  moreover have "accept_loop ((fd # fds) @ [r]) s st = Some st3" using n st3(1) Cons.prems(4) by simp
  moreover have "?a # [Suc ?a ..< Suc ?a + length fds] = [?a ..< ?a + length (fd # fds)]" by (simp add: upt_rec)
  ultimately show ?case using st3 by (intro exI[of _ st3]) (auto simp del: upt_Suc)
qed simp


definition client_gone :: "nat \<Rightarrow> net_t \<Rightarrow> bool" where
  "client_gone c st \<longleftrightarrow> c < length (clients st) \<and> m_socket (clients st ! c) = None \<and>
     client_state (clients st ! c) = client_disconnected"

lemma gone_cong: "clients st1 = clients st \<Longrightarrow> client_gone c st1 = client_gone c st"
  by (simp add: client_gone_def)

lemma gone_frame [simp]:
  "client_gone c (fst (del_fd h st)) = client_gone c st" "client_gone c (touch a st) = client_gone c st"
  "client_gone c (sys_close a st) = client_gone c st" "client_gone c (mark_destroyed a st) = client_gone c st"
  "client_gone c (st\<lparr>servers := y\<rparr>) = client_gone c st"
  by (rule gone_cong; simp add: del_fd_def sys_close_def mark_destroyed_def upd_sock_def touch_def epoll_ctl_def log_ev_def
      Let_def split: option.splits prod.splits)+

lemma gone_other:
  "client_gone c st \<Longrightarrow> client_gone c (st\<lparr>clients := (clients st)[d := (clients st ! d)\<lparr>client_state := client_disconnected, m_socket := None\<rparr>]\<rparr>)"
  by (cases "d = c") (simp_all add: client_gone_def)

lemma gone_close:
  "client_gone c st \<Longrightarrow> client_gone c (close_fd a st)"
  "client_gone c st \<Longrightarrow> client_gone c (on_close a st)"
  "client_gone c st \<Longrightarrow> client_gone c (on_closed a st)"
  "client_gone c st \<Longrightarrow> client_gone c (destroy_socket a st)"
  by (induction a st and a st and a st and a st rule: close_fd_on_close_on_closed_destroy_socket.induct)
     (simp_all add: close_fd.simps on_close.simps on_closed.simps destroy_socket.simps gone_other
       split: option.splits sink_t.splits)

lemma destroy_gone:
  assumes "m_sink (objs st b) = Client_sink c" "c < length (clients st)" "m_socket (clients st ! c) = Some a"
  shows "client_gone c (destroy_socket b st)"
proof -
  let ?s1 = "touch b (fst (del_fd (Some b) st))"
  have s: "clients ?s1 = clients st" "objs ?s1 = objs st"
    by (simp_all add: del_fd_def touch_def epoll_ctl_def log_ev_def Let_def split: prod.splits)
  let ?s2 = "?s1\<lparr>clients := (clients st)[c := (clients st ! c)\<lparr>client_state := client_disconnected, m_socket := None\<rparr>]\<rparr>"
  have "on_closed b ?s1 = destroy_socket a ?s2" using assms s by (simp add: on_closed.simps)
  moreover have "client_gone c ?s2" using assms by (simp add: client_gone_def)
  ultimately have "client_gone c (on_closed b ?s1)" using gone_close(4) by simp
  then show ?thesis by (simp add: destroy_socket.simps close_fd.simps on_close.simps)
qed

lemma new_socket_pos:
  "socket_r (sys st) = fd # rs \<Longrightarrow> 0 < fd \<Longrightarrow>
   new_socket protocol_tcp sink st = new_socket_fd fd sink protocol_tcp (st\<lparr>sys := (sys st)\<lparr>socket_r := rs\<rparr>\<rparr>)"
  by (simp add: new_socket_def new_socket_fd_def)

text \<open>C18: \<^verbatim>\<open>connect\<close> on a client that already has a socket crashes: replacing \<^verbatim>\<open>m_socket\<close> destroys the old
  socket, whose end makes \<^verbatim>\<open>on_closed\<close> drop the new one too, and the next statement dereferences the null
  pointer.\<close>

theorem reconnect_crashes:
  assumes c: "c < length (clients st)" "m_socket (clients st ! c) = Some b" "m_sink (objs st b) = Client_sink c"
    and b: "b < next_sock st" and k: "ctl_succeeds st" "fcntl_succeeds st" "socket_r (sys st) = fd # rs" "0 < fd"
      "m_fd_map st fd = None"
  shows "\<exists>st1. connect_begin c res err cur st = Some (st1, Conn_null) \<and> m_socket (clients st1 ! c) = None \<and>
    client_state (clients st1 ! c) = client_disconnected"
proof -
  let ?s0 = "st\<lparr>sys := (sys st)\<lparr>socket_r := rs\<rparr>\<rparr>"
  have "ctl_succeeds ?s0" "fcntl_succeeds ?s0" using k by (simp_all add: ctl_succeeds_def fcntl_succeeds_def)
  from new_socket_fd_effect[OF this k(4), of "Client_sink c"] k(5) obtain s1 where
    n: "new_socket protocol_tcp (Client_sink c) st = Some (s1, next_sock st)"
    and e: "\<forall>d. d \<noteq> next_sock st \<longrightarrow> objs s1 d = objs st d" "clients s1 = clients st"
    using new_socket_pos[OF k(3,4)] by auto
  let ?a = "next_sock st"
  let ?s2 = "upd_client c (\<lambda>x. x\<lparr>m_socket := Some ?a\<rparr>) s1"
  have "objs ?s2 b = objs st b" using e(1) b by (simp add: upd_client_def)
  moreover have "clients ?s2 = (clients st)[c := (clients st ! c)\<lparr>m_socket := Some ?a\<rparr>]"
    using e(2) by (simp add: upd_client_def)
  ultimately have g: "client_gone c (destroy_socket b ?s2)"
    using c by (intro destroy_gone[of _ _ _ ?a]) simp_all
  have "assign_socket c ?a s1 = destroy_socket b ?s2" using c(2) e(2) by (simp add: assign_socket_def)
  then have "connect_begin c res err cur st = Some (destroy_socket b ?s2, Conn_null)"
    using n g by (simp add: connect_begin_def client_gone_def)
  then show ?thesis using g by (simp add: client_gone_def)
qed

section \<open>Blocks\<close>

definition block_ok :: "raw_data_block_t \<Rightarrow> bool" where
  "block_ok b \<longleftrightarrow> (m_buf b = Null \<and> m_len b = 0) \<or> (\<exists>bs. m_buf b = Live bs \<and> int (length bs) = m_len b \<and> bs \<noteq> [])"

text \<open>Copying a well-formed block copies its bytes, its length and its key, and moving hands them over;
  but assigning an empty block to one that owns an array leaves the deleted array in \<^verbatim>\<open>m_buf\<close>, and the
  destructor deletes it again.\<close>

theorem block_copies:
  assumes "block_ok b" "block_ok d"
  shows "copy_block b = b \<and> fst (move_block b) = b \<and> block_ok (snd (move_block b)) \<and>
    (if m_len b = 0 \<and> m_len d \<noteq> 0 then m_buf (assign_block d b) = Dangling \<and> \<not> delete_block (assign_block d b)
     else assign_block d b = b \<and> delete_block (assign_block d b))"
  using assms by (auto simp: block_ok_def copy_block_def move_block_def empty_block_def assign_block_def delete_block_def)


section \<open>The invariant of all reachable states\<close>


text \<open>A client that has connected: its engine has the thread with id 7 for the poller.\<close>

definition poll_engine :: engine_t where
  "poll_engine = upd_thread 3 (\<lambda>th. th\<lparr>m_std_thread_id := 7\<rparr>) (reader_engine\<lparr>m_epoll_thread := Some 3\<rparr>)"

definition kernel_of :: "int list \<Rightarrow> sys_t" where
  "kernel_of fds = \<lparr>socket_r = fds, fcntl_r = [], ctl_r = [], read_r = [], write_r = [], accept_r = [], name_r = []\<rparr>"

definition one_client :: "engine_t \<Rightarrow> net_t" where
  "one_client e = (net_init poll_engine)\<lparr>net_eng := e, clients := [new_raw_tcp_client ''h'' ''80'']\<rparr>"

lemma one_client_created:
  "\<exists>e q. raw_tcp_client_create ''h'' ''80'' 7 (net_init poll_engine) = Some (one_client e, Some q)"
  by (simp add: one_client_def raw_tcp_client_create_def net_init_def epoll_thread_id_def poll_engine_def upd_thread_def
      reader_engine_def engine_instance_def
      create_selectable_def register_to_engin_def register_select_obj_def get_thread_by_id_def NULL_THREAD_ID_def)

text \<open>The client has connected its socket, at address 2 with descriptor 5.\<close>

definition connected_net :: net_t where
  "connected_net = (net_init poll_engine)
     \<lparr>m_fd_map := (\<lambda>_. None)(5 := Some 2), next_sock := 3, sys := kernel_of [6],
      objs := (\<lambda>_. default_socket)(2 := default_socket\<lparr>m_protocol := protocol_tcp, m_fd := 5\<rparr>),
      clients := [(new_raw_tcp_client ''h'' ''80'')\<lparr>m_socket := Some 2, client_state := client_connected\<rparr>],
      net_log := [Sys_ctl EPOLL_CTL_ADD 5 0x80000001 0]\<rparr>"

lemma connect_once:
  "connect_begin 0 0 0 7 ((one_client e)\<lparr>sys := kernel_of [5, 6], net_eng := poll_engine\<rparr>) = Some (connected_net, Conn_ret 0)"
  by (simp add: connect_begin_def one_client_def kernel_of_def new_socket_def alloc_socket_def after_create_def
      make_socket_non_blocking_def get_fd_def default_socket_def add_fd_def epoll_ctl_def log_ev_def assign_socket_def
      connect_done_def update_peer_info_def upd_client_def net_init_def new_raw_tcp_client_def connected_net_def
      EPOLLIN_def EPOLLET_def fun_upd_def cong: if_cong)

lemma connected_net_reach: "net_reach poll_engine connected_net"
proof -
  obtain e q where c: "raw_tcp_client_create ''h'' ''80'' 7 (net_init poll_engine) = Some (one_client e, Some q)"
    using one_client_created by blast
  have 1: "net_reach poll_engine (one_client e)"
    by (rule net_reach.step[OF net_reach.init]) (rule net_step.client_create[OF c])
  have 2: "net_reach poll_engine ((one_client e)\<lparr>sys := kernel_of [5, 6], net_eng := poll_engine\<rparr>)"
    by (rule net_reach.step[OF 1]) (rule net_step.env)
  show ?thesis
    by (rule net_reach.step[OF 2], rule net_step.connect[OF _ connect_once]) (simp add: one_client_def)
qed

lemmas connected_defs = connected_net_def net_init_def default_socket_def new_raw_tcp_client_def


theorem close_owned_twice_witness:
  "Sys_close 5 \<in> set (net_log (close_fd 2 connected_net)) \<and> Freed_use 2 \<in> set (net_log (close_fd 2 connected_net))"
proof -
  have "endpoint_holds 2 connected_net" by (simp add: endpoint_holds_def connected_defs)
  from close_owned_twice [OF this] show ?thesis by (auto simp: connected_defs)
qed


text \<open>The same with a kernel that takes two bytes and then no more.\<close>

definition slow_kernel_net :: net_t where
  "slow_kernel_net = connected_net\<lparr>sys := (kernel_of [])\<lparr>write_r := [(-1, 4), (2, 0), (-1, 11)]\<rparr>\<rparr>"

lemma slow_kernel_ok: "2 \<notin> set (freed slow_kernel_net)" "ctl_succeeds slow_kernel_net"
  by (simp_all add: slow_kernel_net_def ctl_succeeds_def kernel_of_def connected_defs)

theorem socket_write_stream_witness:
  "stream 2 (fst (socket_write 2 (Some [7, 8, 9]) slow_kernel_net)) = [7, 8, 9]"
proof -
  obtain st1 n where w: "socket_write 2 (Some [7, 8, 9]) slow_kernel_net = (st1, n)" by (metis surj_pair)
  have "stream 2 slow_kernel_net = []" by (simp add: stream_def slow_kernel_net_def connected_defs)
  then show ?thesis using socket_write_stream [OF slow_kernel_ok w] w by simp
qed


definition chan_of_one :: "raw_data_block_t channel_t" where
  "chan_of_one = chan_create 1"

lemma chan_one:
  "chan_ok chan_of_one" "content chan_of_one = []" "m_waiting_read_que chan_of_one = []" "m_max_size chan_of_one = 1"
  using chan_create_ok[of 1, where 'a = raw_data_block_t] chan_create_chan_ok[of 1, where 'a = raw_data_block_t]
  unfolding chan_of_one_def[symmetric] by (simp_all add: chan_of_one_def chan_create_def)

text \<open>A server with a connection at address 2 and a channel for one block.\<close>

definition served_net :: net_t where
  "served_net = (net_init poll_engine)
     \<lparr>m_fd_map := (\<lambda>_. None)(5 := Some 2), next_sock := 3,
      sys := (kernel_of [])\<lparr>read_r := [Rd_data [7, 8], Rd_err 11]\<rparr>,
      objs := (\<lambda>_. default_socket)(2 := default_socket\<lparr>m_protocol := protocol_tcp, m_fd := 5, m_sink := Server_sink 0\<rparr>),
      servers := [(new_raw_tcp_server ''h'' ''80'')\<lparr>m_connections := [2], server_read_chan := chan_of_one\<rparr>]\<rparr>"

theorem read_loop_delivers_witness:
  "\<exists>st1. read_loop 2 0 7 served_net = Some st1 \<and> content (server_read_chan (servers st1 ! 0)) = [data_block 2 [7, 8]]"
  using read_loop_delivers [of served_net 2 0 "[[7, 8]]" 11 0 7] chan_one
  by (auto simp: served_net_def net_init_def default_socket_def kernel_of_def READ_BUF_def)

theorem accept_all_witness:
  "\<exists>st1. accept_loop ([8, 9] @ [-1]) 0 served_net = Some st1 \<and> m_connections (servers st1 ! 0) = [2, 3, 4]"
  using accept_all [of 0 served_net "[8, 9]" "-1"]
  by (auto simp: served_net_def net_init_def kernel_of_def ctl_succeeds_def fcntl_succeeds_def upt_rec)

definition flooded_net :: net_t where
  "flooded_net = served_net\<lparr>servers := [(servers served_net ! 0)\<lparr>server_read_chan :=
     fst (fst (chan_write None True 0 7 (chan_of_one, \<lambda>_. None, poll_engine)))\<rparr>]\<rparr>"

theorem slow_reader_deadlocks_witness:
  "\<exists>st1 st2. server_on_new_data 0 2 [7] 0 7 flooded_net = Some st1 \<and> server_read 0 9 0 7 st1 = (st2, Nested_spin)"
proof -
  obtain ch where ch: "chan_write None True 0 7 (chan_of_one, \<lambda>_. None, poll_engine) =
      ((ch, \<lambda>_. None, poll_engine), Returned True)" "chan_ok ch" "content ch = [None]" "m_max_size ch = 1"
    using chan_write_room[OF chan_one(1,3), of None True 0 7 "\<lambda>_. None" poll_engine] chan_one by auto
  then show ?thesis using slow_reader_deadlocks [of 0 flooded_net 2 "[7]" 0 7 9 0 7]
    by (auto simp: flooded_net_def served_net_def net_init_def)
qed

theorem refused_connection_unreported_witness:
  "\<exists>st1. handle_event 5 8 0 7 connected_net = Some st1 \<and> m_socket (clients st1 ! 0) = None"
proof -
  have h: "endpoint_holds 2 connected_net" "m_sink (objs connected_net 2) = Client_sink 0" "m_fd_map connected_net 5 = Some 2"
    by (simp_all add: endpoint_holds_def connected_defs)
  from refused_connection_unreported [OF h, of 8 0 7] show ?thesis by (auto simp: EPOLLERR_def)
qed

theorem reconnect_crashes_witness:
  "\<exists>st1. connect_begin 0 0 0 7 connected_net = Some (st1, Conn_null)"
  using reconnect_crashes [of 0 connected_net 2 6 "[]" 0 0 7]
  by (auto simp: connected_defs kernel_of_def ctl_succeeds_def fcntl_succeeds_def)

theorem block_copies_witness:
  "\<not> delete_block (assign_block (new_block (Some [7]) 1 None) empty_block)"
proof -
  have "block_ok empty_block" "block_ok (new_block (Some [7]) 1 None)"
    by (simp_all add: block_ok_def empty_block_def new_block_def)
  from block_copies [OF this] show ?thesis by (simp add: empty_block_def new_block_def)
qed

end
