(* ===== verification/Sds.thy ===== *)
theory Sds
  imports Main
begin

text \<open>
  The dynamic strings of the vendored Redis client (vendors/hiredis/sds.h and sds.c): the header with
  its five sizes, growth, and the operations that write into the buffer.

  \<^item> \<open>stype\<close>, \<open>hlen\<close> and \<open>halloc\<close> are the header; a length is stored modulo the width of its field.
    \<open>sbuf\<close> is the memory after the header, one byte longer than the allocated size.
  \<^item> A write past the end of \<open>sbuf\<close> is the error \<open>Overflow\<close>, an assertion that fails \<open>Abort\<close>, a null result
    for want of memory \<open>Oom\<close>.
  \<^item> The allocator is an argument: \<open>None\<close> when it has no memory, \<open>Some g\<close> when fresh memory is
    filled with the byte \<open>g\<close>.
  \<^item> Sizes are natural numbers; the sums the code forms in a \<^verbatim>\<open>size_t\<close> are reduced modulo \<open>2 ^ 64\<close>.
\<close>

section \<open>Headers\<close>

datatype sds_type = SDS_TYPE_5 | SDS_TYPE_8 | SDS_TYPE_16 | SDS_TYPE_32 | SDS_TYPE_64

record sds =
  stype :: sds_type
  hlen :: nat
  halloc :: nat
  sbuf :: "char list"

datatype sds_err = Oom | Overflow | Abort

type_synonym 'a res = "sds_err + 'a"

definition and_then :: "'a res \<Rightarrow> ('a \<Rightarrow> 'b res) \<Rightarrow> 'b res" where
  "and_then r f = (case r of Inl e \<Rightarrow> Inl e | Inr x \<Rightarrow> f x)"

fun type_bits :: "sds_type \<Rightarrow> nat" where
  "type_bits SDS_TYPE_5 = 5"
| "type_bits SDS_TYPE_8 = 8"
| "type_bits SDS_TYPE_16 = 16"
| "type_bits SDS_TYPE_32 = 32"
| "type_bits SDS_TYPE_64 = 64"

fun sdsHdrSize :: "sds_type \<Rightarrow> nat" where
  "sdsHdrSize SDS_TYPE_5 = 1"
| "sdsHdrSize SDS_TYPE_8 = 3"
| "sdsHdrSize SDS_TYPE_16 = 5"
| "sdsHdrSize SDS_TYPE_32 = 9"
| "sdsHdrSize SDS_TYPE_64 = 17"

definition sdsReqType :: "nat \<Rightarrow> sds_type" where
  "sdsReqType string_size =
     (if string_size < 32 then SDS_TYPE_5
      else if string_size < 0xff then SDS_TYPE_8
      else if string_size < 0xffff then SDS_TYPE_16
      else if string_size < 0xffffffff then SDS_TYPE_32
      else SDS_TYPE_64)"

definition SDS_MAX_PREALLOC :: nat where
  "SDS_MAX_PREALLOC = 1024 * 1024"

definition sdslen :: "sds \<Rightarrow> nat" where
  "sdslen s = hlen s"

definition sdsalloc :: "sds \<Rightarrow> nat" where
  "sdsalloc s = (if stype s = SDS_TYPE_5 then hlen s else halloc s)"

text \<open>The difference is computed without sign: in 32 bits for \<^verbatim>\<open>sdshdr32\<close>, as a \<^verbatim>\<open>size_t\<close> otherwise.\<close>

definition sdsavail :: "sds \<Rightarrow> nat" where
  "sdsavail s =
     (case stype s of
        SDS_TYPE_5 \<Rightarrow> 0
      | SDS_TYPE_32 \<Rightarrow> nat ((int (halloc s) - int (hlen s)) mod 2 ^ 32)
      | _ \<Rightarrow> nat ((int (halloc s) - int (hlen s)) mod 2 ^ 64))"

definition sdssetlen :: "nat \<Rightarrow> sds \<Rightarrow> sds" where
  "sdssetlen n s = s\<lparr>hlen := n mod 2 ^ type_bits (stype s)\<rparr>"

definition sdsinclen :: "nat \<Rightarrow> sds \<Rightarrow> sds" where
  "sdsinclen inc s = s\<lparr>hlen := (hlen s + inc) mod 2 ^ type_bits (stype s)\<rparr>"

definition sdssetalloc :: "nat \<Rightarrow> sds \<Rightarrow> sds" where
  "sdssetalloc n s = (if stype s = SDS_TYPE_5 then s else s\<lparr>halloc := n mod 2 ^ type_bits (stype s)\<rparr>)"

section \<open>Memory\<close>

text \<open>\<^verbatim>\<open>memcpy(s + i, xs, ...)\<close>\<close>

definition poke :: "nat \<Rightarrow> char list \<Rightarrow> sds \<Rightarrow> sds res" where
  "poke i xs s =
     (if i + length xs \<le> length (sbuf s)
      then Inr (s\<lparr>sbuf := take i (sbuf s) @ xs @ drop (i + length xs) (sbuf s)\<rparr>)
      else Inl Overflow)"

text \<open>\<^verbatim>\<open>s_realloc\<close> of the bytes after the header.\<close>

definition resize :: "char \<Rightarrow> nat \<Rightarrow> char list \<Rightarrow> char list" where
  "resize g n xs = take n xs @ replicate (n - length xs) g"

abbreviation NUL :: char where
  "NUL \<equiv> CHR 0x00"

text \<open>A C string as it is read: the bytes before the first zero.\<close>

definition cstr :: "char list \<Rightarrow> char list" where
  "cstr t = takeWhile (\<lambda>c. c \<noteq> NUL) t"

section \<open>Creation\<close>

definition new_type :: "nat \<Rightarrow> sds_type" where
  "new_type initlen =
     (if sdsReqType initlen = SDS_TYPE_5 \<and> initlen = 0 then SDS_TYPE_8 else sdsReqType initlen)"

definition sdsnewlen :: "char option \<Rightarrow> char list option \<Rightarrow> nat \<Rightarrow> sds res" where
  "sdsnewlen m init initlen =
     (let type = new_type initlen
      in case m of
           None \<Rightarrow> Inl Oom
         | Some g \<Rightarrow>
             (let buf = replicate (initlen + 1) (if init = None then NUL else g);
                  s = \<lparr>stype = type, hlen = initlen mod 2 ^ type_bits type,
                       halloc = (if type = SDS_TYPE_5 then 0 else initlen mod 2 ^ type_bits type), sbuf = buf\<rparr>
              in and_then
                   (case init of
                      None \<Rightarrow> Inr s
                    | Some t \<Rightarrow> if initlen = 0 then Inr s
                                else if initlen \<le> length t then poke 0 (take initlen t) s else Inl Overflow)
                   (poke initlen [NUL])))"

definition sdsempty :: "char option \<Rightarrow> sds res" where
  "sdsempty m = sdsnewlen m (Some []) 0"

definition sdsnew :: "char option \<Rightarrow> char list option \<Rightarrow> sds res" where
  "sdsnew m init =
     sdsnewlen m (map_option cstr init) (case init of None \<Rightarrow> 0 | Some t \<Rightarrow> length (cstr t))"

definition sdsdup :: "char option \<Rightarrow> sds \<Rightarrow> sds res" where
  "sdsdup m s = sdsnewlen m (Some (sbuf s)) (sdslen s)"

section \<open>Length and room\<close>

definition sdsupdatelen :: "sds \<Rightarrow> sds" where
  "sdsupdatelen s = sdssetlen (length (cstr (sbuf s))) s"

definition sdsclear :: "sds \<Rightarrow> sds res" where
  "sdsclear s = poke 0 [NUL] (sdssetlen 0 s)"

text \<open>The size and the header \<^verbatim>\<open>sdsMakeRoomFor\<close> chooses.\<close>

definition new_alloc :: "nat \<Rightarrow> nat \<Rightarrow> nat" where
  "new_alloc len addlen =
     (let newlen = (len + addlen) mod 2 ^ 64
      in (if newlen < SDS_MAX_PREALLOC then newlen * 2 else newlen + SDS_MAX_PREALLOC) mod 2 ^ 64)"

definition grow_type :: "nat \<Rightarrow> sds_type" where
  "grow_type newlen = (if sdsReqType newlen = SDS_TYPE_5 then SDS_TYPE_8 else sdsReqType newlen)"

definition sdsMakeRoomFor :: "char option \<Rightarrow> nat \<Rightarrow> sds \<Rightarrow> sds res" where
  "sdsMakeRoomFor m addlen s =
     (if addlen \<le> sdsavail s then Inr s
      else
        (let len = sdslen s; newlen = new_alloc len addlen; type = grow_type newlen
         in case m of
              None \<Rightarrow> Inl Oom
            | Some g \<Rightarrow>
                (if stype s = type
                 then Inr (sdssetalloc newlen (s\<lparr>sbuf := resize g (newlen + 1) (sbuf s)\<rparr>))
                 else
                   and_then (poke 0 (take (len + 1) (sbuf s))
                               (s\<lparr>stype := type, halloc := 0, sbuf := replicate (newlen + 1) g\<rparr>))
                     (\<lambda>s1. Inr (sdssetalloc newlen (sdssetlen len s1))))))"

definition sdsRemoveFreeSpace :: "char option \<Rightarrow> sds \<Rightarrow> sds res" where
  "sdsRemoveFreeSpace m s =
     (let len = sdslen s; type = sdsReqType len
      in case m of
           None \<Rightarrow> Inl Oom
         | Some g \<Rightarrow>
             (if stype s = type
              then Inr (sdssetalloc len (s\<lparr>sbuf := resize g (len + 1) (sbuf s)\<rparr>))
              else
                and_then (poke 0 (take (len + 1) (sbuf s))
                            (s\<lparr>stype := type, halloc := 0, sbuf := replicate (len + 1) g\<rparr>))
                  (\<lambda>s1. Inr (sdssetalloc len (sdssetlen len s1)))))"

definition sdsAllocSize :: "sds \<Rightarrow> nat" where
  "sdsAllocSize s = sdsHdrSize (stype s) + sdsalloc s + 1"

text \<open>\<^verbatim>\<open>sdsIncrLen\<close>, for an increment within the range of an \<^verbatim>\<open>int\<close>.\<close>

definition sdsIncrLen :: "int \<Rightarrow> sds \<Rightarrow> sds res" where
  "sdsIncrLen incr s =
     (let len = nat (int (hlen s) + incr) in
      if (if stype s = SDS_TYPE_5
          then incr > 0 \<and> int (hlen s) + incr < 32 \<or> incr < 0 \<and> int (hlen s) \<ge> - incr
          else incr \<ge> 0 \<and> int (halloc s) - int (hlen s) \<ge> incr \<or> incr < 0 \<and> int (hlen s) \<ge> - incr)
      then poke len [NUL] (sdssetlen len s)
      else Inl Abort)"

definition sdsgrowzero :: "char option \<Rightarrow> nat \<Rightarrow> sds \<Rightarrow> sds res" where
  "sdsgrowzero m len s =
     (let curlen = sdslen s in
      if len \<le> curlen then Inr s
      else and_then (sdsMakeRoomFor m (len - curlen) s)
             (\<lambda>s1. and_then (poke curlen (replicate (len - curlen + 1) NUL) s1) (\<lambda>s2. Inr (sdssetlen len s2))))"

section \<open>Appending and copying\<close>

text \<open>\<open>t\<close> has the \<^verbatim>\<open>len\<close> bytes to append.\<close>

definition sdscatlen :: "char option \<Rightarrow> char list \<Rightarrow> sds \<Rightarrow> sds res" where
  "sdscatlen m t s =
     (let curlen = sdslen s; len = length t
      in and_then (sdsMakeRoomFor m len s)
           (\<lambda>s1. and_then (poke curlen t s1) (\<lambda>s2. poke (curlen + len) [NUL] (sdssetlen (curlen + len) s2))))"

definition sdscat :: "char option \<Rightarrow> char list \<Rightarrow> sds \<Rightarrow> sds res" where
  "sdscat m t s = sdscatlen m (cstr t) s"

definition sdscatsds :: "char option \<Rightarrow> sds \<Rightarrow> sds \<Rightarrow> sds res" where
  "sdscatsds m t s = sdscatlen m (take (sdslen t) (sbuf t)) s"

definition sdscpylen :: "char option \<Rightarrow> char list \<Rightarrow> sds \<Rightarrow> sds res" where
  "sdscpylen m t s =
     (let len = length t in
      and_then (if sdsalloc s < len then sdsMakeRoomFor m (len - sdslen s) s else Inr s)
        (\<lambda>s1. and_then (poke 0 t s1) (\<lambda>s2. and_then (poke len [NUL] s2) (\<lambda>s3. Inr (sdssetlen len s3)))))"

definition sdscpy :: "char option \<Rightarrow> char list \<Rightarrow> sds \<Rightarrow> sds res" where
  "sdscpy m t s = sdscpylen m (cstr t) s"

section \<open>The invariant\<close>

text \<open>The string an sds stands for.\<close>

definition sds_str :: "sds \<Rightarrow> char list" where
  "sds_str s = take (hlen s) (sbuf s)"

definition sds_ok :: "sds \<Rightarrow> bool" where
  "sds_ok s \<longleftrightarrow> hlen s < 2 ^ type_bits (stype s) \<and>
     (if stype s = SDS_TYPE_5 then hlen s < length (sbuf s)
      else hlen s \<le> halloc s \<and> halloc s < 2 ^ type_bits (stype s) \<and> length (sbuf s) = halloc s + 1) \<and>
     sbuf s ! hlen s = NUL"

lemma and_then_simps [simp]: "and_then (Inr x) f = f x" "and_then (Inl e) f = Inl e"
  by (simp_all add: and_then_def)

lemma type_bits_bound: "type_bits t \<le> 64"
  by (cases t) auto

lemma sds_ok_len: "sds_ok s \<Longrightarrow> hlen s < length (sbuf s)"
  by (auto simp: sds_ok_def split: if_splits)

lemma length_sds_str: "sds_ok s \<Longrightarrow> length (sds_str s) = sdslen s"
  using sds_ok_len by (simp add: sds_str_def sdslen_def)

text \<open>A buffer that can hold \<open>n\<close> bytes and the zero after them, whatever its present length.\<close>

definition has_room :: "nat \<Rightarrow> sds \<Rightarrow> bool" where
  "has_room n s \<longleftrightarrow> n < length (sbuf s) \<and> n < 2 ^ type_bits (stype s) \<and>
     (stype s \<noteq> SDS_TYPE_5 \<longrightarrow> n \<le> halloc s \<and> halloc s < 2 ^ type_bits (stype s) \<and> length (sbuf s) = halloc s + 1)"

lemma sds_ok_iff: "sds_ok s \<longleftrightarrow> has_room (hlen s) s \<and> sbuf s ! hlen s = NUL"
  by (auto simp: sds_ok_def has_room_def)

lemma sdsavail_ok:
  assumes "has_room (hlen s) s"
  shows "sdsavail s = (if stype s = SDS_TYPE_5 then 0 else halloc s - hlen s)"
proof -
  have a: "hlen s \<le> halloc s" "halloc s < 2 ^ type_bits (stype s)" if "stype s \<noteq> SDS_TYPE_5"
    using assms that by (auto simp: has_room_def)
  show ?thesis
  proof (cases "stype s = SDS_TYPE_5")
    case False
    let ?d = "int (halloc s) - int (hlen s)"
    have d: "?d mod 2 ^ b = ?d" if "type_bits (stype s) \<le> b" for b
    proof -
      have "(2::nat) ^ type_bits (stype s) \<le> 2 ^ b" using that by (simp add: power_increasing)
      then have "halloc s < 2 ^ b" using a(2)[OF False] by linarith
      then have "int (halloc s) < 2 ^ b" by (metis of_nat_less_iff of_nat_numeral of_nat_power)
      then show ?thesis using a(1)[OF False] by (intro mod_pos_pos_trivial) linarith+
    qed
    have e: "nat ?d = halloc s - hlen s" using a(1)[OF False] by simp
    have f: "type_bits (stype s) \<le> 64" "type_bits (stype s) \<le> 32 \<or> stype s \<noteq> SDS_TYPE_32"
      by (rule type_bits_bound) (cases "stype s"; simp)
    show ?thesis using False d[of 64] d[of 32] e f
      by (cases "stype s") (simp_all add: sdsavail_def)
  qed (simp add: sdsavail_def)
qed

lemma req_type_fits: "n < 2 ^ 64 \<Longrightarrow> n < 2 ^ type_bits (sdsReqType n)"
  by (simp add: sdsReqType_def)


lemma has_room_self: "sds_ok s \<Longrightarrow> has_room (hlen s) s"
  by (simp add: sds_ok_iff)

lemma has_room_frame [simp]:
  "has_room n (s\<lparr>hlen := l\<rparr>) = has_room n s" "has_room n (sdssetlen l s) = has_room n s"
  by (simp_all add: has_room_def sdssetlen_def)

lemma poke_room:
  assumes "has_room n s" "i + length xs \<le> n + 1"
  shows "poke i xs s = Inr (s\<lparr>sbuf := take i (sbuf s) @ xs @ drop (i + length xs) (sbuf s)\<rparr>)"
    and "has_room n (s\<lparr>sbuf := take i (sbuf s) @ xs @ drop (i + length xs) (sbuf s)\<rparr>)"
  using assms by (auto simp: poke_def has_room_def)

text \<open>Setting the length and the zero makes a string of what the buffer begins with.\<close>

lemma finish_string:
  assumes "has_room n s" "take n (sbuf s) = xs" "sbuf s ! n = NUL"
  shows "sds_ok (sdssetlen n s) \<and> sds_str (sdssetlen n s) = xs \<and> sdslen (sdssetlen n s) = n"
  using assms by (auto simp: sds_ok_def has_room_def sdssetlen_def sds_str_def sdslen_def)

definition SDS_LIMIT :: nat where
  "SDS_LIMIT = 2 ^ 62"

lemma prealloc_bounds:
  "len + addlen < SDS_LIMIT \<Longrightarrow> len + addlen \<le> new_alloc len addlen \<and> new_alloc len addlen < 2 ^ 64"
  by (auto simp: new_alloc_def SDS_LIMIT_def SDS_MAX_PREALLOC_def Let_def)

lemma grow_type_fits:
  assumes "n < 2 ^ 64"
  shows "n < 2 ^ type_bits (grow_type n) \<and> grow_type n \<noteq> SDS_TYPE_5"
proof (cases "sdsReqType n = SDS_TYPE_5")
  case True
  then have "n < 32" by (simp add: sdsReqType_def split: if_splits)
  then show ?thesis using True by (simp add: grow_type_def)
qed (use req_type_fits[OF assms] in \<open>simp add: grow_type_def\<close>)

text \<open>Growing keeps the string and makes the room asked for; the header has the size for the new
  allocation.\<close>

lemma room_gen:
  assumes ok: "has_room (hlen s) s" and lim: "hlen s + addlen < SDS_LIMIT"
  shows "\<exists>s1. sdsMakeRoomFor (Some g) addlen s = Inr s1 \<and> hlen s1 = hlen s \<and>
    take (hlen s) (sbuf s1) = take (hlen s) (sbuf s) \<and> sbuf s1 ! hlen s = sbuf s ! hlen s \<and>
    has_room (hlen s + addlen) s1"
proof (cases "addlen \<le> sdsavail s")
  case True
  then have "has_room (hlen s + addlen) s"
    using ok by (auto simp: sdsavail_ok has_room_def split: if_splits)
  then show ?thesis using True ok by (auto simp: sdsMakeRoomFor_def)
next
  case False
  let ?n = "hlen s + addlen"
  define newlen where "newlen = new_alloc (hlen s) addlen"
  define ty where "ty = grow_type newlen"
  have b: "?n \<le> newlen" "newlen < 2 ^ 64" using prealloc_bounds[OF lim] by (simp_all add: newlen_def)
  have ty: "newlen < 2 ^ type_bits ty" "ty \<noteq> SDS_TYPE_5"
    using grow_type_fits[OF b(2)] by (simp_all add: ty_def)
  have len: "hlen s < length (sbuf s)" using ok by (simp add: has_room_def)
  have hl: "hlen s mod 2 ^ type_bits ty = hlen s" "hlen s \<le> newlen" using ty(1) b(1) by auto
  show ?thesis
  proof (cases "stype s = ty")
    case True
    have "length (sbuf s) \<le> newlen + 1"
      using False ok True ty(2) b(1) by (auto simp: sdsavail_ok has_room_def split: if_splits)
    then have r: "resize g (newlen + 1) (sbuf s) = sbuf s @ replicate (newlen + 1 - length (sbuf s)) g"
      by (simp add: resize_def)
    let ?s1 = "sdssetalloc newlen (s\<lparr>sbuf := resize g (newlen + 1) (sbuf s)\<rparr>)"
    have "sdsMakeRoomFor (Some g) addlen s = Inr ?s1"
      using False True by (simp add: sdsMakeRoomFor_def sdslen_def newlen_def[symmetric] ty_def[symmetric] Let_def)
    moreover have "length (resize g (newlen + 1) (sbuf s)) = newlen + 1" by (simp add: resize_def)
    ultimately show ?thesis using True ty b(1) hl len r
      by (intro exI[of _ ?s1]) (auto simp: has_room_def sdssetalloc_def nth_append)
  next
    case other: False
    let ?s1 = "s\<lparr>stype := ty, halloc := 0, sbuf := replicate (newlen + 1) g\<rparr>"
    let ?buf = "take (hlen s + 1) (sbuf s) @ drop (hlen s + 1) (replicate (newlen + 1) g)"
    let ?s2 = "sdssetalloc newlen (sdssetlen (hlen s) (?s1\<lparr>sbuf := ?buf\<rparr>))"
    have t: "length (take (hlen s + 1) (sbuf s)) = hlen s + 1" using len by simp
    have p: "poke 0 (take (hlen s + 1) (sbuf s)) ?s1 = Inr (?s1\<lparr>sbuf := ?buf\<rparr>)"
      using hl t by (simp add: poke_def del: drop_replicate replicate.simps length_take)
    have "sdsMakeRoomFor (Some g) addlen s = Inr ?s2"
      using False other p by (simp add: sdsMakeRoomFor_def sdslen_def newlen_def[symmetric] ty_def[symmetric] Let_def)
    moreover have "length ?buf = newlen + 1" "?buf ! hlen s = sbuf s ! hlen s" "take (hlen s) ?buf = take (hlen s) (sbuf s)"
      using hl len t by (auto simp: nth_append min_def)
    ultimately show ?thesis using ty b(1) hl
      by (intro exI[of _ ?s2]) (auto simp: has_room_def sdssetalloc_def sdssetlen_def)
  qed
qed

lemma has_room_mono: "has_room n s \<Longrightarrow> k \<le> n \<Longrightarrow> has_room k s"
  by (auto simp: has_room_def)

lemma room_spec:
  assumes ok: "sds_ok s" and lim: "hlen s + addlen < SDS_LIMIT"
  shows "\<exists>s1. sdsMakeRoomFor (Some g) addlen s = Inr s1 \<and> sds_ok s1 \<and> hlen s1 = hlen s \<and> sds_str s1 = sds_str s \<and>
    has_room (hlen s + addlen) s1"
proof -
  obtain s1 where r: "sdsMakeRoomFor (Some g) addlen s = Inr s1" "hlen s1 = hlen s"
      "take (hlen s) (sbuf s1) = take (hlen s) (sbuf s)" "sbuf s1 ! hlen s = sbuf s ! hlen s" "has_room (hlen s + addlen) s1"
    using room_gen[OF has_room_self[OF ok] lim, of g] by blast
  have "has_room (hlen s1) s1" using has_room_mono[OF r(5)] r(2) by simp
  then show ?thesis using r ok by (auto simp: sds_ok_iff sds_str_def)
qed

text \<open>Writing at an offset, then the length and the zero.\<close>

lemma poke_finish:
  assumes "has_room n s" "i + length xs = n" "i \<le> length (sbuf s)"
  shows "\<exists>s1. poke i xs s = Inr s1 \<and>
    (\<exists>s2. poke n [NUL] (sdssetlen n s1) = Inr s2 \<and> sds_ok s2 \<and> sds_str s2 = take i (sbuf s) @ xs \<and> has_room n s2) \<and>
    (\<exists>s2. poke n [NUL] s1 = Inr s2 \<and> sds_ok (sdssetlen n s2) \<and> sds_str (sdssetlen n s2) = take i (sbuf s) @ xs)"
proof -
  let ?s1 = "s\<lparr>sbuf := take i (sbuf s) @ xs @ drop (i + length xs) (sbuf s)\<rparr>"
  let ?b2 = "take n (sbuf ?s1) @ [NUL] @ drop (n + 1) (sbuf ?s1)"
  have n: "n < length (sbuf s)" using assms(1) by (simp add: has_room_def)
  have p: "poke i xs s = Inr ?s1" "has_room n ?s1" using poke_room[OF assms(1), of i xs] assms(2) by simp_all
  have l: "length (take i (sbuf s) @ xs) = n" using assms(2,3) n by simp
  have t: "take n (sbuf ?s1) = take i (sbuf s) @ xs" using l by (metis append.assoc append_eq_conv_conj sds.select_convs(4) sds.surjective sds.update_convs(4))
  have q: "poke n [NUL] ?s1 = Inr (?s1\<lparr>sbuf := ?b2\<rparr>)" "has_room n (?s1\<lparr>sbuf := ?b2\<rparr>)"
    using poke_room[OF p(2), of n "[NUL]"] by simp_all
  have q2: "poke n [NUL] (sdssetlen n ?s1) = Inr (sdssetlen n (?s1\<lparr>sbuf := ?b2\<rparr>))"
    using q(1) by (simp add: poke_def sdssetlen_def split: if_splits)
  have b: "take n ?b2 = take i (sbuf s) @ xs" "?b2 ! n = NUL"
    using l t by (auto simp: nth_append)
  from finish_string[OF q(2), of "take i (sbuf s) @ xs"] b
  have "sds_ok (sdssetlen n (?s1\<lparr>sbuf := ?b2\<rparr>))" "sds_str (sdssetlen n (?s1\<lparr>sbuf := ?b2\<rparr>)) = take i (sbuf s) @ xs"
    by simp_all
  then show ?thesis using p(1) q q2 by (auto simp del: append_assoc)
qed

section \<open>What the operations do to the string\<close>

lemma sdsnewlen_spec:
  assumes "n < SDS_LIMIT" "n \<le> length t"
  shows "\<exists>s. sdsnewlen (Some g) (Some t) n = Inr s \<and> sds_ok s \<and> sds_str s = take n t"
    and "\<exists>s. sdsnewlen (Some g) None n = Inr s \<and> sds_ok s \<and> sds_str s = replicate n NUL"
proof -
  define ty where "ty = new_type n"
  have n: "n < 2 ^ 64" using assms by (simp add: SDS_LIMIT_def)
  have ty: "n < 2 ^ type_bits ty" using req_type_fits[OF n] by (simp add: ty_def new_type_def)
  let ?s = "\<lambda>b. \<lparr>stype = ty, hlen = n mod 2 ^ type_bits ty, halloc = (if ty = SDS_TYPE_5 then 0 else n mod 2 ^ type_bits ty),
    sbuf = replicate (n + 1) b\<rparr>"
  have r: "has_room n (?s b)" for b using ty by (simp add: has_room_def)
  have e: "sdssetlen n s = s" if "hlen s = n" "stype s = ty" for s
    using ty that by (simp add: sdssetlen_def)
  have e1: "sdssetlen n (s\<lparr>sbuf := x\<rparr>) = s\<lparr>sbuf := x\<rparr>" if "hlen s = n" "stype s = ty" for s x
    using ty that by (simp add: sdssetlen_def)
  have hs: "hlen (?s b) = n" "stype (?s b) = ty" for b using ty by simp_all
  have pk: "poke i xs s = Inr s' \<Longrightarrow> hlen s' = hlen s \<and> stype s' = stype s" for i xs s s'
    by (auto simp: poke_def split: if_splits)
  obtain s1 s2 where a: "poke 0 (take n t) (?s g) = Inr s1" "poke n [NUL] s1 = Inr s2" "sds_ok (sdssetlen n s2)"
      "sds_str (sdssetlen n s2) = take n t"
    using poke_finish[OF r, of 0 "take n t" g] assms(2) by auto
  have "sdsnewlen (Some g) (Some t) n = and_then (if n = 0 then Inr (?s g) else poke 0 (take n t) (?s g)) (poke n [NUL])"
    using assms(2) by (simp add: sdsnewlen_def Let_def ty_def)
  moreover have "n = 0 \<Longrightarrow> s1 = ?s g" using a(1) by (simp add: poke_def)
  ultimately have "sdsnewlen (Some g) (Some t) n = Inr s2" using a(1,2) by (cases "n = 0") simp_all
  moreover have "sdssetlen n s2 = s2" using e[of s2] pk[OF a(1)] pk[OF a(2)] hs by simp
  ultimately show "\<exists>s. sdsnewlen (Some g) (Some t) n = Inr s \<and> sds_ok s \<and> sds_str s = take n t"
    using a(3,4) by auto
  obtain s1 s2 where b: "poke n [] (?s NUL) = Inr s1" "poke n [NUL] s1 = Inr s2" "sds_ok (sdssetlen n s2)"
      "sds_str (sdssetlen n s2) = take n (replicate (n + 1) NUL)"
    using poke_finish[OF r, of n "[]" NUL] by auto
  have "s1 = ?s NUL" using b(1) by (simp add: poke_def)
  then have "sdsnewlen (Some g) None n = Inr s2" using b(2) by (simp add: sdsnewlen_def Let_def ty_def[symmetric])
  moreover have "sdssetlen n s2 = s2" using e[of s2] pk[OF b(1)] pk[OF b(2)] hs by simp
  moreover have "take n (replicate (n + 1) NUL) = replicate n NUL" by (simp del: replicate.simps)
  ultimately show "\<exists>s. sdsnewlen (Some g) None n = Inr s \<and> sds_ok s \<and> sds_str s = replicate n NUL"
    using b(3,4) by (auto simp del: replicate.simps)
qed

lemma sdscatlen_spec:
  assumes "sds_ok s" "sdslen s + length t < SDS_LIMIT"
  shows "\<exists>s1. sdscatlen (Some g) t s = Inr s1 \<and> sds_ok s1 \<and> sds_str s1 = sds_str s @ t"
proof -
  obtain s1 where r: "sdsMakeRoomFor (Some g) (length t) s = Inr s1" "hlen s1 = hlen s" "sds_str s1 = sds_str s"
      "has_room (hlen s + length t) s1" "sds_ok s1"
    using room_spec[OF assms(1), of "length t" g] assms(2) by (auto simp: sdslen_def)
  have "hlen s \<le> length (sbuf s1)" using sds_ok_len[OF r(5)] r(2) by simp
  from poke_finish[OF r(4) _ this, of t] show ?thesis
    using r by (auto simp: sdscatlen_def sdslen_def sds_str_def)
qed

lemma sdsgrowzero_spec:
  assumes "sds_ok s" "len < SDS_LIMIT"
  shows "\<exists>s1. sdsgrowzero (Some g) len s = Inr s1 \<and> sds_ok s1 \<and>
    sds_str s1 = sds_str s @ replicate (len - sdslen s) NUL"
proof (cases "len \<le> sdslen s")
  case False
  obtain s1 where r: "sdsMakeRoomFor (Some g) (len - hlen s) s = Inr s1" "hlen s1 = hlen s" "sds_str s1 = sds_str s"
      "has_room len s1" "sds_ok s1"
    using room_spec[OF assms(1), of "len - hlen s" g] assms(2) False by (auto simp: sdslen_def)
  let ?z = "replicate (len - hlen s + 1) NUL"
  let ?s2 = "s1\<lparr>sbuf := take (hlen s) (sbuf s1) @ ?z @ drop (hlen s + length ?z) (sbuf s1)\<rparr>"
  have p: "poke (hlen s) ?z s1 = Inr ?s2" "has_room len ?s2"
    using poke_room[OF r(4), of "hlen s" ?z] False by (simp_all add: sdslen_def)
  have l: "length (take (hlen s) (sbuf s1)) = hlen s" using sds_ok_len[OF r(5)] r(2) by simp
  have "?z = replicate (len - hlen s) NUL @ [NUL]" by (simp add: replicate_append_same)
  then have "sbuf ?s2 = (take (hlen s) (sbuf s1) @ replicate (len - hlen s) NUL) @ NUL # drop (hlen s + length ?z) (sbuf s1)"
    by simp
  moreover have "length (take (hlen s) (sbuf s1) @ replicate (len - hlen s) NUL) = len"
    using l False by (simp add: sdslen_def)
  ultimately have "take len (sbuf ?s2) = take (hlen s) (sbuf s1) @ replicate (len - hlen s) NUL" "sbuf ?s2 ! len = NUL"
    by (metis append_eq_conv_conj, metis nth_append_length)
  from finish_string[OF p(2) this] show ?thesis
    using False p(1) r by (auto simp: sdsgrowzero_def sdslen_def sds_str_def Let_def)
qed (use assms in \<open>simp add: sdsgrowzero_def\<close>)

lemma sdscpylen_spec:
  assumes "sds_ok s" "sdslen s + length t < SDS_LIMIT"
  shows "\<exists>s1. sdscpylen (Some g) t s = Inr s1 \<and> sds_ok s1 \<and> sds_str s1 = t"
proof -
  have "\<exists>s1. (if sdsalloc s < length t then sdsMakeRoomFor (Some g) (length t - sdslen s) s else Inr s) = Inr s1 \<and>
      has_room (length t) s1"
  proof (cases "sdsalloc s < length t")
    case True
    then have "sdslen s < length t" using assms(1) by (auto simp: sdsalloc_def sdslen_def sds_ok_def split: if_splits)
    then show ?thesis using room_spec[OF assms(1), of "length t - sdslen s" g] assms(2) True by (auto simp: sdslen_def)
  next
    case False
    then have "has_room (length t) s"
      using assms(1) by (auto simp: sdsalloc_def sds_ok_def has_room_def split: if_splits)
    then show ?thesis using False by simp
  qed
  then obtain s1 where r: "(if sdsalloc s < length t then sdsMakeRoomFor (Some g) (length t - sdslen s) s else Inr s) = Inr s1"
      "has_room (length t) s1" by blast
  from poke_finish[OF r(2), of 0 t] show ?thesis using r(1) by (auto simp: sdscpylen_def Let_def)
qed

end
