(* ===== verification/Sds_Str.thy ===== *)
theory Sds_Str
  imports Sds "HOL-Library.Char_ord"
begin

text \<open>
  The string functions on dynamic strings (vendors/hiredis/sds.c): numbers, formatting, trimming, ranges,
  comparison, splitting and joining, and quoting. Results that are arrays of sds are lists of the strings
  they hold. Loops over a buffer are recursions over indexes as in the code; the specifications they are
  proved to meet are stated with the library's list functions.
\<close>

section \<open>Numbers\<close>

function digits_rev :: "nat \<Rightarrow> char list" where
  "digits_rev v = (if v div 10 = 0 then [char_of (48 + v mod 10)] else char_of (48 + v mod 10) # digits_rev (v div 10))"
  by pat_completeness auto
termination by (relation "measure id") auto

declare digits_rev.simps [simp del]

text \<open>The in-place reversal between the positions \<open>s\<close> and \<open>p\<close>.\<close>

function reverse_loop :: "nat \<Rightarrow> nat \<Rightarrow> 'a list \<Rightarrow> 'a list" where
  "reverse_loop s p xs = (if s < p then reverse_loop (s + 1) (p - 1) (xs[s := xs ! p, p := xs ! s]) else xs)"
  by pat_completeness auto
termination by (relation "measure (\<lambda>(s, p, xs). p - s)") auto

declare reverse_loop.simps [simp del]

definition sdsll2str :: "int \<Rightarrow> char list" where
  "sdsll2str value =
     (let ds = digits_rev (nat \<bar>value\<bar>);
          t = (if value < 0 then ds @ ''-'' else ds)
      in reverse_loop 0 (length t - 1) t)"

definition sdsull2str :: "nat \<Rightarrow> char list" where
  "sdsull2str v = (let t = digits_rev v in reverse_loop 0 (length t - 1) t)"

definition sdsfromlonglong :: "char option \<Rightarrow> int \<Rightarrow> sds res" where
  "sdsfromlonglong m value = (let buf = sdsll2str value in sdsnewlen m (Some buf) (length buf))"

section \<open>Formatting\<close>

text \<open>The loop of \<^verbatim>\<open>sdscatvprintf\<close> that doubles its buffer until the text of length \<open>n\<close> fits: the byte
  before the last is then still zero.\<close>

function printf_buflen :: "nat \<Rightarrow> nat \<Rightarrow> nat" where
  "printf_buflen n buflen = (if buflen = 0 \<or> n + 2 \<le> buflen then buflen else printf_buflen n (buflen * 2))"
  by pat_completeness auto
termination by (relation "measure (\<lambda>(n, b). n + 2 - b)") auto

declare printf_buflen.simps [simp del]

text \<open>\<open>txt\<close> is what the format and its arguments give, \<open>fmtlen\<close> the length of the format. A buffer longer
  than 1024 bytes is allocated.\<close>

definition sdscatvprintf :: "char option \<Rightarrow> nat \<Rightarrow> char list \<Rightarrow> sds \<Rightarrow> sds res" where
  "sdscatvprintf m fmtlen txt s =
     (let buflen = printf_buflen (length txt) (if fmtlen * 2 > 1024 then fmtlen * 2 else 1024)
      in if buflen > 1024 \<and> m = None then Inl Oom
         else sdscat m (take (buflen - 1) txt) s)"

definition sdscatprintf :: "char option \<Rightarrow> nat \<Rightarrow> char list \<Rightarrow> sds \<Rightarrow> sds res" where
  "sdscatprintf m fmtlen txt s = sdscatvprintf m fmtlen txt s"

text \<open>The arguments of \<^verbatim>\<open>sdscatfmt\<close>; an argument that does not fit its directive is undefined in C and an
  error here, as is reading past the end of the format.\<close>

datatype fmt_arg = Arg_str "char list" | Arg_sds sds | Arg_int int | Arg_uint nat

definition wrap32 :: "int \<Rightarrow> int" where
  "wrap32 n = (n + 2 ^ 31) mod 2 ^ 32 - 2 ^ 31"

text \<open>A write at the \<^verbatim>\<open>int\<close> position \<open>i\<close> of \<^verbatim>\<open>sdscatfmt\<close>.\<close>

definition put_at :: "int \<Rightarrow> char list \<Rightarrow> sds \<Rightarrow> (int \<times> sds) res" where
  "put_at i t s =
     (if i < 0 then Inl Overflow
      else and_then (poke (nat i) t s) (\<lambda>s1. Inr (wrap32 (i + int (length t)), sdsinclen (length t) s1)))"

definition put_text :: "char option \<Rightarrow> char list \<Rightarrow> int \<times> sds \<Rightarrow> (int \<times> sds) res" where
  "put_text m t = (\<lambda>(i, s).
     and_then (if sdsavail s < length t then sdsMakeRoomFor m (length t) s else Inr s) (put_at i t))"

definition put_char :: "char \<Rightarrow> int \<times> sds \<Rightarrow> (int \<times> sds) res" where
  "put_char c = (\<lambda>(i, s). put_at i [c] s)"

definition one_free :: "char option \<Rightarrow> int \<times> sds \<Rightarrow> (int \<times> sds) res" where
  "one_free m = (\<lambda>(i, s).
     if sdsavail s = 0 then and_then (sdsMakeRoomFor m 1 s) (\<lambda>s1. Inr (i, s1)) else Inr (i, s))"

fun catfmt_loop :: "char option \<Rightarrow> char list \<Rightarrow> fmt_arg list \<Rightarrow> int \<times> sds \<Rightarrow> (int \<times> sds) res" where
  "catfmt_loop m [] args s = Inr s"
| "catfmt_loop m (f # fs) args s =
     and_then (one_free m s)
       (\<lambda>s0.
          if f = CHR ''%''
          then (case fs of
                  [] \<Rightarrow> Inl Overflow
                | next # gs \<Rightarrow>
                    if next = CHR ''s'' then
                      (case args of Arg_str t # as \<Rightarrow> and_then (put_text m (cstr t) s0) (catfmt_loop m gs as) | _ \<Rightarrow> Inl Abort)
                    else if next = CHR ''S'' then
                      (case args of Arg_sds t # as \<Rightarrow> and_then (put_text m (sds_str t) s0) (catfmt_loop m gs as) | _ \<Rightarrow> Inl Abort)
                    else if next = CHR ''i'' \<or> next = CHR ''I'' then
                      (case args of Arg_int n # as \<Rightarrow> and_then (put_text m (sdsll2str n) s0) (catfmt_loop m gs as) | _ \<Rightarrow> Inl Abort)
                    else if next = CHR ''u'' \<or> next = CHR ''U'' then
                      (case args of Arg_uint n # as \<Rightarrow> and_then (put_text m (sdsull2str n) s0) (catfmt_loop m gs as) | _ \<Rightarrow> Inl Abort)
                    else and_then (put_char next s0) (catfmt_loop m gs args))
          else and_then (put_char f s0) (catfmt_loop m fs args))"

text \<open>\<open>fmt\<close> is a C string.\<close>

definition sdscatfmt :: "char option \<Rightarrow> char list \<Rightarrow> fmt_arg list \<Rightarrow> sds \<Rightarrow> sds res" where
  "sdscatfmt m fmt args s =
     and_then (catfmt_loop m (cstr fmt) args (wrap32 (int (sdslen s)), s))
       (\<lambda>(i, s1). if i < 0 then Inl Overflow else poke (nat i) [NUL] s1)"

section \<open>Trimming, ranges, case, comparison\<close>

text \<open>\<^verbatim>\<open>strchr\<close> also finds the zero at the end of the set.\<close>

definition in_cset :: "char list \<Rightarrow> char \<Rightarrow> bool" where
  "in_cset cset c = (c \<in> set (cstr cset) \<or> c = NUL)"

function trim_sp :: "(char \<Rightarrow> bool) \<Rightarrow> char list \<Rightarrow> nat \<Rightarrow> nat" where
  "trim_sp P xs sp = (if sp < length xs \<and> P (xs ! sp) then trim_sp P xs (sp + 1) else sp)"
  by pat_completeness auto
termination by (relation "measure (\<lambda>(P, xs, sp). length xs - sp)") auto

function trim_ep :: "(char \<Rightarrow> bool) \<Rightarrow> char list \<Rightarrow> nat \<Rightarrow> int \<Rightarrow> int" where
  "trim_ep P xs sp ep = (if ep > int sp \<and> P (xs ! nat ep) then trim_ep P xs sp (ep - 1) else ep)"
  by pat_completeness auto
termination by (relation "measure (\<lambda>(P, xs, sp, ep). nat (ep - int sp))") auto

declare trim_sp.simps [simp del] trim_ep.simps [simp del]

definition sdstrim :: "char list \<Rightarrow> sds \<Rightarrow> sds res" where
  "sdstrim cset s =
     (let xs = sds_str s;
          sp = trim_sp (in_cset cset) xs 0;
          ep = trim_ep (in_cset cset) xs sp (int (length xs) - 1);
          len = (if int sp > ep then 0 else nat (ep - int sp + 1))
      in and_then (if sp \<noteq> 0 then poke 0 (take len (drop sp (sbuf s))) s else Inr s)
           (\<lambda>s1. and_then (poke len [NUL] s1) (\<lambda>s2. Inr (sdssetlen len s2))))"

text \<open>The bounds \<^verbatim>\<open>sdsrange\<close> computes from its \<^verbatim>\<open>int\<close> arguments: the start and the new length.\<close>

definition range_bounds :: "nat \<Rightarrow> int \<Rightarrow> int \<Rightarrow> nat \<times> nat" where
  "range_bounds len start stop =
     (let start1 = (if start < 0 then max 0 (wrap32 (int len + start)) else start);
          stop1 = (if stop < 0 then max 0 (wrap32 (int len + stop)) else stop);
          newlen = (if start1 > stop1 then 0 else stop1 - start1 + 1)
      in if newlen \<noteq> 0
         then (if start1 \<ge> wrap32 (int len) then (nat start1, 0)
               else if stop1 \<ge> wrap32 (int len)
               then (let stop2 = wrap32 (int len - 1)
                     in (nat start1, if start1 > stop2 then 0 else nat (stop2 - start1 + 1)))
               else (nat start1, nat newlen))
         else (0, 0))"

definition sdsrange :: "int \<Rightarrow> int \<Rightarrow> sds \<Rightarrow> sds res" where
  "sdsrange start stop s =
     (if sdslen s = 0 then Inr s
      else
        (let (start1, newlen) = range_bounds (sdslen s) start stop
         in and_then (if start1 \<noteq> 0 \<and> newlen \<noteq> 0 then poke 0 (take newlen (drop start1 (sbuf s))) s else Inr s)
              (\<lambda>s1. and_then (poke newlen [NUL] s1) (\<lambda>s2. Inr (sdssetlen newlen s2)))))"

definition tolower :: "char \<Rightarrow> char" where
  "tolower c = (let n = of_char c :: nat in if 65 \<le> n \<and> n \<le> 90 then char_of (n + 32) else c)"

definition toupper :: "char \<Rightarrow> char" where
  "toupper c = (let n = of_char c :: nat in if 97 \<le> n \<and> n \<le> 122 then char_of (n - 32) else c)"

definition sdstolower :: "sds \<Rightarrow> sds" where
  "sdstolower s = s\<lparr>sbuf := map tolower (take (sdslen s) (sbuf s)) @ drop (sdslen s) (sbuf s)\<rparr>"

definition sdstoupper :: "sds \<Rightarrow> sds" where
  "sdstoupper s = s\<lparr>sbuf := map toupper (take (sdslen s) (sbuf s)) @ drop (sdslen s) (sbuf s)\<rparr>"

text \<open>The sign of \<^verbatim>\<open>memcmp\<close> on bytes without sign.\<close>

fun memcmp :: "char list \<Rightarrow> char list \<Rightarrow> int" where
  "memcmp (x # xs) (y # ys) = (if x = y then memcmp xs ys else if (of_char x :: nat) < of_char y then -1 else 1)"
| "memcmp _ _ = 0"

definition sdscmp :: "sds \<Rightarrow> sds \<Rightarrow> int" where
  "sdscmp s1 s2 =
     (let l1 = sdslen s1; l2 = sdslen s2; minlen = (if l1 < l2 then l1 else l2);
          cmp = memcmp (take minlen (sbuf s1)) (take minlen (sbuf s2))
      in if cmp = 0 then wrap32 (int l1 - int l2) else cmp)"

section \<open>Splitting and joining\<close>

function split_loop :: "char list \<Rightarrow> char list \<Rightarrow> nat \<Rightarrow> nat \<Rightarrow> char list list \<Rightarrow> char list list" where
  "split_loop s sep j start tokens =
     (if sep \<noteq> [] \<and> int j < int (length s) - (int (length sep) - 1)
      then (if take (length sep) (drop j s) = sep
            then split_loop s sep (j + length sep) (j + length sep) (tokens @ [take (j - start) (drop start s)])
            else split_loop s sep (j + 1) start tokens)
      else tokens @ [drop start s])"
  by pat_completeness auto
termination by (relation "measure (\<lambda>(s, sep, j, start, tokens). length s - j)") (auto simp: length_greater_0_conv[symmetric] simp del: length_greater_0_conv)

declare split_loop.simps [simp del]

definition sdssplitlen :: "char option \<Rightarrow> char list \<Rightarrow> char list \<Rightarrow> char list list option" where
  "sdssplitlen m s sep =
     (if length sep < 1 then None
      else if m = None then None
      else if s = [] then Some []
      else Some (split_loop s sep 0 0 []))"

fun join_loop :: "char option \<Rightarrow> char list list \<Rightarrow> char list \<Rightarrow> sds \<Rightarrow> sds res" where
  "join_loop m [] sep join = Inr join"
| "join_loop m (a # as) sep join =
     and_then (sdscatlen m a join)
       (\<lambda>j. if as \<noteq> [] then and_then (sdscatlen m sep j) (join_loop m as sep) else join_loop m as sep j)"

definition sdsjoin :: "char option \<Rightarrow> char list list \<Rightarrow> char list \<Rightarrow> sds res" where
  "sdsjoin m argv sep = and_then (sdsempty m) (join_loop m (map cstr argv) (cstr sep))"

definition sdsjoinsds :: "char option \<Rightarrow> sds list \<Rightarrow> char list \<Rightarrow> sds res" where
  "sdsjoinsds m argv sep = and_then (sdsempty m) (join_loop m (map sds_str argv) sep)"

fun map_char :: "char list \<Rightarrow> char list \<Rightarrow> char \<Rightarrow> char" where
  "map_char (f # fs) (t # ts) c = (if c = f then t else map_char fs ts c)"
| "map_char _ _ c = c"

definition sdsmapchars :: "char list \<Rightarrow> char list \<Rightarrow> nat \<Rightarrow> sds \<Rightarrow> sds" where
  "sdsmapchars from tto setlen s =
     s\<lparr>sbuf := map (map_char (take setlen from) (take setlen tto)) (take (sdslen s) (sbuf s)) @ drop (sdslen s) (sbuf s)\<rparr>"

section \<open>Quoting\<close>

definition isprint :: "char \<Rightarrow> bool" where
  "isprint c = (let n = of_char c :: nat in 32 \<le> n \<and> n \<le> 126)"

definition isspace :: "char \<Rightarrow> bool" where
  "isspace c = (let n = of_char c :: nat in n = 32 \<or> 9 \<le> n \<and> n \<le> 13)"

definition hex_char :: "nat \<Rightarrow> char" where
  "hex_char n = (if n < 10 then char_of (48 + n) else char_of (87 + n))"

text \<open>What the loop body of \<^verbatim>\<open>sdscatrepr\<close> appends for a byte.\<close>

definition repr_char :: "char \<Rightarrow> char list" where
  "repr_char c =
     (if c = CHR 0x5C \<or> c = CHR 0x22 then [CHR 0x5C, c]
      else if c = CHR 0x0A then [CHR 0x5C, CHR ''n'']
      else if c = CHR 0x0D then [CHR 0x5C, CHR ''r'']
      else if c = CHR 0x09 then [CHR 0x5C, CHR ''t'']
      else if c = CHR 0x07 then [CHR 0x5C, CHR ''a'']
      else if c = CHR 0x08 then [CHR 0x5C, CHR ''b'']
      else if isprint c then [c]
      else [CHR 0x5C, CHR ''x'', hex_char (of_char c div 16), hex_char (of_char c mod 16)])"

text \<open>The body of the loop; the lengths are those of its formats.\<close>

definition repr_put :: "char option \<Rightarrow> char \<Rightarrow> sds \<Rightarrow> sds res" where
  "repr_put m c s =
     (if c = CHR 0x5C \<or> c = CHR 0x22 then sdscatprintf m 3 (repr_char c) s
      else if c \<in> {CHR 0x0A, CHR 0x0D, CHR 0x09, CHR 0x07, CHR 0x08} then sdscatlen m (repr_char c) s
      else if isprint c then sdscatprintf m 2 (repr_char c) s
      else sdscatprintf m 6 (repr_char c) s)"

fun repr_loop :: "char option \<Rightarrow> char list \<Rightarrow> sds \<Rightarrow> sds res" where
  "repr_loop m [] s = Inr s"
| "repr_loop m (c # cs) s = and_then (repr_put m c s) (repr_loop m cs)"

definition sdscatrepr :: "char option \<Rightarrow> char list \<Rightarrow> sds \<Rightarrow> sds res" where
  "sdscatrepr m p s =
     and_then (sdscatlen m [CHR 0x22] s) (\<lambda>s1. and_then (repr_loop m p s1) (sdscatlen m [CHR 0x22]))"

definition is_hex_digit :: "char \<Rightarrow> bool" where
  "is_hex_digit c =
     (let n = of_char c :: nat in 48 \<le> n \<and> n \<le> 57 \<or> 97 \<le> n \<and> n \<le> 102 \<or> 65 \<le> n \<and> n \<le> 70)"

definition hex_digit_to_int :: "char \<Rightarrow> nat" where
  "hex_digit_to_int c =
     (let n = of_char c :: nat in
      if 48 \<le> n \<and> n \<le> 57 then n - 48
      else if 97 \<le> n \<and> n \<le> 102 then n - 87
      else if 65 \<le> n \<and> n \<le> 70 then n - 55
      else 0)"

definition unescape :: "char \<Rightarrow> char" where
  "unescape c =
     (if c = CHR ''n'' then CHR 0x0A
      else if c = CHR ''r'' then CHR 0x0D
      else if c = CHR ''t'' then CHR 0x09
      else if c = CHR ''b'' then CHR 0x08
      else if c = CHR ''a'' then CHR 0x07
      else c)"

datatype quote_mode = Plain | Dquote | Squote

text \<open>A hexadecimal escape after a backslash: its byte and what follows.\<close>

definition hex_escape :: "char list \<Rightarrow> (char \<times> char list) option" where
  "hex_escape r =
     (case r of
        x # h1 # h2 # r2 \<Rightarrow>
          (if x = CHR ''x'' \<and> is_hex_digit h1 \<and> is_hex_digit h2
           then Some (char_of (hex_digit_to_int h1 * 16 + hex_digit_to_int h2), r2) else None)
      | _ \<Rightarrow> None)"

lemma hex_escape_shorter: "hex_escape r = Some (c, r2) \<Longrightarrow> length r2 < length r"
  by (auto simp: hex_escape_def split: list.splits if_splits)

text \<open>The inner loop of \<^verbatim>\<open>sdssplitargs\<close>: the token and the rest of the line; \<open>None\<close> is the jump to the
  error exit.\<close>

function get_token :: "quote_mode \<Rightarrow> char list \<Rightarrow> char list \<Rightarrow> (char list \<times> char list) option" where
  "get_token Dquote [] cur = None"
| "get_token Dquote (c # r) cur =
     (if c = CHR 0x5C \<and> hex_escape r \<noteq> None
      then (case hex_escape r of Some (b, r2) \<Rightarrow> get_token Dquote r2 (cur @ [b]) | None \<Rightarrow> None)
      else if c = CHR 0x5C \<and> r \<noteq> [] then get_token Dquote (tl r) (cur @ [unescape (hd r)])
      else if c = CHR 0x22 then (if r \<noteq> [] \<and> \<not> isspace (hd r) then None else Some (cur, r))
      else get_token Dquote r (cur @ [c]))"
| "get_token Squote [] cur = None"
| "get_token Squote (c # r) cur =
     (if c = CHR 0x5C \<and> r \<noteq> [] \<and> hd r = CHR 0x27 then get_token Squote (tl r) (cur @ [CHR 0x27])
      else if c = CHR 0x27 then (if r \<noteq> [] \<and> \<not> isspace (hd r) then None else Some (cur, r))
      else get_token Squote r (cur @ [c]))"
| "get_token Plain [] cur = Some (cur, [])"
| "get_token Plain (c # r) cur =
     (if c = CHR 0x20 \<or> c = CHR 0x0A \<or> c = CHR 0x0D \<or> c = CHR 0x09 then Some (cur, r)
      else if c = CHR 0x22 then get_token Dquote r cur
      else if c = CHR 0x27 then get_token Squote r cur
      else get_token Plain r (cur @ [c]))"
  by pat_completeness auto
termination
  by (relation "measure (\<lambda>(q, p, cur). length p)") (auto dest: hex_escape_shorter simp: length_greater_0_conv[symmetric] simp del: length_greater_0_conv)

lemma get_token_rest:
  "get_token q p cur = Some (t, rest) \<Longrightarrow> length rest \<le> length p \<and> (p \<noteq> [] \<longrightarrow> length rest < length p)"
proof (induction q p cur rule: get_token.induct)
  case (2 c r cur)
  then show ?case
    by (auto split: if_splits option.splits dest!: hex_escape_shorter) (cases r; fastforce)+
next
  case (4 c r cur)
  then show ?case by (auto split: if_splits)
qed (auto split: if_splits)

text \<open>The outer loop, over the lines's arguments read so far.\<close>

function splitargs_loop :: "char list \<Rightarrow> char list list \<Rightarrow> char list list option" where
  "splitargs_loop p vec =
     (let p1 = dropWhile isspace p in
      if p1 = [] then Some vec
      else (case get_token Plain p1 [] of
              None \<Rightarrow> None
            | Some (t, rest) \<Rightarrow> splitargs_loop rest (vec @ [t])))"
  by pat_completeness auto
termination
proof (relation "measure (\<lambda>(p, vec). length p)", goal_cases)
  case (2 p vec p1 y t rest)
  then have "length rest < length p1" using get_token_rest[of Plain p1 "[]" t rest] by auto
  moreover have "length p1 \<le> length p" using 2(1) by (simp add: length_dropWhile_le)
  ultimately show ?case by simp
qed simp

declare splitargs_loop.simps [simp del]

text \<open>\<open>line\<close> is a C string.\<close>

definition sdssplitargs :: "char list \<Rightarrow> char list list option" where
  "sdssplitargs line = splitargs_loop (cstr line) []"

end
