(* ===== verification/Dict.thy ===== *)
theory Dict
  imports Sds_Str "HOL-Library.Word"
begin

text \<open>
  The hash table of the vendored Redis client (vendors/hiredis/dict.h and dict.c) and the table of
  callbacks the asynchronous client makes of it (vendors/hiredis/async.c).

  \<^item> A chain is the list of its entries, head first; \<open>table\<close> is the array of chains, empty when the pointer
    is null. \<^verbatim>\<open>unsigned long\<close> values are natural numbers reduced modulo \<open>2 ^ 64\<close>.
  \<^item> The functions of a \<^verbatim>\<open>dictType\<close> act on a state \<open>'w\<close> of their own (the heap the keys and values live in).
  \<^item> \<^verbatim>\<open>calloc\<close> may fail: the argument \<open>mem\<close> says whether it succeeds. Access through a null pointer or
    outside the array, a failed assertion and a loop that does not end are faults.
\<close>

unbundle bit_operations_syntax

section \<open>Hashing\<close>

fun gen_hash_loop :: "32 word \<Rightarrow> char list \<Rightarrow> 32 word" where
  "gen_hash_loop hash [] = hash"
| "gen_hash_loop hash (c # buf) = gen_hash_loop ((push_bit 5 hash + hash) + word_of_nat (of_char c)) buf"

definition dictGenHashFunction :: "char list \<Rightarrow> 32 word" where
  "dictGenHashFunction buf = gen_hash_loop 5381 buf"

section \<open>Tables\<close>

record ('p, 'k, 'v, 'w) dictType =
  hashFunction :: "'k \<Rightarrow> 32 word"
  keyDup :: "('p \<Rightarrow> 'k \<Rightarrow> 'w \<Rightarrow> 'k \<times> 'w) option"
  valDup :: "('p \<Rightarrow> 'v \<Rightarrow> 'w \<Rightarrow> 'v \<times> 'w) option"
  keyCompare :: "('p \<Rightarrow> 'k \<Rightarrow> 'k \<Rightarrow> bool) option"
  keyDestructor :: "('p \<Rightarrow> 'k \<Rightarrow> 'w \<Rightarrow> 'w) option"
  valDestructor :: "('p \<Rightarrow> 'v \<Rightarrow> 'w \<Rightarrow> 'w) option"

type_synonym ('k, 'v) chain = "('k \<times> 'v) list"

record ('p, 'k, 'v, 'w) dict =
  table :: "('k, 'v) chain list"
  dtype :: "('p, 'k, 'v, 'w) dictType"
  dsize :: nat
  sizemask :: nat
  used :: nat
  privdata :: 'p

datatype dict_status = DICT_OK | DICT_ERR

datatype dict_fault = Null_access | Assertion | No_return

definition dict_then :: "dict_fault + 'a \<Rightarrow> ('a \<Rightarrow> dict_fault + 'b) \<Rightarrow> dict_fault + 'b" where
  "dict_then r f = (case r of Inl e \<Rightarrow> Inl e | Inr x \<Rightarrow> f x)"

lemma dict_then_simps [simp]: "dict_then (Inr x) f = f x" "dict_then (Inl e) f = Inl e"
  by (simp_all add: dict_then_def)

definition DICT_HT_INITIAL_SIZE :: nat where
  "DICT_HT_INITIAL_SIZE = 4"

definition LONG_MAX :: nat where
  "LONG_MAX = 2 ^ 63 - 1"

definition ulong :: "int \<Rightarrow> nat" where
  "ulong n = nat (n mod 2 ^ 64)"

section \<open>The macros of dict.h\<close>

definition dictFreeEntryVal :: "('p, 'k, 'v, 'w) dict \<Rightarrow> 'k \<times> 'v \<Rightarrow> 'w \<Rightarrow> 'w" where
  "dictFreeEntryVal ht e w = (case valDestructor (dtype ht) of None \<Rightarrow> w | Some f \<Rightarrow> f (privdata ht) (snd e) w)"

definition dictFreeEntryKey :: "('p, 'k, 'v, 'w) dict \<Rightarrow> 'k \<times> 'v \<Rightarrow> 'w \<Rightarrow> 'w" where
  "dictFreeEntryKey ht e w = (case keyDestructor (dtype ht) of None \<Rightarrow> w | Some f \<Rightarrow> f (privdata ht) (fst e) w)"

definition dictSetHashVal :: "('p, 'k, 'v, 'w) dict \<Rightarrow> 'v \<Rightarrow> 'w \<Rightarrow> 'v \<times> 'w" where
  "dictSetHashVal ht v w = (case valDup (dtype ht) of None \<Rightarrow> (v, w) | Some f \<Rightarrow> f (privdata ht) v w)"

definition dictSetHashKey :: "('p, 'k, 'v, 'w) dict \<Rightarrow> 'k \<Rightarrow> 'w \<Rightarrow> 'k \<times> 'w" where
  "dictSetHashKey ht k w = (case keyDup (dtype ht) of None \<Rightarrow> (k, w) | Some f \<Rightarrow> f (privdata ht) k w)"

definition dictCompareHashKeys :: "('p, 'k, 'v, 'w) dict \<Rightarrow> 'k \<Rightarrow> 'k \<Rightarrow> bool" where
  "dictCompareHashKeys ht k1 k2 =
     (case keyCompare (dtype ht) of None \<Rightarrow> k1 = k2 | Some f \<Rightarrow> f (privdata ht) k1 k2)"

definition dictHashKey :: "('p, 'k, 'v, 'w) dict \<Rightarrow> 'k \<Rightarrow> 32 word" where
  "dictHashKey ht k = hashFunction (dtype ht) k"

text \<open>\<^verbatim>\<open>dictHashKey(ht, key) & sizemask\<close>\<close>

definition slot :: "('p, 'k, 'v, 'w) dict \<Rightarrow> nat \<Rightarrow> 'k \<Rightarrow> nat" where
  "slot ht m k = unat (dictHashKey ht k) AND m"

definition read_slot :: "nat \<Rightarrow> ('k, 'v) chain list \<Rightarrow> dict_fault + ('k, 'v) chain" where
  "read_slot h t = (if h < length t then Inr (t ! h) else Inl Null_access)"

section \<open>Creation and growth\<close>

definition dictReset :: "('p, 'k, 'v, 'w) dict \<Rightarrow> ('p, 'k, 'v, 'w) dict" where
  "dictReset ht = ht\<lparr>table := [], dsize := 0, sizemask := 0, used := 0\<rparr>"

definition dictInit :: "('p, 'k, 'v, 'w) dict \<Rightarrow> ('p, 'k, 'v, 'w) dictType \<Rightarrow> 'p \<Rightarrow> ('p, 'k, 'v, 'w) dict" where
  "dictInit ht ty p = (dictReset ht)\<lparr>dtype := ty, privdata := p\<rparr>"

definition dictCreate :: "('p, 'k, 'v, 'w) dictType \<Rightarrow> 'p \<Rightarrow> ('p, 'k, 'v, 'w) dict" where
  "dictCreate ty p = dictInit \<lparr>table = [], dtype = ty, dsize = 0, sizemask = 0, used = 0, privdata = p\<rparr> ty p"

partial_function (option) next_power_loop :: "nat \<Rightarrow> nat \<Rightarrow> nat option" where
  "next_power_loop sz i = (if i \<ge> sz then Some i else next_power_loop sz (i * 2 mod 2 ^ 64))"

definition dictNextPower :: "nat \<Rightarrow> nat option" where
  "dictNextPower sz =
     (if sz \<ge> LONG_MAX then Some LONG_MAX else next_power_loop sz DICT_HT_INITIAL_SIZE)"

text \<open>One chain is moved to the new table \<open>t\<close>; \<open>u\<close> counts the entries left in the old one.\<close>

fun move_chain :: "('p, 'k, 'v, 'w) dict \<Rightarrow> nat \<Rightarrow> ('k, 'v) chain \<Rightarrow> nat \<times> ('k, 'v) chain list \<Rightarrow>
    dict_fault + nat \<times> ('k, 'v) chain list" where
  "move_chain ht m [] s = Inr s"
| "move_chain ht m (e # es) (u, t) =
     (let h = slot ht m (fst e) in
      dict_then (read_slot h t)
        (\<lambda>c. move_chain ht m es (ulong (int u - 1), t[h := e # c])))"

fun move_slots :: "('p, 'k, 'v, 'w) dict \<Rightarrow> nat \<Rightarrow> ('k, 'v) chain list \<Rightarrow> nat \<times> ('k, 'v) chain list \<Rightarrow>
    dict_fault + nat \<times> ('k, 'v) chain list" where
  "move_slots ht m [] s = Inr s"
| "move_slots ht m (c # cs) s =
     (if fst s > 0 then dict_then (move_chain ht m c s) (move_slots ht m cs) else Inr s)"

definition dictExpand :: "bool \<Rightarrow> nat \<Rightarrow> ('p, 'k, 'v, 'w) dict \<Rightarrow>
    dict_fault + dict_status \<times> ('p, 'k, 'v, 'w) dict" where
  "dictExpand mem sz ht =
     (case dictNextPower sz of
        None \<Rightarrow> Inl No_return
      | Some realsize \<Rightarrow>
          if used ht > sz then Inr (DICT_ERR, ht)
          else
            (let n = (dictInit ht (dtype ht) (privdata ht))\<lparr>dsize := realsize, sizemask := ulong (int realsize - 1),
                        table := (if mem then replicate realsize [] else []), used := used ht\<rparr>
             in dict_then (move_slots ht (sizemask n) (table ht) (used ht, table n))
                  (\<lambda>(u, t). if u = 0 then Inr (DICT_OK, n\<lparr>table := t\<rparr>) else Inl Assertion)))"

definition dictExpandIfNeeded :: "bool \<Rightarrow> ('p, 'k, 'v, 'w) dict \<Rightarrow>
    dict_fault + dict_status \<times> ('p, 'k, 'v, 'w) dict" where
  "dictExpandIfNeeded mem ht =
     (if dsize ht = 0 then dictExpand mem DICT_HT_INITIAL_SIZE ht
      else if used ht = dsize ht then dictExpand mem (ulong (int (dsize ht) * 2)) ht
      else Inr (DICT_OK, ht))"

section \<open>Search, insertion, removal\<close>

fun find_chain :: "('k \<Rightarrow> bool) \<Rightarrow> ('k, 'v) chain \<Rightarrow> ('k \<times> 'v) option" where
  "find_chain eq [] = None"
| "find_chain eq (e # es) = (if eq (fst e) then Some e else find_chain eq es)"

text \<open>The index is an \<^verbatim>\<open>int\<close>.\<close>

definition dictKeyIndex :: "bool \<Rightarrow> 'k \<Rightarrow> ('p, 'k, 'v, 'w) dict \<Rightarrow>
    dict_fault + int \<times> ('p, 'k, 'v, 'w) dict" where
  "dictKeyIndex mem key ht =
     dict_then (dictExpandIfNeeded mem ht)
       (\<lambda>(st, ht1).
          if st = DICT_ERR then Inr (-1, ht1)
          else
            (let h = slot ht1 (sizemask ht1) key in
             dict_then (read_slot h (table ht1))
               (\<lambda>c. if find_chain (dictCompareHashKeys ht1 key) c \<noteq> None then Inr (-1, ht1)
                    else Inr (wrap32 (int h), ht1))))"

definition dictAdd :: "bool \<Rightarrow> 'k \<Rightarrow> 'v \<Rightarrow> ('p, 'k, 'v, 'w) dict \<times> 'w \<Rightarrow>
    dict_fault + dict_status \<times> ('p, 'k, 'v, 'w) dict \<times> 'w" where
  "dictAdd mem key val = (\<lambda>(ht, w).
     dict_then (dictKeyIndex mem key ht)
       (\<lambda>(index, ht1).
          if index = -1 then Inr (DICT_ERR, ht1, w)
          else if index < 0 then Inl Null_access
          else
            dict_then (read_slot (nat index) (table ht1))
              (\<lambda>c. let (k, w1) = dictSetHashKey ht1 key w;
                       (v, w2) = dictSetHashVal ht1 val w1
                   in Inr (DICT_OK,
                           ht1\<lparr>table := (table ht1)[nat index := (k, v) # c], used := ulong (int (used ht1) + 1)\<rparr>,
                           w2))))"

definition dictFind :: "'k \<Rightarrow> ('p, 'k, 'v, 'w) dict \<Rightarrow> dict_fault + ('k \<times> 'v) option" where
  "dictFind key ht =
     (if dsize ht = 0 then Inr None
      else dict_then (read_slot (slot ht (sizemask ht) key) (table ht))
             (\<lambda>c. Inr (find_chain (dictCompareHashKeys ht key) c)))"

text \<open>Writing the value of the entry that a search of its chain finds.\<close>

fun set_chain :: "('k \<Rightarrow> bool) \<Rightarrow> 'v \<Rightarrow> ('k, 'v) chain \<Rightarrow> ('k, 'v) chain" where
  "set_chain eq v [] = []"
| "set_chain eq v (e # es) = (if eq (fst e) then (fst e, v) # es else e # set_chain eq v es)"

definition set_entry :: "'k \<Rightarrow> 'v \<Rightarrow> ('p, 'k, 'v, 'w) dict \<Rightarrow> ('p, 'k, 'v, 'w) dict" where
  "set_entry key v ht =
     (let h = slot ht (sizemask ht) key
      in ht\<lparr>table := (table ht)[h := set_chain (dictCompareHashKeys ht key) v (table ht ! h)]\<rparr>)"

definition dictReplace :: "bool \<Rightarrow> 'k \<Rightarrow> 'v \<Rightarrow> ('p, 'k, 'v, 'w) dict \<times> 'w \<Rightarrow>
    dict_fault + int \<times> ('p, 'k, 'v, 'w) dict \<times> 'w" where
  "dictReplace mem key val s =
     dict_then (dictAdd mem key val s)
       (\<lambda>(st, ht, w).
          if st = DICT_OK then Inr (1, ht, w)
          else dict_then (dictFind key ht)
                 (\<lambda>r. case r of
                        None \<Rightarrow> Inl Null_access
                      | Some auxentry \<Rightarrow>
                          (let (v, w1) = dictSetHashVal ht val w
                           in Inr (0, set_entry key v ht, dictFreeEntryVal ht auxentry w1))))"

fun unlink :: "('k \<Rightarrow> bool) \<Rightarrow> ('k, 'v) chain \<Rightarrow> ('k, 'v) chain" where
  "unlink eq [] = []"
| "unlink eq (e # es) = (if eq (fst e) then es else e # unlink eq es)"

definition dictDelete :: "'k \<Rightarrow> ('p, 'k, 'v, 'w) dict \<times> 'w \<Rightarrow>
    dict_fault + dict_status \<times> ('p, 'k, 'v, 'w) dict \<times> 'w" where
  "dictDelete key = (\<lambda>(ht, w).
     if dsize ht = 0 then Inr (DICT_ERR, ht, w)
     else
       (let h = slot ht (sizemask ht) key; eq = dictCompareHashKeys ht key in
        dict_then (read_slot h (table ht))
          (\<lambda>c. case find_chain eq c of
                 None \<Rightarrow> Inr (DICT_ERR, ht, w)
               | Some de \<Rightarrow>
                   Inr (DICT_OK,
                        ht\<lparr>table := (table ht)[h := unlink eq c], used := ulong (int (used ht) - 1)\<rparr>,
                        dictFreeEntryVal ht de (dictFreeEntryKey ht de w)))))"

fun clear_chain :: "('p, 'k, 'v, 'w) dict \<Rightarrow> ('k, 'v) chain \<Rightarrow> nat \<times> 'w \<Rightarrow> nat \<times> 'w" where
  "clear_chain ht [] s = s"
| "clear_chain ht (e # es) (u, w) =
     clear_chain ht es (ulong (int u - 1), dictFreeEntryVal ht e (dictFreeEntryKey ht e w))"

fun clear_slots :: "('p, 'k, 'v, 'w) dict \<Rightarrow> ('k, 'v) chain list \<Rightarrow> nat \<times> 'w \<Rightarrow> nat \<times> 'w" where
  "clear_slots ht [] s = s"
| "clear_slots ht (c # cs) s = (if fst s > 0 then clear_slots ht cs (clear_chain ht c s) else s)"

definition dictClear :: "('p, 'k, 'v, 'w) dict \<times> 'w \<Rightarrow> dict_status \<times> ('p, 'k, 'v, 'w) dict \<times> 'w" where
  "dictClear = (\<lambda>(ht, w). (DICT_OK, dictReset ht, snd (clear_slots ht (table ht) (used ht, w))))"

definition dictRelease :: "('p, 'k, 'v, 'w) dict \<times> 'w \<Rightarrow> 'w" where
  "dictRelease s = snd (snd (dictClear s))"

section \<open>Iteration\<close>

text \<open>An entry pointer is the rest of its chain from that entry on, the empty list when it is null.\<close>

record ('k, 'v) dictIterator =
  it_index :: int
  it_entry :: "('k, 'v) chain"
  it_nextEntry :: "('k, 'v) chain"

definition dictGetIterator :: "('k, 'v) dictIterator" where
  "dictGetIterator = \<lparr>it_index = -1, it_entry = [], it_nextEntry = []\<rparr>"

partial_function (option) dictNext_loop :: "('p, 'k, 'v, 'w) dict \<Rightarrow> ('k, 'v) dictIterator \<Rightarrow>
    (dict_fault + ('k \<times> 'v) option \<times> ('k, 'v) dictIterator) option" where
  "dictNext_loop ht it =
     (let stop = it_entry it = [] \<and> wrap32 (int (dsize ht)) \<le> it_index it + 1;
          bad = it_entry it = [] \<and> \<not> nat (it_index it + 1) < length (table ht);
          it1 = (if it_entry it = []
                 then it\<lparr>it_index := it_index it + 1,
                         it_entry := (if stop \<or> bad then [] else table ht ! nat (it_index it + 1))\<rparr>
                 else it\<lparr>it_entry := it_nextEntry it\<rparr>)
      in if stop then Some (Inr (None, it1))
         else if bad then Some (Inl Null_access)
         else case it_entry it1 of
                e # es \<Rightarrow> Some (Inr (Some e, it1\<lparr>it_nextEntry := es\<rparr>))
              | [] \<Rightarrow> dictNext_loop ht it1)"

definition dictNext :: "('p, 'k, 'v, 'w) dict \<Rightarrow> ('k, 'v) dictIterator \<Rightarrow>
    dict_fault + ('k \<times> 'v) option \<times> ('k, 'v) dictIterator" where
  "dictNext ht it = (case dictNext_loop ht it of None \<Rightarrow> Inl No_return | Some r \<Rightarrow> r)"

section \<open>The callbacks of the asynchronous client\<close>

text \<open>The heap of the callback table: how many key strings and callback records have been freed, how many
  callback records have been allocated.\<close>

record callback_heap =
  keys_freed :: nat
  vals_alloced :: nat
  vals_freed :: nat

text \<open>For a key shorter than \<open>2 ^ 31\<close>; the length is passed as an \<^verbatim>\<open>int\<close>.\<close>

definition callbackHash :: "sds \<Rightarrow> 32 word" where
  "callbackHash key = dictGenHashFunction (take (nat (wrap32 (int (sdslen key)))) (sbuf key))"

definition callbackValDup :: "unit \<Rightarrow> 'v \<Rightarrow> callback_heap \<Rightarrow> 'v \<times> callback_heap" where
  "callbackValDup p src w = (src, w\<lparr>vals_alloced := vals_alloced w + 1\<rparr>)"

definition callbackKeyCompare :: "unit \<Rightarrow> sds \<Rightarrow> sds \<Rightarrow> bool" where
  "callbackKeyCompare p key1 key2 =
     (let l1 = wrap32 (int (sdslen key1)); l2 = wrap32 (int (sdslen key2)) in
      if l1 \<noteq> l2 then False else memcmp (take (ulong l1) (sbuf key1)) (take (ulong l1) (sbuf key2)) = 0)"

definition callbackKeyDestructor :: "unit \<Rightarrow> sds \<Rightarrow> callback_heap \<Rightarrow> callback_heap" where
  "callbackKeyDestructor p key w = w\<lparr>keys_freed := keys_freed w + 1\<rparr>"

definition callbackValDestructor :: "unit \<Rightarrow> 'v \<Rightarrow> callback_heap \<Rightarrow> callback_heap" where
  "callbackValDestructor p v w = w\<lparr>vals_freed := vals_freed w + 1\<rparr>"

definition callbackDict :: "(unit, sds, 'v, callback_heap) dictType" where
  "callbackDict = \<lparr>hashFunction = callbackHash, keyDup = None, valDup = Some callbackValDup,
     keyCompare = Some callbackKeyCompare, keyDestructor = Some callbackKeyDestructor,
     valDestructor = Some callbackValDestructor\<rparr>"

end
