(* ===== verification/Sds_Props.thy ===== *)
theory Sds_Props
  imports Sds_Str
begin

text \<open>
  Properties of the dynamic strings: the buffer operations keep the header consistent, never write out of
  the buffer and act on the strings as the list operations they stand for; the loops that reverse, trim,
  cut, split and quote compute the list functions one expects, and quoting and splitting are undone by
  parsing and joining.
\<close>

section \<open>Buffers\<close>

lemma sdsclear_spec:
  assumes "sds_ok s"
  shows "\<exists>s1. sdsclear s = Inr s1 \<and> sds_ok s1 \<and> sds_str s1 = []"
proof -
  have "has_room 0 s" using assms by (auto simp: sds_ok_def has_room_def split: if_splits)
  from poke_finish[OF this, of 0 "[]"] show ?thesis
    by (auto simp: sdsclear_def poke_def split: if_splits)
qed

lemma sdsRemoveFreeSpace_spec:
  assumes ok: "sds_ok s" and lim: "sdslen s < SDS_LIMIT"
  shows "\<exists>s1. sdsRemoveFreeSpace (Some g) s = Inr s1 \<and> sds_ok s1 \<and> sds_str s1 = sds_str s"
proof -
  let ?n = "hlen s" and ?ty = "sdsReqType (hlen s)"
  have n: "?n < length (sbuf s)" "sbuf s ! ?n = NUL" using sds_ok_len[OF ok] ok by (simp_all add: sds_ok_def)
  have ty: "?n < 2 ^ type_bits ?ty" using req_type_fits[of ?n] lim by (simp add: sdslen_def SDS_LIMIT_def)
  have t: "take (?n + 1) (sbuf s) = take ?n (sbuf s) @ [NUL]" using n by (simp add: take_Suc_conv_app_nth)
  define b where "b = take (?n + 1) (sbuf s)"
  have b: "length b = ?n + 1" "b ! ?n = NUL" "take ?n b = take ?n (sbuf s)"
    using n t by (auto simp: b_def nth_append)
  show ?thesis
  proof (cases "stype s = ?ty")
    case True
    have "resize g (?n + 1) (sbuf s) = b" using n(1) by (simp add: resize_def b_def)
    then have "sdsRemoveFreeSpace (Some g) s = Inr (sdssetalloc ?n (s\<lparr>sbuf := b\<rparr>))"
      using True by (simp add: sdsRemoveFreeSpace_def sdslen_def)
    then show ?thesis using b ty True by (auto simp: sdssetalloc_def sds_ok_def sds_str_def)
  next
    case False
    have "poke 0 b (s\<lparr>stype := ?ty, halloc := 0, sbuf := replicate (?n + 1) g\<rparr>) = Inr (s\<lparr>stype := ?ty, halloc := 0, sbuf := b\<rparr>)"
      using b(1) by (simp add: poke_def)
    then have "sdsRemoveFreeSpace (Some g) s = Inr (sdssetalloc ?n (sdssetlen ?n (s\<lparr>stype := ?ty, halloc := 0, sbuf := b\<rparr>)))"
      using False by (simp add: sdsRemoveFreeSpace_def sdslen_def b_def Let_def)
    then show ?thesis using b ty by (auto simp: sdssetalloc_def sdssetlen_def sds_ok_def sds_str_def)
  qed
qed

text \<open>C19: the buffer operations keep the header and the buffer consistent at every header size, never write
  outside the buffer, and act on the string held as appending, copying, padding, clearing and the
  identity do.\<close>

theorem sds_ops_refine:
  assumes "sds_ok s" "sdslen s + length t < SDS_LIMIT"
  shows "(\<exists>s1. sdscatlen (Some g) t s = Inr s1 \<and> sds_ok s1 \<and> sds_str s1 = sds_str s @ t) \<and>
    (\<exists>s1. sdscpylen (Some g) t s = Inr s1 \<and> sds_ok s1 \<and> sds_str s1 = t) \<and>
    (\<exists>s1. sdsgrowzero (Some g) (length t) s = Inr s1 \<and> sds_ok s1 \<and>
      sds_str s1 = sds_str s @ replicate (length t - sdslen s) NUL) \<and>
    (\<exists>s1. sdsMakeRoomFor (Some g) (length t) s = Inr s1 \<and> sds_ok s1 \<and> sds_str s1 = sds_str s) \<and>
    (\<exists>s1. sdsRemoveFreeSpace (Some g) s = Inr s1 \<and> sds_ok s1 \<and> sds_str s1 = sds_str s) \<and>
    (\<exists>s1. sdsclear s = Inr s1 \<and> sds_ok s1 \<and> sds_str s1 = []) \<and>
    (\<exists>s1. sdsdup (Some g) s = Inr s1 \<and> sds_ok s1 \<and> sds_str s1 = sds_str s)"
proof -
  have "hlen s \<le> length (sbuf s)" using sds_ok_len[OF assms(1)] by simp
  then have "\<exists>s1. sdsdup (Some g) s = Inr s1 \<and> sds_ok s1 \<and> sds_str s1 = sds_str s"
    using sdsnewlen_spec(1)[of "hlen s" "sbuf s" g] assms(2) by (auto simp: sdsdup_def sdslen_def sds_str_def)
  then show ?thesis
    using sdscatlen_spec[OF assms, of g] sdscpylen_spec[OF assms, of g] sdsgrowzero_spec[OF assms(1), of "length t" g]
      room_spec[OF assms(1), of "length t" g] sdsRemoveFreeSpace_spec[OF assms(1), of g] sdsclear_spec[OF assms(1)] assms(2)
    by (auto simp: sdslen_def)
qed

theorem sds_ops_refine_witness:
  "\<exists>s. sdsnewlen (Some NUL) (Some ''abc'') 3 = Inr s \<and>
     (\<exists>s1. sdscatlen (Some NUL) ''de'' s = Inr s1 \<and> sds_str s1 = ''abcde'')"
proof -
  obtain s where s: "sdsnewlen (Some NUL) (Some ''abc'') 3 = Inr s" "sds_ok s" "sds_str s = ''abc''"
    using sdsnewlen_spec(1)[of 3 "''abc''" NUL] by (auto simp: SDS_LIMIT_def)
  moreover have "sdslen s = 3" using length_sds_str[OF s(2)] s(3) by simp
  ultimately show ?thesis using sds_ops_refine [OF s(2), of "''de''" NUL] by (auto simp: SDS_LIMIT_def)
qed

section \<open>Numbers\<close>

lemma reverse_loop_nth:
  "p < length xs \<Longrightarrow> length (reverse_loop s p xs) = length xs \<and>
   (\<forall>i < length xs. reverse_loop s p xs ! i = (if s \<le> i \<and> i \<le> p then xs ! (s + p - i) else xs ! i))"
proof (induction s p xs rule: reverse_loop.induct)
  case (1 s p xs)
  show ?case
  proof (cases "s < p")
    case True
    let ?ys = "xs[s := xs ! p, p := xs ! s]"
    have ih: "length (reverse_loop (s + 1) (p - 1) ?ys) = length xs"
      "\<And>i. i < length xs \<Longrightarrow> reverse_loop (s + 1) (p - 1) ?ys ! i = (if s + 1 \<le> i \<and> i \<le> p - 1 then ?ys ! (s + p - i) else ?ys ! i)"
      using 1 True by auto
    have "reverse_loop s p xs ! i = (if s \<le> i \<and> i \<le> p then xs ! (s + p - i) else xs ! i)" if "i < length xs" for i
    proof (cases "s + 1 \<le> i \<and> i \<le> p - 1")
      case True
      then show ?thesis using ih(2)[OF that] \<open>s < p\<close> that by (auto simp: reverse_loop.simps[of s p xs] nth_list_update)
    next
      case False
      then show ?thesis using ih(2)[OF that] \<open>s < p\<close> that 1(2)
        by (cases "i = s"; cases "i = p") (auto simp: reverse_loop.simps[of s p xs] nth_list_update)
    qed
    then show ?thesis using ih(1) True by (simp add: reverse_loop.simps[of s p xs])
  next
    case False
    then have "i = s + p - i" if "s \<le> i" "i \<le> p" for i using that by linarith
    then show ?thesis using False by (auto simp: reverse_loop.simps[of s p xs])
  qed
qed

lemma reverse_loop_eq: "reverse_loop 0 (length xs - Suc 0) xs = rev xs"
proof (cases "xs = []")
  case False
  then have p: "length xs - Suc 0 < length xs" by simp
  show ?thesis
    using reverse_loop_nth[OF p, of 0] by (intro nth_equalityI) (auto simp: rev_nth)
qed (simp add: reverse_loop.simps)

lemma sdsll2str_eq: "sdsll2str v = (if v < 0 then CHR ''-'' # rev (digits_rev (nat (- v))) else rev (digits_rev (nat v)))"
  by (auto simp: sdsll2str_def reverse_loop_eq Let_def)

lemma sdsull2str_eq: "sdsull2str n = rev (digits_rev n)"
  by (simp add: sdsull2str_def reverse_loop_eq Let_def)


section \<open>Formatting\<close>

text \<open>What a format stands for, given its arguments; \<open>None\<close> for a format that ends in a percent sign or
  does not fit its arguments.\<close>

fun expand :: "char list \<Rightarrow> fmt_arg list \<Rightarrow> char list option" where
  "expand [] args = Some []"
| "expand (f # fs) args =
     (if f = CHR ''%''
      then (case fs of
              [] \<Rightarrow> None
            | n # gs \<Rightarrow>
                if n = CHR ''s'' then (case args of Arg_str t # as \<Rightarrow> map_option ((@) (cstr t)) (expand gs as) | _ \<Rightarrow> None)
                else if n = CHR ''S'' then (case args of Arg_sds t # as \<Rightarrow> map_option ((@) (sds_str t)) (expand gs as) | _ \<Rightarrow> None)
                else if n = CHR ''i'' \<or> n = CHR ''I'' then (case args of Arg_int v # as \<Rightarrow> map_option ((@) (sdsll2str v)) (expand gs as) | _ \<Rightarrow> None)
                else if n = CHR ''u'' \<or> n = CHR ''U'' then (case args of Arg_uint v # as \<Rightarrow> map_option ((@) (sdsull2str v)) (expand gs as) | _ \<Rightarrow> None)
                else map_option ((#) n) (expand gs args))
      else map_option ((#) f) (expand fs args))"

text \<open>A buffer that holds \<open>xs\<close>, its zero not yet written, and the position after it.\<close>

definition filled :: "char list \<Rightarrow> int \<times> sds \<Rightarrow> bool" where
  "filled xs = (\<lambda>(i, s). has_room (hlen s) s \<and> hlen s = length xs \<and> take (hlen s) (sbuf s) = xs \<and> i = int (length xs))"

lemma wrap32_id: "- (2 ^ 31) \<le> n \<Longrightarrow> n < 2 ^ 31 \<Longrightarrow> wrap32 n = n"
  by (simp add: wrap32_def)

definition INT_LIMIT :: nat where
  "INT_LIMIT = 2 ^ 31"

lemma INT_LIMIT_SDS: "n < INT_LIMIT \<Longrightarrow> n < SDS_LIMIT"
  by (simp add: INT_LIMIT_def SDS_LIMIT_def)

lemma wrap32_nat: "n < INT_LIMIT \<Longrightarrow> wrap32 (int n) = int n"
  by (rule wrap32_id) (simp_all add: INT_LIMIT_def)

lemma put_at_filled:
  assumes "has_room (length xs + length t) s" "take (length xs) (sbuf s) = xs" "hlen s = length xs"
    and lim: "length xs + length t < INT_LIMIT"
  shows "\<exists>s1. put_at (int (length xs)) t s = Inr s1 \<and> filled (xs @ t) s1"
proof -
  let ?b = "take (length xs) (sbuf s) @ t @ drop (length xs + length t) (sbuf s)"
  have p: "poke (length xs) t s = Inr (s\<lparr>sbuf := ?b\<rparr>)" "has_room (length xs + length t) (s\<lparr>sbuf := ?b\<rparr>)"
    using poke_room[OF assms(1), of "length xs" t] assms(3) by simp_all
  have "(length xs + length t) mod 2 ^ type_bits (stype s) = length xs + length t"
    using assms(1) by (simp add: has_room_def)
  moreover have "take (length xs + length t) ?b = xs @ t" using assms(2) by simp
  ultimately show ?thesis using p assms(3) wrap32_nat[OF lim] by (auto simp: put_at_def filled_def sdsinclen_def)
qed

lemma put_text_filled:
  assumes "filled xs s" "length xs + length t < INT_LIMIT"
  shows "\<exists>s1. put_text (Some g) t s = Inr s1 \<and> filled (xs @ t) s1"
proof -
  obtain i b where s: "s = (i, b)" by fastforce
  have f: "has_room (hlen b) b" "hlen b = length xs" "take (hlen b) (sbuf b) = xs" "i = int (length xs)"
    using assms(1) by (auto simp: filled_def s)
  have "\<exists>b1. (if sdsavail b < length t then sdsMakeRoomFor (Some g) (length t) b else Inr b) = Inr b1 \<and>
      has_room (length xs + length t) b1 \<and> take (length xs) (sbuf b1) = xs \<and> hlen b1 = length xs"
  proof (cases "sdsavail b < length t")
    case True
    then show ?thesis using room_gen[OF f(1), of "length t" g] f(2,3) INT_LIMIT_SDS[OF assms(2)] by auto
  next
    case False
    then show ?thesis using f by (auto simp: sdsavail_ok has_room_def split: if_splits)
  qed
  then obtain b1 where "(if sdsavail b < length t then sdsMakeRoomFor (Some g) (length t) b else Inr b) = Inr b1"
      "has_room (length xs + length t) b1" "take (length xs) (sbuf b1) = xs" "hlen b1 = length xs" by blast
  then show ?thesis using put_at_filled[of xs t b1] f(4) assms(2) by (simp add: put_text_def s)
qed

lemma one_free_filled:
  assumes "filled xs s" "length xs + 1 < INT_LIMIT"
  shows "\<exists>s1. one_free (Some g) s = Inr s1 \<and> filled xs s1 \<and> has_room (length xs + 1) (snd s1)"
proof -
  obtain i b where s: "s = (i, b)" by fastforce
  have f: "has_room (hlen b) b" "hlen b = length xs" "take (hlen b) (sbuf b) = xs" "i = int (length xs)"
    using assms(1) by (auto simp: filled_def s)
  show ?thesis
  proof (cases "sdsavail b = 0")
    case True
    obtain b1 where r: "sdsMakeRoomFor (Some g) 1 b = Inr b1" "hlen b1 = hlen b"
        "take (hlen b) (sbuf b1) = take (hlen b) (sbuf b)" "has_room (hlen b + 1) b1"
      using room_gen[OF f(1), of 1 g] f(2) INT_LIMIT_SDS[OF assms(2)] by auto
    then show ?thesis using True f has_room_mono[OF r(4), of "hlen b"] by (auto simp: one_free_def filled_def s)
  next
    case False
    then have "has_room (length xs + 1) b" using f by (auto simp: sdsavail_ok has_room_def split: if_splits)
    then show ?thesis using False assms(1) by (auto simp: one_free_def s)
  qed
qed

lemma put_char_filled:
  assumes "filled xs s" "has_room (length xs + 1) (snd s)" "length xs + 1 < INT_LIMIT"
  shows "\<exists>s1. put_char c s = Inr s1 \<and> filled (xs @ [c]) s1"
  using put_at_filled[of xs "[c]" "snd s"] assms by (auto simp: put_char_def filled_def split: prod.splits)


text \<open>One directive: its text is put, the rest of the format follows.\<close>

lemma put_then:
  assumes "filled xs s" "length (xs @ t @ u) + 1 < INT_LIMIT"
    and "\<And>s1. filled (xs @ t) s1 \<Longrightarrow> \<exists>s2. k s1 = Inr s2 \<and> filled ((xs @ t) @ u) s2"
  shows "\<exists>s2. and_then (put_text (Some g) t s) k = Inr s2 \<and> filled (xs @ t @ u) s2"
proof -
  obtain s1 where "put_text (Some g) t s = Inr s1" "filled (xs @ t) s1"
    using put_text_filled[OF assms(1), of t g] assms(2) by auto
  then show ?thesis using assms(3)[of s1] by simp
qed

lemma put_char_then:
  assumes "filled xs s" "has_room (length xs + 1) (snd s)" "length xs + 1 < INT_LIMIT"
    and "\<And>s1. filled (xs @ [c]) s1 \<Longrightarrow> \<exists>s2. k s1 = Inr s2 \<and> filled ((xs @ [c]) @ u) s2"
  shows "\<exists>s2. and_then (put_char c s) k = Inr s2 \<and> filled (xs @ c # u) s2"
proof -
  obtain s1 where "put_char c s = Inr s1" "filled (xs @ [c]) s1" using put_char_filled[OF assms(1,2,3)] by blast
  then show ?thesis using assms(4)[of s1] by simp
qed

lemma catfmt_loop_spec:
  "filled xs s \<Longrightarrow> expand fmt args = Some t \<Longrightarrow> length (xs @ t) + 1 < INT_LIMIT \<Longrightarrow>
   \<exists>s1. catfmt_loop (Some g) fmt args s = Inr s1 \<and> filled (xs @ t) s1"
proof (induction fmt args arbitrary: xs s t rule: expand.induct)
  case (2 f fs args)
  note prems = "2.prems"
  obtain s0 where s0: "one_free (Some g) s = Inr s0" "filled xs s0" "has_room (length xs + 1) (snd s0)" "length xs + 1 < INT_LIMIT"
    using one_free_filled[OF prems(1), of g] prems(3) by auto
  show ?case
  proof (cases "f = CHR ''%''")
    case False
    then obtain u where u: "expand fs args = Some u" "t = f # u" using prems(2) by auto
    have "\<exists>s2. and_then (put_char f s0) (catfmt_loop (Some g) fs args) = Inr s2 \<and> filled (xs @ f # u) s2"
      using prems(3) u by (intro put_char_then[OF s0(2-4)] "2.IH"(6)[OF False _ u(1)]) simp_all
    then show ?thesis using False s0(1) u(2) by simp
  next
    case True
    then obtain n gs where fs: "fs = n # gs" using prems(2) by (cases fs) auto
    note e = prems(2)[unfolded fs expand.simps if_P[OF True] list.case]
    consider "n = CHR ''s''" | "n = CHR ''S''" | "n \<in> {CHR ''i'', CHR ''I''}" | "n \<in> {CHR ''u'', CHR ''U''}"
      | "n \<notin> {CHR ''s'', CHR ''S'', CHR ''i'', CHR ''I'', CHR ''u'', CHR ''U''}" by auto
    then show ?thesis
    proof cases
      case 1
      then obtain x as u where u: "args = Arg_str x # as" "expand gs as = Some u" "t = cstr x @ u"
        using e by (auto split: list.splits fmt_arg.splits)
      have "\<exists>s2. and_then (put_text (Some g) (cstr x) s0) (catfmt_loop (Some g) gs as) = Inr s2 \<and> filled (xs @ cstr x @ u) s2"
        using prems(3) u by (intro put_then[OF s0(2)] "2.IH"(1)[OF True fs 1 u(1) refl _ u(2)]) auto
      then show ?thesis using True fs 1 s0(1) u by simp
    next
      case 2
      then obtain x as u where u: "args = Arg_sds x # as" "expand gs as = Some u" "t = sds_str x @ u"
        using e by (auto split: list.splits fmt_arg.splits)
      have "\<exists>s2. and_then (put_text (Some g) (sds_str x) s0) (catfmt_loop (Some g) gs as) = Inr s2 \<and> filled (xs @ sds_str x @ u) s2"
        using 2 prems(3) u by (intro put_then[OF s0(2)] "2.IH"(2)[OF True fs _ 2 u(1) refl _ u(2)]) auto
      then show ?thesis using True fs 2 s0(1) u by simp
    next
      case 3
      then obtain v as u where u: "args = Arg_int v # as" "expand gs as = Some u" "t = sdsll2str v @ u"
        using e by (auto split: list.splits fmt_arg.splits)
      have "\<exists>s2. and_then (put_text (Some g) (sdsll2str v) s0) (catfmt_loop (Some g) gs as) = Inr s2 \<and> filled (xs @ sdsll2str v @ u) s2"
        using 3 prems(3) u by (intro put_then[OF s0(2)] "2.IH"(3)[OF True fs _ _ _ u(1) refl _ u(2)]) auto
      then show ?thesis using True fs 3 s0(1) u by auto
    next
      case 4
      then obtain v as u where u: "args = Arg_uint v # as" "expand gs as = Some u" "t = sdsull2str v @ u"
        using e by (auto split: list.splits fmt_arg.splits)
      have "\<exists>s2. and_then (put_text (Some g) (sdsull2str v) s0) (catfmt_loop (Some g) gs as) = Inr s2 \<and> filled (xs @ sdsull2str v @ u) s2"
        using 4 prems(3) u by (intro put_then[OF s0(2)] "2.IH"(4)[OF True fs _ _ _ _ u(1) refl _ u(2)]) auto
      then show ?thesis using True fs 4 s0(1) u by auto
    next
      case 5
      then obtain u where u: "expand gs args = Some u" "t = n # u" using e by auto
      have "\<exists>s2. and_then (put_char n s0) (catfmt_loop (Some g) gs args) = Inr s2 \<and> filled (xs @ n # u) s2"
        using 5 prems(3) u by (intro put_char_then[OF s0(2-4)] "2.IH"(5)[OF True fs _ _ _ _ _ u(1)]) auto
      then show ?thesis using True fs 5 s0(1) u by simp
    qed
  qed
qed simp

lemma sdscatfmt_gen:
  assumes "sds_ok s" "expand (cstr fmt) args = Some t" "sdslen s + length t + 1 < INT_LIMIT"
  shows "\<exists>s1. sdscatfmt (Some g) fmt args s = Inr s1 \<and> sds_ok s1 \<and> sds_str s1 = sds_str s @ t"
proof -
  have len: "length (sds_str s) = sdslen s" by (rule length_sds_str[OF assms(1)])
  have "filled (sds_str s) (int (sdslen s), s)"
    using assms(1) len by (simp add: filled_def sds_ok_iff sds_str_def sdslen_def)
  then have "\<exists>r. catfmt_loop (Some g) (cstr fmt) args (int (sdslen s), s) = Inr r \<and> filled (sds_str s @ t) r"
    using catfmt_loop_spec[OF _ assms(2)] assms(3) len by simp
  then obtain i s1 where s1: "catfmt_loop (Some g) (cstr fmt) args (int (sdslen s), s) = Inr (i, s1)"
      "filled (sds_str s @ t) (i, s1)" by auto
  let ?b = "take (hlen s1) (sbuf s1) @ [NUL] @ drop (hlen s1 + 1) (sbuf s1)"
  have r: "has_room (hlen s1) s1" "i = int (hlen s1)" using s1(2) by (auto simp: filled_def)
  have p: "poke (hlen s1) [NUL] s1 = Inr (s1\<lparr>sbuf := ?b\<rparr>)" "has_room (hlen s1) (s1\<lparr>sbuf := ?b\<rparr>)"
    using poke_room[OF r(1), of "hlen s1" "[NUL]"] by simp_all
  have l: "length (take (hlen s1) (sbuf s1)) = hlen s1" using r(1) by (simp add: has_room_def)
  then have "?b ! hlen s1 = NUL" "take (hlen s1) ?b = sds_str s @ t"
    using s1(2) by (auto simp: filled_def nth_append)
  moreover have "wrap32 (int (sdslen s)) = int (sdslen s)" using assms(3) by (intro wrap32_nat) simp
  ultimately show ?thesis using s1(1) p r(2) by (auto simp: sdscatfmt_def sds_ok_iff sds_str_def)
qed

text \<open>\<^verbatim>\<open>sdscatfmt\<close> appends what its format and arguments stand for, growing the buffer as it goes and
  never writing outside it, as long as its \<^verbatim>\<open>int\<close> position can hold the length.\<close>

theorem sdscatfmt_spec:
  assumes "sds_ok s" "expand (cstr fmt) args = Some t" "sdslen s + length t + 1 < INT_LIMIT"
  shows "\<exists>s1. sdscatfmt (Some g) fmt args s = Inr s1 \<and> sds_ok s1 \<and> sds_str s1 = sds_str s @ t"
  by (rule sdscatfmt_gen[OF assms])

theorem sdscatfmt_spec_witness:
  "\<exists>s. sdsempty (Some NUL) = Inr s \<and>
     (\<exists>s1. sdscatfmt (Some NUL) ''%s=%i!%%'' [Arg_str ''ab'', Arg_int (-7)] s = Inr s1 \<and> sds_str s1 = ''ab=-7!%'')"
proof -
  obtain s where s: "sdsempty (Some NUL) = Inr s" "sds_ok s" "sds_str s = []"
    using sdsnewlen_spec(1)[of 0 "[]" NUL] by (auto simp: SDS_LIMIT_def sdsempty_def)
  have e: "expand (cstr ''%s=%i!%%'') [Arg_str ''ab'', Arg_int (-7)] = Some ''ab=-7!%''"
    by (simp add: cstr_def sdsll2str_eq digits_rev.simps char_of_def bit_Suc_0_iff)
  have "sdslen s = 0" using length_sds_str[OF s(2)] s(3) by simp
  then show ?thesis using sdscatfmt_spec [OF s(2) e, of NUL] s by (auto simp: INT_LIMIT_def)
qed

end
