(* ===== verification/Sds_Text.thy ===== *)
theory Sds_Text
  imports Sds_Props "HOL-Library.List_Lexorder"
begin

text \<open>
  The string functions against the list functions they stand for: trimming, ranges and comparison meet
  their specifications, splitting is undone by joining, and quoting by the parser of quoted arguments.
\<close>

lemma cstr_id: "NUL \<notin> set t \<Longrightarrow> cstr t = t"
  by (auto simp: cstr_def takeWhile_eq_all_conv)

lemma sdsnew_spec:
  "NUL \<notin> set t \<Longrightarrow> length t < SDS_LIMIT \<Longrightarrow> \<exists>s. sdsnew (Some g) (Some t) = Inr s \<and> sds_ok s \<and> sds_str s = t"
  using sdsnewlen_spec(1)[of "length t" t g] by (simp add: sdsnew_def cstr_id)

section \<open>Trimming and ranges\<close>

text \<open>The end of \<^verbatim>\<open>sdstrim\<close> and \<^verbatim>\<open>sdsrange\<close>: \<open>n\<close> bytes from \<open>i\<close> on are moved to the front.\<close>

lemma cut_spec:
  assumes ok: "sds_ok s" and fit: "i + n \<le> sdslen s" and skip: "b \<or> i = 0 \<or> n = 0"
  shows "\<exists>s1. and_then (if b then poke 0 (take n (drop i (sbuf s))) s else Inr s)
      (\<lambda>s1. and_then (poke n [NUL] s1) (\<lambda>s2. Inr (sdssetlen n s2))) = Inr s1 \<and>
    sds_ok s1 \<and> sds_str s1 = take n (drop i (sds_str s))"
proof -
  have room: "has_room n s" using has_room_mono[OF has_room_self[OF ok], of n] fit by (simp add: sdslen_def)
  have len: "hlen s < length (sbuf s)" by (rule sds_ok_len[OF ok])
  have t: "take n (drop i (sbuf s)) = take n (drop i (sds_str s))"
    using fit by (simp add: sds_str_def sdslen_def take_drop min_def)
  have l: "length (take n (drop i (sbuf s))) = n" using fit len by (simp add: sdslen_def)
  show ?thesis
  proof (cases b)
    case True
    then show ?thesis using poke_finish[OF room, of 0 "take n (drop i (sbuf s))"] l t by auto
  next
    case False
    then have "take n (drop i (sbuf s)) = take n (sbuf s)" using skip by auto
    moreover have "poke n [] s = Inr s" using room by (auto simp: poke_def has_room_def)
    ultimately show ?thesis using poke_finish[OF room, of n "[]"] False t len fit by (auto simp: sdslen_def)
  qed
qed

lemma trim_sp_eq: "sp \<le> length xs \<Longrightarrow> trim_sp P xs sp = sp + length (takeWhile P (drop sp xs))"
proof (induction P xs sp rule: trim_sp.induct)
  case (1 P xs sp)
  show ?case
  proof (cases "sp < length xs \<and> P (xs ! sp)")
    case True
    then show ?thesis using 1 by (subst trim_sp.simps) (simp add: Cons_nth_drop_Suc[symmetric])
  next
    case False
    then have "takeWhile P (drop sp xs) = []"
      using 1(2) by (cases "sp < length xs") (auto simp: Cons_nth_drop_Suc[symmetric])
    then show ?thesis using False by (subst trim_sp.simps) auto
  qed
qed

lemma trim_ep_spec:
  assumes "int sp \<le> ep"
  shows "int sp \<le> trim_ep P xs sp ep \<and> trim_ep P xs sp ep \<le> ep \<and>
    (\<forall>i. trim_ep P xs sp ep < int i \<and> int i \<le> ep \<longrightarrow> P (xs ! i)) \<and>
    (trim_ep P xs sp ep = int sp \<or> \<not> P (xs ! nat (trim_ep P xs sp ep)))"
  using assms
proof (induction P xs sp ep rule: trim_ep.induct)
  case (1 P xs sp ep)
  show ?case
  proof (cases "ep > int sp \<and> P (xs ! nat ep)")
    case True
    then have r: "trim_ep P xs sp ep = trim_ep P xs sp (ep - 1)" by (subst trim_ep.simps) simp
    have "P (xs ! i)" if "trim_ep P xs sp (ep - 1) < int i" "int i \<le> ep" for i
      using 1(1)[OF True] True that by (cases "int i = ep") auto
    then show ?thesis using 1(1)[OF True] True unfolding r by auto
  next
    case False
    then have "trim_ep P xs sp ep = ep" by (subst trim_ep.simps) (rule if_not_P)
    then show ?thesis using False 1(2) by auto
  qed
qed

lemma strip_split:
  assumes "\<not> P (last ys)" "ys \<noteq> []" "\<forall>z \<in> set zs. P z"
  shows "rev (dropWhile P (rev (ys @ zs))) = ys"
proof -
  have "dropWhile P (rev ys) = rev ys" using assms(1,2) by (cases ys rule: rev_cases) auto
  moreover have "dropWhile P (rev zs @ rev ys) = dropWhile P (rev ys)" using assms(3) by (intro dropWhile_append2) simp
  ultimately show ?thesis by simp
qed

text \<open>\<^verbatim>\<open>sdstrim\<close> drops the characters of its set, and the zero bytes, from both ends of the string and
  keeps everything in between.\<close>

theorem sdstrim_spec:
  assumes "sds_ok s"
  shows "\<exists>s1. sdstrim cset s = Inr s1 \<and> sds_ok s1 \<and>
    sds_str s1 = rev (dropWhile (in_cset cset) (rev (dropWhile (in_cset cset) (sds_str s))))"
proof -
  define P where "P = in_cset cset"
  define xs where "xs = sds_str s"
  define sp where "sp = trim_sp P xs 0"
  define ep where "ep = trim_ep P xs sp (int (length xs) - 1)"
  define len where "len = (if int sp > ep then 0 else nat (ep - int sp + 1))"
  have sp: "sp = length (takeWhile P xs)" using trim_sp_eq[of 0 xs P] by (simp add: sp_def)
  then have d: "drop sp xs = dropWhile P xs" by (simp add: dropWhile_eq_drop)
  have spl: "sp \<le> length xs" using sp length_takeWhile_le[of P xs] by simp
  have "sp + len \<le> length xs \<and> take len (drop sp xs) = rev (dropWhile P (rev (dropWhile P xs)))"
  proof (cases "sp < length xs")
    case False
    then have "dropWhile P xs = []" using d by simp
    moreover have "ep = int (length xs) - 1" using False unfolding ep_def by (subst trim_ep.simps) simp
    then have "len = 0" using False by (simp add: len_def)
    ultimately show ?thesis using spl by (simp del: dropWhile_eq_Nil_conv)
  next
    case True
    have e: "int sp \<le> ep" "ep < int (length xs)" "ep = int sp \<or> \<not> P (xs ! nat ep)"
        "\<And>i. ep < int i \<Longrightarrow> int i \<le> int (length xs) - 1 \<Longrightarrow> P (xs ! i)"
      using trim_ep_spec[of sp "int (length xs) - 1" P xs] True by (auto simp: ep_def)
    have nsp: "\<not> P (xs ! sp)" using True nth_length_takeWhile[of P xs] sp by simp
    have len: "len = nat ep + 1 - sp" "0 < len" "sp + len \<le> length xs" "sp + len = nat ep + 1"
      using e(1,2) by (auto simp: len_def)
    let ?ys = "take len (drop sp xs)" and ?zs = "drop (sp + len) xs"
    have "last ?ys = xs ! nat ep" using len True by (simp add: last_conv_nth)
    then have "\<not> P (last ?ys)" using e(3) nsp by (metis nat_int)
    moreover have "?ys \<noteq> []" using len(2) True by simp
    moreover have "P z" if "z \<in> set ?zs" for z
    proof -
      have "\<exists>i < length ?zs. ?zs ! i = z" using that by (simp only: in_set_conv_nth)
      then obtain i where "i < length ?zs" "z = ?zs ! i" by blast
      then show ?thesis using e(4)[of "sp + len + i"] len(4) by (simp add: add.commute)
    qed
    moreover have "dropWhile P xs = ?ys @ ?zs" unfolding d[symmetric] by (metis append_take_drop_id drop_drop add.commute)
    ultimately show ?thesis using strip_split[of P ?ys ?zs] len(3) by auto
  qed
  then have f: "sp + len \<le> sdslen s" "take len (drop sp xs) = rev (dropWhile P (rev (dropWhile P xs)))"
    using length_sds_str[OF assms] by (simp_all add: xs_def)
  have eq: "sdstrim cset s = and_then (if sp \<noteq> 0 then poke 0 (take len (drop sp (sbuf s))) s else Inr s)
      (\<lambda>s1. and_then (poke len [NUL] s1) (\<lambda>s2. Inr (sdssetlen len s2)))"
    by (simp add: sdstrim_def Let_def len_def ep_def sp_def xs_def P_def)
  have c: "sp \<noteq> 0 \<or> sp = 0 \<or> len = 0" by auto
  show ?thesis using cut_spec[OF assms f(1) c] f(2) unfolding eq xs_def P_def by simp
qed

theorem sdstrim_spec_witness:
  "\<exists>s. sdsnew (Some NUL) (Some ''xxabxcxx'') = Inr s \<and> (\<exists>s1. sdstrim ''x'' s = Inr s1 \<and> sds_str s1 = ''abxc'')"
proof -
  obtain s where s: "sdsnew (Some NUL) (Some ''xxabxcxx'') = Inr s" "sds_ok s" "sds_str s = ''xxabxcxx''"
    using sdsnew_spec[of "''xxabxcxx''" NUL] by (auto simp: SDS_LIMIT_def)
  then show ?thesis using sdstrim_spec [OF s(2), of "''x''"] by (auto simp: in_cset_def cstr_def)
qed

text \<open>The part of a string from one index to another, both inclusive; a negative index counts from the end
  and is the first index when it is before it.\<close>

definition range_index :: "nat \<Rightarrow> int \<Rightarrow> int" where
  "range_index len i = (if i < 0 then max 0 (int len + i) else i)"

definition range_of :: "int \<Rightarrow> int \<Rightarrow> 'a list \<Rightarrow> 'a list" where
  "range_of i j xs =
     take (nat (range_index (length xs) j - range_index (length xs) i + 1)) (drop (nat (range_index (length xs) i)) xs)"

lemma sdsrange_spec_gen:
  assumes "sds_ok s" "sdslen s < 2 ^ 31" "start \<in> {- (2 ^ 31)..<2 ^ 31}" "stop \<in> {- (2 ^ 31)..<2 ^ 31}"
  shows "\<exists>s1. sdsrange start stop s = Inr s1 \<and> sds_ok s1 \<and> sds_str s1 = range_of start stop (sds_str s)"
proof (cases "sdslen s = 0")
  case True
  then have "sds_str s = []" using length_sds_str[OF assms(1)] by simp
  then show ?thesis using True assms(1) by (simp add: sdsrange_def range_of_def)
next
  case False
  define n where "n = sdslen s"
  let ?a = "range_index n start" and ?b = "range_index n stop"
  obtain i k where ik: "range_bounds n start stop = (i, k)" by fastforce
  have nl: "int n < 2 ^ 31" "n \<noteq> 0" "length (sds_str s) = n" using assms(2) False length_sds_str[OF assms(1)] by (simp_all add: n_def)
  have w: "wrap32 (int n + start) = int n + start" if "start < 0" using that nl(1) assms(3) by (intro wrap32_id) auto
  have w2: "wrap32 (int n + stop) = int n + stop" if "stop < 0" using that nl(1) assms(4) by (intro wrap32_id) auto
  have w3: "wrap32 (int n) = int n" "wrap32 (int n - 1) = int n - 1" using nl(1) by (intro wrap32_id; simp)+
  have e: "range_bounds n start stop =
     (if ?a > ?b then (0, 0) else if ?a \<ge> int n then (nat ?a, 0)
      else (nat ?a, nat ((if ?b \<ge> int n then int n - 1 else ?b) - ?a + 1)))"
    using w w2 w3 unfolding range_bounds_def range_index_def Let_def
    by (cases "start < 0"; cases "stop < 0") (simp_all only: if_True if_False, auto)
  have ab: "0 \<le> ?a" "0 \<le> ?b" by (auto simp: range_index_def)
  have "(k = 0 \<or> i + k \<le> n) \<and> take k (drop i (sds_str s)) = range_of start stop (sds_str s)"
  proof -
    consider "?a > ?b" | "?a \<le> ?b" "?a \<ge> int n" | "?a \<le> ?b" "?a < int n" by linarith
    then show ?thesis
    proof cases
      case 3
      then have "i = nat ?a" "i + k = nat (min ?b (int n - 1) + 1)" "i \<le> n" using ik e ab by (auto split: if_splits)
      moreover have "take k (drop i (sds_str s)) = take (nat (?b - ?a + 1)) (drop i (sds_str s))"
        using 3 ik e ab nl(3) by (cases "?b \<ge> int n") auto
      ultimately show ?thesis using 3 nl(3) by (auto simp: range_of_def)
    qed (use ik e nl(3) in \<open>auto simp: range_of_def\<close>)
  qed
  note f = this
  define i' where "i' = (if k = 0 then 0 else i)"
  have f': "i' + k \<le> sdslen s" using f nl(2) by (auto simp: i'_def n_def)
  have t: "take k (drop i' xs) = take k (drop i xs)" for xs :: "char list" by (simp add: i'_def)
  show ?thesis
    using cut_spec[OF assms(1) f', of "i \<noteq> 0 \<and> k \<noteq> 0", unfolded t] f False ik
    by (auto simp: sdsrange_def n_def[symmetric] i'_def)
qed

text \<open>\<^verbatim>\<open>sdsrange\<close> keeps the substring between two inclusive indexes, negative ones counting from the
  end, whatever indexes an \<^verbatim>\<open>int\<close> can hold, for a string shorter than \<open>2 ^ 31\<close>.\<close>

theorem sdsrange_spec:
  assumes "sds_ok s" "sdslen s < 2 ^ 31" "start \<in> {- (2 ^ 31)..<2 ^ 31}" "stop \<in> {- (2 ^ 31)..<2 ^ 31}"
  shows "\<exists>s1. sdsrange start stop s = Inr s1 \<and> sds_ok s1 \<and> sds_str s1 = range_of start stop (sds_str s)"
  by (rule sdsrange_spec_gen[OF assms])

theorem sdsrange_spec_witness:
  "\<exists>s. sdsnew (Some NUL) (Some ''abcdef'') = Inr s \<and> (\<exists>s1. sdsrange 1 (-2) s = Inr s1 \<and> sds_str s1 = ''bcde'')"
proof -
  obtain s where s: "sdsnew (Some NUL) (Some ''abcdef'') = Inr s" "sds_ok s" "sds_str s = ''abcdef''"
    using sdsnew_spec[of "''abcdef''" NUL] by (auto simp: SDS_LIMIT_def)
  moreover have "sdslen s = 6" using length_sds_str[OF s(2)] s(3) by simp
  ultimately show ?thesis using sdsrange_spec [OF s(2), of 1 "-2"] by (auto simp: range_of_def range_index_def)
qed

section \<open>Comparison\<close>

lemma memcmp_values: "memcmp xs ys \<in> {-1, 0, 1}"
  by (induction xs ys rule: memcmp.induct) auto

lemma memcmp_lex:
  assumes "length xs = length ys"
  shows "memcmp xs ys = 0 \<longleftrightarrow> xs = ys" "memcmp xs ys < 0 \<longleftrightarrow> xs < ys"
  using assms by (induction xs ys rule: memcmp.induct) (auto simp: less_char_def)

lemma lex_prefix:
  fixes xs ys :: "'a :: linorder list"
  assumes "n = min (length xs) (length ys)"
  shows "xs < ys \<longleftrightarrow> (if take n xs = take n ys then length xs < length ys else take n xs < take n ys)"
  using assms
proof (induction xs arbitrary: ys n)
  case Nil
  then show ?case by (cases ys) auto
next
  case (Cons x xs)
  show ?case
  proof (cases ys)
    case (Cons y zs)
    then show ?thesis using Cons.IH[of "n - 1" zs] Cons.prems by (cases n) (auto simp: min_def split: if_splits)
  qed (use Cons.prems in simp)
qed

text \<open>\<^verbatim>\<open>sdscmp\<close> is the lexicographic order of the strings by unsigned bytes: it is zero on equal
  strings only and negative exactly when the first string is smaller.\<close>

theorem sdscmp_order:
  assumes "sds_ok s" "sds_ok t" "sdslen s < 2 ^ 31" "sdslen t < 2 ^ 31"
  shows "(sdscmp s t = 0 \<longleftrightarrow> sds_str s = sds_str t) \<and> (sdscmp s t < 0 \<longleftrightarrow> sds_str s < sds_str t)"
proof -
  define n where "n = min (sdslen s) (sdslen t)"
  let ?x = "take n (sds_str s)" and ?y = "take n (sds_str t)"
  have l: "length (sds_str s) = sdslen s" "length (sds_str t) = sdslen t" using length_sds_str assms(1,2) by auto
  have "take n (sbuf s) = ?x" "take n (sbuf t) = ?y" by (simp_all add: n_def sds_str_def sdslen_def min_def)
  moreover have "wrap32 (int (sdslen s) - int (sdslen t)) = int (sdslen s) - int (sdslen t)"
  proof (intro wrap32_id)
    have "int (sdslen s) < 2 ^ 31" "int (sdslen t) < 2 ^ 31" using assms(3,4) by auto
    then show "- (2 ^ 31) \<le> int (sdslen s) - int (sdslen t)" "int (sdslen s) - int (sdslen t) < 2 ^ 31" by linarith+
  qed
  moreover have "(if sdslen s < sdslen t then sdslen s else sdslen t) = n" by (simp add: n_def)
  ultimately have c: "sdscmp s t = (if memcmp ?x ?y = 0 then int (sdslen s) - int (sdslen t) else memcmp ?x ?y)"
    by (simp add: sdscmp_def Let_def)
  have m: "memcmp ?x ?y = 0 \<longleftrightarrow> ?x = ?y" "memcmp ?x ?y < 0 \<longleftrightarrow> ?x < ?y"
    using memcmp_lex[of ?x ?y] l by (simp_all add: n_def)
  have e: "sds_str s = sds_str t \<longleftrightarrow> ?x = ?y \<and> sdslen s = sdslen t"
    using l by (auto simp: n_def)
  show ?thesis using c m e lex_prefix[of n "sds_str s" "sds_str t"] l by (auto simp: n_def)
qed

theorem sdscmp_order_witness:
  "\<exists>s t. sdsnew (Some NUL) (Some ''ab'') = Inr s \<and> sdsnew (Some NUL) (Some ''abc'') = Inr t \<and> sdscmp s t < 0"
proof -
  obtain s t where s: "sdsnew (Some NUL) (Some ''ab'') = Inr s" "sds_ok s" "sds_str s = ''ab''"
    and t: "sdsnew (Some NUL) (Some ''abc'') = Inr t" "sds_ok t" "sds_str t = ''abc''"
    using sdsnew_spec[of "''ab''" NUL] sdsnew_spec[of "''abc''" NUL] by (auto simp: SDS_LIMIT_def)
  moreover have "sdslen s = 2" "sdslen t = 3" using length_sds_str[OF s(2)] length_sds_str[OF t(2)] s(3) t(3) by simp_all
  ultimately show ?thesis using sdscmp_order [OF s(2) t(2)] by auto
qed

section \<open>Splitting and joining\<close>

fun glue :: "'a list \<Rightarrow> 'a list list \<Rightarrow> 'a list" where
  "glue sep [] = []"
| "glue sep [a] = a"
| "glue sep (a # b # as) = a @ sep @ glue sep (b # as)"

lemma set_glue: "set (glue sep ts) \<subseteq> set sep \<union> \<Union> (set ` set ts)"
  by (induction sep ts rule: glue.induct) auto

lemma glue_snoc: "glue sep (ts @ [a @ sep @ b]) = glue sep (ts @ [a, b])"
proof (induction ts)
  case (Cons t ts)
  then show ?case by (cases ts) auto
qed simp

lemma split_loop_glue:
  "start \<le> j \<Longrightarrow> j \<le> length s \<Longrightarrow> glue sep (split_loop s sep j start tokens) = glue sep (tokens @ [drop start s])"
proof (induction s sep j start tokens rule: split_loop.induct)
  case (1 s sep j start tokens)
  show ?case
  proof (cases "sep \<noteq> [] \<and> int j < int (length s) - (int (length sep) - 1)")
    case True
    show ?thesis
    proof (cases "take (length sep) (drop j s) = sep")
      case eq: True
      have "drop start s = take (j - start) (drop start s) @ drop j s"
        using "1.prems" by (metis append_take_drop_id drop_drop le_add_diff_inverse2)
      also have "drop j s = sep @ drop (j + length sep) s" using eq by (metis append_take_drop_id drop_drop add.commute)
      finally have d: "drop start s = take (j - start) (drop start s) @ sep @ drop (j + length sep) s" .
      have "glue sep (split_loop s sep j start tokens) =
          glue sep ((tokens @ [take (j - start) (drop start s)]) @ [drop (j + length sep) s])"
        using "1.IH"(1)[OF True eq] True eq by (subst split_loop.simps) simp
      then show ?thesis using glue_snoc[of sep tokens "take (j - start) (drop start s)" "drop (j + length sep) s"] d by simp
    next
      case False
      have "0 < length sep" using True by simp
      then have "Suc j \<le> length s" using True by linarith
      then show ?thesis using "1.IH"(2)[OF True False] "1.prems" True False by (subst split_loop.simps) simp
    qed
  next
    case False
    then have "split_loop s sep j start tokens = tokens @ [drop start s]" by (subst split_loop.simps) (rule if_not_P)
    then show ?thesis by simp
  qed
qed

text \<open>No separator begins between the start of the token being read and the present position.\<close>

lemma split_loop_free:
  assumes "\<forall>i. start \<le> i \<and> i < j \<longrightarrow> take (length sep) (drop i s) \<noteq> sep" "start \<le> j" "sep \<noteq> []" "j \<le> length s"
    and "\<forall>t \<in> set tokens. \<forall>a b. t \<noteq> a @ sep @ b"
  shows "\<forall>t \<in> set (split_loop s sep j start tokens). \<forall>a b. t \<noteq> a @ sep @ b"
  using assms
proof (induction s sep j start tokens rule: split_loop.induct)
  case (1 s sep j start tokens)
  have hit: "take (length sep) (drop (start + length a) s) = sep" if t: "take n (drop start s) = a @ sep @ b" for n a b
  proof -
    have "take n (drop start s) @ drop n (drop start s) = drop start s" by (rule append_take_drop_id)
    then obtain r where "drop start s = (a @ sep @ b) @ r" using t by metis
    then have "drop (length a) (drop start s) = sep @ b @ r" by simp
    then show ?thesis by (simp add: add.commute)
  qed
  show ?case
  proof (cases "sep \<noteq> [] \<and> int j < int (length s) - (int (length sep) - 1)")
    case True
    show ?thesis
    proof (cases "take (length sep) (drop j s) = sep")
      case eq: True
      have "take (j - start) (drop start s) \<noteq> a @ sep @ b" for a b
      proof
        assume t: "take (j - start) (drop start s) = a @ sep @ b"
        have "length a + length sep \<le> j - start" using arg_cong[OF t, of length] by simp
        moreover have "0 < length sep" using "1.prems"(3) by simp
        ultimately have "start + length a < j" by linarith
        then show False using hit[OF t] "1.prems"(1) by simp
      qed
      then have tok: "\<forall>t \<in> set (tokens @ [take (j - start) (drop start s)]). \<forall>a b. t \<noteq> a @ sep @ b"
        using "1.prems"(5) by simp
      have "split_loop s sep j start tokens =
          split_loop s sep (j + length sep) (j + length sep) (tokens @ [take (j - start) (drop start s)])"
        using True eq by (subst split_loop.simps) simp
      moreover have "j + length sep \<le> length s" using True by linarith
      ultimately show ?thesis using "1.IH"(1)[OF True eq _ _ _ _ tok] "1.prems"(3) by simp
    next
      case False
      then have "\<forall>i. start \<le> i \<and> i < j + 1 \<longrightarrow> take (length sep) (drop i s) \<noteq> sep"
        using "1.prems"(1) by (auto simp: less_Suc_eq)
      moreover have "0 < length sep" using "1.prems"(3) by simp
      then have "Suc j \<le> length s" using True by linarith
      ultimately show ?thesis using "1.IH"(2)[OF True False] "1.prems" True False by (subst split_loop.simps) auto
    qed
  next
    case False
    have "drop start s \<noteq> a @ sep @ b" for a b
    proof
      assume t: "drop start s = a @ sep @ b"
      then have "take (length s) (drop start s) = a @ sep @ b" by (simp del: append_assoc add: t[symmetric])
      note h = hit[OF this]
      have "length a + length sep \<le> length s - start" using arg_cong[OF t, of length] by simp
      moreover have "0 < length sep" using "1.prems"(3) by simp
      ultimately have "start + length a < j" using False "1.prems"(3,4) by auto
      then show False using h "1.prems"(1) by simp
    qed
    then show ?thesis using False "1.prems"(5) by (subst split_loop.simps) auto
  qed
qed

lemma join_loop_spec:
  "sds_ok j \<Longrightarrow> sdslen j + length (glue sep ts) < SDS_LIMIT \<Longrightarrow>
   \<exists>s1. join_loop (Some g) ts sep j = Inr s1 \<and> sds_ok s1 \<and> sds_str s1 = sds_str j @ glue sep ts"
proof (induction sep ts arbitrary: j rule: glue.induct)
  case (2 sep a)
  then show ?case using sdscatlen_spec[of j a g] by auto
next
  case (3 sep a b as)
  obtain s1 where s1: "sdscatlen (Some g) a j = Inr s1" "sds_ok s1" "sds_str s1 = sds_str j @ a"
    using sdscatlen_spec[OF 3(2), of a g] 3(3) by auto
  have l1: "sdslen s1 = sdslen j + length a" using length_sds_str[OF s1(2)] length_sds_str[OF 3(2)] s1(3) by simp
  obtain s2 where s2: "sdscatlen (Some g) sep s1 = Inr s2" "sds_ok s2" "sds_str s2 = sds_str s1 @ sep"
    using sdscatlen_spec[OF s1(2), of sep g] 3(3) l1 by auto
  have l2: "sdslen s2 = sdslen s1 + length sep" using length_sds_str[OF s1(2)] length_sds_str[OF s2(2)] s2(3) by simp
  show ?case using 3(1)[OF s2(2)] 3(3) s1 s2 l1 l2 by auto
qed simp

text \<open>Splitting cuts a string at the occurrences of the separator: no piece holds the separator, and
  joining the pieces with the separator gives the string back.\<close>

theorem split_join_roundtrip:
  assumes "sep \<noteq> []" "s \<noteq> []" "length s < INT_LIMIT"
  shows "\<exists>ts. sdssplitlen (Some g) s sep = Some ts \<and> (\<forall>t \<in> set ts. \<forall>a b. t \<noteq> a @ sep @ b) \<and>
    (\<forall>argv. map sds_str argv = ts \<longrightarrow>
       (\<exists>j. sdsjoinsds (Some g) argv sep = Inr j \<and> sds_ok j \<and> sds_str j = s))"
proof -
  let ?ts = "split_loop s sep 0 0 []"
  have gl: "glue sep ?ts = s" using split_loop_glue[of 0 0 s sep "[]"] by simp
  obtain e where e: "sdsempty (Some g) = Inr e" "sds_ok e" "sds_str e = []"
    using sdsnewlen_spec(1)[of 0 "[]" g] by (auto simp: SDS_LIMIT_def sdsempty_def)
  have "sdslen e = 0" using length_sds_str[OF e(2)] e(3) by simp
  then have "\<exists>j. sdsjoinsds (Some g) argv sep = Inr j \<and> sds_ok j \<and> sds_str j = s" if "map sds_str argv = ?ts" for argv
    using join_loop_spec[OF e(2), of sep ?ts g] gl e INT_LIMIT_SDS[OF assms(3)] that by (simp add: sdsjoinsds_def)
  moreover have "Suc 0 \<le> length sep" using assms(1) by (cases sep) auto
  ultimately show ?thesis
    using split_loop_free[of 0 0 sep s "[]"] assms by (simp add: sdssplitlen_def)
qed

theorem split_join_roundtrip_witness:
  "\<exists>ts. sdssplitlen (Some NUL) ''a--b-'' ''--'' = Some ts \<and> ts = [''a'', ''b-'']"
proof -
  have "split_loop ''a--b-'' ''--'' 0 0 [] = [''a'', ''b-'']" by (simp add: split_loop.simps numeral_eq_Suc)
  then show ?thesis using split_join_roundtrip [of "''--''" "''a--b-''" NUL] by (simp add: sdssplitlen_def INT_LIMIT_def)
qed

section \<open>Quoting\<close>

lemma printf_buflen_enough: "0 < b \<Longrightarrow> n + 2 \<le> printf_buflen n b"
proof (induction n b rule: printf_buflen.induct)
  case (1 n b)
  then show ?case by (subst printf_buflen.simps) auto
qed

text \<open>The buffer is always long enough: \<^verbatim>\<open>sdscatprintf\<close> appends its whole text.\<close>

lemma sdscatprintf_eq: "NUL \<notin> set t \<Longrightarrow> sdscatprintf (Some g) n t s = sdscatlen (Some g) t s"
proof -
  assume t: "NUL \<notin> set t"
  have "length t + 2 \<le> printf_buflen (length t) (if n * 2 > 1024 then n * 2 else 1024)"
    by (rule printf_buflen_enough) simp
  then show ?thesis
    using t by (simp add: sdscatprintf_def sdscatvprintf_def sdscat_def cstr_id Let_def del: mult_2_right)
qed

lemma hex_char_facts:
  assumes "n < 16"
  shows "is_hex_digit (hex_char n)" "hex_digit_to_int (hex_char n) = n" "hex_char n \<noteq> NUL"
proof -
  have "n < 10 \<or> n = 10 \<or> n = 11 \<or> n = 12 \<or> n = 13 \<or> n = 14 \<or> n = 15" using assms by linarith
  then have v: "(of_char (hex_char n) :: nat) = (if n < 10 then 48 + n else 87 + n)"
    by (auto simp: hex_char_def)
  then show "is_hex_digit (hex_char n)" "hex_digit_to_int (hex_char n) = n"
    using assms by (auto simp: is_hex_digit_def hex_digit_to_int_def Let_def)
  have "(of_char (hex_char n) :: nat) \<noteq> of_char NUL" using v by simp
  then show "hex_char n \<noteq> NUL" by metis
qed

lemma byte_lt: "(of_char (c :: char) :: nat) < 256"
  using nat_of_char_less_256[of c] by simp

lemma nibbles: "of_char (c :: char) div 16 < (16::nat)" "of_char (c :: char) mod 16 < (16::nat)"
  using byte_lt[of c] by (auto intro: less_mult_imp_div_less)

lemma repr_no_NUL: "NUL \<notin> set (repr_char c)"
proof -
  note h = hex_char_facts(3)[OF nibbles(1)[of c]] hex_char_facts(3)[OF nibbles(2)[of c]]
  have "isprint c \<Longrightarrow> c \<noteq> NUL" by (auto simp: isprint_def Let_def)
  then show ?thesis using h unfolding repr_char_def by auto
qed

lemma repr_put_eq: "repr_put (Some g) c s = sdscatlen (Some g) (repr_char c) s"
  using repr_no_NUL[of c] by (simp add: repr_put_def sdscatprintf_eq)

definition repr_str :: "char list \<Rightarrow> char list" where
  "repr_str p = CHR 0x22 # concat (map repr_char p) @ [CHR 0x22]"

lemma catlen_then:
  assumes "sds_ok s" "sdslen s + length (t @ u) < SDS_LIMIT"
    and "\<And>s1. sds_ok s1 \<Longrightarrow> sds_str s1 = sds_str s @ t \<Longrightarrow> sdslen s1 = sdslen s + length t \<Longrightarrow>
      \<exists>s2. k s1 = Inr s2 \<and> sds_ok s2 \<and> sds_str s2 = sds_str s1 @ u"
  shows "\<exists>s2. and_then (sdscatlen (Some g) t s) k = Inr s2 \<and> sds_ok s2 \<and> sds_str s2 = sds_str s @ t @ u"
proof -
  obtain s1 where s1: "sdscatlen (Some g) t s = Inr s1" "sds_ok s1" "sds_str s1 = sds_str s @ t"
    using sdscatlen_spec[OF assms(1), of t g] assms(2) by auto
  have "sdslen s1 = sdslen s + length t" using length_sds_str[OF s1(2)] length_sds_str[OF assms(1)] s1(3) by simp
  then show ?thesis using assms(3)[OF s1(2,3)] s1 by auto
qed

lemma repr_loop_spec:
  "sds_ok s \<Longrightarrow> sdslen s + length (concat (map repr_char p)) < SDS_LIMIT \<Longrightarrow>
   \<exists>s1. repr_loop (Some g) p s = Inr s1 \<and> sds_ok s1 \<and> sds_str s1 = sds_str s @ concat (map repr_char p)"
proof (induction p arbitrary: s)
  case (Cons c p)
  have "\<exists>s1. and_then (sdscatlen (Some g) (repr_char c) s) (repr_loop (Some g) p) = Inr s1 \<and> sds_ok s1 \<and>
      sds_str s1 = sds_str s @ repr_char c @ concat (map repr_char p)"
    using Cons.prems by (intro catlen_then Cons.IH) simp_all
  then show ?case by (simp add: repr_put_eq)
qed simp

lemma sdscatrepr_spec:
  assumes "sds_ok s" "sdslen s + length (repr_str p) < SDS_LIMIT"
  shows "\<exists>s1. sdscatrepr (Some g) p s = Inr s1 \<and> sds_ok s1 \<and> sds_str s1 = sds_str s @ repr_str p"
proof -
  let ?b = "concat (map repr_char p)"
  have "\<exists>s2. and_then (repr_loop (Some g) p s1) (sdscatlen (Some g) [CHR 0x22]) = Inr s2 \<and> sds_ok s2 \<and>
      sds_str s2 = sds_str s1 @ ?b @ [CHR 0x22]" if s1: "sds_ok s1" "sdslen s1 = sdslen s + 1" for s1
  proof -
    obtain s2 where s2: "repr_loop (Some g) p s1 = Inr s2" "sds_ok s2" "sds_str s2 = sds_str s1 @ ?b"
      using repr_loop_spec[OF s1(1), of p g] s1(2) assms(2) by (auto simp: repr_str_def)
    have "sdslen s2 = sdslen s1 + length ?b" using length_sds_str[OF s1(1)] length_sds_str[OF s2(2)] s2(3) by simp
    then show ?thesis using sdscatlen_spec[OF s2(2), of "[CHR 0x22]" g] s1(2) s2 assms(2) by (auto simp: repr_str_def)
  qed
  note rest = this
  have "\<exists>s1. sdscatrepr (Some g) p s = Inr s1 \<and> sds_ok s1 \<and> sds_str s1 = sds_str s @ [CHR 0x22] @ ?b @ [CHR 0x22]"
    unfolding sdscatrepr_def using assms by (intro catlen_then rest) (simp_all add: repr_str_def)
  then show ?thesis by (simp add: repr_str_def)
qed

text \<open>Reading back one byte.\<close>

lemma get_token_repr: "get_token Dquote (repr_char c @ r) cur = get_token Dquote r (cur @ [c])"
proof -
  consider "c \<in> {CHR 0x5C, CHR 0x22, CHR 0x0A, CHR 0x0D, CHR 0x09, CHR 0x07, CHR 0x08}"
    | "c \<notin> {CHR 0x5C, CHR 0x22, CHR 0x0A, CHR 0x0D, CHR 0x09, CHR 0x07, CHR 0x08}" "isprint c"
    | "c \<notin> {CHR 0x5C, CHR 0x22, CHR 0x0A, CHR 0x0D, CHR 0x09, CHR 0x07, CHR 0x08}" "\<not> isprint c" by blast
  then show ?thesis
  proof cases
    case 1
    have n: "x \<noteq> CHR ''x'' \<Longrightarrow> hex_escape (x # r) = None" for x by (auto simp: hex_escape_def split: list.splits)
    show ?thesis using 1 by (elim insertE) (simp_all add: repr_char_def unescape_def n)
  next
    case 2
    then show ?thesis by (simp add: repr_char_def)
  next
    case 3
    let ?h = "hex_char (of_char c div 16)" and ?l = "hex_char (of_char c mod 16)"
    have "hex_escape (CHR ''x'' # ?h # ?l # r) = Some (char_of (of_char c div 16 * 16 + of_char c mod 16 :: nat), r)"
      using hex_char_facts[OF nibbles(1)[of c]] hex_char_facts[OF nibbles(2)[of c]] by (simp add: hex_escape_def)
    then have "hex_escape (CHR ''x'' # ?h # ?l # r) = Some (c, r)" by simp
    moreover have "repr_char c = [CHR 0x5C, CHR ''x'', ?h, ?l]" using 3 by (simp add: repr_char_def)
    ultimately show ?thesis by simp
  qed
qed

lemma get_token_body:
  "r = [] \<or> isspace (hd r) \<Longrightarrow>
   get_token Dquote (concat (map repr_char p) @ CHR 0x22 # r) cur = Some (cur @ p, r)"
  by (induction p arbitrary: cur) (auto simp: get_token_repr)

lemma get_token_quoted:
  "r = [] \<or> isspace (hd r) \<Longrightarrow> get_token Plain (repr_str p @ r) [] = Some (p, r)"
  using get_token_body[of r p "[]"] by (simp add: repr_str_def)

lemma not_space_quote: "\<not> isspace (CHR 0x22)" "isspace (CHR 0x20)"
  by (simp_all add: isspace_def)

lemma drop_to_quote: "dropWhile isspace (repr_str p @ r) = repr_str p @ r"
  by (simp add: repr_str_def not_space_quote)

lemma splitargs_quoted:
  "splitargs_loop (glue [CHR 0x20] (map repr_str ps)) vec = Some (vec @ ps) \<and>
   splitargs_loop (CHR 0x20 # glue [CHR 0x20] (map repr_str ps)) vec = Some (vec @ ps)"
proof (induction ps arbitrary: vec)
  case Nil
  then show ?case by (simp add: splitargs_loop.simps not_space_quote)
next
  case (Cons p ps)
  define r where "r = (if ps = [] then [] else CHR 0x20 # glue [CHR 0x20] (map repr_str ps))"
  have g: "glue [CHR 0x20] (map repr_str (p # ps)) = repr_str p @ r" by (cases ps) (auto simp: r_def)
  have t: "get_token Plain (repr_str p @ r) [] = Some (p, r)" by (rule get_token_quoted) (simp add: r_def not_space_quote)
  have n: "repr_str p @ r \<noteq> []" by (simp add: repr_str_def)
  have "splitargs_loop r (vec @ [p]) = Some (vec @ p # ps)"
    using Cons.IH[of "vec @ [p]"] by (cases "ps = []") (simp_all add: r_def)
  then show ?case unfolding g
    using t n by (subst (1 2) splitargs_loop.simps) (simp add: drop_to_quote not_space_quote Let_def)
qed

text \<open>C20: a line of arguments quoted by \<^verbatim>\<open>sdscatrepr\<close>, whatever bytes they hold, is read back by
  \<^verbatim>\<open>sdssplitargs\<close> as those arguments.\<close>

theorem repr_splitargs_roundtrip:
  assumes "sds_ok s" "sds_str s = []" "length (repr_str p) < SDS_LIMIT"
  shows "(\<exists>s1. sdscatrepr (Some g) p s = Inr s1 \<and> sds_ok s1 \<and> sdssplitargs (sbuf s1) = Some [p]) \<and>
    sdssplitargs (glue [CHR 0x20] (map repr_str ps)) = Some ps"
proof -
  have r: "NUL \<notin> set (repr_str q)" for q using repr_no_NUL by (auto simp: repr_str_def)
  have "NUL \<notin> set (glue [CHR 0x20] (map repr_str ps))" using set_glue[of "[CHR 0x20]" "map repr_str ps"] r by auto
  then have two: "sdssplitargs (glue [CHR 0x20] (map repr_str ps)) = Some ps"
    using splitargs_quoted[of ps "[]"] by (simp add: sdssplitargs_def cstr_id)
  have "sdslen s = 0" using length_sds_str[OF assms(1)] assms(2) by simp
  then obtain s1 where s1: "sdscatrepr (Some g) p s = Inr s1" "sds_ok s1" "sds_str s1 = repr_str p"
    using sdscatrepr_spec[OF assms(1), of p g] assms(2,3) by auto
  have "sbuf s1 = sds_str s1 @ NUL # drop (Suc (hlen s1)) (sbuf s1)"
    using id_take_nth_drop[OF sds_ok_len[OF s1(2)]] s1(2) by (simp add: sds_ok_def sds_str_def)
  then have "cstr (sbuf s1) = takeWhile (\<lambda>c. c \<noteq> NUL) (repr_str p @ NUL # drop (Suc (hlen s1)) (sbuf s1))"
    unfolding cstr_def s1(3) by (rule arg_cong)
  also have "\<dots> = repr_str p" using r[of p] by (simp add: takeWhile_append takeWhile_eq_all_conv)
  finally have "cstr (sbuf s1) = repr_str p" .
  then show ?thesis using splitargs_quoted[of "[p]" "[]"] s1 two by (simp add: sdssplitargs_def)
qed

theorem repr_splitargs_roundtrip_witness:
  "\<exists>s s1. sdsempty (Some NUL) = Inr s \<and> sdscatrepr (Some NUL) [CHR 0x00, CHR 0x22] s = Inr s1 \<and>
     sdssplitargs (sbuf s1) = Some [[CHR 0x00, CHR 0x22]]"
proof -
  obtain s where s: "sdsempty (Some NUL) = Inr s" "sds_ok s" "sds_str s = []"
    using sdsnewlen_spec(1)[of 0 "[]" NUL] by (auto simp: SDS_LIMIT_def sdsempty_def)
  have "length (repr_str [CHR 0x00, CHR 0x22]) < SDS_LIMIT" by (simp add: SDS_LIMIT_def repr_str_def repr_char_def isprint_def)
  from repr_splitargs_roundtrip [OF s(2,3) this, of NUL "[]"] show ?thesis using s(1) by blast
qed

end
