(* ===== verification/Dict_Props.thy ===== *)
theory Dict_Props
  imports Dict Sds_Text Bags
begin

text \<open>
  The hash table is a finite map: its invariant, growth that keeps the entries, and the refinement of
  search, insertion, replacement and removal to updates of a map. The keys are compared by an equivalence
  that the hash respects (interface \<open>hashed_keys\<close>), which the callback table of the asynchronous client
  provides.
\<close>

section \<open>The hash\<close>

fun hash_poly :: "char list \<Rightarrow> nat" where
  "hash_poly [] = 0"
| "hash_poly (c # cs) = of_char c * 33 ^ length cs + hash_poly cs"

lemma gen_hash_loop_eq: "gen_hash_loop h cs = h * 33 ^ length cs + word_of_nat (hash_poly cs)"
  by (induction cs arbitrary: h) (simp_all add: push_bit_eq_mult algebra_simps)

text \<open>The hash is the polynomial of the bytes at 33 with leading coefficient 5381, modulo \<open>2 ^ 32\<close>.\<close>

theorem dictGenHash_polynomial:
  "unat (dictGenHashFunction buf) = (5381 * 33 ^ length buf + hash_poly buf) mod 2 ^ 32"
proof -
  have "dictGenHashFunction buf = word_of_nat (5381 * 33 ^ length buf + hash_poly buf)"
    by (simp add: dictGenHashFunction_def gen_hash_loop_eq)
  then show ?thesis by (simp only: unat_of_nat) simp
qed

section \<open>Sizes\<close>

lemma next_power_loop_spec:
  assumes "k \<le> 63" "sz < LONG_MAX"
  shows "\<exists>j. next_power_loop sz (2 ^ k) = Some (2 ^ j) \<and> k \<le> j \<and> j \<le> 63 \<and> sz \<le> 2 ^ j \<and> (j = k \<or> 2 ^ (j - 1) < sz)"
  using assms
proof (induction "63 - k" arbitrary: k)
  case 0
  then have "sz \<le> 2 ^ k" by (simp add: LONG_MAX_def)
  then have "next_power_loop sz (2 ^ k) = Some (2 ^ k)" by (subst next_power_loop.simps) simp
  then show ?case using 0 \<open>sz \<le> 2 ^ k\<close> by (intro exI[of _ k]) simp
next
  case (Suc n)
  show ?case
  proof (cases "sz \<le> 2 ^ k")
    case True
    then show ?thesis by (subst next_power_loop.simps) (use Suc in auto)
  next
    case False
    have k: "Suc k \<le> 63" "n = 63 - Suc k" using Suc.hyps(2) by auto
    then have "(2::nat) ^ Suc k < 2 ^ 64" by (intro power_strict_increasing) auto
    then have "(2::nat) ^ k * 2 mod 2 ^ 64 = 2 ^ Suc k" by simp
    then have e: "next_power_loop sz (2 ^ k) = next_power_loop sz (2 ^ Suc k)"
      using False by (subst next_power_loop.simps) simp
    from Suc.hyps(1)[OF k(2,1) assms(2)] show ?thesis unfolding e using False by (auto simp: not_le)
  qed
qed

text \<open>C22: the search for a table size always ends; below the greatest \<^verbatim>\<open>long\<close> it returns the least power of
  two that is at least 4 and at least the size asked for.\<close>

theorem dictNextPower_returns:
  "\<exists>n. dictNextPower sz = Some n \<and>
     (sz < LONG_MAX \<longrightarrow> (\<exists>k. n = 2 ^ k) \<and> 4 \<le> n \<and> sz \<le> n \<and> (\<forall>j. 4 \<le> (2 :: nat) ^ j \<and> sz \<le> 2 ^ j \<longrightarrow> n \<le> 2 ^ j))"
proof (cases "sz < LONG_MAX")
  case True
  obtain j where j: "next_power_loop sz 4 = Some (2 ^ j)" "2 \<le> j" "sz \<le> 2 ^ j" "j = 2 \<or> 2 ^ (j - 1) < sz"
    using next_power_loop_spec[of 2 sz] True by auto
  have "(2::nat) ^ j \<le> 2 ^ i" if "4 \<le> (2::nat) ^ i" "sz \<le> 2 ^ i" for i
  proof (rule power_increasing)
    have "2 \<le> i"
    proof (rule ccontr)
      assume "\<not> 2 \<le> i" then have "(2::nat) ^ i < 2 ^ 2" by (intro power_strict_increasing) auto
      then show False using that(1) by simp
    qed
    moreover have "j - 1 < i" if "2 ^ (j - 1) < sz"
    proof -
      have "(2::nat) ^ (j - 1) < 2 ^ i" using that \<open>sz \<le> 2 ^ i\<close> by linarith
      then show ?thesis by simp
    qed
    ultimately show "j \<le> i" using j(4) by auto
  qed simp
  moreover have "(4::nat) \<le> 2 ^ j" using power_increasing[OF j(2), of "2::nat"] by simp
  ultimately show ?thesis using True j by (auto simp: dictNextPower_def DICT_HT_INITIAL_SIZE_def)
qed (simp add: dictNextPower_def)

theorem dictNextPower_returns_witness: "dictNextPower 100 = Some 128"
proof -
  obtain n where n: "dictNextPower 100 = Some n" "\<exists>k. n = 2 ^ k" "100 \<le> n" "\<forall>j. 4 \<le> (2 :: nat) ^ j \<and> 100 \<le> (2::nat) ^ j \<longrightarrow> n \<le> 2 ^ j"
    using dictNextPower_returns [of 100] by (auto simp: LONG_MAX_def)
  then obtain k where k: "n = 2 ^ k" by blast
  have "n \<le> 128" using n(4)[rule_format, of 7] by simp
  have "\<not> k < 7"
  proof
    assume "k < 7" then have "(2::nat) ^ k \<le> 2 ^ 6" by (intro power_increasing) auto
    then show False using n(3) k by simp
  qed
  then have "(2::nat) ^ 7 \<le> 2 ^ k" by (intro power_increasing) auto
  then show ?thesis using \<open>n \<le> 128\<close> k n(1) by simp
qed

section \<open>Keys\<close>

definition kclass :: "('k \<Rightarrow> 'k \<Rightarrow> bool) \<Rightarrow> ('k \<Rightarrow> bool) \<Rightarrow> 'k \<Rightarrow> 'k set" where
  "kclass same valid k = {j. valid j \<and> same k j}"

definition keys_ok :: "('k \<Rightarrow> 'k \<Rightarrow> bool) \<Rightarrow> ('k \<Rightarrow> bool) \<Rightarrow> ('k, 'v) chain \<Rightarrow> bool" where
  "keys_ok same valid es \<longleftrightarrow> (\<forall>e \<in> set es. valid (fst e)) \<and> distinct (map (\<lambda>e. kclass same valid (fst e)) es)"

lemma keys_ok_mset: "mset es = mset es' \<Longrightarrow> keys_ok same valid es \<longleftrightarrow> keys_ok same valid es'"
proof -
  assume e: "mset es = mset es'"
  then have "mset (map (\<lambda>e. kclass same valid (fst e)) es) = mset (map (\<lambda>e. kclass same valid (fst e)) es')"
    by (simp only: mset_map)
  then have "distinct (map (\<lambda>e. kclass same valid (fst e)) es) = distinct (map (\<lambda>e. kclass same valid (fst e)) es')"
    by (rule mset_eq_imp_distinct_iff)
  then show ?thesis using mset_eq_setD[OF e] by (simp add: keys_ok_def)
qed

lemma find_chain_NoneD: "find_chain P es = None \<longleftrightarrow> (\<forall>e \<in> set es. \<not> P (fst e))"
  by (induction es) auto

lemma find_chain_SomeD: "find_chain P es = Some e \<Longrightarrow> e \<in> set es \<and> P (fst e)"
  by (induction es) (auto split: if_splits)

text \<open>Keys with an equivalence that the hash respects.\<close>

locale hashed_keys =
  fixes hash :: "'k \<Rightarrow> 32 word" and same :: "'k \<Rightarrow> 'k \<Rightarrow> bool" and valid :: "'k \<Rightarrow> bool"
  assumes same_refl: "valid k \<Longrightarrow> same k k"
    and same_sym: "valid j \<Longrightarrow> valid k \<Longrightarrow> same j k \<Longrightarrow> same k j"
    and same_trans: "valid i \<Longrightarrow> valid j \<Longrightarrow> valid k \<Longrightarrow> same i j \<Longrightarrow> same j k \<Longrightarrow> same i k"
    and same_hash: "valid j \<Longrightarrow> valid k \<Longrightarrow> same j k \<Longrightarrow> hash j = hash k"
begin

lemma kclass_eq: "valid j \<Longrightarrow> valid k \<Longrightarrow> kclass same valid j = kclass same valid k \<longleftrightarrow> same j k"
  unfolding kclass_def using same_refl same_sym same_trans by blast

lemma find_iff:
  assumes "keys_ok same valid es" "valid k"
  shows "find_chain (same k) es = Some e \<longleftrightarrow> e \<in> set es \<and> same k (fst e)"
proof
  assume a: "e \<in> set es \<and> same k (fst e)"
  then obtain d where d: "find_chain (same k) es = Some d" using find_chain_NoneD[of "same k" es] by (cases "find_chain (same k) es") auto
  then have "d \<in> set es" "same k (fst d)" using find_chain_SomeD by metis+
  moreover have v: "valid (fst d)" "valid (fst e)" using a \<open>d \<in> set es\<close> assms(1) by (auto simp: keys_ok_def)
  ultimately have "kclass same valid (fst d) = kclass same valid (fst e)"
    using a kclass_eq[OF v] same_sym[OF assms(2) v(1)] same_trans[OF v(1) assms(2) v(2)] by blast
  then have "d = e"
    using a \<open>d \<in> set es\<close> assms(1) unfolding keys_ok_def distinct_map by (metis (mono_tags, lifting) inj_onD)
  then show "find_chain (same k) es = Some e" using d by simp
qed (rule find_chain_SomeD)

text \<open>The search depends on the set of entries only.\<close>

lemma find_set:
  assumes "keys_ok same valid es" "keys_ok same valid es'" "valid k"
    and "\<And>e. same k (fst e) \<Longrightarrow> e \<in> set es \<longleftrightarrow> e \<in> set es'"
  shows "find_chain (same k) es = find_chain (same k) es'"
  using find_iff[OF assms(1,3)] find_iff[OF assms(2,3)] assms(4) by (metis option.exhaust)

lemma keys_ok_Cons:
  assumes "keys_ok same valid es" "valid k" "find_chain (same k) es = None"
  shows "keys_ok same valid ((k, v) # es)"
proof -
  have "kclass same valid k \<noteq> kclass same valid (fst e)" if "e \<in> set es" for e
    using that assms(1,3) kclass_eq[OF assms(2), of "fst e"] by (auto simp: keys_ok_def find_chain_NoneD)
  then show ?thesis using assms(1,2) by (auto simp: keys_ok_def)
qed

lemma find_None_same:
  assumes "keys_ok same valid es" "valid k" "valid j" "same k j" "find_chain (same k) es = None"
  shows "find_chain (same j) es = None"
proof -
  have "\<not> same j (fst e)" if "e \<in> set es" for e
  proof
    assume "same j (fst e)"
    moreover have "valid (fst e)" "\<not> same k (fst e)" using that assms(1,5) by (auto simp: keys_ok_def find_chain_NoneD)
    ultimately show False using same_trans[OF assms(2,3) _ assms(4)] by blast
  qed
  then show ?thesis by (simp add: find_chain_NoneD)
qed

text \<open>One entry more or less.\<close>

lemma find_add:
  assumes ok: "keys_ok same valid es2" and m: "mset es2 = add_mset e (mset es)" and "valid j"
  shows "keys_ok same valid es"
    and "find_chain (same j) es2 = (if same j (fst e) then Some e else find_chain (same j) es)"
    and "same j (fst e) \<Longrightarrow> find_chain (same j) es = None"
proof -
  have ok2: "keys_ok same valid (e # es)" using keys_ok_mset[of es2 "e # es"] ok m by simp
  then show ok1: "keys_ok same valid es" by (simp add: keys_ok_def)
  have v1: "valid (fst e)" using ok2 by (simp add: keys_ok_def)
  have v2: "valid (fst d) \<and> \<not> same (fst e) (fst d)" if "d \<in> set es" for d
  proof -
    have d: "valid (fst d)" "kclass same valid (fst e) \<noteq> kclass same valid (fst d)"
      using ok2 that by (auto simp: keys_ok_def image_iff)
    then show ?thesis using kclass_eq[OF v1 d(1)] by simp
  qed
  note v = v1 v2
  have "\<not> same j (fst d)" if "same j (fst e)" "d \<in> set es" for d
    using that v same_sym[OF assms(3) v(1)] same_trans[OF v(1) assms(3), of "fst d"] by blast
  then show n: "same j (fst e) \<Longrightarrow> find_chain (same j) es = None" by (auto simp: find_chain_NoneD)
  have s: "set es2 = insert e (set es)" using arg_cong[OF m, of set_mset] by simp
  show "find_chain (same j) es2 = (if same j (fst e) then Some e else find_chain (same j) es)"
  proof (cases "same j (fst e)")
    case True
    then show ?thesis using find_iff[OF ok assms(3), of e] s by simp
  next
    case False
    then show ?thesis using find_set[OF ok ok1 assms(3)] s by auto
  qed
qed

end

section \<open>The invariant\<close>

abbreviation dict_entries :: "('p, 'k, 'v, 'w) dict \<Rightarrow> ('k, 'v) chain" where
  "dict_entries ht \<equiv> concat (table ht)"

text \<open>Every entry is in the chain its hash selects.\<close>

definition placed :: "('p, 'k, 'v, 'w) dict \<Rightarrow> nat \<Rightarrow> ('k, 'v) chain list \<Rightarrow> bool" where
  "placed ht m t \<longleftrightarrow> (\<forall>h < length t. \<forall>e \<in> set (t ! h). slot ht m (fst e) = h)"

definition dict_ok :: "('k \<Rightarrow> bool) \<Rightarrow> ('p, 'k, 'v, 'w) dict \<Rightarrow> bool" where
  "dict_ok valid ht \<longleftrightarrow>
     keys_ok (dictCompareHashKeys ht) valid (dict_entries ht) \<and> used ht = length (dict_entries ht) \<and>
     placed ht (sizemask ht) (table ht) \<and> used ht \<le> dsize ht \<and> length (table ht) = dsize ht \<and>
     (dsize ht = 0 \<or> (\<exists>k. 2 \<le> k \<and> k \<le> 31 \<and> dsize ht = 2 ^ k \<and> sizemask ht = 2 ^ k - 1))"

lemma dict_okD:
  assumes "dict_ok valid ht"
  shows "keys_ok (dictCompareHashKeys ht) valid (dict_entries ht)" "used ht = length (dict_entries ht)"
    "used ht \<le> dsize ht" "length (table ht) = dsize ht"
  using assms unfolding dict_ok_def by blast+

lemma dict_size_bound:
  assumes "dict_ok valid ht"
  shows "dsize ht \<le> 2 ^ 31"
proof (cases "dsize ht = 0")
  case False
  from assms have "dsize ht = 0 \<or> (\<exists>k. 2 \<le> k \<and> k \<le> 31 \<and> dsize ht = 2 ^ k \<and> sizemask ht = 2 ^ k - 1)"
    unfolding dict_ok_def by (elim conjE)
  then obtain k where k: "k \<le> 31" "dsize ht = 2 ^ k" using False by blast
  have "(2::nat) ^ k \<le> 2 ^ 31" using k(1) by (rule power_increasing) simp
  then show ?thesis using k(2) by simp
qed simp

definition same_type :: "('p, 'k, 'v, 'w) dict \<Rightarrow> ('p, 'k, 'v, 'w) dict \<Rightarrow> bool" where
  "same_type ht ht' \<longleftrightarrow> dtype ht' = dtype ht \<and> privdata ht' = privdata ht"

lemma same_type_ops:
  assumes "same_type ht ht'"
  shows "dictCompareHashKeys ht' = dictCompareHashKeys ht" "dictHashKey ht' = dictHashKey ht"
    "dictSetHashKey ht' = dictSetHashKey ht" "dictSetHashVal ht' = dictSetHashVal ht"
    "dictFreeEntryKey ht' = dictFreeEntryKey ht" "dictFreeEntryVal ht' = dictFreeEntryVal ht"
    "slot ht' = slot ht" "placed ht' = placed ht"
  using assms by (auto intro!: ext simp: same_type_def dictCompareHashKeys_def dictHashKey_def dictSetHashKey_def
      dictSetHashVal_def dictFreeEntryKey_def dictFreeEntryVal_def slot_def placed_def cong: option.case_cong)

lemma slot_mod: "slot ht (2 ^ k - 1) key = unat (dictHashKey ht key) mod 2 ^ k"
proof -
  have "slot ht (2 ^ k - 1) key = unat (dictHashKey ht key) AND Bit_Operations.mask k"
    by (simp add: slot_def mask_eq_exp_minus_1)
  also have "\<dots> = unat (dictHashKey ht key) mod 2 ^ k"
    by (simp only: take_bit_eq_mask[symmetric] take_bit_eq_mod)
  finally show ?thesis .
qed

lemma slot_less: "slot ht (2 ^ k - 1) key < 2 ^ k"
  by (simp only: slot_mod) simp

lemma ulong_id: "0 \<le> n \<Longrightarrow> n < 2 ^ 64 \<Longrightarrow> ulong n = nat n"
  by (simp add: ulong_def)

lemma placed_update:
  assumes "placed ht m t" "\<forall>e \<in> set c. slot ht m (fst e) = h"
  shows "placed ht m (t[h := c])"
proof -
  have "slot ht m (fst e) = i" if "i < length t" "e \<in> set (t[h := c] ! i)" for i e
    using that assms by (cases "i = h") (auto simp: placed_def)
  then show ?thesis by (simp add: placed_def)
qed

section \<open>Growth\<close>

lemma move_chain_spec:
  assumes "length t = 2 ^ k" "length es \<le> u" "u < 2 ^ 63" "placed ht (2 ^ k - 1) t"
  shows "\<exists>t'. move_chain ht (2 ^ k - 1) es (u, t) = Inr (u - length es, t') \<and> length t' = 2 ^ k \<and>
    mset (concat t') = mset es + mset (concat t) \<and> placed ht (2 ^ k - 1) t'"
  using assms
proof (induction es arbitrary: u t)
  case (Cons e es)
  let ?h = "slot ht (2 ^ k - 1) (fst e)"
  have h: "?h < length t" using slot_less Cons.prems(1) by metis
  have u: "ulong (int u - 1) = u - 1" using Cons.prems(2,3) by (subst ulong_id) auto
  have p: "placed ht (2 ^ k - 1) (t[?h := e # t ! ?h])"
    using Cons.prems(4) h by (intro placed_update) (auto simp: placed_def)
  have l: "length es \<le> u - 1" "u - 1 < 2 ^ 63" using Cons.prems(2,3) by auto
  obtain t' where t': "move_chain ht (2 ^ k - 1) es (u - 1, t[?h := e # t ! ?h]) = Inr (u - 1 - length es, t')" "length t' = 2 ^ k"
      "mset (concat t') = mset es + mset (concat (t[?h := e # t ! ?h]))" "placed ht (2 ^ k - 1) t'"
    using Cons.IH[OF _ l(1,2) p] Cons.prems(1) by auto
  have "mset (concat (t[?h := e # t ! ?h])) = add_mset e (mset (concat t))"
    using mset_concat_chain_update[OF h, of "e # t ! ?h"] by simp
  then show ?case using t' h u by (auto simp: read_slot_def Let_def)
qed simp

lemma move_slots_spec:
  assumes "length t = 2 ^ k" "u = length (concat cs)" "u < 2 ^ 63" "placed ht (2 ^ k - 1) t"
  shows "\<exists>t'. move_slots ht (2 ^ k - 1) cs (u, t) = Inr (0, t') \<and> length t' = 2 ^ k \<and>
    mset (concat t') = mset (concat cs) + mset (concat t) \<and> placed ht (2 ^ k - 1) t'"
  using assms
proof (induction cs arbitrary: u t)
  case (Cons c cs)
  show ?case
  proof (cases "u > 0")
    case True
    obtain t1 where t1: "move_chain ht (2 ^ k - 1) c (u, t) = Inr (u - length c, t1)" "length t1 = 2 ^ k"
        "mset (concat t1) = mset c + mset (concat t)" "placed ht (2 ^ k - 1) t1"
      using move_chain_spec[OF Cons.prems(1) _ Cons.prems(3,4), of c] Cons.prems(2) by auto
    have "u - length c = length (concat cs)" "u - length c < 2 ^ 63" using Cons.prems(2,3) by auto
    from Cons.IH[OF t1(2) this t1(4)] show ?thesis using True t1 by (auto simp: ac_simps)
  qed (use Cons.prems in auto)
qed simp

lemma dictNextPower_le:
  assumes "sz \<le> 2 ^ 31"
  shows "\<exists>k. dictNextPower sz = Some (2 ^ k) \<and> 2 \<le> k \<and> k \<le> 31 \<and> sz \<le> 2 ^ k"
proof -
  have l: "sz < LONG_MAX" using assms by (simp add: LONG_MAX_def)
  obtain j where j: "next_power_loop sz (2 ^ 2) = Some (2 ^ j)" "2 \<le> j" "sz \<le> 2 ^ j" "j = 2 \<or> 2 ^ (j - 1) < sz"
    using next_power_loop_spec[OF _ l, of 2] by auto
  have "j \<le> 31"
  proof (rule ccontr)
    assume a: "\<not> j \<le> 31"
    then have "(2::nat) ^ 31 \<le> 2 ^ (j - 1)" by (intro power_increasing) auto
    then show False using j(4) a assms by auto
  qed
  then show ?thesis using j l by (auto simp: dictNextPower_def DICT_HT_INITIAL_SIZE_def)
qed

lemma dictExpand_spec:
  assumes ok: "dict_ok valid ht" and sz: "used ht \<le> sz" "sz \<le> 2 ^ 31"
  shows "\<exists>ht'. dictExpand True sz ht = Inr (DICT_OK, ht') \<and> dict_ok valid ht' \<and> same_type ht ht' \<and>
    mset (dict_entries ht') = mset (dict_entries ht) \<and> sz \<le> dsize ht' \<and> dsize ht' \<noteq> 0"
proof -
  obtain k where k: "dictNextPower sz = Some (2 ^ k)" "2 \<le> k" "k \<le> 31" "sz \<le> 2 ^ k" using dictNextPower_le[OF sz(2)] by blast
  have "(2::int) ^ k \<le> 2 ^ 31" using k(3) by (rule power_increasing) simp
  then have b: "ulong (int (2 ^ k) - 1) = 2 ^ k - 1" by (subst ulong_id) (auto simp: nat_diff_distrib nat_power_eq)
  have u: "used ht = length (dict_entries ht)" "used ht < 2 ^ 63" using ok sz by (auto simp: dict_ok_def)
  have "placed ht (2 ^ k - 1) (replicate (2 ^ k) [])" by (simp add: placed_def)
  from move_slots_spec[OF _ u this] obtain t' where t': "move_slots ht (2 ^ k - 1) (table ht) (used ht, replicate (2 ^ k) []) = Inr (0, t')"
      "length t' = 2 ^ k" "mset (concat t') = mset (dict_entries ht)" "placed ht (2 ^ k - 1) t'"
    by (auto simp: concat_replicate_trivial)
  let ?n = "(dictInit ht (dtype ht) (privdata ht))\<lparr>dsize := 2 ^ k, sizemask := 2 ^ k - 1, table := t', used := used ht\<rparr>"
  have s: "same_type ht ?n" by (simp add: same_type_def dictInit_def dictReset_def)
  have "dictExpand True sz ht = Inr (DICT_OK, ?n)"
    using k(1) sz(1) t'(1) b by (simp add: dictExpand_def Let_def)
  moreover have "dict_ok valid ?n"
    using ok t' k sz(1) u(1) same_type_ops[OF s] keys_ok_mset[OF t'(3)] mset_eq_length[OF t'(3)]
    by (auto simp: dict_ok_def)
  ultimately show ?thesis using s t'(3) k(4) by (intro exI[of _ ?n]) simp
qed

lemma dictExpandIfNeeded_spec:
  assumes ok: "dict_ok valid ht" and room: "used ht < 2 ^ 31"
  shows "\<exists>ht'. dictExpandIfNeeded True ht = Inr (DICT_OK, ht') \<and> dict_ok valid ht' \<and> same_type ht ht' \<and>
    mset (dict_entries ht') = mset (dict_entries ht) \<and> used ht' < dsize ht'"
proof -
  have keep: "mset (dict_entries h) = mset (dict_entries ht) \<Longrightarrow> dict_ok valid h \<Longrightarrow> used h = used ht" for h
    using ok mset_eq_length[of "dict_entries h" "dict_entries ht"] by (simp add: dict_ok_def)
  consider "dsize ht = 0" | "dsize ht \<noteq> 0" "used ht = dsize ht" | "dsize ht \<noteq> 0" "used ht \<noteq> dsize ht" by blast
  then show ?thesis
  proof cases
    case 1
    then have "used ht = 0" using ok by (simp add: dict_ok_def)
    then show ?thesis using dictExpand_spec[OF ok, of 4] 1 keep by (fastforce simp: dictExpandIfNeeded_def DICT_HT_INITIAL_SIZE_def)
  next
    case 2
    obtain k where k: "dsize ht = 2 ^ k" using ok 2(1) unfolding dict_ok_def by blast
    have "k < 31"
    proof (rule ccontr)
      assume "\<not> k < 31" then have "(2::nat) ^ 31 \<le> 2 ^ k" by (intro power_increasing) auto
      then show False using k 2 room by simp
    qed
    then have "(2::nat) ^ Suc k \<le> 2 ^ 31" by (intro power_increasing) auto
    then have d: "dsize ht * 2 \<le> 2 ^ 31" using k by simp
    then have "ulong (int (dsize ht) * 2) = dsize ht * 2" by (subst ulong_id) auto
    then show ?thesis using dictExpand_spec[OF ok _ d] 2 keep by (fastforce simp: dictExpandIfNeeded_def)
  next
    case 3
    then show ?thesis using ok by (auto simp: dictExpandIfNeeded_def same_type_def dict_ok_def)
  qed
qed

section \<open>The map\<close>

definition dict_map :: "('p, 'k, 'v, 'w) dict \<Rightarrow> 'k \<Rightarrow> 'v option" where
  "dict_map ht k = map_option snd (find_chain (dictCompareHashKeys ht k) (dict_entries ht))"

definition key_laws :: "('k \<Rightarrow> bool) \<Rightarrow> ('p, 'k, 'v, 'w) dict \<Rightarrow> bool" where
  "key_laws valid ht \<longleftrightarrow> hashed_keys (dictHashKey ht) (dictCompareHashKeys ht) valid \<and>
     (\<forall>k w. valid k \<longrightarrow> valid (fst (dictSetHashKey ht k w)) \<and> dictCompareHashKeys ht k (fst (dictSetHashKey ht k w)))"

lemma key_laws_same: "same_type ht ht' \<Longrightarrow> key_laws valid ht' = key_laws valid ht"
  by (simp add: key_laws_def same_type_ops)

lemma keys_ok_chain: "keys_ok same valid (concat t) \<Longrightarrow> h < length t \<Longrightarrow> keys_ok same valid (t ! h)"
  using keys_ok_mset[of "concat t" "concat (t[h := []]) @ t ! h" same valid] mset_concat_chain_update[of h t "[]"]
  by (auto simp: keys_ok_def)

lemma chain_of_key:
  assumes ok: "dict_ok valid ht" and laws: "key_laws valid ht" and k: "valid k" and size: "dsize ht \<noteq> 0"
  shows "slot ht (sizemask ht) k < length (table ht)" "slot ht (sizemask ht) k < 2 ^ 31"
    "find_chain (dictCompareHashKeys ht k) (table ht ! slot ht (sizemask ht) k) = find_chain (dictCompareHashKeys ht k) (dict_entries ht)"
proof -
  let ?h = "slot ht (sizemask ht) k"
  have hk: "hashed_keys (dictHashKey ht) (dictCompareHashKeys ht) valid" using laws by (simp add: key_laws_def)
  obtain n where n: "n \<le> 31" "dsize ht = 2 ^ n" "sizemask ht = 2 ^ n - 1" using ok size unfolding dict_ok_def by blast
  have "?h < 2 ^ n" unfolding n(3) by (rule slot_less)
  moreover have "(2::nat) ^ n \<le> 2 ^ 31" using n(1) by (rule power_increasing) simp
  moreover have l: "length (table ht) = 2 ^ n" using ok n(2) by (simp add: dict_ok_def)
  ultimately show h: "?h < length (table ht)" and "?h < 2 ^ 31" by simp_all
  have ks: "keys_ok (dictCompareHashKeys ht) valid (dict_entries ht)" using ok by (simp add: dict_ok_def)
  have "e \<in> set (table ht ! ?h) \<longleftrightarrow> e \<in> set (dict_entries ht)" if e: "dictCompareHashKeys ht k (fst e)" for e
  proof
    assume "e \<in> set (dict_entries ht)"
    then obtain i where i: "i < length (table ht)" "e \<in> set (table ht ! i)" by (metis UN_E set_concat in_set_conv_nth)
    then have "slot ht (sizemask ht) (fst e) = i" using ok by (auto simp: dict_ok_def placed_def)
    moreover have "valid (fst e)" using ks \<open>e \<in> set (dict_entries ht)\<close> by (auto simp: keys_ok_def)
    then have "dictHashKey ht k = dictHashKey ht (fst e)" using hashed_keys.same_hash[OF hk k _ e] by blast
    ultimately show "e \<in> set (table ht ! ?h)" using i by (simp add: slot_def)
  qed (use h in \<open>auto intro: nth_mem\<close>)
  then show "find_chain (dictCompareHashKeys ht k) (table ht ! ?h) = find_chain (dictCompareHashKeys ht k) (dict_entries ht)"
    using hashed_keys.find_set[OF hk keys_ok_chain[OF ks h] ks k] by blast
qed

lemma dictFind_spec:
  assumes "dict_ok valid ht" "key_laws valid ht" "valid k"
  shows "\<exists>r. dictFind k ht = Inr r \<and> r = find_chain (dictCompareHashKeys ht k) (dict_entries ht) \<and> map_option snd r = dict_map ht k"
proof (cases "dsize ht = 0")
  case True
  then show ?thesis using assms(1) by (simp add: dictFind_def dict_ok_def dict_map_def)
next
  case False
  then show ?thesis using chain_of_key[OF assms False] by (simp add: dictFind_def read_slot_def dict_map_def)
qed

text \<open>Replacing a chain.\<close>

lemma dict_ok_chain:
  assumes "dict_ok valid ht" "dsize ht \<noteq> 0" "h < length (table ht)" "\<forall>e \<in> set c. slot ht (sizemask ht) (fst e) = h"
    and "keys_ok (dictCompareHashKeys ht) valid (concat ((table ht)[h := c]))"
    and "n = length (concat ((table ht)[h := c]))" "n \<le> dsize ht"
  shows "dict_ok valid (ht\<lparr>table := (table ht)[h := c], used := n\<rparr>) \<and> same_type ht (ht\<lparr>table := (table ht)[h := c], used := n\<rparr>)"
proof -
  let ?h = "ht\<lparr>table := (table ht)[h := c], used := n\<rparr>"
  have s: "same_type ht ?h" by (simp add: same_type_def)
  have "placed ht (sizemask ht) ((table ht)[h := c])" using assms(1,4) by (intro placed_update) (simp_all add: dict_ok_def)
  then have "dict_ok valid ?h" using assms same_type_ops[OF s] unfolding dict_ok_def by simp
  then show ?thesis using s by simp
qed

lemma unlink_mset: "find_chain P c = Some e \<Longrightarrow> mset c = add_mset e (mset (unlink P c))"
  by (induction c) (auto split: if_splits)

lemma set_chain_mset: "find_chain P c = Some e \<Longrightarrow> mset (set_chain P v c) = add_mset (fst e, v) (mset (unlink P c))"
  by (induction c) (auto split: if_splits)

lemma update_mset:
  assumes "h < length t" "mset c + A = mset (t ! h) + B"
  shows "mset (concat (t[h := c])) + A = mset (concat t) + B"
proof -
  have "mset (concat (t[h := c])) + A + mset (t ! h) = mset (concat t) + (mset c + A)"
    using mset_concat_chain_update[OF assms(1), of c] by (simp add: ac_simps)
  also have "\<dots> = mset (concat t) + B + mset (t ! h)" using assms(2) by (simp add: ac_simps)
  finally show ?thesis by simp
qed

lemma dict_map_same:
  assumes "dict_ok valid ht" "dict_ok valid ht'" "same_type ht ht'" "key_laws valid ht" "valid j"
    and "mset (dict_entries ht') = mset (dict_entries ht)"
  shows "dict_map ht' j = dict_map ht j"
proof -
  have hk: "hashed_keys (dictHashKey ht) (dictCompareHashKeys ht) valid" using assms(4) by (simp add: key_laws_def)
  have k: "keys_ok (dictCompareHashKeys ht) valid (dict_entries ht)" "keys_ok (dictCompareHashKeys ht) valid (dict_entries ht')"
    using assms(1,2) same_type_ops(1)[OF assms(3)] by (simp_all add: dict_ok_def)
  have "find_chain (dictCompareHashKeys ht j) (dict_entries ht') = find_chain (dictCompareHashKeys ht j) (dict_entries ht)"
    by (rule hashed_keys.find_set[OF hk k(2,1) assms(5)]) (simp only: mset_eq_setD[OF assms(6)])
  then show ?thesis using same_type_ops(1)[OF assms(3)] by (simp add: dict_map_def)
qed

text \<open>The effect of an insertion and of a removal on the map, up to the equality of keys.\<close>

definition map_put :: "('k \<Rightarrow> 'k \<Rightarrow> bool) \<Rightarrow> 'k \<Rightarrow> 'v \<Rightarrow> ('k \<Rightarrow> 'v option) \<Rightarrow> 'k \<Rightarrow> 'v option" where
  "map_put same k v m = (\<lambda>j. if same k j then Some v else m j)"

definition map_del :: "('k \<Rightarrow> 'k \<Rightarrow> bool) \<Rightarrow> 'k \<Rightarrow> ('k \<Rightarrow> 'v option) \<Rightarrow> 'k \<Rightarrow> 'v option" where
  "map_del same k m = (\<lambda>j. if same k j then None else m j)"

definition agree :: "('k \<Rightarrow> bool) \<Rightarrow> ('k \<Rightarrow> 'v option) \<Rightarrow> ('k \<Rightarrow> 'v option) \<Rightarrow> bool" where
  "agree valid m m' \<longleftrightarrow> (\<forall>j. valid j \<longrightarrow> m j = m' j)"

lemma entry_added:
  assumes ok: "dict_ok valid ht" "dict_ok valid ht'" and st: "same_type ht ht'" and laws: "key_laws valid ht"
    and k: "valid k" "dictCompareHashKeys ht k k'" "valid k'"
    and m: "mset (dict_entries ht') = add_mset (k', v) (mset (dict_entries ht))"
  shows "agree valid (dict_map ht') (map_put (dictCompareHashKeys ht) k v (dict_map ht))"
    and "agree valid (dict_map ht) (map_del (dictCompareHashKeys ht) k (dict_map ht'))"
proof -
  let ?same = "dictCompareHashKeys ht"
  have hk: "hashed_keys (dictHashKey ht) ?same valid" using laws by (simp add: key_laws_def)
  have ks: "keys_ok ?same valid (dict_entries ht')" using ok(2) same_type_ops(1)[OF st] by (simp add: dict_ok_def)
  have sym: "?same j k' \<longleftrightarrow> ?same k j" if "valid j" for j
    using that k hashed_keys.same_sym[OF hk] hashed_keys.same_trans[OF hk] by metis
  note f = hashed_keys.find_add[OF hk ks m]
  have "dict_map ht' j = (if ?same k j then Some v else dict_map ht j) \<and> (?same k j \<longrightarrow> dict_map ht j = None)" if "valid j" for j
    using f(2,3)[OF that] sym[OF that] same_type_ops(1)[OF st] by (simp add: dict_map_def)
  then show "agree valid (dict_map ht') (map_put ?same k v (dict_map ht))" "agree valid (dict_map ht) (map_del ?same k (dict_map ht'))"
    by (auto simp: agree_def map_put_def map_del_def)
qed

lemma dictAdd_spec:
  assumes ok: "dict_ok valid ht" and laws: "key_laws valid ht" and key: "valid key" and room: "used ht < 2 ^ 31"
  shows "\<exists>st ht' w'. dictAdd True key val (ht, w) = Inr (st, ht', w') \<and> dict_ok valid ht' \<and> same_type ht ht' \<and>
    (if dict_map ht key = None
     then st = DICT_OK \<and> (\<exists>v w1. dictSetHashVal ht val w1 = (v, w') \<and> w1 = snd (dictSetHashKey ht key w) \<and>
            agree valid (dict_map ht') (map_put (dictCompareHashKeys ht) key v (dict_map ht)))
     else st = DICT_ERR \<and> w' = w \<and> agree valid (dict_map ht') (dict_map ht))"
proof -
  obtain h1 where h1: "dictExpandIfNeeded True ht = Inr (DICT_OK, h1)" "dict_ok valid h1" "same_type ht h1"
      "mset (dict_entries h1) = mset (dict_entries ht)" "used h1 < dsize h1"
    using dictExpandIfNeeded_spec[OF ok room] by blast
  note ops = same_type_ops[OF h1(3)]
  have l1: "key_laws valid h1" using laws key_laws_same[OF h1(3)] by simp
  have ag: "agree valid (dict_map h1) (dict_map ht)"
    using dict_map_same[OF ok h1(2,3) laws _ h1(4)] by (simp add: agree_def)
  let ?h = "slot h1 (sizemask h1) key"
  have z: "dsize h1 \<noteq> 0" using h1(5) by simp
  note c = chain_of_key[OF h1(2) l1 key z]
  have w32: "wrap32 (int ?h) = int ?h" using c(2) by (auto simp: wrap32_def)
  have mp: "dict_map ht key = None \<longleftrightarrow> find_chain (dictCompareHashKeys h1 key) (table h1 ! ?h) = None"
  proof -
    have "dict_map ht key = dict_map h1 key" using ag key by (simp add: agree_def)
    then show ?thesis unfolding dict_map_def[of h1] c(3) by simp
  qed
  show ?thesis
  proof (cases "dict_map ht key = None")
    case False
    then have "dictAdd True key val (ht, w) = Inr (DICT_ERR, h1, w)"
      using h1(1) c(1) mp by (simp add: dictAdd_def dictKeyIndex_def read_slot_def Let_def)
    then show ?thesis using False h1 ag by auto
  next
    case True
    obtain k' w1 where k': "dictSetHashKey h1 key w = (k', w1)" by fastforce
    obtain v w2 where v: "dictSetHashVal h1 val w1 = (v, w2)" by fastforce
    have kk: "valid k'" "dictCompareHashKeys h1 key k'" using l1 key k' by (simp add: key_laws_def; metis fst_conv)+
    have hk: "hashed_keys (dictHashKey h1) (dictCompareHashKeys h1) valid" using l1 by (simp add: key_laws_def)
    let ?t = "(table h1)[?h := (k', v) # table h1 ! ?h]"
    let ?h2 = "h1\<lparr>table := ?t, used := used h1 + 1\<rparr>"
    have m: "mset (concat ?t) = add_mset (k', v) (mset (dict_entries h1))"
      using mset_concat_chain_update[OF c(1), of "(k', v) # table h1 ! ?h"] by simp
    have "find_chain (dictCompareHashKeys h1 k') (dict_entries h1) = None"
      using hashed_keys.find_None_same[OF hk dict_okD(1)[OF h1(2)] key kk] True mp c(3) by metis
    then have "keys_ok (dictCompareHashKeys h1) valid ((k', v) # dict_entries h1)"
      by (rule hashed_keys.keys_ok_Cons[OF hk dict_okD(1)[OF h1(2)] kk(1)])
    then have ks: "keys_ok (dictCompareHashKeys h1) valid (concat ?t)"
      using keys_ok_mset[of "concat ?t" "(k', v) # dict_entries h1"] m by simp
    have "slot h1 (sizemask h1) k' = ?h" using hashed_keys.same_hash[OF hk key kk(1,2)] by (simp add: slot_def)
    then have pl: "\<forall>e \<in> set ((k', v) # table h1 ! ?h). slot h1 (sizemask h1) (fst e) = ?h"
      using h1(2) c(1) by (auto simp: dict_ok_def placed_def)
    have u: "used h1 + 1 = length (concat ?t)" using mset_eq_length[of "concat ?t" "(k', v) # dict_entries h1"] m h1(2)
      by (simp add: dict_ok_def)
    have ok2: "dict_ok valid ?h2 \<and> same_type h1 ?h2"
      by (rule dict_ok_chain[OF h1(2) z c(1) pl ks u]) (use h1(5) in simp)
    have "used h1 + 1 \<le> 2 ^ 31" using h1(2,4) ok room mset_eq_length[OF h1(4)] by (simp add: dict_ok_def)
    then have "ulong (int (used h1) + 1) = used h1 + 1" by (subst ulong_id) auto
    then have r: "dictAdd True key val (ht, w) = Inr (DICT_OK, ?h2, w2)"
      using h1(1) c(1) mp True w32 k' v by (simp add: dictAdd_def dictKeyIndex_def read_slot_def Let_def)
    have "agree valid (dict_map ?h2) (map_put (dictCompareHashKeys h1) key v (dict_map h1))"
      using entry_added(1)[OF h1(2) _ _ l1 key kk(2,1)] ok2 m by simp
    then have "agree valid (dict_map ?h2) (map_put (dictCompareHashKeys ht) key v (dict_map ht))"
      using ag ops(1) by (simp add: agree_def map_put_def)
    moreover have "same_type ht ?h2" using ok2 h1(3) by (simp add: same_type_def)
    ultimately show ?thesis using True r ok2 k' v ops(3,4) by auto
  qed
qed

lemma dictDelete_spec:
  assumes ok: "dict_ok valid ht" and laws: "key_laws valid ht" and key: "valid key"
  shows "\<exists>st ht' w'. dictDelete key (ht, w) = Inr (st, ht', w') \<and> dict_ok valid ht' \<and> same_type ht ht' \<and>
    agree valid (dict_map ht') (map_del (dictCompareHashKeys ht) key (dict_map ht)) \<and>
    (case find_chain (dictCompareHashKeys ht key) (dict_entries ht) of
       None \<Rightarrow> st = DICT_ERR \<and> w' = w \<and> ht' = ht
     | Some e \<Rightarrow> st = DICT_OK \<and> w' = dictFreeEntryVal ht e (dictFreeEntryKey ht e w) \<and> used ht' + 1 = used ht)"
proof (cases "find_chain (dictCompareHashKeys ht key) (dict_entries ht)")
  case None
  have "agree valid (dict_map ht) (map_del (dictCompareHashKeys ht) key (dict_map ht))"
  proof -
    have hk: "hashed_keys (dictHashKey ht) (dictCompareHashKeys ht) valid" using laws by (simp add: key_laws_def)
    have "find_chain (dictCompareHashKeys ht j) (dict_entries ht) = None" if "valid j" "dictCompareHashKeys ht key j" for j
      using hashed_keys.find_None_same[OF hk _ key that None] ok by (simp add: dict_ok_def)
    then show ?thesis by (simp add: agree_def map_del_def dict_map_def)
  qed
  moreover have "dictDelete key (ht, w) = Inr (DICT_ERR, ht, w)"
    using None chain_of_key[OF ok laws key] by (cases "dsize ht = 0") (simp_all add: dictDelete_def read_slot_def)
  ultimately show ?thesis using None ok by (simp add: same_type_def)
next
  case (Some e)
  let ?h = "slot ht (sizemask ht) key" and ?eq = "dictCompareHashKeys ht key"
  have z: "dsize ht \<noteq> 0"
  proof
    assume "dsize ht = 0" then have "dict_entries ht = []" using ok by (simp add: dict_ok_def)
    then show False using Some by (simp del: concat_eq_Nil_conv)
  qed
  note c = chain_of_key[OF ok laws key z]
  let ?t = "(table ht)[?h := unlink ?eq (table ht ! ?h)]"
  have f: "find_chain ?eq (table ht ! ?h) = Some e" using Some c(3) by simp
  have m: "mset (dict_entries ht) = add_mset e (mset (concat ?t))"
    using update_mset[OF c(1), of "unlink ?eq (table ht ! ?h)" "{#e#}" "{#}"] unlink_mset[OF f] by simp
  have hk: "hashed_keys (dictHashKey ht) (dictCompareHashKeys ht) valid" using laws by (simp add: key_laws_def)
  have ks: "keys_ok (dictCompareHashKeys ht) valid (concat ?t)"
    using hashed_keys.find_add(1)[OF hk _ m key] ok by (simp add: dict_ok_def)
  have u: "used ht - 1 = length (concat ?t)" "0 < used ht"
    using mset_eq_length[of "dict_entries ht" "e # concat ?t"] m ok by (simp_all add: dict_ok_def)
  have pl: "\<forall>d \<in> set (unlink ?eq (table ht ! ?h)). slot ht (sizemask ht) (fst d) = ?h"
  proof
    fix d assume "d \<in> set (unlink ?eq (table ht ! ?h))"
    then have "d \<in> set (table ht ! ?h)" using unlink_mset[OF f] by (metis insertI2 set_mset_add_mset_insert set_mset_mset)
    then show "slot ht (sizemask ht) (fst d) = ?h" using ok c(1) by (auto simp: dict_ok_def placed_def)
  qed
  let ?h2 = "ht\<lparr>table := ?t, used := used ht - 1\<rparr>"
  have ok2: "dict_ok valid ?h2 \<and> same_type ht ?h2"
    by (rule dict_ok_chain[OF ok z c(1) pl ks u(1)]) (use dict_okD(3)[OF ok] in linarith)
  have e: "valid (fst e)" "?eq (fst e)"
    using find_chain_SomeD[OF Some] ok by (auto simp: dict_ok_def keys_ok_def)
  have st2: "same_type ?h2 ht" using ok2 by (simp add: same_type_def)
  have "agree valid (dict_map ?h2) (map_del (dictCompareHashKeys ?h2) key (dict_map ht))"
    using entry_added(2)[OF _ ok st2 _ key _ e(1), of "snd e"] ok2 m e(2) laws key_laws_same[OF st2] same_type_ops(1)[OF st2] by simp
  moreover have "used ht < 2 ^ 64" using dict_size_bound[OF ok] dict_okD(3)[OF ok] by simp
  then have "ulong (int (used ht) - 1) = used ht - 1" using u(2) by (subst ulong_id) auto
  then have "dictDelete key (ht, w) = Inr (DICT_OK, ?h2, dictFreeEntryVal ht e (dictFreeEntryKey ht e w))"
    using z c(1) f by (simp add: dictDelete_def read_slot_def Let_def)
  ultimately show ?thesis using Some ok2 u(2) same_type_ops(1)[OF st2] by auto
qed

lemma dictReplace_spec:
  assumes ok: "dict_ok valid ht" and laws: "key_laws valid ht" and key: "valid key" and room: "used ht < 2 ^ 31"
  shows "\<exists>r ht' w' v. dictReplace True key val (ht, w) = Inr (r, ht', w') \<and> dict_ok valid ht' \<and> same_type ht ht' \<and>
    agree valid (dict_map ht') (map_put (dictCompareHashKeys ht) key v (dict_map ht)) \<and>
    (case find_chain (dictCompareHashKeys ht key) (dict_entries ht) of
       None \<Rightarrow> r = 1 \<and> dictSetHashVal ht val (snd (dictSetHashKey ht key w)) = (v, w')
     | Some e \<Rightarrow> r = 0 \<and> (\<exists>w1. dictSetHashVal ht val w = (v, w1) \<and> w' = dictFreeEntryVal ht e w1))"
proof -
  obtain st h1 w1 where a: "dictAdd True key val (ht, w) = Inr (st, h1, w1)" "dict_ok valid h1" "same_type ht h1"
      "if dict_map ht key = None
       then st = DICT_OK \<and> (\<exists>v w2. dictSetHashVal ht val w2 = (v, w1) \<and> w2 = snd (dictSetHashKey ht key w) \<and>
              agree valid (dict_map h1) (map_put (dictCompareHashKeys ht) key v (dict_map ht)))
       else st = DICT_ERR \<and> w1 = w \<and> agree valid (dict_map h1) (dict_map ht)"
    using dictAdd_spec[OF ok laws key room, of val w] by blast
  show ?thesis
  proof (cases "find_chain (dictCompareHashKeys ht key) (dict_entries ht)")
    case None
    then have "dict_map ht key = None" by (simp add: dict_map_def)
    then show ?thesis using None a by (auto simp: dictReplace_def)
  next
    case (Some e0)
    then have d: "dict_map ht key = Some (snd e0)" by (simp add: dict_map_def)
    then have st: "st = DICT_ERR" "w1 = w" and ag: "agree valid (dict_map h1) (dict_map ht)" using a(4) by simp_all
    note ops = same_type_ops[OF a(3)]
    have l1: "key_laws valid h1" using laws key_laws_same[OF a(3)] by simp
    have hk: "hashed_keys (dictHashKey h1) (dictCompareHashKeys h1) valid" using l1 by (simp add: key_laws_def)
    obtain e where f: "dictFind key h1 = Inr (Some e)" "find_chain (dictCompareHashKeys h1 key) (dict_entries h1) = Some e" "snd e = snd e0"
      using dictFind_spec[OF a(2) l1 key] ag key d by (auto simp: agree_def)
    have z: "dsize h1 \<noteq> 0" using f(1) by (auto simp: dictFind_def split: if_splits)
    note c = chain_of_key[OF a(2) l1 key z]
    obtain v w2 where v: "dictSetHashVal h1 val w = (v, w2)" by fastforce
    let ?h = "slot h1 (sizemask h1) key" and ?eq = "dictCompareHashKeys h1 key"
    let ?u = "(table h1)[?h := unlink ?eq (table h1 ! ?h)]" and ?t = "(table h1)[?h := set_chain ?eq v (table h1 ! ?h)]"
    have fc: "find_chain ?eq (table h1 ! ?h) = Some e" using f(2) c(3) by simp
    have m: "mset (dict_entries h1) = add_mset e (mset (concat ?u))"
      using update_mset[OF c(1), of "unlink ?eq (table h1 ! ?h)" "{#e#}" "{#}"] unlink_mset[OF fc] by simp
    have m2: "mset (concat ?t) = add_mset (fst e, v) (mset (concat ?u))"
      using update_mset[OF c(1), of "set_chain ?eq v (table h1 ! ?h)" "{#e#}" "{#(fst e, v)#}"] unlink_mset[OF fc] set_chain_mset[OF fc, of v] m
      by simp
    have ks: "keys_ok (dictCompareHashKeys h1) valid (concat ?t)"
      using keys_ok_mset[of "concat ?t" "(fst e, v) # concat ?u" "dictCompareHashKeys h1" valid]
        keys_ok_mset[of "dict_entries h1" "e # concat ?u" "dictCompareHashKeys h1" valid] m m2 dict_okD(1)[OF a(2)]
      by (simp add: keys_ok_def)
    have u: "used h1 = length (concat ?t)"
      using arg_cong[OF m, of size] arg_cong[OF m2, of size] dict_okD(2)[OF a(2)] by (simp only: size_mset size_add_mset)
    have "fst ` set (set_chain ?eq v ch) = fst ` set ch" for ch by (induction ch) auto
    then have pl: "\<forall>d \<in> set (set_chain ?eq v (table h1 ! ?h)). slot h1 (sizemask h1) (fst d) = ?h"
      using a(2) c(1) unfolding dict_ok_def placed_def by (metis (no_types, lifting) image_iff)
    have s: "set_entry key v h1 = h1\<lparr>table := ?t, used := used h1\<rparr>" by (simp add: set_entry_def Let_def)
    have ok2: "dict_ok valid (set_entry key v h1) \<and> same_type h1 (set_entry key v h1)"
      unfolding s by (rule dict_ok_chain[OF a(2) z c(1) pl ks u dict_okD(3)[OF a(2)]])
    have e: "valid (fst e)" "?eq (fst e)" using find_chain_SomeD[OF f(2)] dict_okD(1)[OF a(2)] by (auto simp: keys_ok_def)
    have "dict_map (set_entry key v h1) j = (if ?eq j then Some v else dict_map h1 j)" if "valid j" for j
    proof -
      have "dictCompareHashKeys h1 j (fst e) \<longleftrightarrow> ?eq j"
        using that key e hashed_keys.same_sym[OF hk] hashed_keys.same_trans[OF hk] by metis
      then show ?thesis using hashed_keys.find_add(2)[OF hk ks m2 that] hashed_keys.find_add(2)[OF hk dict_okD(1)[OF a(2)] m that]
          same_type_ops(1)[OF ok2[THEN conjunct2]] by (simp add: dict_map_def s)
    qed
    then have "agree valid (dict_map (set_entry key v h1)) (map_put (dictCompareHashKeys ht) key v (dict_map ht))"
      using ag ops(1) by (simp add: agree_def map_put_def)
    moreover have "same_type ht (set_entry key v h1)" using ok2 a(3) by (simp add: same_type_def)
    moreover have "dictFreeEntryVal ht e w2 = dictFreeEntryVal ht e0 w2" using f(3) by (simp only: dictFreeEntryVal_def)
    then have "dictReplace True key val (ht, w) = Inr (0, set_entry key v h1, dictFreeEntryVal ht e0 w2)"
      using a(1) st f(1) v ops(6) by (simp add: dictReplace_def)
    moreover have "dictSetHashVal ht val w = (v, w2)" using v ops(4) by simp
    ultimately show ?thesis using Some ok2 f(3) by auto
  qed
qed


section \<open>The callback table\<close>

definition callback_key :: "sds \<Rightarrow> bool" where
  "callback_key k \<longleftrightarrow> sds_ok k \<and> sdslen k < INT_LIMIT"

lemma callback_key_len: "callback_key k \<Longrightarrow> wrap32 (int (sdslen k)) = int (sdslen k)"
  by (rule wrap32_nat) (simp add: callback_key_def)

lemma callbackKeyCompare_eq:
  assumes "callback_key j" "callback_key k"
  shows "callbackKeyCompare () j k \<longleftrightarrow> sds_str j = sds_str k"
proof -
  have l: "length (sds_str j) = sdslen j" "length (sds_str k) = sdslen k"
    using assms length_sds_str by (auto simp: callback_key_def)
  have u: "ulong (int (sdslen j)) = sdslen j" using assms(1) by (subst ulong_id) (auto simp: callback_key_def INT_LIMIT_def)
  show ?thesis
  proof (cases "sdslen j = sdslen k")
    case True
    have "memcmp (sds_str j) (sds_str k) = 0 \<longleftrightarrow> sds_str j = sds_str k" by (rule memcmp_lex(1)) (simp add: l True)
    then show ?thesis using True callback_key_len[OF assms(1)] callback_key_len[OF assms(2)] u
      by (simp add: callbackKeyCompare_def sds_str_def sdslen_def)
  next
    case False
    then show ?thesis using l callback_key_len[OF assms(1)] callback_key_len[OF assms(2)]
      by (auto simp: callbackKeyCompare_def)
  qed
qed

lemma callbackHash_eq: "callback_key k \<Longrightarrow> callbackHash k = dictGenHashFunction (sds_str k)"
  using callback_key_len[of k] by (simp add: callbackHash_def sds_str_def sdslen_def)

interpretation callbacks: hashed_keys callbackHash "callbackKeyCompare ()" callback_key
  by unfold_locales (simp_all add: callbackKeyCompare_eq callbackHash_eq)

lemma callback_key_laws: "dtype ht = callbackDict \<Longrightarrow> key_laws callback_key ht"
proof -
  assume t: "dtype ht = callbackDict"
  have "dictHashKey ht = callbackHash" "dictCompareHashKeys ht = callbackKeyCompare ()"
    using t by (auto intro!: ext simp: dictHashKey_def dictCompareHashKeys_def callbackDict_def)
  then show ?thesis
    using callbacks.hashed_keys_axioms callbacks.same_refl t by (simp add: key_laws_def dictSetHashKey_def callbackDict_def)
qed

lemma dictCreate_ok: "dict_ok valid (dictCreate ty p)"
  by (simp add: dict_ok_def dictCreate_def dictInit_def dictReset_def keys_ok_def placed_def)


end
