(* ===== verification/Dict_Iter.thy ===== *)
theory Dict_Iter
  imports Dict_Props
begin

text \<open>
  Iteration over the hash table visits every entry once, releasing frees every entry once, and the user
  may delete the entry an iterator has just returned.
\<close>

section \<open>Iteration\<close>

text \<open>The entries an iterator has still to return.\<close>

definition remaining :: "('p, 'k, 'v, 'w) dict \<Rightarrow> ('k, 'v) dictIterator \<Rightarrow> ('k, 'v) chain" where
  "remaining ht it = (if it_entry it = [] then [] else it_nextEntry it) @ concat (drop (nat (it_index it + 1)) (table ht))"

definition iter_ok :: "('p, 'k, 'v, 'w) dict \<Rightarrow> ('k, 'v) dictIterator \<Rightarrow> bool" where
  "iter_ok ht it \<longleftrightarrow> -1 \<le> it_index it \<and> length (table ht) = dsize ht \<and> dsize ht < 2 ^ 31 \<and>
     placed ht (sizemask ht) (table ht) \<and>
     (it_entry it \<noteq> [] \<longrightarrow> 0 \<le> it_index it \<and> (\<forall>e \<in> set (it_nextEntry it). slot ht (sizemask ht) (fst e) = nat (it_index it)))"

lemma small_size: "dsize ht < 2 ^ 31 \<Longrightarrow> wrap32 (int (dsize ht)) = int (dsize ht)"
  by (rule wrap32_nat) (simp add: INT_LIMIT_def)

lemma dictNext_loop_spec:
  "iter_ok ht it \<Longrightarrow> (case remaining ht it of
     [] \<Rightarrow> \<exists>it'. dictNext_loop ht it = Some (Inr (None, it'))
   | e # es \<Rightarrow> \<exists>it'. dictNext_loop ht it = Some (Inr (Some e, it')) \<and> iter_ok ht it' \<and> remaining ht it' = es \<and>
       slot ht (sizemask ht) (fst e) = nat (it_index it') \<and> 0 \<le> it_index it')"
proof (induction "2 * nat (int (dsize ht) - it_index it) + length (it_entry it)" arbitrary: it rule: less_induct)
  case less
  have ok: "-1 \<le> it_index it" "length (table ht) = dsize ht" "wrap32 (int (dsize ht)) = int (dsize ht)"
    using less.prems small_size by (auto simp: iter_ok_def)
  show ?case
  proof (cases "it_entry it = []")
    case nil: True
    show ?thesis
    proof (cases "int (dsize ht) \<le> it_index it + 1")
      case True
      then have "remaining ht it = []" using nil ok by (simp add: remaining_def)
      then show ?thesis using nil True ok by (subst dictNext_loop.simps) (simp add: Let_def)
    next
      case False
      let ?i = "nat (it_index it + 1)"
      have i: "?i < length (table ht)" "nat (it_index it + 2) = Suc ?i" using False ok by auto
      have d: "drop ?i (table ht) = table ht ! ?i # drop (Suc ?i) (table ht)" using i(1) by (simp add: Cons_nth_drop_Suc)
      show ?thesis
      proof (cases "table ht ! ?i")
        case Nil
        let ?it = "it\<lparr>it_index := it_index it + 1, it_entry := []\<rparr>"
        have r: "remaining ht it = remaining ht ?it" using nil d i(2) Nil by (simp add: remaining_def add.commute)
        have e: "dictNext_loop ht it = dictNext_loop ht ?it" using nil False ok i Nil by (subst dictNext_loop.simps) (simp add: Let_def)
        have "iter_ok ht ?it" using less.prems by (simp add: iter_ok_def)
        then show ?thesis using less.hyps[of ?it] nil False unfolding r e by simp
      next
        case (Cons e es)
        let ?it = "it\<lparr>it_index := it_index it + 1, it_entry := e # es, it_nextEntry := es\<rparr>"
        have "remaining ht it = e # remaining ht ?it" using nil d i(2) Cons by (simp add: remaining_def add.commute)
        moreover have "dictNext_loop ht it = Some (Inr (Some e, ?it))" using nil False ok i Cons by (subst dictNext_loop.simps) (simp add: Let_def)
        moreover have "\<forall>d \<in> set (table ht ! ?i). slot ht (sizemask ht) (fst d) = ?i"
          using less.prems i(1) by (simp add: iter_ok_def placed_def)
        then have "iter_ok ht ?it" "slot ht (sizemask ht) (fst e) = ?i" "0 \<le> it_index it + 1"
          using less.prems Cons by (simp_all add: iter_ok_def)
        ultimately show ?thesis by simp
      qed
    qed
  next
    case False
    show ?thesis
    proof (cases "it_nextEntry it")
      case Nil
      let ?it = "it\<lparr>it_entry := []\<rparr>"
      have r: "remaining ht it = remaining ht ?it" using False Nil by (simp add: remaining_def)
      have e: "dictNext_loop ht it = dictNext_loop ht ?it" using False Nil by (subst dictNext_loop.simps) (simp add: Let_def)
      have "iter_ok ht ?it" using less.prems by (simp add: iter_ok_def)
      then show ?thesis using less.hyps[of ?it] False unfolding r e by simp
    next
      case (Cons e es)
      let ?it = "it\<lparr>it_entry := e # es, it_nextEntry := es\<rparr>"
      have "remaining ht it = e # remaining ht ?it" using False Cons by (simp add: remaining_def)
      moreover have "dictNext_loop ht it = Some (Inr (Some e, ?it))" using False Cons by (subst dictNext_loop.simps) (simp add: Let_def)
      moreover have "iter_ok ht ?it" "slot ht (sizemask ht) (fst e) = nat (it_index it)" "0 \<le> it_index it"
        using less.prems False Cons by (simp_all add: iter_ok_def)
      ultimately show ?thesis by simp
    qed
  qed
qed

lemma dictNext_spec:
  assumes "iter_ok ht it"
  shows "remaining ht it = [] \<Longrightarrow> \<exists>it'. dictNext ht it = Inr (None, it')"
    and "remaining ht it = e # es \<Longrightarrow> \<exists>it'. dictNext ht it = Inr (Some e, it') \<and> iter_ok ht it' \<and> remaining ht it' = es \<and>
      slot ht (sizemask ht) (fst e) = nat (it_index it') \<and> 0 \<le> it_index it'"
  using dictNext_loop_spec[OF assms] by (auto simp: dictNext_def)

lemma iter_ok_start: "dict_ok valid ht \<Longrightarrow> dsize ht < 2 ^ 31 \<Longrightarrow> iter_ok ht dictGetIterator"
  by (simp add: iter_ok_def dictGetIterator_def dict_ok_def)

text \<open>A loop over the table that calls \<^verbatim>\<open>dictNext\<close> at most \<open>n\<close> times and stops at its null pointer.\<close>

fun walk :: "nat \<Rightarrow> ('p, 'k, 'v, 'w) dict \<Rightarrow> ('k, 'v) dictIterator \<Rightarrow> dict_fault + ('k, 'v) chain \<times> bool" where
  "walk 0 ht it = Inr ([], False)"
| "walk (Suc n) ht it =
     dict_then (dictNext ht it)
       (\<lambda>(r, it'). case r of
                     None \<Rightarrow> Inr ([], True)
                   | Some e \<Rightarrow> dict_then (walk n ht it') (\<lambda>(es, b). Inr (e # es, b)))"

lemma walk_remaining: "iter_ok ht it \<Longrightarrow> walk (Suc (length (remaining ht it))) ht it = Inr (remaining ht it, True)"
proof (induction "remaining ht it" arbitrary: it)
  case Nil
  then show ?case using dictNext_spec(1)[of ht it] by auto
next
  case (Cons e es)
  obtain it' where "dictNext ht it = Inr (Some e, it')" "iter_ok ht it'" "remaining ht it' = es"
    using dictNext_spec(2)[OF Cons.prems, of e es] Cons.hyps(2) by auto
  then show ?case using Cons.hyps(1)[of it'] Cons.hyps(2)[symmetric] by simp
qed

text \<open>C23: an iterator over a table of fewer than \<open>2 ^ 31\<close> slots returns every entry exactly once, chain by
  chain, and then the null pointer; over a table of \<open>2 ^ 31\<close> slots, whose size is negative as a signed
  number, it returns nothing at all.\<close>

theorem iteration_complete:
  assumes "dict_ok valid ht"
  shows "(dsize ht < 2 ^ 31 \<longrightarrow> walk (used ht + 1) ht dictGetIterator = Inr (dict_entries ht, True)) \<and>
    (dsize ht = 2 ^ 31 \<longrightarrow> walk 1 ht dictGetIterator = Inr ([], True))"
proof (intro conjI impI)
  assume s: "dsize ht < 2 ^ 31"
  let ?it = "dictGetIterator :: ('a, 'c) dictIterator"
  have r: "remaining ht dictGetIterator = dict_entries ht" by (simp add: remaining_def dictGetIterator_def)
  have "iter_ok ht dictGetIterator" by (rule iter_ok_start[OF assms s])
  from walk_remaining[OF this] show "walk (used ht + 1) ht dictGetIterator = Inr (dict_entries ht, True)"
    unfolding r using dict_okD(2)[OF assms] by simp
next
  assume "dsize ht = 2 ^ 31"
  then have "\<exists>it. dictNext ht dictGetIterator = Inr (None, it)"
    unfolding dictNext_def by (subst dictNext_loop.simps) (simp add: dictGetIterator_def wrap32_def Let_def)
  then show "walk 1 ht dictGetIterator = Inr ([], True)" by auto
qed

text \<open>A table with two entries whose keys are numbers.\<close>

definition small_dict :: "(unit, nat, bool, unit) dict" where
  "small_dict = \<lparr>table = [[], [(5, True)], [], [(3, False)]],
     dtype = \<lparr>hashFunction = word_of_nat, keyDup = None, valDup = None, keyCompare = None, keyDestructor = None, valDestructor = None\<rparr>,
     dsize = 4, sizemask = 3, used = 2, privdata = ()\<rparr>"

lemma small_dict_simps:
  "dsize small_dict < 2 ^ 31" "used small_dict + 1 = 3" "dict_entries small_dict = [(5, True), (3, False)]"
  "sizemask small_dict = 2 ^ 2 - 1" "dsize small_dict = 2 ^ 2" "table small_dict = [[], [(5, True)], [], [(3, False)]]"
  by (simp_all add: small_dict_def)

lemma small_dict_laws: "key_laws (\<lambda>_. True) small_dict"
  by (auto simp: key_laws_def small_dict_def dictSetHashKey_def hashed_keys_def dictCompareHashKeys_def)

lemma small_dict_ok: "dict_ok (\<lambda>_. True) small_dict"
proof -
  have c: "dictCompareHashKeys small_dict = (=)" by (auto intro!: ext simp: dictCompareHashKeys_def small_dict_def)
  have "slot small_dict (2 ^ 2 - 1) 5 = 1" "slot small_dict (2 ^ 2 - 1) 3 = 3"
    by (simp_all only: slot_mod) (simp_all add: dictHashKey_def small_dict_def)
  then have "placed small_dict (sizemask small_dict) (table small_dict)"
    unfolding small_dict_simps(4,6) placed_def by (auto simp: less_Suc_eq nth_Cons split: nat.splits)
  moreover have "\<exists>k. 2 \<le> k \<and> k \<le> 31 \<and> dsize small_dict = 2 ^ k \<and> sizemask small_dict = 2 ^ k - 1"
    by (rule exI[of _ 2]) (simp add: small_dict_def)
  moreover have "keys_ok (dictCompareHashKeys small_dict) (\<lambda>_. True) (dict_entries small_dict)"
  proof -
    have "kclass (=) (\<lambda>_. True) k = {k}" for k :: nat by (auto simp: kclass_def)
    then show ?thesis unfolding small_dict_simps(3) c keys_ok_def by simp
  qed
  moreover have "used small_dict = length (dict_entries small_dict)" "used small_dict \<le> dsize small_dict"
      "length (table small_dict) = dsize small_dict" by (simp_all add: small_dict_def)
  ultimately show ?thesis unfolding dict_ok_def by blast
qed

theorem iteration_complete_witness:
  "walk 3 small_dict dictGetIterator = Inr ([(5, True), (3, False)], True)"
  using iteration_complete [OF small_dict_ok] small_dict_simps(1) unfolding small_dict_simps(2,3) by blast

section \<open>Deleting while iterating\<close>

text \<open>A loop that deletes every entry it is given.\<close>

fun drain :: "nat \<Rightarrow> ('p, 'k, 'v, 'w) dict \<times> 'w \<Rightarrow> ('k, 'v) dictIterator \<Rightarrow>
    dict_fault + ('k, 'v) chain \<times> ('p, 'k, 'v, 'w) dict \<times> 'w" where
  "drain 0 s it = Inr ([], s)"
| "drain (Suc n) s it =
     dict_then (dictNext (fst s) it)
       (\<lambda>(r, it'). case r of
                     None \<Rightarrow> Inr ([], s)
                   | Some e \<Rightarrow>
                       dict_then (dictDelete (fst e) s)
                         (\<lambda>(st, s1). dict_then (drain n s1 it') (\<lambda>(es, s2). Inr (e # es, s2))))"

lemma delete_chain:
  assumes ok: "dict_ok valid ht" and laws: "key_laws valid ht" and e: "e \<in> set (dict_entries ht)"
  shows "\<exists>ht' w'. dictDelete (fst e) (ht, w) = Inr (DICT_OK, ht', w') \<and> dict_ok valid ht' \<and> same_type ht ht' \<and>
    sizemask ht' = sizemask ht \<and> dsize ht' = dsize ht \<and>
    mset (dict_entries ht) = add_mset e (mset (dict_entries ht')) \<and>
    (\<forall>i. i \<noteq> slot ht (sizemask ht) (fst e) \<longrightarrow> table ht' ! i = table ht ! i)"
proof -
  let ?h = "slot ht (sizemask ht) (fst e)" and ?eq = "dictCompareHashKeys ht (fst e)"
  have hk: "hashed_keys (dictHashKey ht) (dictCompareHashKeys ht) valid" using laws by (simp add: key_laws_def)
  have v: "valid (fst e)" using e dict_okD(1)[OF ok] by (auto simp: keys_ok_def)
  have f: "find_chain ?eq (dict_entries ht) = Some e"
    using hashed_keys.find_iff[OF hk dict_okD(1)[OF ok] v, of e] e hashed_keys.same_refl[OF hk v] by blast
  obtain ht' w' where d: "dictDelete (fst e) (ht, w) = Inr (DICT_OK, ht', w')" "dict_ok valid ht'" "same_type ht ht'"
    using dictDelete_spec[OF ok laws v, of w] f by auto
  have z: "dsize ht \<noteq> 0" using d(1) by (auto simp: dictDelete_def split: if_splits)
  note c = chain_of_key[OF ok laws v z]
  have fc: "find_chain ?eq (table ht ! ?h) = Some e" using f c(3) by simp
  have h: "ht' = ht\<lparr>table := (table ht)[?h := unlink ?eq (table ht ! ?h)], used := ulong (int (used ht) - 1)\<rparr>"
    using d(1) z c(1) fc by (auto simp: dictDelete_def read_slot_def Let_def)
  have "mset (dict_entries ht) = add_mset e (mset (dict_entries ht'))"
    using update_mset[OF c(1), of "unlink ?eq (table ht ! ?h)" "{#e#}" "{#}"] unlink_mset[OF fc] unfolding h by simp
  then show ?thesis using d h by auto
qed

lemma drain_spec:
  assumes "dict_ok valid ht" "key_laws valid ht" "iter_ok ht it" "mset (dict_entries ht) = mset (remaining ht it)"
  shows "\<exists>ht' w'. drain (Suc (length (remaining ht it))) (ht, w) it = Inr (remaining ht it, ht', w') \<and>
    dict_ok valid ht' \<and> used ht' = 0"
  using assms
proof (induction "remaining ht it" arbitrary: ht it w)
  case Nil
  then obtain it' where "dictNext ht it = Inr (None, it')" using dictNext_spec(1)[of ht it] by auto
  then show ?case using Nil dict_okD(2)[OF Nil.prems(1)] by (simp del: concat_eq_Nil_conv)
next
  case (Cons e es)
  obtain it' where n: "dictNext ht it = Inr (Some e, it')" "iter_ok ht it'" "remaining ht it' = es"
      "slot ht (sizemask ht) (fst e) = nat (it_index it')" "0 \<le> it_index it'"
    using dictNext_spec(2)[OF Cons.prems(3), of e es] Cons.hyps(2) by auto
  have m: "mset (dict_entries ht) = add_mset e (mset es)" using Cons.prems(4) Cons.hyps(2)[symmetric] by simp
  then have "e \<in> set (dict_entries ht)" by (metis set_mset_mset union_single_eq_member)
  from delete_chain[OF Cons.prems(1,2) this, of w]
  obtain h1 w1 where d: "dictDelete (fst e) (ht, w) = Inr (DICT_OK, h1, w1)" "dict_ok valid h1" "same_type ht h1"
      "sizemask h1 = sizemask ht" "dsize h1 = dsize ht" "mset (dict_entries ht) = add_mset e (mset (dict_entries h1))"
      "\<And>i. i \<noteq> slot ht (sizemask ht) (fst e) \<Longrightarrow> table h1 ! i = table ht ! i" by blast
  have len: "length (table h1) = length (table ht)" using dict_okD(4)[OF d(2)] dict_okD(4)[OF Cons.prems(1)] d(5) by simp
  have ix: "nat (it_index it' + 1) = Suc (nat (it_index it'))" using n(5) by simp
  have dr: "drop (nat (it_index it' + 1)) (table h1) = drop (nat (it_index it' + 1)) (table ht)"
    using len d(7) n(4) unfolding ix by (intro nth_equalityI) simp_all
  have r: "remaining h1 it' = es" using n(3) dr by (simp add: remaining_def)
  have "iter_ok h1 it'" using n(2) d(2,4,5) same_type_ops[OF d(3)] by (auto simp: iter_ok_def dict_ok_def)
  moreover have "mset (dict_entries h1) = mset (remaining h1 it')" using m d(6) r by simp
  moreover have "key_laws valid h1" using Cons.prems(2) key_laws_same[OF d(3)] by simp
  ultimately obtain h2 w2 where "drain (Suc (length es)) (h1, w1) it' = Inr (es, h2, w2)" "dict_ok valid h2" "used h2 = 0"
    using Cons.hyps(1)[of h1 it' w1] d(2) r by auto
  then show ?case using n(1) d(1) Cons.hyps(2)[symmetric] by (auto simp del: drain.simps(2) simp: drain.simps(2)[of "Suc (length es)"])
qed

text \<open>Deleting the entry an iterator has just returned does not disturb the iteration: a loop that
  deletes every entry it is given sees every entry once and leaves the table empty.\<close>

theorem drain_empties:
  assumes "dict_ok valid ht" "key_laws valid ht" "dsize ht < 2 ^ 31"
  shows "\<exists>ht' w'. drain (used ht + 1) (ht, w) dictGetIterator = Inr (dict_entries ht, ht', w') \<and>
    dict_ok valid ht' \<and> used ht' = 0"
proof -
  have r: "remaining ht dictGetIterator = dict_entries ht" by (simp add: remaining_def dictGetIterator_def)
  show ?thesis
    using drain_spec[OF assms(1,2) iter_ok_start[OF assms(1,3)], of w] dict_okD(2)[OF assms(1)] unfolding r by simp
qed

theorem drain_empties_witness:
  "\<exists>ht' w'. drain 3 (small_dict, ()) dictGetIterator = Inr ([(5, True), (3, False)], ht', w') \<and> used ht' = 0"
  using drain_empties [OF small_dict_ok small_dict_laws small_dict_simps(1), of "()"] unfolding small_dict_simps(2,3) by blast

section \<open>Release\<close>

lemma clear_chain_spec:
  "length es \<le> u \<Longrightarrow> u < 2 ^ 63 \<Longrightarrow>
   clear_chain ht es (u, w) = (u - length es, fold (\<lambda>e w. dictFreeEntryVal ht e (dictFreeEntryKey ht e w)) es w)"
proof (induction es arbitrary: u w)
  case (Cons e es)
  have "ulong (int u - 1) = u - 1" using Cons.prems by (subst ulong_id) auto
  then show ?case using Cons by simp
qed simp

lemma clear_slots_spec:
  "u = length (concat cs) \<Longrightarrow> u < 2 ^ 63 \<Longrightarrow>
   clear_slots ht cs (u, w) = (0, fold (\<lambda>e w. dictFreeEntryVal ht e (dictFreeEntryKey ht e w)) (concat cs) w)"
proof (induction cs arbitrary: u w)
  case (Cons c cs)
  show ?case
  proof (cases "u > 0")
    case True
    then show ?thesis using Cons clear_chain_spec[of c u ht w] by simp
  next
    case False
    then have "c = []" "concat cs = []" using Cons.prems(1) by (simp_all del: concat_eq_Nil_conv)
    then show ?thesis using False by (simp del: concat_eq_Nil_conv)
  qed
qed simp

text \<open>Releasing the table calls the destructors of every key and value once.\<close>

lemma dictRelease_spec:
  assumes "dict_ok valid ht"
  shows "dictRelease (ht, w) = fold (\<lambda>e w. dictFreeEntryVal ht e (dictFreeEntryKey ht e w)) (dict_entries ht) w"
proof -
  have "used ht < 2 ^ 63" using dict_okD(3)[OF assms] dict_size_bound[OF assms] by simp
  then show ?thesis
    using clear_slots_spec[OF dict_okD(2)[OF assms], of ht w] by (simp add: dictRelease_def dictClear_def)
qed

end
