(* ===== verification/Reader.thy ===== *)
theory Reader
  imports Sds_Text
begin

text \<open>
  The protocol reader of the vendored Redis client (vendors/hiredis/read.h and read.c): a buffer that is
  fed with bytes, a stack of at most nine tasks for nested arrays, and a loop that turns complete items
  into objects.

  \<^item> \<open>rtype = None\<close> is the type -1 of a task whose type byte has not been read. A parent pointer is the index
    of the parent task.
  \<^item> The functions that create and free objects are a parameter, as in the code; they act on a state of
    their own and see the tasks from the root to the current one. Without them an object is the number of
    its type (\<open>Tag\<close>).
  \<^item> A failed assertion, an access outside the stack or the buffer and a loop that does not end are
    faults; \<open>True\<close> is \<^verbatim>\<open>REDIS_OK\<close>.
\<close>

section \<open>State\<close>

datatype reply_type = REDIS_REPLY_STRING | REDIS_REPLY_ARRAY | REDIS_REPLY_INTEGER | REDIS_REPLY_NIL
  | REDIS_REPLY_STATUS | REDIS_REPLY_ERROR

datatype redis_err = REDIS_ERR_IO | REDIS_ERR_OTHER | REDIS_ERR_EOF | REDIS_ERR_PROTOCOL | REDIS_ERR_OOM

datatype 'o robj = Tag reply_type | Obj 'o

record 'o redisReadTask =
  rtype :: "reply_type option"
  elements :: int
  idx :: int
  tobj :: "'o robj option"
  parent :: "nat option"

record ('o, 's) redisReplyObjectFunctions =
  createString :: "('o redisReadTask list \<Rightarrow> char list \<Rightarrow> 's \<Rightarrow> 'o option \<times> 's) option"
  createArray :: "('o redisReadTask list \<Rightarrow> int \<Rightarrow> 's \<Rightarrow> 'o option \<times> 's) option"
  createInteger :: "('o redisReadTask list \<Rightarrow> int \<Rightarrow> 's \<Rightarrow> 'o option \<times> 's) option"
  createNil :: "('o redisReadTask list \<Rightarrow> 's \<Rightarrow> 'o option \<times> 's) option"
  freeObject :: "('o robj \<Rightarrow> 's \<Rightarrow> 's) option"

record ('o, 's) redisReader =
  err :: "redis_err option"
  errstr :: "char list"
  rbuf :: "sds option"
  pos :: nat
  len :: nat
  maxbuf :: nat
  rstack :: "'o redisReadTask list"
  ridx :: int
  reply :: "'o robj option"
  fn :: "('o, 's) redisReplyObjectFunctions option"
  store :: 's

datatype reader_fault = Assert_failed | Bad_access | No_reply

definition rthen :: "reader_fault + 'a \<Rightarrow> ('a \<Rightarrow> reader_fault + 'b) \<Rightarrow> reader_fault + 'b" where
  "rthen r f = (case r of Inl e \<Rightarrow> Inl e | Inr x \<Rightarrow> f x)"

lemma rthen_simps [simp]: "rthen (Inr x) f = f x" "rthen (Inl e) f = Inl e"
  by (simp_all add: rthen_def)

definition REDIS_READER_MAX_BUF :: nat where
  "REDIS_READER_MAX_BUF = 1024 * 16"

definition new_task :: "'o redisReadTask" where
  "new_task = \<lparr>rtype = None, elements = -1, idx = -1, tobj = None, parent = None\<rparr>"

section \<open>Errors\<close>

definition setError :: "redis_err \<Rightarrow> char list \<Rightarrow> ('o, 's) redisReader \<Rightarrow> ('o, 's) redisReader" where
  "setError type str r =
     (let r1 = (case (reply r, fn r) of
                  (Some q, Some f) \<Rightarrow>
                    (case freeObject f of
                       Some free \<Rightarrow> r\<lparr>store := free q (store r), reply := None\<rparr>
                     | None \<Rightarrow> r)
                | _ \<Rightarrow> r)
      in r1\<lparr>rbuf := None, pos := 0, len := 0, ridx := -1, err := Some type, errstr := take 127 (cstr str)\<rparr>)"

definition chrtos :: "char \<Rightarrow> char list" where
  "chrtos byte = take 7 ([CHR 0x22] @ repr_char byte @ [CHR 0x22])"

definition setErrorProtocolByte :: "char \<Rightarrow> ('o, 's) redisReader \<Rightarrow> ('o, 's) redisReader" where
  "setErrorProtocolByte byte r =
     setError REDIS_ERR_PROTOCOL
       (take 127 (''Protocol error, got '' @ cstr (chrtos byte) @ '' as reply type byte'')) r"

definition setErrorOOM :: "('o, 's) redisReader \<Rightarrow> ('o, 's) redisReader" where
  "setErrorOOM r = setError REDIS_ERR_OOM ''Out of memory'' r"

section \<open>Bytes, lines and numbers\<close>

definition rbytes :: "('o, 's) redisReader \<Rightarrow> char list" where
  "rbytes r = (case rbuf r of None \<Rightarrow> [] | Some b \<Rightarrow> sbuf b)"

definition left :: "('o, 's) redisReader \<Rightarrow> nat" where
  "left r = nat ((int (len r) - int (pos r)) mod 2 ^ 64)"

definition readBytes :: "nat \<Rightarrow> ('o, 's) redisReader \<Rightarrow> (char list \<times> ('o, 's) redisReader) option" where
  "readBytes n r =
     (if left r \<ge> n then Some (drop (pos r) (rbytes r), r\<lparr>pos := pos r + n\<rparr>) else None)"

function skip_cr :: "char list \<Rightarrow> int \<Rightarrow> int \<Rightarrow> int" where
  "skip_cr s l p = (if p < l \<and> s ! nat p \<noteq> CHR 0x0D then skip_cr s l (p + 1) else p)"
  by pat_completeness auto
termination by (relation "measure (\<lambda>(s, l, p). nat (l - p))") auto

declare skip_cr.simps [simp del]

lemma skip_cr_ge: "p \<le> skip_cr s l p"
proof (induction s l p rule: skip_cr.induct)
  case (1 s l p)
  then show ?case by (subst skip_cr.simps) (auto split: if_splits)
qed

function seek_loop :: "char list \<Rightarrow> int \<Rightarrow> int \<Rightarrow> nat option" where
  "seek_loop s l p =
     (if p < l
      then (let p1 = skip_cr s l p in
            if p1 = l then None
            else if s ! nat (p1 + 1) = CHR 0x0A then Some (nat p1)
            else seek_loop s l (p1 + 1))
      else None)"
  by pat_completeness auto
termination
proof (relation "measure (\<lambda>(s, l, p). nat (l - p))", goal_cases)
  case (2 s l p p1)
  then show ?case using skip_cr_ge[of p s l] by simp
qed simp

declare seek_loop.simps [simp del]

text \<open>The offset of the line end within the first \<open>n\<close> bytes of \<open>s\<close>.\<close>

definition seekNewline :: "char list \<Rightarrow> nat \<Rightarrow> nat option" where
  "seekNewline s n = seek_loop s (wrap32 (int n - 1)) 0"

definition ULLONG_MAX :: nat where
  "ULLONG_MAX = 2 ^ 64 - 1"

definition isdigit :: "char \<Rightarrow> bool" where
  "isdigit c = (48 \<le> (of_char c :: nat) \<and> (of_char c :: nat) \<le> 57)"

definition digit :: "char \<Rightarrow> nat" where
  "digit c = of_char c - 48"

fun ll_loop :: "nat \<Rightarrow> char list \<Rightarrow> (nat \<times> char list) option" where
  "ll_loop v [] = Some (v, [])"
| "ll_loop v (c # cs) =
     (if isdigit c
      then (if v > ULLONG_MAX div 10 then None
            else if v * 10 > ULLONG_MAX - digit c then None
            else ll_loop (v * 10 + digit c) cs)
      else Some (v, c # cs))"

text \<open>\<open>None\<close> is \<^verbatim>\<open>REDIS_ERR\<close>.\<close>

definition string2ll :: "char list \<Rightarrow> int option" where
  "string2ll s =
     (if s = [] then None
      else if s = ''0'' then Some 0
      else
        (let negative = (hd s = CHR ''-''); p = (if negative then tl s else s) in
         if p = [] then None
         else if isdigit (hd p) \<and> hd p \<noteq> CHR ''0''
         then (case ll_loop (digit (hd p)) (tl p) of
                 None \<Rightarrow> None
               | Some (v, rest) \<Rightarrow>
                   if rest \<noteq> [] then None
                   else if negative then (if v > 2 ^ 63 then None else Some (- int v))
                   else (if v > 2 ^ 63 - 1 then None else Some (int v)))
         else None))"

definition readLine :: "('o, 's) redisReader \<Rightarrow> (char list \<times> ('o, 's) redisReader) option" where
  "readLine r =
     (let p = drop (pos r) (rbytes r) in
      case seekNewline p (left r) of
        None \<Rightarrow> None
      | Some i \<Rightarrow> Some (take i p, r\<lparr>pos := pos r + i + 2\<rparr>))"

section \<open>Tasks\<close>

function moveToNextTask :: "('o, 's) redisReader \<Rightarrow> reader_fault + ('o, 's) redisReader" where
  "moveToNextTask r =
     (if ridx r < 0 then Inr r
      else if ridx r = 0 then Inr (r\<lparr>ridx := -1\<rparr>)
      else if \<not> nat (ridx r) < length (rstack r) then Inl Bad_access
      else
        (let cur = rstack r ! nat (ridx r); prv = rstack r ! nat (ridx r - 1) in
         if rtype prv \<noteq> Some REDIS_REPLY_ARRAY then Inl Assert_failed
         else if idx cur = elements prv - 1 then moveToNextTask (r\<lparr>ridx := ridx r - 1\<rparr>)
         else if \<not> idx cur < elements prv then Inl Assert_failed
         else Inr (r\<lparr>rstack := (rstack r)[nat (ridx r) := cur\<lparr>rtype := None, elements := -1, idx := idx cur + 1\<rparr>]\<rparr>)))"
  by pat_completeness auto
termination by (relation "measure (\<lambda>r. nat (ridx r))") auto

declare moveToNextTask.simps [simp del]

definition cur_task :: "('o, 's) redisReader \<Rightarrow> 'o redisReadTask" where
  "cur_task r = rstack r ! nat (ridx r)"

definition task_path :: "('o, 's) redisReader \<Rightarrow> 'o redisReadTask list" where
  "task_path r = take (nat (ridx r) + 1) (rstack r)"

text \<open>Calling a function that creates an object, or using the number of the type without one.\<close>

definition make_object :: "(('o, 's) redisReplyObjectFunctions \<Rightarrow> ('o redisReadTask list \<Rightarrow> 'a) option) \<Rightarrow> ('a \<Rightarrow> 's \<Rightarrow> 'o option \<times> 's) \<Rightarrow>
    reply_type \<Rightarrow> ('o, 's) redisReader \<Rightarrow> 'o robj option \<times> ('o, 's) redisReader" where
  "make_object sel app ty r =
     (case fn r of
        None \<Rightarrow> (Some (Tag ty), r)
      | Some f \<Rightarrow>
          (case sel f of
             None \<Rightarrow> (Some (Tag ty), r)
           | Some g \<Rightarrow> (let (q, st) = app (g (task_path r)) (store r) in (map_option Obj q, r\<lparr>store := st\<rparr>))))"

text \<open>The end of an item: out of memory, or the next task.\<close>

definition finish_item :: "'o robj option \<Rightarrow> ('o, 's) redisReader \<Rightarrow> reader_fault + bool \<times> ('o, 's) redisReader" where
  "finish_item q r =
     (if q = None then Inr (False, setErrorOOM r)
      else rthen (moveToNextTask (if ridx r = 0 then r\<lparr>reply := q\<rparr> else r)) (\<lambda>r1. Inr (True, r1)))"

definition processLineItem :: "('o, 's) redisReader \<Rightarrow> reader_fault + bool \<times> ('o, 's) redisReader" where
  "processLineItem r =
     (case readLine r of
        None \<Rightarrow> Inr (False, r)
      | Some (line, r1) \<Rightarrow>
          if rtype (cur_task r1) = Some REDIS_REPLY_INTEGER
          then
            (if (case fn r1 of None \<Rightarrow> False | Some f \<Rightarrow> createInteger f \<noteq> None)
             then (case string2ll line of
                     None \<Rightarrow> Inr (False, setError REDIS_ERR_PROTOCOL ''Bad integer value'' r1)
                   | Some v \<Rightarrow> (let (q, r2) = make_object createInteger (\<lambda>g. g v) REDIS_REPLY_INTEGER r1 in finish_item q r2))
             else finish_item (Some (Tag REDIS_REPLY_INTEGER)) r1)
          else
            (let (q, r2) = make_object createString (\<lambda>g. g line) (the (rtype (cur_task r1))) r1 in finish_item q r2))"

text \<open>The position after a bulk string of length \<open>n\<close> whose length line ends at \<open>i\<close>: \<^verbatim>\<open>r->pos + bytelen\<close>.\<close>

definition bulk_end :: "('o, 's) redisReader \<Rightarrow> nat \<Rightarrow> int \<Rightarrow> nat" where
  "bulk_end r i n = pos r + (i + 2 + nat n + 2) mod 2 ^ 64"

definition processBulkItem :: "('o, 's) redisReader \<Rightarrow> reader_fault + bool \<times> ('o, 's) redisReader" where
  "processBulkItem r =
     (let p = drop (pos r) (rbytes r) in
      case seekNewline p (left r) of
        None \<Rightarrow> Inr (False, r)
      | Some i \<Rightarrow>
          (case string2ll (take i p) of
             None \<Rightarrow> Inr (False, setError REDIS_ERR_PROTOCOL ''Bad bulk string length'' r)
           | Some n \<Rightarrow>
               if n < -1 then Inr (False, setError REDIS_ERR_PROTOCOL ''Bulk string length out of range'' r)
               else if n = -1
               then (let (q, r1) = make_object createNil (\<lambda>g. g) REDIS_REPLY_NIL r
                     in if q = None then Inr (False, setErrorOOM r1) else finish_item q (r1\<lparr>pos := pos r + (i + 2)\<rparr>))
               else
                 (if bulk_end r i n mod 2 ^ 64 \<le> len r
                  then (let (q, r1) = make_object createString (\<lambda>g. g (take (nat n) (drop (i + 2) p))) REDIS_REPLY_STRING r
                        in if q = None then Inr (False, setErrorOOM r1) else finish_item q (r1\<lparr>pos := bulk_end r i n\<rparr>))
                  else Inr (False, r))))"

text \<open>The new task of the first element of an array.\<close>

definition push_task :: "int \<Rightarrow> 'o robj option \<Rightarrow> ('o, 's) redisReader \<Rightarrow> ('o, 's) redisReader" where
  "push_task n q r =
     (let i = nat (ridx r); stk = (rstack r)[i := (rstack r ! i)\<lparr>elements := n, tobj := q\<rparr>]
      in r\<lparr>ridx := ridx r + 1,
           rstack := stk[i + 1 := \<lparr>rtype = None, elements = -1, idx = 0, tobj = None, parent = Some i\<rparr>]\<rparr>)"

definition set_root :: "bool \<Rightarrow> 'o robj option \<Rightarrow> ('o, 's) redisReader \<Rightarrow> ('o, 's) redisReader" where
  "set_root root q r = (if root then r\<lparr>reply := q\<rparr> else r)"

definition processMultiBulkItem :: "('o, 's) redisReader \<Rightarrow> reader_fault + bool \<times> ('o, 's) redisReader" where
  "processMultiBulkItem r =
     (if ridx r = 8
      then Inr (False, setError REDIS_ERR_PROTOCOL ''No support for nested multi bulk replies with depth > 7'' r)
      else
        (case readLine r of
           None \<Rightarrow> Inr (False, r)
         | Some (line, r1) \<Rightarrow>
             (case string2ll line of
                None \<Rightarrow> Inr (False, setError REDIS_ERR_PROTOCOL ''Bad multi-bulk length'' r1)
              | Some n \<Rightarrow>
                  (let root = (ridx r1 = 0) in
                   if n < -1 \<or> n > 2 ^ 31 - 1
                   then Inr (False, setError REDIS_ERR_PROTOCOL ''Multi-bulk length out of range'' r1)
                   else if n = -1
                   then (let (q, r2) = make_object createNil (\<lambda>g. g) REDIS_REPLY_NIL r1 in
                         if q = None then Inr (False, setErrorOOM r2)
                         else rthen (moveToNextTask r2) (\<lambda>r3. Inr (True, set_root root q r3)))
                   else (let (q, r2) = make_object createArray (\<lambda>g. g n) REDIS_REPLY_ARRAY r1 in
                         if q = None then Inr (False, setErrorOOM r2)
                         else if n > 0
                         then (if nat (ridx r2) + 1 < length (rstack r2)
                               then Inr (True, set_root root q (push_task n q r2)) else Inl Bad_access)
                         else rthen (moveToNextTask r2) (\<lambda>r3. Inr (True, set_root root q r3)))))))"

definition type_of_byte :: "char \<Rightarrow> reply_type option" where
  "type_of_byte c =
     (if c = CHR ''-'' then Some REDIS_REPLY_ERROR
      else if c = CHR ''+'' then Some REDIS_REPLY_STATUS
      else if c = CHR '':'' then Some REDIS_REPLY_INTEGER
      else if c = CHR ''$'' then Some REDIS_REPLY_STRING
      else if c = CHR ''*'' then Some REDIS_REPLY_ARRAY
      else None)"

definition process_typed :: "('o, 's) redisReader \<Rightarrow> reader_fault + bool \<times> ('o, 's) redisReader" where
  "process_typed r =
     (case rtype (cur_task r) of
        Some REDIS_REPLY_ERROR \<Rightarrow> processLineItem r
      | Some REDIS_REPLY_STATUS \<Rightarrow> processLineItem r
      | Some REDIS_REPLY_INTEGER \<Rightarrow> processLineItem r
      | Some REDIS_REPLY_STRING \<Rightarrow> processBulkItem r
      | Some REDIS_REPLY_ARRAY \<Rightarrow> processMultiBulkItem r
      | _ \<Rightarrow> Inl Assert_failed)"

definition processItem :: "('o, 's) redisReader \<Rightarrow> reader_fault + bool \<times> ('o, 's) redisReader" where
  "processItem r =
     (if \<not> (0 \<le> ridx r \<and> nat (ridx r) < length (rstack r)) then Inl Bad_access
      else if rtype (cur_task r) = None
      then (case readBytes 1 r of
              None \<Rightarrow> Inr (False, r)
            | Some (p, r1) \<Rightarrow>
                (case p of
                   [] \<Rightarrow> Inl Bad_access
                 | c # _ \<Rightarrow>
                     (case type_of_byte c of
                        None \<Rightarrow> Inr (False, setErrorProtocolByte c r1)
                      | Some ty \<Rightarrow> process_typed (r1\<lparr>rstack := (rstack r1)[nat (ridx r1) := (cur_task r1)\<lparr>rtype := Some ty\<rparr>]\<rparr>))))
      else process_typed r)"

section \<open>The interface\<close>

definition redisReaderCreateWithFunctions :: "char option \<Rightarrow> ('o, 's) redisReplyObjectFunctions option \<Rightarrow> 's \<Rightarrow>
    ('o, 's) redisReader option" where
  "redisReaderCreateWithFunctions m f st =
     (case sdsempty m of
        Inl _ \<Rightarrow> None
      | Inr b \<Rightarrow> Some \<lparr>err = None, errstr = [], rbuf = Some b, pos = 0, len = 0, maxbuf = REDIS_READER_MAX_BUF,
          rstack = replicate 9 \<lparr>rtype = None, elements = 0, idx = 0, tobj = None, parent = None\<rparr>,
          ridx = -1, reply = None, fn = f, store = st\<rparr>)"

definition redisReaderFree :: "('o, 's) redisReader \<Rightarrow> 's" where
  "redisReaderFree r =
     (case (reply r, fn r) of
        (Some q, Some f) \<Rightarrow> (case freeObject f of Some free \<Rightarrow> free q (store r) | None \<Rightarrow> store r)
      | _ \<Rightarrow> store r)"

definition feed_buf :: "char option \<Rightarrow> ('o, 's) redisReader \<Rightarrow> sds \<Rightarrow> reader_fault + sds \<times> nat" where
  "feed_buf m r b =
     (if len r = 0 \<and> maxbuf r \<noteq> 0 \<and> sdsavail b > maxbuf r
      then (case sdsempty m of Inl _ \<Rightarrow> Inl Assert_failed | Inr b1 \<Rightarrow> Inr (b1, 0))
      else Inr (b, pos r))"

definition redisReaderFeed :: "char option \<Rightarrow> char list \<Rightarrow> ('o, 's) redisReader \<Rightarrow> reader_fault + bool \<times> ('o, 's) redisReader" where
  "redisReaderFeed m bytes r =
     (if err r \<noteq> None then Inr (False, r)
      else if bytes = [] then Inr (True, r)
      else
        (case rbuf r of
           None \<Rightarrow> Inl Bad_access
         | Some b \<Rightarrow>
             rthen (feed_buf m r b)
               (\<lambda>(b1, p).
                  case sdscatlen m bytes b1 of
                    Inl Oom \<Rightarrow> Inr (False, setErrorOOM (r\<lparr>rbuf := Some b1, pos := p\<rparr>))
                  | Inl _ \<Rightarrow> Inl Bad_access
                  | Inr b2 \<Rightarrow> Inr (True, r\<lparr>rbuf := Some b2, pos := p, len := sdslen b2\<rparr>))))"

partial_function (option) items_loop :: "('o, 's) redisReader \<Rightarrow> (reader_fault + ('o, 's) redisReader) option" where
  "items_loop r =
     (if ridx r \<ge> 0
      then (case processItem r of
              Inl e \<Rightarrow> Some (Inl e)
            | Inr res \<Rightarrow> if fst res then items_loop (snd res) else Some (Inr (snd res)))
      else Some (Inr r))"

text \<open>Discarding the consumed part of a buffer, and emitting the reply.\<close>

definition compact :: "('o, 's) redisReader \<Rightarrow> reader_fault + ('o, 's) redisReader" where
  "compact r =
     (if pos r \<ge> 1024
      then (case rbuf r of
              None \<Rightarrow> Inl Bad_access
            | Some b \<Rightarrow>
                (case sdsrange (wrap32 (int (pos r))) (-1) b of
                   Inl _ \<Rightarrow> Inl Bad_access
                 | Inr b1 \<Rightarrow> Inr (r\<lparr>rbuf := Some b1, pos := 0, len := sdslen b1\<rparr>)))
      else Inr r)"

definition redisReaderGetReply :: "('o, 's) redisReader \<Rightarrow>
    reader_fault + bool \<times> 'o robj option \<times> ('o, 's) redisReader" where
  "redisReaderGetReply r =
     (if err r \<noteq> None then Inr (False, None, r)
      else if len r = 0 then Inr (True, None, r)
      else
        (let r1 = (if ridx r = -1 then r\<lparr>rstack := (rstack r)[0 := new_task], ridx := 0\<rparr> else r) in
         case items_loop r1 of
           None \<Rightarrow> Inl No_reply
         | Some res \<Rightarrow>
             rthen res
               (\<lambda>r2. if err r2 \<noteq> None then Inr (False, None, r2)
                     else rthen (compact r2)
                            (\<lambda>r3. if ridx r3 = -1 then Inr (True, reply r3, r3\<lparr>reply := None\<rparr>)
                                  else Inr (True, None, r3)))))"

end
