(* ===== verification/Reader_Safe.thy ===== *)
theory Reader_Safe
  imports Reader_Props
begin

text \<open>
  The invariant of the reader and its preservation by every operation, for any functions that create and
  free objects: the reader never faults and every call returns.
\<close>

section \<open>The invariant\<close>

definition buf_ok :: "('o, 's) redisReader \<Rightarrow> bool" where
  "buf_ok r \<longleftrightarrow> (\<exists>b. rbuf r = Some b \<and> sds_ok b \<and> sdslen b = len r) \<and> len r < INT_LIMIT \<and> pos r \<le> len r"

text \<open>Every task below the current one is an array with more elements than the index of the task above it.\<close>

definition stack_ok :: "('o, 's) redisReader \<Rightarrow> bool" where
  "stack_ok r \<longleftrightarrow> length (rstack r) = 9 \<and> -1 \<le> ridx r \<and> ridx r \<le> 8 \<and>
     (\<forall>i. int i < ridx r \<longrightarrow> rtype (rstack r ! i) = Some REDIS_REPLY_ARRAY \<and>
        0 \<le> idx (rstack r ! (i + 1)) \<and> idx (rstack r ! (i + 1)) < elements (rstack r ! i)) \<and>
     (0 \<le> ridx r \<longrightarrow> rtype (rstack r ! nat (ridx r)) \<noteq> Some REDIS_REPLY_NIL)"

definition reader_ok :: "('o, 's) redisReader \<Rightarrow> bool" where
  "reader_ok r \<longleftrightarrow> stack_ok r \<and> (if err r = None then buf_ok r else ridx r = -1)"

definition same_input :: "('o, 's) redisReader \<Rightarrow> ('o, 's) redisReader \<Rightarrow> bool" where
  "same_input r r' \<longleftrightarrow> rbuf r' = rbuf r \<and> pos r' = pos r \<and> len r' = len r \<and> err r' = err r"

lemma same_input_ok: "same_input r r' \<Longrightarrow> buf_ok r' = buf_ok r"
  by (simp add: same_input_def buf_ok_def)

lemma stack_ok_frame [simp]:
  "stack_ok (r\<lparr>store := st\<rparr>) = stack_ok r" "stack_ok (r\<lparr>reply := q\<rparr>) = stack_ok r"
  "stack_ok (r\<lparr>pos := p\<rparr>) = stack_ok r" "stack_ok (r\<lparr>rbuf := b\<rparr>) = stack_ok r" "stack_ok (r\<lparr>len := n\<rparr>) = stack_ok r"
  by (simp_all add: stack_ok_def)

lemma buf_ok_frame [simp]:
  "buf_ok (r\<lparr>store := st\<rparr>) = buf_ok r" "buf_ok (r\<lparr>reply := q\<rparr>) = buf_ok r" "buf_ok (r\<lparr>rstack := s\<rparr>) = buf_ok r"
  "buf_ok (r\<lparr>ridx := i\<rparr>) = buf_ok r"
  by (simp_all add: buf_ok_def)

lemma setError_ok: "length (rstack r) = 9 \<Longrightarrow> reader_ok (setError ty str r)"
  by (auto simp: setError_def reader_ok_def stack_ok_def Let_def split: option.splits)

lemma set_error_ok:
  "length (rstack r) = 9 \<Longrightarrow> reader_ok (setErrorOOM r)" "length (rstack r) = 9 \<Longrightarrow> reader_ok (setErrorProtocolByte c r)"
  by (simp_all add: setErrorOOM_def setErrorProtocolByte_def setError_ok)

lemma left_ok: "buf_ok r \<Longrightarrow> left r = len r - pos r"
  by (auto simp: buf_ok_def left_def INT_LIMIT_def nat_diff_distrib)

text \<open>The bytes that have not been read.\<close>

definition unread :: "('o, 's) redisReader \<Rightarrow> char list" where
  "unread r = drop (pos r) (take (len r) (rbytes r))"

lemma unread_str: "rbuf r = Some b \<Longrightarrow> sdslen b = len r \<Longrightarrow> unread r = drop (pos r) (sds_str b)"
  by (simp add: unread_def rbytes_def sds_str_def sdslen_def)

lemma range_to_end: "i \<le> length xs \<Longrightarrow> range_of (int i) (-1) xs = drop i xs"
  by (auto simp: range_of_def range_index_def)

section \<open>Tasks\<close>

lemma moveToNextTask_ok:
  "stack_ok r \<Longrightarrow> \<exists>r'. moveToNextTask r = Inr r' \<and> stack_ok r' \<and> same_input r r'"
proof (induction r rule: moveToNextTask.induct)
  case (1 r)
  let ?i = "nat (ridx r)"
  consider "ridx r \<le> 0" | "0 < ridx r" by linarith
  then show ?case
  proof cases
    case 1
    then show ?thesis using "1.prems" by (subst moveToNextTask.simps) (auto simp: stack_ok_def same_input_def)
  next
    case 2
    let ?cur = "rstack r ! ?i" and ?prv = "rstack r ! nat (ridx r - 1)"
    have l: "length (rstack r) = 9" "ridx r \<le> 8" "?i < length (rstack r)" using "1.prems" 2 by (auto simp: stack_ok_def)
    have "int (nat (ridx r - 1)) < ridx r" "nat (ridx r - 1) + 1 = ?i" using 2 by auto
    then have p: "rtype ?prv = Some REDIS_REPLY_ARRAY" "0 \<le> idx ?cur" "idx ?cur < elements ?prv"
      using "1.prems" unfolding stack_ok_def by metis+
    show ?thesis
    proof (cases "idx ?cur = elements ?prv - 1")
      case True
      have "stack_ok (r\<lparr>ridx := ridx r - 1\<rparr>)" using "1.prems" 2 p(1) by (simp add: stack_ok_def)
      then obtain r' where "moveToNextTask (r\<lparr>ridx := ridx r - 1\<rparr>) = Inr r'" "stack_ok r'" "same_input (r\<lparr>ridx := ridx r - 1\<rparr>) r'"
        using "1.IH"[OF _ _ _ refl refl] 2 l p(1) True by auto
      then show ?thesis using 2 l p(1) True by (subst moveToNextTask.simps) (simp add: Let_def same_input_def)
    next
      case False
      let ?r = "r\<lparr>rstack := (rstack r)[?i := ?cur\<lparr>rtype := None, elements := -1, idx := idx ?cur + 1\<rparr>]\<rparr>"
      have e: "moveToNextTask r = Inr ?r" using 2 l p False by (subst moveToNextTask.simps) (simp add: Let_def)
      have "stack_ok ?r"
      proof -
        have "nat (ridx r - 1) = i" if "nat (ridx r) = Suc i" for i using that by simp
        then show ?thesis using "1.prems" 2 p False l by (auto simp: stack_ok_def nth_list_update)
      qed
      then show ?thesis using e by (simp add: same_input_def)
    qed
  qed
qed

lemma make_frame: "\<exists>q st. make_object sel app ty r = (q, r\<lparr>store := st\<rparr>)"
proof -
  have r: "r = r\<lparr>store := store r\<rparr>" by simp
  show ?thesis unfolding make_object_def by (auto split: option.splits prod.splits intro: exI[of _ "store r"])
qed

lemma finish_item_ok:
  assumes "stack_ok r" "buf_ok r" "err r = None"
  shows "\<exists>ok r'. finish_item q r = Inr (ok, r') \<and> reader_ok r' \<and> (ok \<longrightarrow> same_input r r')"
proof (cases "q = None")
  case True
  moreover have "reader_ok (setErrorOOM r)" using set_error_ok(1)[of r] assms(1) by (simp add: stack_ok_def)
  ultimately show ?thesis by (auto simp: finish_item_def)
next
  case False
  let ?r = "if ridx r = 0 then r\<lparr>reply := q\<rparr> else r"
  obtain r' where "moveToNextTask ?r = Inr r'" "stack_ok r'" "same_input ?r r'"
    using moveToNextTask_ok[of ?r] assms(1) by (cases "ridx r = 0") auto
  moreover have "same_input r ?r" by (simp add: same_input_def)
  ultimately show ?thesis using False assms same_input_ok[of r r']
    by (auto simp: finish_item_def reader_ok_def same_input_def)
qed

lemma finish_make_ok:
  assumes "stack_ok r" "buf_ok r" "err r = None"
  shows "\<exists>ok r'. (let (q, r1) = make_object sel app ty r in finish_item q r1) = Inr (ok, r') \<and> reader_ok r' \<and> (ok \<longrightarrow> same_input r r')"
proof -
  obtain q st where m: "make_object sel app ty r = (q, r\<lparr>store := st\<rparr>)" using make_frame[of sel app ty r] by blast
  from finish_item_ok[of "r\<lparr>store := st\<rparr>" q] assms m show ?thesis by (simp add: same_input_def)
qed

section \<open>Items\<close>

text \<open>What a step of the reader does to the input: it consumes bytes, and on success at least one.\<close>

definition progress :: "('o, 's) redisReader \<Rightarrow> bool \<times> ('o, 's) redisReader \<Rightarrow> bool" where
  "progress r = (\<lambda>(ok, r'). reader_ok r' \<and>
     (ok \<longrightarrow> err r' = None \<and> pos r < pos r' \<and> len r' = len r \<and> rbuf r' = rbuf r))"

lemma progress_same:
  assumes "pos r < p" "err r = None" "\<exists>ok r'. x = Inr (ok, r') \<and> reader_ok r' \<and> (ok \<longrightarrow> same_input (r\<lparr>pos := p\<rparr>) r')"
  shows "\<exists>y. x = Inr y \<and> progress r y"
  using assms by (auto simp: progress_def same_input_def)

lemma readLine_ok:
  assumes "buf_ok r" "readLine r = Some (line, r1)"
  shows "\<exists>p. r1 = r\<lparr>pos := p\<rparr> \<and> pos r < p \<and> p \<le> len r"
proof -
  have l: "left r = len r - pos r" "left r < INT_LIMIT" using left_ok[OF assms(1)] assms(1) by (auto simp: buf_ok_def)
  obtain i where i: "seekNewline (drop (pos r) (rbytes r)) (left r) = Some i" "r1 = r\<lparr>pos := pos r + i + 2\<rparr>"
    using assms(2) by (auto simp: readLine_def Let_def split: option.splits)
  have "i + 1 < left r" using seekNewline_spec(1)[OF l(2) i(1)] by simp
  then show ?thesis using l(1) i(2) by (intro exI[of _ "pos r + i + 2"]) auto
qed

lemma processLineItem_ok:
  assumes "stack_ok r" "buf_ok r" "err r = None"
  shows "\<exists>y. processLineItem r = Inr y \<and> progress r y"
proof (cases "readLine r")
  case None
  then show ?thesis using assms by (simp add: processLineItem_def progress_def reader_ok_def)
next
  case (Some a)
  obtain line r1 where a: "a = (line, r1)" by fastforce
  obtain p where p: "r1 = r\<lparr>pos := p\<rparr>" "pos r < p" "p \<le> len r" using readLine_ok[OF assms(2)] Some a by blast
  have ok: "stack_ok r1" "buf_ok r1" "err r1 = None" using assms p by (auto simp: buf_ok_def)
  have e: "\<exists>ok r'. Inr (False, setError ty str r1) = Inr (ok, r') \<and> reader_ok r' \<and> (ok \<longrightarrow> same_input r1 r')" for ty str
  proof -
    have "reader_ok (setError ty str r1)" using setError_ok[of r1] ok(1) by (simp add: stack_ok_def)
    then show ?thesis by auto
  qed
  have "\<exists>ok r'. processLineItem r = Inr (ok, r') \<and> reader_ok r' \<and> (ok \<longrightarrow> same_input (r\<lparr>pos := p\<rparr>) r')"
  proof -
    define good where "good x \<longleftrightarrow> (\<exists>ok r'. x = Inr (ok, r') \<and> reader_ok r' \<and> (ok \<longrightarrow> same_input r1 r'))" for x :: "reader_fault + bool \<times> ('a, 'b) redisReader"
    have m: "good (let (q, r1) = make_object createInteger (\<lambda>g. g v) REDIS_REPLY_INTEGER r1 in finish_item q r1)" for v
      unfolding good_def by (rule finish_make_ok[OF ok])
    have t: "good (let (q, r1) = make_object createString (\<lambda>g. g line) (the (rtype (cur_task r1))) r1 in finish_item q r1)"
      unfolding good_def by (rule finish_make_ok[OF ok])
    have f: "good (finish_item q r1)" for q unfolding good_def by (rule finish_item_ok[OF ok])
    have g: "good (Inr (False, setError ty str r1))" for ty str unfolding good_def by (rule e)
    have "good (processLineItem r)"
      unfolding processLineItem_def Some a option.case prod.case using m t f g by (simp split: option.split del: Let_def)
    then show ?thesis unfolding good_def p(1) .
  qed
  from progress_same[OF p(2) assms(3) this] show ?thesis .
qed

lemma error_progress:
  assumes "stack_ok r" "rstack r' = rstack r"
  shows "\<exists>y. Inr (False, setError ty str r') = Inr y \<and> progress r y" "\<exists>y. Inr (False, setErrorOOM r') = Inr y \<and> progress r y"
  using setError_ok[of r'] set_error_ok(1)[of r'] assms by (simp_all add: progress_def stack_ok_def)

lemma make_progress:
  assumes "stack_ok r" "buf_ok r" "err r = None" and k: "pos r < k" "k \<le> len r"
  shows "\<exists>y. (let (q, r1) = make_object sel app ty r in if q = None then Inr (False, setErrorOOM r1) else finish_item q (r1\<lparr>pos := k\<rparr>)) = Inr y \<and> progress r y"
proof -
  obtain q st where m: "make_object sel app ty r = (q, r\<lparr>store := st\<rparr>)" using make_frame[of sel app ty r] by blast
  have "buf_ok (r\<lparr>store := st, pos := k\<rparr>)" using assms(2) k by (auto simp: buf_ok_def)
  then have "\<exists>ok r'. finish_item q (r\<lparr>store := st, pos := k\<rparr>) = Inr (ok, r') \<and> reader_ok r' \<and> (ok \<longrightarrow> same_input (r\<lparr>pos := k\<rparr>) r')"
    using finish_item_ok[of "r\<lparr>store := st, pos := k\<rparr>" q] assms by (simp add: same_input_def)
  from progress_same[OF k(1) assms(3) this] show ?thesis
    using m error_progress(2)[OF assms(1), of "r\<lparr>store := st\<rparr>"] by (cases "q = None") auto
qed

lemma processBulkItem_ok:
  assumes "stack_ok r" "buf_ok r" "err r = None"
  shows "\<exists>y. processBulkItem r = Inr y \<and> progress r y"
proof -
  let ?p = "drop (pos r) (rbytes r)"
  have stay: "\<exists>y. Inr (False, r) = Inr y \<and> progress r y" using assms by (simp add: progress_def reader_ok_def)
  note fail = error_progress[OF assms(1)] and made = make_progress[OF assms]
  have l: "left r = len r - pos r" "left r < INT_LIMIT" using left_ok[OF assms(2)] assms(2) by (auto simp: buf_ok_def)
  show ?thesis
  proof (cases "seekNewline ?p (left r)")
    case None
    then show ?thesis using stay by (simp add: processBulkItem_def)
  next
    case (Some i)
    have i: "i + 1 < left r" using seekNewline_spec(1)[OF l(2) Some] by simp
    show ?thesis
    proof (cases "string2ll (take i ?p)")
      case None
      then show ?thesis using Some fail(1)[of r] by (simp add: processBulkItem_def)
    next
      case n: (Some n)
      have nb: "n < 2 ^ 63" using n by (simp add: string2ll_eq)
      consider "n < -1" | "n = -1" | "0 \<le> n" "\<not> bulk_end r i n mod 2 ^ 64 \<le> len r"
        | "0 \<le> n" "bulk_end r i n mod 2 ^ 64 \<le> len r" by linarith
      then show ?thesis
      proof cases
        case 1
        then show ?thesis using Some n fail(1)[of r] by (simp add: processBulkItem_def)
      next
        case 2
        have "pos r < pos r + (i + 2)" "pos r + (i + 2) \<le> len r" using i l(1) by auto
        from made[OF this, of createNil "\<lambda>g. g" REDIS_REPLY_NIL] show ?thesis using 2 Some n by (simp add: processBulkItem_def)
      next
        case 3
        then show ?thesis using Some n stay by (simp add: processBulkItem_def Let_def)
      next
        case 4
        have big: "pos r + (i + 2 + nat n + 2) < 2 ^ 64" "i + 2 + nat n + 2 < 2 ^ 64"
          using nb i l assms(2) 4(1) by (auto simp: buf_ok_def INT_LIMIT_def nat_less_iff)
        then have "pos r < bulk_end r i n" "bulk_end r i n \<le> len r" using 4(2) by (auto simp: bulk_end_def)
        from made[OF this, of createString "\<lambda>g. g (take (nat n) (drop (i + 2) ?p))" REDIS_REPLY_STRING] show ?thesis
          using 4 Some n by (simp add: processBulkItem_def)
      qed
    qed
  qed
qed

lemma push_task_ok:
  assumes "stack_ok r" "0 \<le> ridx r" "ridx r < 8" "rtype (cur_task r) = Some REDIS_REPLY_ARRAY" "0 < n"
  shows "stack_ok (push_task n q r) \<and> same_input r (push_task n q r)"
proof -
  let ?i = "nat (ridx r)"
  have l: "length (rstack r) = 9" "?i + 1 < 9" using assms(1-3) by (auto simp: stack_ok_def)
  have s: "rstack (push_task n q r) ! j =
      (if j = ?i + 1 then \<lparr>rtype = None, elements = -1, idx = 0, tobj = None, parent = Some ?i\<rparr>
       else if j = ?i then (rstack r ! ?i)\<lparr>elements := n, tobj := q\<rparr> else rstack r ! j)" if "j < 9" for j
    using l that by (simp add: push_task_def Let_def nth_list_update)
  have "rtype (rstack (push_task n q r) ! i) = Some REDIS_REPLY_ARRAY \<and>
      0 \<le> idx (rstack (push_task n q r) ! (i + 1)) \<and> idx (rstack (push_task n q r) ! (i + 1)) < elements (rstack (push_task n q r) ! i)"
    if i: "int i < ridx r + 1" for i
  proof -
    have b: "i < 9" "i + 1 < 9" using i assms(3) by auto
    show ?thesis
    proof (cases "i = ?i")
      case True
      then show ?thesis using s[OF b(1)] s[OF b(2)] assms(4,5) by (simp add: cur_task_def)
    next
      case False
      then have "int i < ridx r" "i < ?i" using i assms(2) by auto
      moreover have "rtype (rstack r ! i) = Some REDIS_REPLY_ARRAY" "0 \<le> idx (rstack r ! (i + 1))"
          "idx (rstack r ! (i + 1)) < elements (rstack r ! i)"
        using assms(1) \<open>int i < ridx r\<close> unfolding stack_ok_def by blast+
      ultimately show ?thesis using s[OF b(1)] s[OF b(2)] by (cases "i + 1 = ?i") simp_all
    qed
  qed
  moreover have "ridx (push_task n q r) = ridx r + 1" "length (rstack (push_task n q r)) = 9"
    using l(1) by (simp_all add: push_task_def Let_def)
  moreover have "rtype (rstack (push_task n q r) ! nat (ridx r + 1)) = None"
    using s[of "?i + 1"] l(2) assms(2) by (simp add: nat_add_distrib)
  ultimately have "stack_ok (push_task n q r)" using assms(2,3) unfolding stack_ok_def by simp
  then show ?thesis by (simp add: same_input_def push_task_def Let_def)
qed

lemma next_root_ok:
  assumes "stack_ok r" "buf_ok r" "err r = None"
  shows "\<exists>ok r'. rthen (moveToNextTask r) (\<lambda>r3. Inr (True, set_root root q r3)) = Inr (ok, r') \<and> reader_ok r' \<and> (ok \<longrightarrow> same_input r r')"
proof -
  obtain r' where r': "moveToNextTask r = Inr r'" "stack_ok r'" "same_input r r'" using moveToNextTask_ok[OF assms(1)] by blast
  then have "stack_ok (set_root root q r')" "same_input r (set_root root q r')" by (simp_all add: set_root_def same_input_def)
  then show ?thesis using r'(1) assms(3) same_input_ok[of r "set_root root q r'"] assms(2)
    by (auto simp: reader_ok_def same_input_def)
qed

lemma processMultiBulkItem_ok:
  assumes "stack_ok r" "buf_ok r" "err r = None" "0 \<le> ridx r" "rtype (cur_task r) = Some REDIS_REPLY_ARRAY"
  shows "\<exists>y. processMultiBulkItem r = Inr y \<and> progress r y"
proof (cases "ridx r = 8 \<or> readLine r = None")
  case True
  have "progress r (False, r)" using assms(1-3) by (simp add: progress_def reader_ok_def)
  moreover have "progress r (False, setError ty str r)" for ty str using error_progress(1)[OF assms(1), of r ty str] by simp
  ultimately show ?thesis using True by (cases "ridx r = 8") (auto simp: processMultiBulkItem_def)
next
  case False
  then obtain line r1 where a: "readLine r = Some (line, r1)" "ridx r \<noteq> 8" by auto
  obtain p where p: "r1 = r\<lparr>pos := p\<rparr>" "pos r < p" "p \<le> len r" using readLine_ok[OF assms(2) a(1)] by blast
  have r8: "ridx r < 8" using assms(1) a(2) by (simp add: stack_ok_def)
  have ok: "stack_ok (r1\<lparr>store := st\<rparr>)" "buf_ok (r1\<lparr>store := st\<rparr>)" "err (r1\<lparr>store := st\<rparr>) = None" for st
    using assms p by (auto simp: buf_ok_def)
  define good where "good x \<longleftrightarrow> (\<exists>ok r'. x = Inr (ok, r') \<and> reader_ok r' \<and> (ok \<longrightarrow> same_input (r\<lparr>pos := p\<rparr>) r'))"
    for x :: "reader_fault + bool \<times> ('a, 'b) redisReader"
  have l: "length (rstack (r1\<lparr>store := st\<rparr>)) = 9" for st using ok(1)[of st] by (simp add: stack_ok_def)
  have err: "good (Inr (False, setError ty str r1))" "good (Inr (False, setErrorOOM (r1\<lparr>store := st\<rparr>)))" for ty str st
  proof -
    have "reader_ok (setError ty str r1)" using setError_ok[of r1] l[of "store r1"] by simp
    then show "good (Inr (False, setError ty str r1))" by (auto simp: good_def)
    have "reader_ok (setErrorOOM (r1\<lparr>store := st\<rparr>))" by (rule set_error_ok(1)[OF l])
    then show "good (Inr (False, setErrorOOM (r1\<lparr>store := st\<rparr>)))" by (auto simp: good_def)
  qed
  have nx: "good (rthen (moveToNextTask (r1\<lparr>store := st\<rparr>)) (\<lambda>r3. Inr (True, set_root root q r3)))" for st root q
    using next_root_ok[OF ok, of st root q] p(1) by (simp add: good_def same_input_def)
  have pu: "good (Inr (True, set_root root q (push_task n q (r1\<lparr>store := st\<rparr>))))" if "0 < n" for n q st root
  proof -
    have "stack_ok (push_task n q (r1\<lparr>store := st\<rparr>)) \<and> same_input (r1\<lparr>store := st\<rparr>) (push_task n q (r1\<lparr>store := st\<rparr>))"
      by (rule push_task_ok[OF ok(1)]) (use assms(4,5) r8 p(1) that in \<open>simp_all add: cur_task_def\<close>)
    then show ?thesis using ok(2)[of st] ok(3)[of st] same_input_ok[of "r1\<lparr>store := st\<rparr>" "push_task n q (r1\<lparr>store := st\<rparr>)"] p(1)
      by (auto simp: good_def reader_ok_def set_root_def same_input_def)
  qed
  have room: "nat (ridx r1) + 1 < length (rstack r1)" using r8 l[of "store r1"] p(1) assms(4) by simp
  obtain q1 s1 where m1: "make_object createNil (\<lambda>g. g) REDIS_REPLY_NIL r1 = (q1, r1\<lparr>store := s1\<rparr>)"
    using make_frame[of createNil "\<lambda>g. g" REDIS_REPLY_NIL r1] by blast
  have "good (processMultiBulkItem r)"
  proof (cases "string2ll line")
    case None
    then show ?thesis using a err(1) by (simp add: processMultiBulkItem_def)
  next
    case (Some n)
    obtain q2 s2 where m2: "make_object createArray (\<lambda>g. g n) REDIS_REPLY_ARRAY r1 = (q2, r1\<lparr>store := s2\<rparr>)"
      using make_frame[of createArray "\<lambda>g. g n" REDIS_REPLY_ARRAY r1] by blast
    show ?thesis using a Some m1 m2 err nx pu[of n] room by (simp add: processMultiBulkItem_def Let_def)
  qed
  then have "\<exists>ok r'. processMultiBulkItem r = Inr (ok, r') \<and> reader_ok r' \<and> (ok \<longrightarrow> same_input (r\<lparr>pos := p\<rparr>) r')"
    by (simp add: good_def)
  from progress_same[OF p(2) assms(3) this] show ?thesis .
qed

lemma process_typed_ok:
  assumes "stack_ok r" "buf_ok r" "err r = None" "0 \<le> ridx r" "rtype (cur_task r) \<noteq> None"
  shows "\<exists>y. process_typed r = Inr y \<and> progress r y"
proof -
  have n: "rtype (cur_task r) \<noteq> Some REDIS_REPLY_NIL" using assms(1,4) by (simp add: stack_ok_def cur_task_def)
  obtain ty where ty: "rtype (cur_task r) = Some ty" using assms(5) by blast
  note i = processLineItem_ok[OF assms(1-3)] processBulkItem_ok[OF assms(1-3)] processMultiBulkItem_ok[OF assms(1-4)]
  show ?thesis using n ty i by (cases ty) (simp_all add: process_typed_def)
qed

lemma processItem_ok:
  assumes "reader_ok r" "err r = None" "0 \<le> ridx r"
  shows "\<exists>y. processItem r = Inr y \<and> progress r y"
proof -
  have ok: "stack_ok r" "buf_ok r" using assms by (simp_all add: reader_ok_def)
  then have i: "nat (ridx r) < length (rstack r)" "length (rstack r) = 9" by (auto simp: stack_ok_def)
  show ?thesis
  proof (cases "rtype (cur_task r) = None")
    case False
    then have "processItem r = process_typed r" using i assms(3) by (auto simp: processItem_def)
    then show ?thesis using process_typed_ok[OF ok assms(2,3) False] by simp
  next
    case True
    show ?thesis
    proof (cases "left r \<ge> 1")
      case False
      then show ?thesis using True i assms by (auto simp: processItem_def readBytes_def progress_def)
    next
      case left: True
      obtain b where b: "rbuf r = Some b" "sds_ok b" "sdslen b = len r" "pos r \<le> len r" using ok(2) by (auto simp: buf_ok_def)
      have p: "pos r < len r" using left left_ok[OF ok(2)] by simp
      then have "pos r < length (rbytes r)" using b sds_ok_len[OF b(2)] by (simp add: rbytes_def sdslen_def)
      then obtain c cs where c: "drop (pos r) (rbytes r) = c # cs" by (metis Cons_nth_drop_Suc)
      show ?thesis
      proof (cases "type_of_byte c")
        case None
        have "reader_ok (setErrorProtocolByte c (r\<lparr>pos := pos r + 1\<rparr>))" using i by (intro set_error_ok(2)) simp
        then show ?thesis using None True left i assms(3) c by (auto simp: processItem_def readBytes_def progress_def)
      next
        case (Some ty)
        let ?r = "r\<lparr>pos := pos r + 1, rstack := (rstack r)[nat (ridx r) := (cur_task r)\<lparr>rtype := Some ty\<rparr>]\<rparr>"
        have ty: "ty \<noteq> REDIS_REPLY_NIL" using Some by (auto simp: type_of_byte_def split: if_splits)
        have "stack_ok ?r" using ok(1) i ty assms(3) by (auto simp: stack_ok_def cur_task_def nth_list_update)
        moreover have "buf_ok ?r" using ok(2) p by (auto simp: buf_ok_def)
        moreover have "rtype (cur_task ?r) \<noteq> None" using i by (simp add: cur_task_def)
        ultimately obtain y where y: "process_typed ?r = Inr y" "progress ?r y" using process_typed_ok[of ?r] assms(2,3) by auto
        then have "progress r y" by (auto simp: progress_def)
        moreover have "processItem r = process_typed ?r"
          using Some True left i assms(3) c by (simp add: processItem_def readBytes_def cur_task_def)
        ultimately show ?thesis using y(1) by simp
      qed
    qed
  qed
qed

section \<open>The interface\<close>

lemma items_loop_ok: "reader_ok r \<Longrightarrow> err r = None \<Longrightarrow> \<exists>r'. items_loop r = Some (Inr r') \<and> reader_ok r'"
proof (induction "len r - pos r" arbitrary: r rule: less_induct)
  case less
  show ?case
  proof (cases "0 \<le> ridx r")
    case False
    then show ?thesis using less.prems by (subst items_loop.simps) simp
  next
    case True
    obtain ok r1 where y: "processItem r = Inr (ok, r1)" "progress r (ok, r1)" using processItem_ok[OF less.prems True] by auto
    have e: "items_loop r = (if ok then items_loop r1 else Some (Inr r1))"
      by (subst items_loop.simps) (simp add: True y(1))
    have r1: "reader_ok r1" using y(2) by (simp add: progress_def)
    show ?thesis
    proof (cases ok)
      case True
      then have p: "err r1 = None" "pos r < pos r1" "len r1 = len r" using y(2) by (simp_all add: progress_def)
      then have "pos r1 \<le> len r1" using r1 by (simp add: reader_ok_def buf_ok_def)
      then have "len r1 - pos r1 < len r - pos r" using p by simp
      from less.hyps[OF this r1 p(1)] show ?thesis using e True by simp
    qed (use e r1 in simp)
  qed
qed

lemma compact_ok:
  assumes "reader_ok r" "err r = None"
  shows "\<exists>r'. compact r = Inr r' \<and> reader_ok r' \<and> err r' = None \<and> ridx r' = ridx r \<and> reply r' = reply r \<and>
    unread r' = unread r \<and> store r' = store r \<and> fn r' = fn r"
proof (cases "pos r \<ge> 1024")
  case True
  obtain b where b: "rbuf r = Some b" "sds_ok b" "sdslen b = len r" "len r < INT_LIMIT" "pos r \<le> len r" "stack_ok r"
    using assms by (auto simp: reader_ok_def buf_ok_def)
  have w: "wrap32 (int (pos r)) = int (pos r)" using b by (intro wrap32_nat) simp
  have i: "int (pos r) \<in> {- (2 ^ 31)..<2 ^ 31}" "sdslen b < 2 ^ 31" using b(3-5) by (auto simp: INT_LIMIT_def)
  obtain b1 where b1: "sdsrange (int (pos r)) (-1) b = Inr b1" "sds_ok b1" "sds_str b1 = range_of (int (pos r)) (-1) (sds_str b)"
    using sdsrange_spec_gen[OF b(2) i(2,1), of "-1"] by auto
  have "length (sds_str b1) \<le> length (sds_str b)" unfolding b1(3) range_of_def by simp
  then have "sdslen b1 < INT_LIMIT" using length_sds_str[OF b1(2)] length_sds_str[OF b(2)] b(3,4) by simp
  moreover have "sds_str b1 = unread r"
    using b1(3) range_to_end[of "pos r" "sds_str b"] b(3,5) length_sds_str[OF b(2)] unread_str[OF b(1,3)] by simp
  ultimately show ?thesis using True b b1 w assms unread_str[of "r\<lparr>rbuf := Some b1, pos := 0, len := sdslen b1\<rparr>" b1]
    by (auto simp: compact_def reader_ok_def buf_ok_def)
qed (use assms in \<open>simp add: compact_def\<close>)

lemma getReply_ok:
  assumes "reader_ok r"
  shows "\<exists>st q r'. redisReaderGetReply r = Inr (st, q, r') \<and> reader_ok r'"
proof (cases "err r \<noteq> None \<or> len r = 0")
  case True
  then show ?thesis using assms by (auto simp: redisReaderGetReply_def)
next
  case False
  define r1 where "r1 = (if ridx r = -1 then r\<lparr>rstack := (rstack r)[0 := new_task], ridx := 0\<rparr> else r)"
  have "reader_ok r1" "err r1 = None"
    using assms False by (auto simp: r1_def reader_ok_def stack_ok_def new_task_def)
  from items_loop_ok[OF this] obtain r2 where r2: "items_loop r1 = Some (Inr r2)" "reader_ok r2" by blast
  show ?thesis
  proof (cases "err r2")
    case (Some e)
    then show ?thesis using r2 False by (auto simp: redisReaderGetReply_def r1_def[symmetric])
  next
    case None
    obtain r3 where r3: "compact r2 = Inr r3" "reader_ok r3" "err r3 = None" using compact_ok[OF r2(2) None] by blast
    then have "reader_ok (r3\<lparr>reply := None\<rparr>)" by (simp add: reader_ok_def)
    then show ?thesis using r2 None r3 False by (auto simp: redisReaderGetReply_def r1_def[symmetric])
  qed
qed

lemma feed_ok:
  assumes "reader_ok r" "len r + length bytes < INT_LIMIT"
  shows "\<exists>st r'. redisReaderFeed (Some g) bytes r = Inr (st, r') \<and> reader_ok r' \<and>
    (err r = None \<longrightarrow> st \<and> err r' = None \<and> unread r' = unread r @ bytes \<and> ridx r' = ridx r \<and> reply r' = reply r \<and>
       rstack r' = rstack r \<and> fn r' = fn r \<and> store r' = store r \<and> len r' = len r + length bytes)"
proof (cases "err r \<noteq> None \<or> bytes = []")
  case True
  then show ?thesis using assms(1) by (cases "err r") (auto simp: redisReaderFeed_def)
next
  case False
  obtain b where b: "rbuf r = Some b" "sds_ok b" "sdslen b = len r" "pos r \<le> len r" "stack_ok r"
    using assms(1) False by (auto simp: reader_ok_def buf_ok_def)
  obtain e where e: "sdsempty (Some g) = Inr e" "sds_ok e" "sds_str e = []"
    using sdsnewlen_spec(1)[of 0 "[]" g] by (auto simp: SDS_LIMIT_def sdsempty_def)
  have le: "sdslen e = 0" using length_sds_str[OF e(2)] e(3) by simp
  obtain b1 p where f: "feed_buf (Some g) r b = Inr (b1, p)" "sds_ok b1" "sdslen b1 = len r" "p \<le> len r"
      "drop p (sds_str b1) = unread r"
    using b e le unread_str[OF b(1,3)] length_sds_str[OF b(2)] by (cases "len r = 0 \<and> maxbuf r \<noteq> 0 \<and> sdsavail b > maxbuf r") (auto simp: feed_buf_def)
  obtain b2 where b2: "sdscatlen (Some g) bytes b1 = Inr b2" "sds_ok b2" "sds_str b2 = sds_str b1 @ bytes"
    using sdscatlen_spec[OF f(2), of bytes g] INT_LIMIT_SDS[OF assms(2)] f(3) by auto
  have l: "length (sds_str b1) = len r" "sdslen b2 = len r + length bytes"
    using length_sds_str[OF b2(2)] length_sds_str[OF f(2)] b2(3) f(3) by simp_all
  have "unread (r\<lparr>rbuf := Some b2, pos := p, len := sdslen b2\<rparr>) = unread r @ bytes"
    using unread_str[of "r\<lparr>rbuf := Some b2, pos := p, len := sdslen b2\<rparr>" b2] b2(3) f(4,5) l(1) by simp
  then show ?thesis using False b f b2 assms l by (auto simp: redisReaderFeed_def reader_ok_def buf_ok_def)
qed

lemma create_ok:
  "\<exists>r. redisReaderCreateWithFunctions (Some g) f st = Some r \<and> reader_ok r \<and> err r = None \<and> len r = 0"
proof -
  obtain e where e: "sdsempty (Some g) = Inr e" "sds_ok e" "sds_str e = []"
    using sdsnewlen_spec(1)[of 0 "[]" g] by (auto simp: SDS_LIMIT_def sdsempty_def)
  have "sdslen e = 0" using length_sds_str[OF e(2)] e(3) by simp
  then show ?thesis using e by (auto simp: redisReaderCreateWithFunctions_def reader_ok_def stack_ok_def buf_ok_def INT_LIMIT_def)
qed

text \<open>The readers a program can reach: created, then fed and asked for replies in any order, as long as
  the buffer stays below \<open>2 ^ 31\<close> bytes.\<close>

inductive reader_reach :: "char \<Rightarrow> ('o, 's) redisReader \<Rightarrow> bool" for g where
  create: "redisReaderCreateWithFunctions (Some g) f st = Some r \<Longrightarrow> reader_reach g r"
| feed: "reader_reach g r \<Longrightarrow> len r + length bytes < INT_LIMIT \<Longrightarrow>
    redisReaderFeed (Some g) bytes r = Inr (ok, r') \<Longrightarrow> reader_reach g r'"
| get: "reader_reach g r \<Longrightarrow> redisReaderGetReply r = Inr (ok, q, r') \<Longrightarrow> reader_reach g r'"

lemma reader_reach_ok: "reader_reach g r \<Longrightarrow> reader_ok r"
proof (induction rule: reader_reach.induct)
  case (create f st r)
  then show ?case using create_ok[of g f st] by auto
next
  case (feed r bytes ok r')
  then show ?case using feed_ok[OF feed.IH feed.hyps(2), of g] by auto
next
  case (get r ok q r')
  then show ?case using getReply_ok[OF get.IH] by auto
qed

text \<open>C25: whatever bytes arrive in whatever portions, and whatever the functions that create objects do,
  the reader never faults: no assertion fails, the stack of nine tasks is never left, every call
  returns, and an error empties the stack.\<close>

theorem reader_never_faults:
  assumes "reader_reach g r" "len r + length bytes < INT_LIMIT"
  shows "(\<exists>ok q r'. redisReaderGetReply r = Inr (ok, q, r')) \<and> (\<exists>ok r'. redisReaderFeed (Some g) bytes r = Inr (ok, r')) \<and>
    length (rstack r) = 9 \<and> -1 \<le> ridx r \<and> ridx r \<le> 8 \<and> (err r \<noteq> None \<longrightarrow> ridx r = -1)"
proof -
  have ok: "reader_ok r" by (rule reader_reach_ok[OF assms(1)])
  have "err r \<noteq> None \<longrightarrow> ridx r = -1" using ok by (simp add: reader_ok_def)
  then show ?thesis using getReply_ok[OF ok] feed_ok[OF ok assms(2), of g] ok by (auto simp: reader_ok_def stack_ok_def)
qed

theorem reader_never_faults_witness:
  "\<exists>r :: (nat, unit) redisReader. redisReaderCreateWithFunctions (Some NUL) None () = Some r \<and>
     (\<exists>ok r'. redisReaderFeed (Some NUL) ''+OK'' r = Inr (ok, r'))"
proof -
  obtain r :: "(nat, unit) redisReader" where r: "redisReaderCreateWithFunctions (Some NUL) None () = Some r" "len r = 0"
    using create_ok[of NUL None "()"] by blast
  from reader_never_faults [OF reader_reach.create[OF r(1)], of "''+OK''"] r show ?thesis by (auto simp: INT_LIMIT_def)
qed

end
