(* ===== verification/Reply.thy ===== *)
theory Reply
  imports Reader_Safe
begin

text \<open>
  The reply objects of the vendored Redis client (vendors/hiredis/hiredis.c): the functions that create and
  free them, on a heap of reply objects, and the protocol's encoding of a reply.

  \<^item> \<open>cells\<close> maps addresses to objects, \<open>hnext\<close> is the next fresh address. \<open>oom = Some n\<close> lets \<open>n\<close> more
    allocations succeed, \<open>oom = None\<close> all of them.
  \<^item> A failed assertion, the use of an address that holds no object and a store outside the vector of
    elements set \<open>heap_fault\<close>.
\<close>

section \<open>Objects\<close>

record redisReply =
  otype :: reply_type
  integer :: int
  slen :: nat
  sstr :: "char list option"
  oelements :: nat
  element :: "nat option list"

record reply_heap =
  cells :: "nat \<Rightarrow> redisReply option"
  hnext :: nat
  oom :: "nat option"
  heap_fault :: bool

definition set_cell :: "nat \<Rightarrow> redisReply option \<Rightarrow> reply_heap \<Rightarrow> reply_heap" where
  "set_cell p c h = h\<lparr>cells := (cells h)(p := c)\<rparr>"

definition no_memory :: "reply_heap \<Rightarrow> bool" where
  "no_memory h \<longleftrightarrow> oom h = Some 0"

definition count_alloc :: "reply_heap \<Rightarrow> reply_heap" where
  "count_alloc h = h\<lparr>oom := map_option (\<lambda>n. n - 1) (oom h)\<rparr>"

definition createReplyObject :: "reply_type \<Rightarrow> reply_heap \<Rightarrow> nat option \<times> reply_heap" where
  "createReplyObject ty h =
     (if no_memory h then (None, h)
      else (Some (hnext h),
            (set_cell (hnext h)
               (Some \<lparr>otype = ty, integer = 0, slen = 0, sstr = None, oelements = 0, element = []\<rparr>)
               (count_alloc h))\<lparr>hnext := hnext h + 1\<rparr>))"

text \<open>The recursion is bounded by \<open>n\<close>; the reader builds objects at most nine deep.\<close>

fun free_reply :: "nat \<Rightarrow> nat option \<Rightarrow> reply_heap \<Rightarrow> reply_heap" where
  "free_reply n None h = h"
| "free_reply 0 (Some p) h = h\<lparr>heap_fault := True\<rparr>"
| "free_reply (Suc n) (Some p) h =
     (case cells h p of
        None \<Rightarrow> h\<lparr>heap_fault := True\<rparr>
      | Some r \<Rightarrow>
          (let h1 = (if otype r = REDIS_REPLY_ARRAY then fold (free_reply n) (take (oelements r) (element r)) h else h)
           in set_cell p None h1))"

definition freeReplyObject :: "nat robj \<Rightarrow> reply_heap \<Rightarrow> reply_heap" where
  "freeReplyObject q h = (case q of Obj p \<Rightarrow> free_reply 10 (Some p) h | Tag _ \<Rightarrow> h\<lparr>heap_fault := True\<rparr>)"

text \<open>\<^verbatim>\<open>parent->element[task->idx] = r\<close>\<close>

definition link_parent :: "nat redisReadTask list \<Rightarrow> nat \<Rightarrow> reply_heap \<Rightarrow> reply_heap" where
  "link_parent tasks p h =
     (let t = last tasks in
      case parent t of
        None \<Rightarrow> h
      | Some i \<Rightarrow>
          (case tobj (tasks ! i) of
             Some (Obj q) \<Rightarrow>
               (case cells h q of
                  Some pr \<Rightarrow>
                    (if otype pr = REDIS_REPLY_ARRAY \<and> 0 \<le> idx t \<and> nat (idx t) < length (element pr)
                     then set_cell q (Some (pr\<lparr>element := (element pr)[nat (idx t) := Some p]\<rparr>)) h
                     else h\<lparr>heap_fault := True\<rparr>)
                | None \<Rightarrow> h\<lparr>heap_fault := True\<rparr>)
           | _ \<Rightarrow> h\<lparr>heap_fault := True\<rparr>))"

definition createStringObject :: "nat redisReadTask list \<Rightarrow> char list \<Rightarrow> reply_heap \<Rightarrow> nat option \<times> reply_heap" where
  "createStringObject tasks str h =
     (let ty = the (rtype (last tasks)); (r, h1) = createReplyObject ty h in
      case r of
        None \<Rightarrow> (None, h1)
      | Some p \<Rightarrow>
          if no_memory h1 then (None, free_reply 1 (Some p) h1)
          else if ty \<notin> {REDIS_REPLY_ERROR, REDIS_REPLY_STATUS, REDIS_REPLY_STRING}
          then (Some p, h1\<lparr>heap_fault := True\<rparr>)
          else (Some p, link_parent tasks p
                  (set_cell p (Some \<lparr>otype = ty, integer = 0, slen = length str, sstr = Some str, oelements = 0, element = []\<rparr>)
                     (count_alloc h1))))"

definition createArrayObject :: "nat redisReadTask list \<Rightarrow> int \<Rightarrow> reply_heap \<Rightarrow> nat option \<times> reply_heap" where
  "createArrayObject tasks n h =
     (let (r, h1) = createReplyObject REDIS_REPLY_ARRAY h in
      case r of
        None \<Rightarrow> (None, h1)
      | Some p \<Rightarrow>
          if n > 0 \<and> no_memory h1 then (None, free_reply 1 (Some p) h1)
          else (Some p, link_parent tasks p
                  (set_cell p (Some \<lparr>otype = REDIS_REPLY_ARRAY, integer = 0, slen = 0, sstr = None, oelements = nat n,
                                element = replicate (nat n) None\<rparr>)
                     (if n > 0 then count_alloc h1 else h1))))"

definition createIntegerObject :: "nat redisReadTask list \<Rightarrow> int \<Rightarrow> reply_heap \<Rightarrow> nat option \<times> reply_heap" where
  "createIntegerObject tasks v h =
     (let (r, h1) = createReplyObject REDIS_REPLY_INTEGER h in
      case r of
        None \<Rightarrow> (None, h1)
      | Some p \<Rightarrow>
          (Some p, link_parent tasks p
             (set_cell p (Some \<lparr>otype = REDIS_REPLY_INTEGER, integer = v, slen = 0, sstr = None, oelements = 0, element = []\<rparr>) h1)))"

definition createNilObject :: "nat redisReadTask list \<Rightarrow> reply_heap \<Rightarrow> nat option \<times> reply_heap" where
  "createNilObject tasks h =
     (let (r, h1) = createReplyObject REDIS_REPLY_NIL h in
      case r of None \<Rightarrow> (None, h1) | Some p \<Rightarrow> (Some p, link_parent tasks p h1))"

definition defaultFunctions :: "(nat, reply_heap) redisReplyObjectFunctions" where
  "defaultFunctions = \<lparr>createString = Some createStringObject, createArray = Some createArrayObject,
     createInteger = Some createIntegerObject, createNil = Some createNilObject, freeObject = Some freeReplyObject\<rparr>"

definition redisReaderCreate :: "char option \<Rightarrow> reply_heap \<Rightarrow> (nat, reply_heap) redisReader option" where
  "redisReaderCreate m h = redisReaderCreateWithFunctions m (Some defaultFunctions) h"

section \<open>Replies and their encoding\<close>

datatype resp = Status "char list" | Error "char list" | Integer int | Bulk "char list" | Nil_bulk | Nil_array | Arr "resp list"

definition CRLF :: "char list" where
  "CRLF = [CHR 0x0D, CHR 0x0A]"

fun encode :: "resp \<Rightarrow> char list" where
  "encode (Status s) = CHR ''+'' # s @ CRLF"
| "encode (Error s) = CHR ''-'' # s @ CRLF"
| "encode (Integer v) = CHR '':'' # sdsll2str v @ CRLF"
| "encode (Bulk s) = CHR ''$'' # sdsll2str (int (length s)) @ CRLF @ s @ CRLF"
| "encode Nil_bulk = CHR ''$'' # ''-1'' @ CRLF"
| "encode Nil_array = CHR ''*'' # ''-1'' @ CRLF"
| "encode (Arr ts) = CHR ''*'' # sdsll2str (int (length ts)) @ CRLF @ concat (map encode ts)"

text \<open>Replies the reader supports at the depth \<open>d\<close>.\<close>

fun resp_ok :: "nat \<Rightarrow> resp \<Rightarrow> bool" where
  "resp_ok d (Status s) = (CHR 0x0A \<notin> set s)"
| "resp_ok d (Error s) = (CHR 0x0A \<notin> set s)"
| "resp_ok d (Integer v) = (- (2 ^ 63) \<le> v \<and> v < 2 ^ 63)"
| "resp_ok d (Bulk s) = True"
| "resp_ok d Nil_bulk = True"
| "resp_ok d Nil_array = (d < 8)"
| "resp_ok d (Arr ts) = (d < 8 \<and> (\<forall>t \<in> set ts. resp_ok (d + 1) t))"

text \<open>The object at \<open>p\<close>, with all it points to between the addresses \<open>lo\<close> and \<open>hi\<close>, is the reply.\<close>

definition str_cell :: "(nat \<Rightarrow> redisReply option) \<Rightarrow> nat \<Rightarrow> reply_type \<Rightarrow> char list \<Rightarrow> bool" where
  "str_cell c p ty s \<longleftrightarrow> (\<exists>r. c p = Some r \<and> otype r = ty \<and> sstr r = Some s \<and> slen r = length s)"

fun rep :: "(nat \<Rightarrow> redisReply option) \<Rightarrow> nat \<Rightarrow> nat \<Rightarrow> nat \<Rightarrow> resp \<Rightarrow> bool" where
  "rep c lo hi p (Status s) = (lo \<le> p \<and> p < hi \<and> str_cell c p REDIS_REPLY_STATUS s)"
| "rep c lo hi p (Error s) = (lo \<le> p \<and> p < hi \<and> str_cell c p REDIS_REPLY_ERROR s)"
| "rep c lo hi p (Bulk s) = (lo \<le> p \<and> p < hi \<and> str_cell c p REDIS_REPLY_STRING s)"
| "rep c lo hi p (Integer v) = (lo \<le> p \<and> p < hi \<and> (\<exists>r. c p = Some r \<and> otype r = REDIS_REPLY_INTEGER \<and> integer r = v))"
| "rep c lo hi p Nil_bulk = (lo \<le> p \<and> p < hi \<and> (\<exists>r. c p = Some r \<and> otype r = REDIS_REPLY_NIL))"
| "rep c lo hi p Nil_array = (lo \<le> p \<and> p < hi \<and> (\<exists>r. c p = Some r \<and> otype r = REDIS_REPLY_NIL))"
| "rep c lo hi p (Arr ts) = (lo \<le> p \<and> p < hi \<and>
     (\<exists>r. c p = Some r \<and> otype r = REDIS_REPLY_ARRAY \<and> oelements r = length ts \<and>
        list_all2 (\<lambda>e t. \<exists>q. e = Some q \<and> rep c lo hi q t) (element r) ts))"

lemma rep_frame:
  "rep c lo hi p t \<Longrightarrow> (\<And>a. lo \<le> a \<Longrightarrow> a < hi \<Longrightarrow> c' a = c a) \<Longrightarrow> lo' \<le> lo \<Longrightarrow> hi \<le> hi' \<Longrightarrow> rep c' lo' hi' p t"
proof (induction t arbitrary: p)
  case (Arr ts)
  obtain r where r: "c p = Some r" "otype r = REDIS_REPLY_ARRAY" "oelements r = length ts" "lo \<le> p" "p < hi"
      "list_all2 (\<lambda>e t. \<exists>q. e = Some q \<and> rep c lo hi q t) (element r) ts"
    using Arr.prems(1) by auto
  have ih: "rep c' lo' hi' q t" if "t \<in> set ts" "rep c lo hi q t" for q t
    using Arr.IH[OF that] Arr.prems(2-4) by blast
  have "list_all2 (\<lambda>e t. \<exists>q. e = Some q \<and> rep c' lo' hi' q t) (element r) ts"
    using r(6) by (rule list.rel_mono_strong) (use ih in blast)
  then show ?case using r Arr.prems(2)[of p] Arr.prems(3,4) by auto
qed (auto simp: str_cell_def)

end
