(* ===== verification/Reader_Decode.thy ===== *)
theory Reader_Decode
  imports Reply
begin

text \<open>
  The reader decodes what the protocol encodes: from a buffer that begins with the encoding of a reply it
  builds the objects of that reply and consumes exactly its bytes. The proof follows the task stack: an
  item at any depth is read, linked into its parent and followed by the next task.
\<close>

section \<open>Input\<close>

lemma buf_ok_bytes: "buf_ok r \<Longrightarrow> len r < length (rbytes r)"
  by (auto simp: buf_ok_def rbytes_def sdslen_def dest: sds_ok_len)

lemma unread_bytes:
  assumes "buf_ok r"
  shows "\<exists>t. drop (pos r) (rbytes r) = unread r @ t" "length (unread r) = left r" "left r < INT_LIMIT"
proof -
  have "rbytes r = take (len r) (rbytes r) @ drop (len r) (rbytes r)" by simp
  then have "drop (pos r) (rbytes r) = unread r @ drop (pos r - length (take (len r) (rbytes r))) (drop (len r) (rbytes r))"
    by (metis drop_append unread_def)
  then show "\<exists>t. drop (pos r) (rbytes r) = unread r @ t" by blast
  show "length (unread r) = left r" "left r < INT_LIMIT"
    using left_ok[OF assms] buf_ok_bytes[OF assms] assms by (auto simp: unread_def buf_ok_def)
qed

lemma unread_advance:
  assumes "buf_ok r" "unread r = xs @ ys"
  shows "unread (r\<lparr>pos := pos r + length xs\<rparr>) = ys" "buf_ok (r\<lparr>pos := pos r + length xs\<rparr>)"
proof -
  have "unread (r\<lparr>pos := pos r + length xs\<rparr>) = drop (length xs) (unread r)"
    by (simp add: unread_def rbytes_def add.commute)
  then show "unread (r\<lparr>pos := pos r + length xs\<rparr>) = ys" using assms(2) by simp
  have "length xs \<le> left r" using unread_bytes(2)[OF assms(1)] assms(2) by simp
  then show "buf_ok (r\<lparr>pos := pos r + length xs\<rparr>)" using left_ok[OF assms(1)] assms(1) by (auto simp: buf_ok_def)
qed

text \<open>A line without a newline of its own.\<close>

lemma seek_line:
  assumes "buf_ok r" "unread r = line @ CRLF @ rest" "CHR 0x0A \<notin> set line"
  shows "seekNewline (drop (pos r) (rbytes r)) (left r) = Some (length line)"
    and "take (length line) (drop (pos r) (rbytes r)) = line"
proof -
  obtain t where t: "drop (pos r) (rbytes r) = line @ CRLF @ rest @ t" using unread_bytes(1)[OF assms(1)] assms(2) by auto
  let ?s = "drop (pos r) (rbytes r)"
  show "take (length line) ?s = line" unfolding t by simp
  have n: "length line + 1 < left r" using unread_bytes(2)[OF assms(1)] assms(2) by (simp add: CRLF_def)
  have c: "crlf_at ?s (length line)" unfolding t by (simp add: crlf_at_def CRLF_def nth_append)
  have no: "\<not> crlf_at ?s i" if "i < length line" for i
  proof (cases "i + 1 = length line")
    case True
    then have "?s ! (i + 1) = CHR 0x0D" unfolding t by (simp add: CRLF_def nth_append)
    then show ?thesis by (simp add: crlf_at_def)
  next
    case False
    then have "?s ! (i + 1) = line ! (i + 1)" "line ! (i + 1) \<in> set line" unfolding t using that by (auto simp: nth_append)
    then show ?thesis using assms(3) by (auto simp: crlf_at_def)
  qed
  show "seekNewline ?s (left r) = Some (length line)"
  proof (cases "seekNewline ?s (left r)")
    case None
    then show ?thesis using seekNewline_spec(2)[OF unread_bytes(3)[OF assms(1)] None n] c by simp
  next
    case (Some j)
    have "crlf_at ?s j" "\<forall>i < j. \<not> crlf_at ?s i" using seekNewline_spec(1)[OF unread_bytes(3)[OF assms(1)] Some] by simp_all
    then have "j = length line" using c no by (meson linorder_neqE_nat)
    then show ?thesis using Some by simp
  qed
qed

lemma readLine_line:
  assumes "buf_ok r" "unread r = line @ CRLF @ rest" "CHR 0x0A \<notin> set line"
  shows "readLine r = Some (line, r\<lparr>pos := pos r + length (line @ CRLF)\<rparr>)"
  using seek_line[OF assms] by (simp add: readLine_def Let_def CRLF_def)

lemma digits_no_newline: "CHR 0x0A \<notin> set (sdsll2str v)"
proof -
  have "\<not> isdigit (CHR 0x0A)" by (simp add: isdigit_def)
  then have "CHR 0x0A \<notin> set (digits_rev n)" for n using digits_rev_digits by blast
  then show ?thesis by (auto simp: sdsll2str_cases)
qed

section \<open>Objects\<close>

definition link_valid :: "nat redisReadTask list \<Rightarrow> reply_heap \<Rightarrow> bool" where
  "link_valid tasks h \<longleftrightarrow> (case parent (last tasks) of
     None \<Rightarrow> True
   | Some i \<Rightarrow> \<exists>q pr. tobj (tasks ! i) = Some (Obj q) \<and> q < hnext h \<and> cells h q = Some pr \<and> otype pr = REDIS_REPLY_ARRAY \<and>
       0 \<le> idx (last tasks) \<and> nat (idx (last tasks)) < length (element pr))"

text \<open>A new object, linked into its parent.\<close>

definition put_object :: "nat redisReadTask list \<Rightarrow> redisReply \<Rightarrow> reply_heap \<Rightarrow> reply_heap" where
  "put_object tasks c h =
     h\<lparr>cells := (cells (link_parent tasks (hnext h) h))(hnext h := Some c), hnext := hnext h + 1\<rparr>"

definition heap_ok :: "reply_heap \<Rightarrow> bool" where
  "heap_ok h \<longleftrightarrow> oom h = None \<and> \<not> heap_fault h"

lemma put_object_ok: "heap_ok h \<Longrightarrow> heap_ok (put_object tasks c h)"
  by (simp add: heap_ok_def put_object_def)

lemma link_new:
  assumes "link_valid tasks h"
  shows "link_parent tasks (hnext h) (h\<lparr>cells := (cells h)(hnext h := Some c), hnext := hnext h + 1\<rparr>) = put_object tasks c h"
proof (cases "parent (last tasks)")
  case None
  then show ?thesis by (simp add: link_parent_def put_object_def Let_def)
next
  case (Some i)
  obtain q pr where q: "tobj (tasks ! i) = Some (Obj q)" "q < hnext h" "cells h q = Some pr" "otype pr = REDIS_REPLY_ARRAY"
      "0 \<le> idx (last tasks)" "nat (idx (last tasks)) < length (element pr)"
    using assms Some by (auto simp: link_valid_def)
  then show ?thesis using Some by (auto simp: link_parent_def put_object_def Let_def set_cell_def fun_upd_twist)
qed

lemma create_objects:
  assumes "link_valid tasks h" "heap_ok h"
  shows "rtype (last tasks) = Some ty \<Longrightarrow> ty \<in> {REDIS_REPLY_ERROR, REDIS_REPLY_STATUS, REDIS_REPLY_STRING} \<Longrightarrow>
      createStringObject tasks str h = (Some (hnext h),
        put_object tasks \<lparr>otype = ty, integer = 0, slen = length str, sstr = Some str, oelements = 0, element = []\<rparr> h)"
    and "createArrayObject tasks n h = (Some (hnext h),
        put_object tasks \<lparr>otype = REDIS_REPLY_ARRAY, integer = 0, slen = 0, sstr = None, oelements = nat n, element = replicate (nat n) None\<rparr> h)"
    and "createIntegerObject tasks v h = (Some (hnext h),
        put_object tasks \<lparr>otype = REDIS_REPLY_INTEGER, integer = v, slen = 0, sstr = None, oelements = 0, element = []\<rparr> h)"
    and "createNilObject tasks h = (Some (hnext h),
        put_object tasks \<lparr>otype = REDIS_REPLY_NIL, integer = 0, slen = 0, sstr = None, oelements = 0, element = []\<rparr> h)"
proof -
  have c: "count_alloc h = h" "no_memory h = False" using assms(2) by (simp_all add: count_alloc_def no_memory_def heap_ok_def)
  have n: "createReplyObject ty h = (Some (hnext h), h\<lparr>cells := (cells h)(hnext h := Some
      \<lparr>otype = ty, integer = 0, slen = 0, sstr = None, oelements = 0, element = []\<rparr>), hnext := hnext h + 1\<rparr>)" for ty
    by (simp add: createReplyObject_def c set_cell_def)
  have a: "count_alloc (h\<lparr>cells := x, hnext := y\<rparr>) = h\<lparr>cells := x, hnext := y\<rparr>" "no_memory (h\<lparr>cells := x, hnext := y\<rparr>) = False" for x y
    using assms(2) by (simp_all add: count_alloc_def no_memory_def heap_ok_def)
  have w: "h\<lparr>hnext := y, cells := x\<rparr> = h\<lparr>cells := x, hnext := y\<rparr>" for x y by simp
  note s = n a w link_new[OF assms(1), symmetric] set_cell_def
  show "rtype (last tasks) = Some ty \<Longrightarrow> ty \<in> {REDIS_REPLY_ERROR, REDIS_REPLY_STATUS, REDIS_REPLY_STRING} \<Longrightarrow>
      createStringObject tasks str h = (Some (hnext h),
        put_object tasks \<lparr>otype = ty, integer = 0, slen = length str, sstr = Some str, oelements = 0, element = []\<rparr> h)"
    by (auto simp: createStringObject_def s Let_def)
  show "createArrayObject tasks n h = (Some (hnext h),
        put_object tasks \<lparr>otype = REDIS_REPLY_ARRAY, integer = 0, slen = 0, sstr = None, oelements = nat n, element = replicate (nat n) None\<rparr> h)"
    by (simp add: createArrayObject_def s Let_def)
  show "createIntegerObject tasks v h = (Some (hnext h),
        put_object tasks \<lparr>otype = REDIS_REPLY_INTEGER, integer = v, slen = 0, sstr = None, oelements = 0, element = []\<rparr> h)"
    by (simp add: createIntegerObject_def s Let_def)
  show "createNilObject tasks h = (Some (hnext h),
        put_object tasks \<lparr>otype = REDIS_REPLY_NIL, integer = 0, slen = 0, sstr = None, oelements = 0, element = []\<rparr> h)"
    by (simp add: createNilObject_def s Let_def)
qed

section \<open>Positions in the stack\<close>

text \<open>The reader is about to read an item at the depth \<open>d\<close>; \<open>ty\<close> is what it knows of its type.\<close>

definition at_item :: "nat \<Rightarrow> reply_type option \<Rightarrow> (nat, reply_heap) redisReader \<Rightarrow> bool" where
  "at_item d ty r \<longleftrightarrow> stack_ok r \<and> buf_ok r \<and> err r = None \<and> ridx r = int d \<and> rtype (cur_task r) = ty \<and>
     fn r = Some defaultFunctions \<and> heap_ok (store r) \<and>
     parent (cur_task r) = (if d = 0 then None else Some (d - 1)) \<and> link_valid (task_path r) (store r)"

text \<open>The reader has built the object of \<open>t\<close> and linked it into its parent; the next step is the next task.\<close>

definition built :: "nat \<Rightarrow> (nat, reply_heap) redisReader \<Rightarrow> resp \<Rightarrow> char list \<Rightarrow> (nat, reply_heap) redisReader \<Rightarrow> bool" where
  "built d r t rest r1 \<longleftrightarrow> stack_ok r1 \<and> buf_ok r1 \<and> err r1 = None \<and> ridx r1 = int d \<and> fn r1 = Some defaultFunctions \<and>
     heap_ok (store r1) \<and> unread r1 = rest \<and> take d (rstack r1) = take d (rstack r) \<and>
     idx (cur_task r1) = idx (cur_task r) \<and> parent (cur_task r1) = parent (cur_task r) \<and>
     reply r1 = (if d = 0 then Some (Obj (hnext (store r))) else reply r) \<and> hnext (store r) < hnext (store r1) \<and>
     rep (cells (store r1)) (hnext (store r)) (hnext (store r1)) (hnext (store r)) t \<and>
     (\<forall>a < hnext (store r). cells (store r1) a = cells (link_parent (task_path r) (hnext (store r)) (store r)) a)"

definition after :: "('o, 's) redisReader \<Rightarrow> (reader_fault + ('o, 's) redisReader) option" where
  "after r = (case moveToNextTask r of Inl e \<Rightarrow> Some (Inl e) | Inr r1 \<Rightarrow> items_loop r1)"

lemma items_loop_after:
  assumes "0 \<le> ridx r" "processItem r = rthen (moveToNextTask r1) (\<lambda>r2. Inr (True, r2))"
  shows "items_loop r = after r1"
  using assms by (subst items_loop.simps) (cases "moveToNextTask r1"; simp add: after_def)

lemma items_loop_more: "0 \<le> ridx r \<Longrightarrow> processItem r = Inr (True, r1) \<Longrightarrow> items_loop r = items_loop r1"
  by (subst items_loop.simps) simp

text \<open>Reading the type byte changes nothing an object depends on.\<close>

definition same_place :: "nat \<Rightarrow> (nat, reply_heap) redisReader \<Rightarrow> (nat, reply_heap) redisReader \<Rightarrow> bool" where
  "same_place d r r0 \<longleftrightarrow> store r0 = store r \<and> reply r0 = reply r \<and> take d (rstack r0) = take d (rstack r) \<and>
     idx (cur_task r0) = idx (cur_task r) \<and> parent (cur_task r0) = parent (cur_task r) \<and>
     (\<forall>p h. link_parent (task_path r0) p h = link_parent (task_path r) p h)"

lemma built_same_place: "same_place d r r0 \<Longrightarrow> built d r0 t rest r1 \<Longrightarrow> built d r t rest r1"
  by (simp add: same_place_def built_def)

lemma path_facts:
  assumes "stack_ok r" "ridx r = int d"
  shows "last (task_path r) = cur_task r" "i \<le> d \<Longrightarrow> task_path r ! i = rstack r ! i" "d < length (rstack r)"
proof -
  have l: "d < length (rstack r)" using assms by (auto simp: stack_ok_def)
  then show "d < length (rstack r)" .
  have "task_path r = take d (rstack r) @ [rstack r ! d]" using l assms(2) by (simp add: task_path_def take_Suc_conv_app_nth)
  then show "last (task_path r) = cur_task r" using assms(2) by (simp add: cur_task_def)
  show "i \<le> d \<Longrightarrow> task_path r ! i = rstack r ! i" using assms(2) by (simp add: task_path_def)
qed

lemma link_cong:
  assumes "parent (last ts') = parent (last ts)" "idx (last ts') = idx (last ts)" "\<And>i. tobj (ts' ! i) = tobj (ts ! i)"
  shows "link_parent ts' p h = link_parent ts p h" "link_valid ts' h = link_valid ts h"
  unfolding link_parent_def link_valid_def Let_def assms by (rule refl)+

lemma typed_item:
  assumes "at_item d None r" "unread r = c # xs" "type_of_byte c = Some ty"
  shows "\<exists>r0. processItem r = process_typed r0 \<and> at_item d (Some ty) r0 \<and> unread r0 = xs \<and> same_place d r r0"
proof -
  have a: "stack_ok r" "buf_ok r" "err r = None" "ridx r = int d" "rtype (cur_task r) = None" "link_valid (task_path r) (store r)"
    using assms(1) by (simp_all add: at_item_def)
  note pf = path_facts[OF a(1,4)]
  have c9: "d < 9" using pf(3) a(1) by (simp add: stack_ok_def)
  obtain t where t: "drop (pos r) (rbytes r) = c # xs @ t" using unread_bytes(1)[OF a(2)] assms(2) by auto
  have l: "1 \<le> left r" using unread_bytes(2)[OF a(2)] assms(2) by simp
  let ?r = "r\<lparr>pos := pos r + 1, rstack := (rstack r)[d := (cur_task r)\<lparr>rtype := Some ty\<rparr>]\<rparr>"
  have p: "processItem r = process_typed ?r"
    using a l t assms(3) pf(3) by (simp add: processItem_def readBytes_def cur_task_def)
  have b: "unread ?r = xs" "buf_ok ?r" using unread_advance[OF a(2), of "[c]" xs] assms(2) by (simp_all add: unread_def rbytes_def)
  have "ty \<noteq> REDIS_REPLY_NIL" using assms(3) by (auto simp: type_of_byte_def split: if_splits)
  then have s: "stack_ok ?r" using a(1,4) pf(3) by (auto simp: stack_ok_def cur_task_def nth_list_update)
  note pf' = path_facts[OF s, of d]
  have ct: "cur_task ?r = (cur_task r)\<lparr>rtype := Some ty\<rparr>" using a(4) pf(3) by (simp add: cur_task_def)
  have o: "tobj (task_path ?r ! i) = tobj (task_path r ! i)" for i
    using a(4) pf(3) by (cases "i = d") (auto simp: task_path_def cur_task_def nth_list_update take_update_swap)
  have cl: "last (task_path ?r) = cur_task ?r" "last (task_path r) = cur_task r" using pf(1) pf'(1) a(4) by simp_all
  have e: "parent (last (task_path ?r)) = parent (last (task_path r))" "idx (last (task_path ?r)) = idx (last (task_path r))"
    unfolding cl ct by simp_all
  note lk = link_cong[OF e o]
  have "link_valid (task_path ?r) (store r)" using a(6) lk(2) by simp
  then have "at_item d (Some ty) ?r" using assms(1) b s ct a(4) by (simp add: at_item_def)
  moreover have "same_place d r ?r" using lk ct by (simp add: same_place_def)
  ultimately show ?thesis using p b by blast
qed

section \<open>Items without elements\<close>

abbreviation with_object :: "redisReply \<Rightarrow> nat \<Rightarrow> (nat, reply_heap) redisReader \<Rightarrow> (nat, reply_heap) redisReader" where
  "with_object x n r \<equiv> set_root (ridx r = 0) (Some (Obj (hnext (store r))))
     (r\<lparr>pos := pos r + n, store := put_object (task_path r) x (store r)\<rparr>)"

lemma object_built:
  assumes "at_item d (Some ty) r" "unread r = xs @ rest"
    and "\<And>c. c (hnext (store r)) = Some x \<Longrightarrow> rep c (hnext (store r)) (hnext (store r) + 1) (hnext (store r)) t"
  shows "built d r t rest (with_object x (length xs) r)"
proof -
  have a: "stack_ok r" "buf_ok r" "err r = None" "ridx r = int d" "fn r = Some defaultFunctions" "heap_ok (store r)"
    using assms(1) by (simp_all add: at_item_def)
  have u: "unread (r\<lparr>pos := pos r + length xs\<rparr>) = rest" "buf_ok (r\<lparr>pos := pos r + length xs\<rparr>)"
    using unread_advance[OF a(2) assms(2)] by simp_all
  let ?p = "hnext (store r)" and ?h = "put_object (task_path r) x (store r)"
  have h: "hnext ?h = ?p + 1" "cells ?h ?p = Some x" "heap_ok ?h"
      "\<forall>b < ?p. cells ?h b = cells (link_parent (task_path r) ?p (store r)) b"
    using put_object_ok[OF a(6)] by (auto simp: put_object_def)
  have rp: "rep (cells ?h) ?p (hnext ?h) ?p t" using assms(3)[of "cells ?h", OF h(2)] h(1) by simp
  have b: "buf_ok (r\<lparr>pos := pos r + length xs, store := ?h\<rparr>)" "unread (r\<lparr>pos := pos r + length xs, store := ?h\<rparr>) = rest"
      "buf_ok (r\<lparr>pos := pos r + length xs, store := ?h, reply := q\<rparr>)" "unread (r\<lparr>pos := pos r + length xs, store := ?h, reply := q\<rparr>) = rest" for q
    using u by (simp_all add: unread_def rbytes_def)
  show ?thesis using a b h rp by (simp add: built_def set_root_def cur_task_def)
qed

text \<open>What creating an object does to the reader.\<close>

lemma make_created:
  assumes "fn r = Some defaultFunctions" "sel defaultFunctions = Some g" "app (g (task_path r)) (store r) = (Some q, h)"
  shows "make_object sel app ty (r\<lparr>pos := n\<rparr>) = (Some (Obj q), r\<lparr>pos := n, store := h\<rparr>)"
  using assms by (simp add: make_object_def task_path_def)

lemma make_objects:
  assumes "at_item d (Some ty) r"
  shows "ty \<in> {REDIS_REPLY_ERROR, REDIS_REPLY_STATUS, REDIS_REPLY_STRING} \<Longrightarrow>
      make_object createString (\<lambda>g. g str) ty' (r\<lparr>pos := n\<rparr>) = (Some (Obj (hnext (store r))), r\<lparr>pos := n, store := put_object (task_path r)
        \<lparr>otype = ty, integer = 0, slen = length str, sstr = Some str, oelements = 0, element = []\<rparr> (store r)\<rparr>)"
    and "make_object createArray (\<lambda>g. g k) ty' (r\<lparr>pos := n\<rparr>) = (Some (Obj (hnext (store r))), r\<lparr>pos := n, store := put_object (task_path r)
        \<lparr>otype = REDIS_REPLY_ARRAY, integer = 0, slen = 0, sstr = None, oelements = nat k, element = replicate (nat k) None\<rparr> (store r)\<rparr>)"
    and "make_object createInteger (\<lambda>g. g v) ty' (r\<lparr>pos := n\<rparr>) = (Some (Obj (hnext (store r))), r\<lparr>pos := n, store := put_object (task_path r)
        \<lparr>otype = REDIS_REPLY_INTEGER, integer = v, slen = 0, sstr = None, oelements = 0, element = []\<rparr> (store r)\<rparr>)"
    and "make_object createNil (\<lambda>g. g) ty' (r\<lparr>pos := n\<rparr>) = (Some (Obj (hnext (store r))), r\<lparr>pos := n, store := put_object (task_path r)
        \<lparr>otype = REDIS_REPLY_NIL, integer = 0, slen = 0, sstr = None, oelements = 0, element = []\<rparr> (store r)\<rparr>)"
proof -
  have a: "stack_ok r" "ridx r = int d" "fn r = Some defaultFunctions" "heap_ok (store r)" "link_valid (task_path r) (store r)"
      "rtype (cur_task r) = Some ty"
    using assms by (simp_all add: at_item_def)
  have l: "rtype (last (task_path r)) = Some ty" using path_facts(1)[OF a(1,2)] a(6) by simp
  note c = create_objects[OF a(5,4)] and m = make_created[OF a(3)]
  show "ty \<in> {REDIS_REPLY_ERROR, REDIS_REPLY_STATUS, REDIS_REPLY_STRING} \<Longrightarrow>
      make_object createString (\<lambda>g. g str) ty' (r\<lparr>pos := n\<rparr>) = (Some (Obj (hnext (store r))), r\<lparr>pos := n, store := put_object (task_path r)
        \<lparr>otype = ty, integer = 0, slen = length str, sstr = Some str, oelements = 0, element = []\<rparr> (store r)\<rparr>)"
    by (rule m) (simp add: defaultFunctions_def, rule c(1)[OF l])
qed (rule make_created[where g = createArrayObject] make_created[where g = createIntegerObject] make_created[where g = createNilObject],
  use assms create_objects(2-4)[of "task_path r" "store r"] in \<open>simp_all add: defaultFunctions_def at_item_def\<close>)+

lemma line_item:
  assumes "at_item d (Some ty) r" "unread r = s @ CRLF @ rest" "CHR 0x0A \<notin> set s"
  shows "ty \<in> {REDIS_REPLY_ERROR, REDIS_REPLY_STATUS} \<Longrightarrow> process_typed r = rthen (moveToNextTask (with_object
      \<lparr>otype = ty, integer = 0, slen = length s, sstr = Some s, oelements = 0, element = []\<rparr> (length (s @ CRLF)) r)) (\<lambda>r2. Inr (True, r2))"
    and "ty = REDIS_REPLY_INTEGER \<Longrightarrow> string2ll s = Some v \<Longrightarrow> process_typed r = rthen (moveToNextTask (with_object
      \<lparr>otype = ty, integer = v, slen = 0, sstr = None, oelements = 0, element = []\<rparr> (length (s @ CRLF)) r)) (\<lambda>r2. Inr (True, r2))"
proof -
  have b: "buf_ok r" "rtype (cur_task r) = Some ty" "fn r = Some defaultFunctions" using assms(1) by (simp_all add: at_item_def)
  have t: "rtype (cur_task (r\<lparr>pos := n\<rparr>)) = Some ty" for n using b(2) by (simp add: cur_task_def)
  note rl = readLine_line[OF b(1) assms(2,3)] and m = make_objects[OF assms(1)]
  show "ty \<in> {REDIS_REPLY_ERROR, REDIS_REPLY_STATUS} \<Longrightarrow> process_typed r = rthen (moveToNextTask (with_object
      \<lparr>otype = ty, integer = 0, slen = length s, sstr = Some s, oelements = 0, element = []\<rparr> (length (s @ CRLF)) r)) (\<lambda>r2. Inr (True, r2))"
    using b(2) t rl m(1) by (auto simp: process_typed_def processLineItem_def finish_item_def set_root_def)
  show "ty = REDIS_REPLY_INTEGER \<Longrightarrow> string2ll s = Some v \<Longrightarrow> process_typed r = rthen (moveToNextTask (with_object
      \<lparr>otype = ty, integer = v, slen = 0, sstr = None, oelements = 0, element = []\<rparr> (length (s @ CRLF)) r)) (\<lambda>r2. Inr (True, r2))"
    using b(2,3) t rl m(3) by (auto simp: process_typed_def processLineItem_def finish_item_def set_root_def defaultFunctions_def)
qed

lemma finish_object:
  "finish_item (Some (Obj (hnext (store r)))) (r\<lparr>store := put_object (task_path r) x (store r), pos := pos r + n\<rparr>) =
   rthen (moveToNextTask (with_object x n r)) (\<lambda>r2. Inr (True, r2))"
proof -
  have w: "r\<lparr>store := st, pos := k\<rparr> = r\<lparr>pos := k, store := st\<rparr>" for st k by simp
  show ?thesis unfolding w by (simp add: finish_item_def set_root_def)
qed

lemma string2ll_length: "n < INT_LIMIT \<Longrightarrow> string2ll (sdsll2str (int n)) = Some (int n)"
  by (auto simp: string2ll_eq INT_LIMIT_def)

lemma minus_one: "string2ll ''-1'' = Some (-1)"
  by (simp add: string2ll_def isdigit_def digit_def)

lemma bulk_item:
  assumes "at_item d (Some REDIS_REPLY_STRING) r" "unread r = sdsll2str (int (length s)) @ CRLF @ s @ CRLF @ rest"
  shows "process_typed r = rthen (moveToNextTask (with_object
      \<lparr>otype = REDIS_REPLY_STRING, integer = 0, slen = length s, sstr = Some s, oelements = 0, element = []\<rparr>
      (length (sdsll2str (int (length s)) @ CRLF @ s @ CRLF)) r)) (\<lambda>r2. Inr (True, r2))"
proof -
  let ?l = "sdsll2str (int (length s))" and ?p = "drop (pos r) (rbytes r)"
  have b: "buf_ok r" "rtype (cur_task r) = Some REDIS_REPLY_STRING" using assms(1) by (simp_all add: at_item_def)
  obtain t where t: "?p = ?l @ CRLF @ s @ CRLF @ rest @ t" using unread_bytes(1)[OF b(1)] assms(2) by auto
  have i: "seekNewline ?p (left r) = Some (length ?l)" "take (length ?l) ?p = ?l"
    using seek_line[OF b(1) assms(2) digits_no_newline] by simp_all
  have l: "length ?l + 2 + length s + 2 \<le> left r" "left r = len r - pos r" "left r < INT_LIMIT" "len r < INT_LIMIT"
    using unread_bytes(2,3)[OF b(1)] assms(2) left_ok[OF b(1)] b(1) by (simp_all add: CRLF_def buf_ok_def)
  have n: "string2ll ?l = Some (int (length s))" by (rule string2ll_length) (use l in simp)
  have m: "length ?l + 2 + length s + 2 < 2 ^ 64" "pos r + (length ?l + 2 + length s + 2) < 2 ^ 64"
    "pos r + (length ?l + 2 + length s + 2) \<le> len r"
    using l by (auto simp: INT_LIMIT_def)
  then have e: "bulk_end r (length ?l) (int (length s)) = pos r + length (?l @ CRLF @ s @ CRLF)"
    "bulk_end r (length ?l) (int (length s)) mod 2 ^ 64 \<le> len r"
    by (simp_all add: bulk_end_def CRLF_def)
  have x: "take (length s) (drop (length ?l + 2) ?p) = s" unfolding t by (simp add: CRLF_def)
  have q: "make_object createString (\<lambda>g. g s) REDIS_REPLY_STRING r = (Some (Obj (hnext (store r))), r\<lparr>store := put_object (task_path r)
        \<lparr>otype = REDIS_REPLY_STRING, integer = 0, slen = length s, sstr = Some s, oelements = 0, element = []\<rparr> (store r)\<rparr>)"
    using make_objects(1)[OF assms(1), of s REDIS_REPLY_STRING "pos r"] by simp
  have "processBulkItem r = finish_item (Some (Obj (hnext (store r)))) (r\<lparr>store := put_object (task_path r)
        \<lparr>otype = REDIS_REPLY_STRING, integer = 0, slen = length s, sstr = Some s, oelements = 0, element = []\<rparr> (store r),
        pos := pos r + length (?l @ CRLF @ s @ CRLF)\<rparr>)"
    unfolding processBulkItem_def Let_def i option.case n e(1)[symmetric] using e(2) q x by simp
  then show ?thesis unfolding finish_object using b(2) by (simp add: process_typed_def)
qed

text \<open>The two spellings of nil.\<close>

lemma nil_bulk_item:
  assumes "at_item d (Some REDIS_REPLY_STRING) r" "unread r = ''-1'' @ CRLF @ rest"
  shows "process_typed r = rthen (moveToNextTask (with_object
      \<lparr>otype = REDIS_REPLY_NIL, integer = 0, slen = 0, sstr = None, oelements = 0, element = []\<rparr> (length (''-1'' @ CRLF)) r)) (\<lambda>r2. Inr (True, r2))"
proof -
  let ?p = "drop (pos r) (rbytes r)"
  have b: "buf_ok r" "rtype (cur_task r) = Some REDIS_REPLY_STRING" using assms(1) by (simp_all add: at_item_def)
  have i: "seekNewline ?p (left r) = Some (length ''-1'')" "take (length ''-1'') ?p = ''-1''"
    by (rule seek_line[OF b(1) assms(2)]; simp)+
  have q: "make_object createNil (\<lambda>g. g) REDIS_REPLY_NIL r = (Some (Obj (hnext (store r))), r\<lparr>store := put_object (task_path r)
        \<lparr>otype = REDIS_REPLY_NIL, integer = 0, slen = 0, sstr = None, oelements = 0, element = []\<rparr> (store r)\<rparr>)"
    using make_objects(4)[OF assms(1), of REDIS_REPLY_NIL "pos r"] by simp
  have "processBulkItem r = finish_item (Some (Obj (hnext (store r)))) (r\<lparr>store := put_object (task_path r)
        \<lparr>otype = REDIS_REPLY_NIL, integer = 0, slen = 0, sstr = None, oelements = 0, element = []\<rparr> (store r),
        pos := pos r + length (''-1'' @ CRLF)\<rparr>)"
    unfolding processBulkItem_def Let_def i option.case minus_one using q by (simp add: CRLF_def)
  then show ?thesis unfolding finish_object using b(2) by (simp add: process_typed_def)
qed

section \<open>Arrays\<close>

text \<open>The root reply may be set before or after the next task is found.\<close>

lemma move_root:
  "rthen (moveToNextTask r) (\<lambda>r2. Inr (True, set_root (ridx r = 0) q r2)) = rthen (moveToNextTask (set_root (ridx r = 0) q r)) (\<lambda>r2. Inr (True, r2))"
proof (cases "ridx r = 0")
  case True
  have "moveToNextTask r = Inr (r\<lparr>ridx := -1\<rparr>)" using True by (subst moveToNextTask.simps) simp
  moreover have "moveToNextTask (r\<lparr>reply := q\<rparr>) = Inr (r\<lparr>reply := q, ridx := -1\<rparr>)" using True by (subst moveToNextTask.simps) simp
  moreover have "r\<lparr>ridx := -1, reply := q\<rparr> = r\<lparr>reply := q, ridx := -1\<rparr>" by simp
  ultimately show ?thesis using True by (simp add: set_root_def)
qed (simp add: set_root_def)

lemma array_line:
  assumes "at_item d (Some REDIS_REPLY_ARRAY) r" "d < 8" "unread r = l @ CRLF @ rest" "CHR 0x0A \<notin> set l"
  shows "string2ll l = Some (-1) \<Longrightarrow> process_typed r = rthen (moveToNextTask (with_object
      \<lparr>otype = REDIS_REPLY_NIL, integer = 0, slen = 0, sstr = None, oelements = 0, element = []\<rparr> (length (l @ CRLF)) r)) (\<lambda>r2. Inr (True, r2))"
    and "string2ll l = Some 0 \<Longrightarrow> process_typed r = rthen (moveToNextTask (with_object
      \<lparr>otype = REDIS_REPLY_ARRAY, integer = 0, slen = 0, sstr = None, oelements = 0, element = []\<rparr> (length (l @ CRLF)) r)) (\<lambda>r2. Inr (True, r2))"
    and "string2ll l = Some n \<Longrightarrow> 0 < n \<Longrightarrow> n < int INT_LIMIT \<Longrightarrow> process_typed r = Inr (True, set_root (ridx r = 0) (Some (Obj (hnext (store r))))
      (push_task n (Some (Obj (hnext (store r)))) (r\<lparr>pos := pos r + length (l @ CRLF), store := put_object (task_path r)
      \<lparr>otype = REDIS_REPLY_ARRAY, integer = 0, slen = 0, sstr = None, oelements = nat n, element = replicate (nat n) None\<rparr> (store r)\<rparr>)))"
proof -
  have b: "buf_ok r" "rtype (cur_task r) = Some REDIS_REPLY_ARRAY" "ridx r = int d" "length (rstack r) = 9"
    using assms(1) by (simp_all add: at_item_def stack_ok_def)
  note rl = readLine_line[OF b(1) assms(3,4)] and m = make_objects[OF assms(1)]
  have d8: "ridx r \<noteq> 8" using b(3) assms(2) by simp
  have v: "rthen (moveToNextTask (r\<lparr>pos := k, store := st\<rparr>)) (\<lambda>r2. Inr (True, set_root (ridx r = 0) q r2)) =
      rthen (moveToNextTask (set_root (ridx r = 0) q (r\<lparr>pos := k, store := st\<rparr>))) (\<lambda>r2. Inr (True, r2))" for k st q
    using move_root[of "r\<lparr>pos := k, store := st\<rparr>" q] by simp
  show "string2ll l = Some (-1) \<Longrightarrow> process_typed r = rthen (moveToNextTask (with_object
      \<lparr>otype = REDIS_REPLY_NIL, integer = 0, slen = 0, sstr = None, oelements = 0, element = []\<rparr> (length (l @ CRLF)) r)) (\<lambda>r2. Inr (True, r2))"
    using b(2) rl m(4) d8 v[where k = "pos r + length (l @ CRLF)"] by (simp add: process_typed_def processMultiBulkItem_def)
  show "string2ll l = Some 0 \<Longrightarrow> process_typed r = rthen (moveToNextTask (with_object
      \<lparr>otype = REDIS_REPLY_ARRAY, integer = 0, slen = 0, sstr = None, oelements = 0, element = []\<rparr> (length (l @ CRLF)) r)) (\<lambda>r2. Inr (True, r2))"
    using b(2) rl m(2)[of 0] d8 v[where k = "pos r + length (l @ CRLF)"] by (simp add: process_typed_def processMultiBulkItem_def)
  show "string2ll l = Some n \<Longrightarrow> 0 < n \<Longrightarrow> n < int INT_LIMIT \<Longrightarrow> process_typed r = Inr (True, set_root (ridx r = 0) (Some (Obj (hnext (store r))))
      (push_task n (Some (Obj (hnext (store r)))) (r\<lparr>pos := pos r + length (l @ CRLF), store := put_object (task_path r)
      \<lparr>otype = REDIS_REPLY_ARRAY, integer = 0, slen = 0, sstr = None, oelements = nat n, element = replicate (nat n) None\<rparr> (store r)\<rparr>)))"
    using b(2-4) rl m(2)[of n] d8 assms(2) by (simp add: process_typed_def processMultiBulkItem_def INT_LIMIT_def)
qed

lemma link_cells:
  assumes "link_valid tasks h" "parent (last tasks) = Some i" "tobj (tasks ! i) = Some (Obj q)" "cells h q = Some pr"
  shows "cells (link_parent tasks p h) = (cells h)(q := Some (pr\<lparr>element := (element pr)[nat (idx (last tasks)) := Some p]\<rparr>))"
  using assms by (auto simp: link_valid_def link_parent_def Let_def set_cell_def)

text \<open>The elements from \<open>k\<close> on of the array \<open>q\<close> have been read, and its task is the current one again.\<close>

definition filled :: "nat \<Rightarrow> (nat, reply_heap) redisReader \<Rightarrow> nat \<Rightarrow> redisReply \<Rightarrow> nat \<Rightarrow> resp list \<Rightarrow> char list \<Rightarrow>
    (nat, reply_heap) redisReader \<Rightarrow> nat list \<Rightarrow> bool" where
  "filled d r q pr k ts rest r1 ps \<longleftrightarrow> stack_ok r1 \<and> buf_ok r1 \<and> err r1 = None \<and> ridx r1 = int d \<and> fn r1 = Some defaultFunctions \<and>
     heap_ok (store r1) \<and> unread r1 = rest \<and> take (d + 1) (rstack r1) = take (d + 1) (rstack r) \<and> reply r1 = reply r \<and>
     hnext (store r) \<le> hnext (store r1) \<and> cells (store r1) q = Some (pr\<lparr>element := take k (element pr) @ map Some ps\<rparr>) \<and>
     list_all2 (rep (cells (store r1)) (hnext (store r)) (hnext (store r1))) ps ts \<and>
     (\<forall>a < hnext (store r). a \<noteq> q \<longrightarrow> cells (store r1) a = cells (store r) a)"

text \<open>The reader is at the element \<open>k\<close> of the array \<open>q\<close>, which has \<open>n\<close> elements.\<close>

definition at_child :: "nat \<Rightarrow> nat \<Rightarrow> redisReply \<Rightarrow> nat \<Rightarrow> nat \<Rightarrow> (nat, reply_heap) redisReader \<Rightarrow> bool" where
  "at_child d q pr k n r \<longleftrightarrow> at_item (d + 1) None r \<and> tobj (rstack r ! d) = Some (Obj q) \<and> q < hnext (store r) \<and>
     cells (store r) q = Some pr \<and> otype pr = REDIS_REPLY_ARRAY \<and> length (element pr) = n \<and>
     elements (rstack r ! d) = int n \<and> idx (cur_task r) = int k \<and> k < n"

lemma child_facts:
  assumes "at_child d q pr k n r" "built (d + 1) r t rest r1"
  shows "rstack r1 ! d = rstack r ! d" "idx (cur_task r1) = int k" "d + 1 < 9" "length (rstack r1) = 9"
    "rtype (rstack r ! d) = Some REDIS_REPLY_ARRAY"
    "a < hnext (store r) \<Longrightarrow> cells (store r1) a = ((cells (store r))(q := Some (pr\<lparr>element := (element pr)[k := Some (hnext (store r))]\<rparr>))) a"
proof -
  have a: "stack_ok r" "ridx r = int (d + 1)" "parent (cur_task r) = Some d" "link_valid (task_path r) (store r)"
    using assms(1) by (auto simp: at_child_def at_item_def)
  have b: "stack_ok r1" "take (d + 1) (rstack r1) = take (d + 1) (rstack r)" "idx (cur_task r1) = idx (cur_task r)"
    using assms(2) by (simp_all add: built_def)
  show "idx (cur_task r1) = int k" using b(3) assms(1) by (simp add: at_child_def)
  show "rstack r1 ! d = rstack r ! d" using b(2) by (metis less_add_one nth_take)
  show "d + 1 < 9" "length (rstack r1) = 9" using a(1,2) b(1) by (auto simp: stack_ok_def)
  show "rtype (rstack r ! d) = Some REDIS_REPLY_ARRAY" using a(1,2) unfolding stack_ok_def by simp
  note pf = path_facts[OF a(1,2)]
  have "parent (last (task_path r)) = Some d" "tobj (task_path r ! d) = Some (Obj q)" "cells (store r) q = Some pr" "nat (idx (last (task_path r))) = k"
    using pf(1) pf(2)[of d] a(3) assms(1) by (simp_all add: at_child_def)
  from link_cells[OF a(4) this(1-3)] this(4)
  show "a < hnext (store r) \<Longrightarrow> cells (store r1) a = ((cells (store r))(q := Some (pr\<lparr>element := (element pr)[k := Some (hnext (store r))]\<rparr>))) a"
    using assms(2) by (simp add: built_def)
qed

lemma last_child:
  assumes "at_child d q pr k (k + 1) r" "built (d + 1) r t rest r1"
  shows "after r1 = after (r1\<lparr>ridx := int d\<rparr>)" "filled d r q pr k [t] rest (r1\<lparr>ridx := int d\<rparr>) [hnext (store r)]"
proof -
  note f = child_facts[OF assms]
  have b: "stack_ok r1" "ridx r1 = int (d + 1)" using assms(2) by (simp_all add: built_def)
  have c: "elements (rstack r ! d) = int k + 1" "length (element pr) = k + 1" "q < hnext (store r)" "cells (store r) q = Some pr"
    using assms(1) by (simp_all add: at_child_def)
  have n: "nat (ridx r1) = d + 1" "nat (ridx r1 - 1) = d" using b(2) by simp_all
  have "idx (rstack r1 ! (d + 1)) = int k" using f(2) n(1) by (simp add: cur_task_def)
  then have "moveToNextTask r1 = moveToNextTask (r1\<lparr>ridx := int d\<rparr>)"
    using f(1,3,4,5) c(1) b(2) n by (subst moveToNextTask.simps) (simp add: Let_def)
  then show "after r1 = after (r1\<lparr>ridx := int d\<rparr>)" by (simp add: after_def)
  have s: "stack_ok (r1\<lparr>ridx := int d\<rparr>)" using b f(1,5) by (simp add: stack_ok_def)
  have e: "(element pr)[k := x] = take k (element pr) @ [x]" for x using c(2) by (simp add: upd_conv_take_nth_drop)
  have u: "unread (r1\<lparr>ridx := int d\<rparr>) = unread r1" by (simp add: unread_def rbytes_def)
  show "filled d r q pr k [t] rest (r1\<lparr>ridx := int d\<rparr>) [hnext (store r)]"
    using assms(2) s u f(6) c(3) e by (auto simp: filled_def built_def)
qed

lemma next_child:
  assumes "at_child d q pr k n r" "built (d + 1) r t rest r1" "k + 1 < n"
  shows "\<exists>r2. after r1 = items_loop r2 \<and> at_child d q (pr\<lparr>element := (element pr)[k := Some (hnext (store r))]\<rparr>) (k + 1) n r2 \<and>
    unread r2 = rest \<and> take (d + 1) (rstack r2) = take (d + 1) (rstack r) \<and> store r2 = store r1 \<and> reply r2 = reply r"
proof -
  note f = child_facts[OF assms(1,2)]
  have b: "stack_ok r1" "ridx r1 = int (d + 1)" "buf_ok r1" "err r1 = None" "fn r1 = Some defaultFunctions" "heap_ok (store r1)"
      "unread r1 = rest" "take (d + 1) (rstack r1) = take (d + 1) (rstack r)" "reply r1 = reply r" "hnext (store r) < hnext (store r1)"
      "parent (cur_task r1) = parent (cur_task r)"
    using assms(2) by (simp_all add: built_def)
  have c: "elements (rstack r ! d) = int n" "length (element pr) = n" "q < hnext (store r)" "cells (store r) q = Some pr"
      "tobj (rstack r ! d) = Some (Obj q)" "parent (cur_task r) = Some d" "otype pr = REDIS_REPLY_ARRAY"
    using assms(1) by (auto simp: at_child_def at_item_def)
  have m: "nat (ridx r1) = d + 1" "nat (ridx r1 - 1) = d" using b(2) by simp_all
  have ci: "idx (rstack r1 ! (d + 1)) = int k" using f(2) m(1) by (simp add: cur_task_def)
  let ?t = "(cur_task r1)\<lparr>rtype := None, elements := -1, idx := int k + 1\<rparr>"
  let ?r = "r1\<lparr>rstack := (rstack r1)[d + 1 := ?t]\<rparr>"
  have mv: "moveToNextTask r1 = Inr ?r"
    using f(1,3,4,5) c(1) b(2) m ci assms(3) by (subst moveToNextTask.simps) (simp add: Let_def cur_task_def)
  obtain r' where "moveToNextTask r1 = Inr r'" "stack_ok r'" using moveToNextTask_ok[OF b(1)] by blast
  then have s: "stack_ok ?r" using mv by simp
  have i: "ridx ?r = int (d + 1)" using b(2) by simp
  have ct: "cur_task ?r = ?t" using m(1) f(3,4) by (simp add: cur_task_def)
  note pf = path_facts[OF s i]
  have cq: "cells (store r1) q = Some (pr\<lparr>element := (element pr)[k := Some (hnext (store r))]\<rparr>)" using f(6)[OF c(3)] by simp
  have o: "tobj (rstack ?r ! d) = Some (Obj q)" "elements (rstack ?r ! d) = int n" using f(1) c(1,5) by simp_all
  have "link_valid (task_path ?r) (store r1)"
    using pf(1) pf(2)[of d] ct b(10,11) c o cq assms(3) by (simp add: link_valid_def nat_add_distrib)
  then have "at_item (d + 1) None ?r" using s b c(6) ct by (simp add: at_item_def)
  then have "at_child d q (pr\<lparr>element := (element pr)[k := Some (hnext (store r))]\<rparr>) (k + 1) n ?r"
    using o c cq ct assms(3) b(10) by (simp add: at_child_def)
  moreover have "after r1 = items_loop ?r" using mv by (simp add: after_def)
  moreover have "unread ?r = rest" using b(7) by (simp add: unread_def rbytes_def)
  moreover have "take (d + 1) (rstack ?r) = take (d + 1) (rstack r)" using b(8) by simp
  ultimately show ?thesis using b(9) by (intro exI[of _ ?r]) simp
qed

text \<open>Reading one item, as a property of the reply.\<close>

definition decodes :: "nat \<Rightarrow> resp \<Rightarrow> bool" where
  "decodes d t \<longleftrightarrow> (\<forall>r rest. at_item d None r \<longrightarrow> unread r = encode t @ rest \<longrightarrow> (\<exists>r1. items_loop r = after r1 \<and> built d r t rest r1))"

lemma decode_children:
  assumes "ts \<noteq> []" "\<forall>t \<in> set ts. decodes (d + 1) t" "at_child d q pr k (k + length ts) r" "unread r = concat (map encode ts) @ rest"
  shows "\<exists>r1 ps. items_loop r = after r1 \<and> filled d r q pr k ts rest r1 ps"
  using assms
proof (induction ts arbitrary: r pr k)
  case (Cons t ts)
  have "at_item (d + 1) None r" "unread r = encode t @ concat (map encode ts) @ rest"
    using Cons.prems(3,4) by (simp_all add: at_child_def)
  then obtain r1 where r1: "items_loop r = after r1" "built (d + 1) r t (concat (map encode ts) @ rest) r1"
    using Cons.prems(2) unfolding decodes_def by (metis list.set_intros(1))
  show ?case
  proof (cases "ts = []")
    case True
    then show ?thesis using last_child[of d q pr k r t rest r1] Cons.prems(3) r1 by auto
  next
    case False
    let ?h = "hnext (store r)" and ?pr = "pr\<lparr>element := (element pr)[k := Some (hnext (store r))]\<rparr>"
    have "k + 1 < k + length (t # ts)" using False by (cases ts) simp_all
    from next_child[OF Cons.prems(3) r1(2) this] obtain r2 where r2: "after r1 = items_loop r2"
        "at_child d q ?pr (k + 1) (k + 1 + length ts) r2" "unread r2 = concat (map encode ts) @ rest"
        "take (d + 1) (rstack r2) = take (d + 1) (rstack r)" "store r2 = store r1" "reply r2 = reply r"
      by auto
    from Cons.IH[OF False _ r2(2,3)] Cons.prems(2) obtain r3 ps where r3: "items_loop r2 = after r3"
        "filled d r2 q ?pr (k + 1) ts rest r3 ps" by auto
    have c: "length (element pr) = k + length (t # ts)" "q < ?h" using Cons.prems(3) by (simp_all add: at_child_def)
    have b: "?h < hnext (store r1)" "rep (cells (store r1)) ?h (hnext (store r1)) ?h t" using r1(2) by (simp_all add: built_def)
    have f: "hnext (store r1) \<le> hnext (store r3)" "\<forall>a < hnext (store r1). a \<noteq> q \<longrightarrow> cells (store r3) a = cells (store r1) a"
        "list_all2 (rep (cells (store r3)) (hnext (store r1)) (hnext (store r3))) ps ts"
      using r3(2) r2(5) by (simp_all add: filled_def)
    have "rep (cells (store r3)) ?h (hnext (store r3)) ?h t"
      by (rule rep_frame[OF b(2)]) (use f c(2) in auto)
    moreover have "list_all2 (rep (cells (store r3)) ?h (hnext (store r3))) ps ts"
      using f(3) by (rule list_all2_mono) (erule rep_frame; use b(1) in simp)
    moreover have "take (k + 1) ((element pr)[k := Some ?h]) @ map Some ps = take k (element pr) @ map Some (?h # ps)"
      using c(1) by (simp add: take_Suc_conv_app_nth)
    moreover have "cells (store r3) a = cells (store r) a" if "a < ?h" "a \<noteq> q" for a
      using f(2) child_facts(6)[OF Cons.prems(3) r1(2) that(1)] that b(1) by simp
    ultimately have "filled d r q pr k (t # ts) rest r3 (?h # ps)"
      using r3(2) r2(4-6) b(1) f(1) by (simp add: filled_def)
    then show ?thesis using r1(1) r2(1) r3(1) by auto
  qed
qed simp

text \<open>The first element of an array: its task is pushed.\<close>

lemma first_child:
  assumes "at_item d (Some REDIS_REPLY_ARRAY) r" "d < 8" "0 < n" "unread r = xs @ rest"
  defines "p \<equiv> hnext (store r)"
  defines "x \<equiv> \<lparr>otype = REDIS_REPLY_ARRAY, integer = 0, slen = 0, sstr = None, oelements = n, element = replicate n None\<rparr>"
  defines "r2 \<equiv> set_root (ridx r = 0) (Some (Obj p)) (push_task (int n) (Some (Obj p)) (r\<lparr>pos := pos r + length xs, store := put_object (task_path r) x (store r)\<rparr>))"
  shows "at_child d p x 0 n r2" "unread r2 = rest" "store r2 = put_object (task_path r) x (store r)"
    "take d (rstack r2) = take d (rstack r)" "idx (rstack r2 ! d) = idx (cur_task r)" "parent (rstack r2 ! d) = parent (cur_task r)"
    "reply r2 = (if d = 0 then Some (Obj p) else reply r)" "d < length (rstack r2)"
proof -
  have a: "stack_ok r" "buf_ok r" "err r = None" "ridx r = int d" "fn r = Some defaultFunctions" "heap_ok (store r)"
      "rtype (cur_task r) = Some REDIS_REPLY_ARRAY"
    using assms(1) by (simp_all add: at_item_def)
  have l: "length (rstack r) = 9" using a(1) by (simp add: stack_ok_def)
  let ?h = "put_object (task_path r) x (store r)"
  let ?r = "r\<lparr>pos := pos r + length xs, store := ?h\<rparr>"
  have u: "unread (r\<lparr>pos := pos r + length xs\<rparr>) = rest" "buf_ok (r\<lparr>pos := pos r + length xs\<rparr>)"
    using unread_advance[OF a(2) assms(4)] by simp_all
  have st: "store r2 = ?h" "err r2 = None" "fn r2 = Some defaultFunctions" "ridx r2 = int (d + 1)" "reply r2 = (if d = 0 then Some (Obj p) else reply r)"
      "rstack r2 = (rstack r)[d := (cur_task r)\<lparr>elements := int n, tobj := Some (Obj p)\<rparr>,
         d + 1 := \<lparr>rtype = None, elements = -1, idx = 0, tobj = None, parent = Some d\<rparr>]"
    using a(3-5) by (simp_all add: r2_def set_root_def push_task_def Let_def cur_task_def)
  show "store r2 = put_object (task_path r) x (store r)" "reply r2 = (if d = 0 then Some (Obj p) else reply r)" by (rule st)+
  show "unread r2 = rest" using u(1) by (simp add: r2_def set_root_def push_task_def Let_def unread_def rbytes_def)
  have b2: "buf_ok r2" using u(2) by (simp add: r2_def set_root_def push_task_def Let_def buf_ok_def)
  have sd: "rstack r2 ! d = (cur_task r)\<lparr>elements := int n, tobj := Some (Obj p)\<rparr>" using l assms(2) unfolding st(6) by simp
  then show "idx (rstack r2 ! d) = idx (cur_task r)" "parent (rstack r2 ! d) = parent (cur_task r)" by simp_all
  show "take d (rstack r2) = take d (rstack r)" "d < length (rstack r2)" using l assms(2) unfolding st(6) by simp_all
  have ct: "cur_task r2 = \<lparr>rtype = None, elements = -1, idx = 0, tobj = None, parent = Some d\<rparr>"
    using l assms(2) st(4) unfolding cur_task_def st(6) by (simp add: nat_add_distrib)
  have "stack_ok (push_task (int n) (Some (Obj p)) ?r)"
    using push_task_ok[of ?r "int n" "Some (Obj p)"] a(1,4,7) assms(2,3) by (simp add: cur_task_def)
  then have s: "stack_ok r2" by (simp add: r2_def set_root_def)
  note pf = path_facts[OF s st(4)]
  have h: "cells ?h p = Some x" "hnext ?h = p + 1" "heap_ok ?h" using put_object_ok[OF a(6)] by (simp_all add: put_object_def p_def)
  have "link_valid (task_path r2) ?h"
    using pf(1) pf(2)[of d] ct sd h assms(3) by (simp add: link_valid_def x_def)
  then have "at_item (d + 1) None r2" using s b2 st ct h(3) by (simp add: at_item_def)
  then show "at_child d p x 0 n r2" using sd h st(1) ct assms(3) by (simp add: at_child_def x_def)
qed

lemma array_built:
  assumes "at_item d (Some REDIS_REPLY_ARRAY) r" "d < 8" "ts \<noteq> []" "\<forall>t \<in> set ts. decodes (d + 1) t"
    and u: "unread r = sdsll2str (int (length ts)) @ CRLF @ concat (map encode ts) @ rest"
  shows "\<exists>r2 r1. process_typed r = Inr (True, r2) \<and> items_loop r2 = after r1 \<and> built d r (Arr ts) rest r1"
proof -
  let ?n = "length ts" and ?l = "sdsll2str (int (length ts))" and ?p = "hnext (store r)"
  let ?x = "\<lparr>otype = REDIS_REPLY_ARRAY, integer = 0, slen = 0, sstr = None, oelements = ?n, element = replicate ?n None\<rparr>"
  let ?r = "set_root (ridx r = 0) (Some (Obj ?p)) (push_task (int ?n) (Some (Obj ?p))
    (r\<lparr>pos := pos r + length (?l @ CRLF), store := put_object (task_path r) ?x (store r)\<rparr>))"
  have b: "buf_ok r" using assms(1) by (simp add: at_item_def)
  have "?n \<le> length (concat (map encode ts))"
  proof (induction ts)
    case (Cons t ts)
    have "encode t \<noteq> []" by (cases t) simp_all
    then obtain y ys where "encode t = y # ys" by (cases "encode t") auto
    then show ?case using Cons by simp
  qed simp
  also have "\<dots> \<le> left r" using unread_bytes(2)[OF b] u by simp
  finally have n: "?n < INT_LIMIT" "0 < ?n" using unread_bytes(3)[OF b] assms(3) by simp_all
  have pt: "process_typed r = Inr (True, ?r)"
    using array_line(3)[OF assms(1,2) u digits_no_newline string2ll_length[OF n(1)]] n by simp
  have "unread r = (?l @ CRLF) @ concat (map encode ts) @ rest" using u by simp
  note fc = first_child[OF assms(1,2) n(2) this]
  obtain r1 ps where r1: "items_loop ?r = after r1" "filled d ?r ?p ?x 0 ts rest r1 ps"
    using decode_children[OF assms(3,4), of ?p ?x 0 ?r rest] fc(1,2) by auto
  let ?h = "put_object (task_path r) ?x (store r)"
  have h: "hnext ?h = ?p + 1" "\<forall>a < ?p. cells ?h a = cells (link_parent (task_path r) ?p (store r)) a" by (simp_all add: put_object_def)
  have f: "stack_ok r1" "buf_ok r1" "err r1 = None" "ridx r1 = int d" "fn r1 = Some defaultFunctions" "heap_ok (store r1)" "unread r1 = rest"
      "take (d + 1) (rstack r1) = take (d + 1) (rstack ?r)" "reply r1 = reply ?r" "?p < hnext (store r1)"
      "cells (store r1) ?p = Some (?x\<lparr>element := map Some ps\<rparr>)"
      "list_all2 (rep (cells (store r1)) (?p + 1) (hnext (store r1))) ps ts" "\<forall>a < ?p. cells (store r1) a = cells ?h a"
    using r1(2) fc(3) h(1) by (simp_all add: filled_def)
  have "list_all2 (rep (cells (store r1)) ?p (hnext (store r1))) ps ts"
    using f(12) by (rule list_all2_mono) (erule rep_frame; simp)
  then have "list_all2 (\<lambda>e t. \<exists>q. e = Some q \<and> rep (cells (store r1)) ?p (hnext (store r1)) q t) (map Some ps) ts"
    by (simp add: list_all2_conv_all_nth)
  then have rp: "rep (cells (store r1)) ?p (hnext (store r1)) ?p (Arr ts)" using f(10,11) by auto
  have c: "rstack r1 ! d = rstack ?r ! d" "take d (rstack r1) = take d (rstack ?r)"
    using arg_cong[OF f(8), of "\<lambda>s. s ! d"] arg_cong[OF f(8), of "take d"] by simp_all
  then have ct: "cur_task r1 = rstack ?r ! d" using f(4) by (simp add: cur_task_def)
  have "built d r (Arr ts) rest r1"
    unfolding built_def
  proof (intro conjI)
    show "take d (rstack r1) = take d (rstack r)" using c(2) fc(4) by (rule trans)
    show "idx (cur_task r1) = idx (cur_task r)" "parent (cur_task r1) = parent (cur_task r)" unfolding ct using fc(5,6) by simp_all
    show "reply r1 = (if d = 0 then Some (Obj ?p) else reply r)" using f(9) fc(7) by (rule trans)
    show "\<forall>a < ?p. cells (store r1) a = cells (link_parent (task_path r) ?p (store r)) a" using f(13) h(2) by simp
  qed (rule f rp)+
  then show ?thesis using pt r1(1) by blast
qed

section \<open>Replies\<close>

lemma object_decodes:
  assumes "encode t = c # xs" "type_of_byte c = Some ty" "\<And>m h. m h = Some x \<Longrightarrow> rep m h (h + 1) h t"
    and "\<And>r rest. at_item d (Some ty) r \<Longrightarrow> unread r = xs @ rest \<Longrightarrow>
      process_typed r = rthen (moveToNextTask (with_object x (length xs) r)) (\<lambda>r2. Inr (True, r2))"
  shows "decodes d t"
  unfolding decodes_def
proof (intro allI impI)
  fix r rest assume r: "at_item d None r" "unread r = encode t @ rest"
  obtain r0 where r0: "processItem r = process_typed r0" "at_item d (Some ty) r0" "unread r0 = xs @ rest" "same_place d r r0"
    using typed_item[OF r(1) _ assms(2), of "xs @ rest"] r(2) assms(1) by auto
  have "built d r0 t rest (with_object x (length xs) r0)" by (rule object_built[OF r0(2,3) assms(3)])
  moreover have "0 \<le> ridx r" using r(1) by (simp add: at_item_def)
  ultimately show "\<exists>r1. items_loop r = after r1 \<and> built d r t rest r1"
    using items_loop_after[of r] r0(1) assms(4)[OF r0(2,3)] built_same_place[OF r0(4)] by metis
qed

lemma resp_decodes: "resp_ok d t \<Longrightarrow> decodes d t"
proof (induction t arbitrary: d)
  case (Arr ts)
  have d: "d < 8" "\<forall>t \<in> set ts. decodes (d + 1) t" using Arr by auto
  let ?l = "sdsll2str (int (length ts))"
  show ?case
  proof (cases "ts = []")
    case True
    have z: "string2ll (sdsll2str 0) = Some 0" using string2ll_length[of 0] by (simp add: INT_LIMIT_def)
    show ?thesis unfolding True
    proof (rule object_decodes)
      show "encode (Arr []) = CHR ''*'' # (sdsll2str 0 @ CRLF)" by simp
      show "process_typed r = rthen (moveToNextTask (with_object \<lparr>otype = REDIS_REPLY_ARRAY, integer = 0, slen = 0, sstr = None, oelements = 0, element = []\<rparr>
          (length (sdsll2str 0 @ CRLF)) r)) (\<lambda>r2. Inr (True, r2))" if "at_item d (Some REDIS_REPLY_ARRAY) r" "unread r = (sdsll2str 0 @ CRLF) @ rest" for r rest
        using array_line(2)[OF that(1) d(1) _ digits_no_newline z, of rest] that(2) by simp
    qed (simp_all add: type_of_byte_def)
  next
    case False
    show ?thesis unfolding decodes_def
    proof (intro allI impI)
      fix r rest assume r: "at_item d None r" "unread r = encode (Arr ts) @ rest"
      have i: "0 \<le> ridx r" using r(1) by (simp add: at_item_def)
      obtain r0 where r0: "processItem r = process_typed r0" "at_item d (Some REDIS_REPLY_ARRAY) r0"
          "unread r0 = ?l @ CRLF @ concat (map encode ts) @ rest" "same_place d r r0"
        using typed_item[OF r(1), of "CHR ''*''"] r(2) by (auto simp: type_of_byte_def)
      from array_built[OF r0(2) d(1) False d(2) r0(3)] show "\<exists>r1. items_loop r = after r1 \<and> built d r (Arr ts) rest r1"
        using items_loop_more[OF i] r0(1) built_same_place[OF r0(4)] by metis
    qed
  qed
next
  case (Status s)
  show ?case
  proof (rule object_decodes)
    show "encode (Status s) = CHR ''+'' # (s @ CRLF)" by simp
    show "process_typed r = rthen (moveToNextTask (with_object \<lparr>otype = REDIS_REPLY_STATUS, integer = 0, slen = length s, sstr = Some s, oelements = 0, element = []\<rparr>
        (length (s @ CRLF)) r)) (\<lambda>r2. Inr (True, r2))" if "at_item d (Some REDIS_REPLY_STATUS) r" "unread r = (s @ CRLF) @ rest" for r rest
      using line_item(1)[OF that(1), of s rest] that(2) Status by simp
  qed (simp_all add: type_of_byte_def str_cell_def)
next
  case (Error s)
  show ?case
  proof (rule object_decodes)
    show "encode (Error s) = CHR ''-'' # (s @ CRLF)" by simp
    show "process_typed r = rthen (moveToNextTask (with_object \<lparr>otype = REDIS_REPLY_ERROR, integer = 0, slen = length s, sstr = Some s, oelements = 0, element = []\<rparr>
        (length (s @ CRLF)) r)) (\<lambda>r2. Inr (True, r2))" if "at_item d (Some REDIS_REPLY_ERROR) r" "unread r = (s @ CRLF) @ rest" for r rest
      using line_item(1)[OF that(1), of s rest] that(2) Error by simp
  qed (simp_all add: type_of_byte_def str_cell_def)
next
  case (Integer v)
  let ?l = "sdsll2str v"
  have v: "string2ll ?l = Some v" using Integer by (simp add: string2ll_eq)
  show ?case
  proof (rule object_decodes)
    show "encode (Integer v) = CHR '':'' # (?l @ CRLF)" by simp
    show "process_typed r = rthen (moveToNextTask (with_object \<lparr>otype = REDIS_REPLY_INTEGER, integer = v, slen = 0, sstr = None, oelements = 0, element = []\<rparr>
        (length (?l @ CRLF)) r)) (\<lambda>r2. Inr (True, r2))" if "at_item d (Some REDIS_REPLY_INTEGER) r" "unread r = (?l @ CRLF) @ rest" for r rest
      using line_item(2)[OF that(1) _ digits_no_newline refl v, of rest] that(2) by simp
  qed (simp_all add: type_of_byte_def)
next
  case (Bulk s)
  let ?l = "sdsll2str (int (length s))"
  show ?case
  proof (rule object_decodes)
    show "encode (Bulk s) = CHR ''$'' # (?l @ CRLF @ s @ CRLF)" by simp
    show "process_typed r = rthen (moveToNextTask (with_object \<lparr>otype = REDIS_REPLY_STRING, integer = 0, slen = length s, sstr = Some s, oelements = 0, element = []\<rparr>
        (length (?l @ CRLF @ s @ CRLF)) r)) (\<lambda>r2. Inr (True, r2))" if "at_item d (Some REDIS_REPLY_STRING) r" "unread r = (?l @ CRLF @ s @ CRLF) @ rest" for r rest
      using bulk_item[OF that(1), of s rest] that(2) by simp
  qed (simp_all add: type_of_byte_def str_cell_def)
next
  case Nil_bulk
  show ?case
  proof (rule object_decodes)
    show "encode Nil_bulk = CHR ''$'' # (''-1'' @ CRLF)" by simp
    show "process_typed r = rthen (moveToNextTask (with_object \<lparr>otype = REDIS_REPLY_NIL, integer = 0, slen = 0, sstr = None, oelements = 0, element = []\<rparr>
        (length (''-1'' @ CRLF)) r)) (\<lambda>r2. Inr (True, r2))" if "at_item d (Some REDIS_REPLY_STRING) r" "unread r = (''-1'' @ CRLF) @ rest" for r rest
      using nil_bulk_item[OF that(1), of rest] that(2) by simp
  qed (simp_all add: type_of_byte_def)
next
  case Nil_array
  show ?case
  proof (rule object_decodes)
    show "encode Nil_array = CHR ''*'' # (''-1'' @ CRLF)" by simp
    show "process_typed r = rthen (moveToNextTask (with_object \<lparr>otype = REDIS_REPLY_NIL, integer = 0, slen = 0, sstr = None, oelements = 0, element = []\<rparr>
        (length (''-1'' @ CRLF)) r)) (\<lambda>r2. Inr (True, r2))" if "at_item d (Some REDIS_REPLY_ARRAY) r" "unread r = (''-1'' @ CRLF) @ rest" for r rest
      using array_line(1)[OF that(1) _ _ _ minus_one, of rest] that(2) Nil_array by simp
  qed (simp_all add: type_of_byte_def)
qed

text \<open>A reader between two replies, with the default functions and memory to spare.\<close>

definition idle :: "(nat, reply_heap) redisReader \<Rightarrow> bool" where
  "idle r \<longleftrightarrow> reader_ok r \<and> err r = None \<and> ridx r = -1 \<and> fn r = Some defaultFunctions \<and> heap_ok (store r)"

lemma create_idle: "heap_ok h \<Longrightarrow> \<exists>r. redisReaderCreate (Some g) h = Some r \<and> idle r \<and> unread r = [] \<and> len r = 0 \<and> store r = h"
  using create_ok[of g "Some defaultFunctions" h]
  by (auto simp: redisReaderCreate_def idle_def redisReaderCreateWithFunctions_def unread_def split: sum.splits)

lemma getReply_decodes:
  assumes "idle r" "unread r = encode t @ rest" "resp_ok 0 t"
  shows "\<exists>p r1. redisReaderGetReply r = Inr (True, Some (Obj p), r1) \<and> rep (cells (store r1)) (hnext (store r)) (hnext (store r1)) p t \<and>
    (\<forall>a < hnext (store r). cells (store r1) a = cells (store r) a) \<and> unread r1 = rest \<and> idle r1"
proof -
  have a: "stack_ok r" "buf_ok r" "err r = None" "ridx r = -1" "fn r = Some defaultFunctions" "heap_ok (store r)"
    using assms(1) by (simp_all add: idle_def reader_ok_def)
  have l: "0 < length (rstack r)" using a(1) by (simp add: stack_ok_def)
  obtain y ys where "encode t = y # ys" by (cases t) simp_all
  then have "0 < left r" using unread_bytes(2)[OF a(2)] assms(2) by simp
  then have len: "len r \<noteq> 0" using left_ok[OF a(2)] by simp
  define r1 where "r1 = r\<lparr>rstack := (rstack r)[0 := new_task], ridx := 0\<rparr>"
  have s1: "stack_ok r1" "buf_ok r1" "cur_task r1 = new_task" "unread r1 = encode t @ rest" "store r1 = store r"
    using a l assms(2) by (auto simp: r1_def stack_ok_def buf_ok_def cur_task_def new_task_def unread_def rbytes_def)
  have lp: "parent (last (task_path r1)) = None" using path_facts(1)[OF s1(1), of 0] s1(3) by (simp add: r1_def new_task_def)
  then have "link_valid (task_path r1) (store r)" by (simp add: link_valid_def)
  then have "at_item 0 None r1" using s1 a by (simp add: at_item_def r1_def new_task_def)
  then obtain r2 where r2: "items_loop r1 = after r2" "built 0 r1 t rest r2"
    using resp_decodes[OF assms(3)] s1(4) unfolding decodes_def by blast
  have b: "stack_ok r2" "buf_ok r2" "err r2 = None" "ridx r2 = 0" "fn r2 = Some defaultFunctions" "heap_ok (store r2)" "unread r2 = rest"
      "reply r2 = Some (Obj (hnext (store r)))" "rep (cells (store r2)) (hnext (store r)) (hnext (store r2)) (hnext (store r)) t"
      "\<forall>a < hnext (store r). cells (store r2) a = cells (store r) a"
    using r2(2) s1(5) lp by (simp_all add: built_def link_parent_def Let_def)
  let ?r = "r2\<lparr>ridx := -1\<rparr>"
  have "moveToNextTask r2 = Inr ?r" using b(4) by (subst moveToNextTask.simps) simp
  then have i: "items_loop r1 = Some (Inr ?r)" using r2(1) by (simp add: after_def items_loop.simps)
  have "reader_ok ?r" using b(1-4) by (simp add: reader_ok_def stack_ok_def)
  from compact_ok[OF this] obtain r3 where r3: "compact ?r = Inr r3" "reader_ok r3" "err r3 = None" "ridx r3 = -1" "reply r3 = reply r2"
      "unread r3 = unread r2" "store r3 = store r2" "fn r3 = fn r2"
    using b(3) by (auto simp: unread_def rbytes_def)
  have "redisReaderGetReply r = Inr (True, reply r3, r3\<lparr>reply := None\<rparr>)"
    using a(3,4) len i b(3) r3(1,4) by (simp add: redisReaderGetReply_def r1_def[symmetric])
  moreover have "idle (r3\<lparr>reply := None\<rparr>)" using r3 b by (simp add: idle_def reader_ok_def)
  moreover have "unread (r3\<lparr>reply := None\<rparr>) = rest" using r3(6) b(7) by (simp add: unread_def rbytes_def)
  ultimately show ?thesis using r3(5,7) b(8-10) by auto
qed

text \<open>C24: whatever is left in the buffer of an idle reader and however much arrives with the next portion,
  when the bytes begin with the encoding of a reply then feeding succeeds, the next reply is that reply, built in
  fresh objects without touching older ones, and exactly its bytes are consumed.\<close>

theorem reader_decodes:
  assumes "idle r" "unread r @ bytes = encode t @ rest" "resp_ok 0 t" "len r + length bytes < INT_LIMIT"
  shows "\<exists>r1 p r2. redisReaderFeed (Some g) bytes r = Inr (True, r1) \<and> redisReaderGetReply r1 = Inr (True, Some (Obj p), r2) \<and>
    rep (cells (store r2)) (hnext (store r)) (hnext (store r2)) p t \<and>
    (\<forall>a < hnext (store r). cells (store r2) a = cells (store r) a) \<and> unread r2 = rest \<and> idle r2"
proof -
  obtain r1 where r1: "redisReaderFeed (Some g) bytes r = Inr (True, r1)" "idle r1" "unread r1 = encode t @ rest" "store r1 = store r"
    using feed_ok[of r bytes g] assms by (auto simp: idle_def)
  then show ?thesis using getReply_decodes[OF r1(2,3) assms(3)] by auto
qed

theorem reader_decodes_witness:
  "\<exists>r0 r1 p r2. redisReaderCreate (Some NUL) \<lparr>cells = Map.empty, hnext = 1, oom = None, heap_fault = False\<rparr> = Some r0 \<and>
     redisReaderFeed (Some NUL) (encode (Arr [Integer 7, Bulk ''ab'', Arr []]) @ ''+O'') r0 = Inr (True, r1) \<and>
     redisReaderGetReply r1 = Inr (True, Some (Obj p), r2) \<and>
     rep (cells (store r2)) 1 (hnext (store r2)) p (Arr [Integer 7, Bulk ''ab'', Arr []]) \<and> unread r2 = ''+O''"
proof -
  let ?h = "\<lparr>cells = Map.empty, hnext = 1, oom = None, heap_fault = False\<rparr> :: reply_heap" and ?t = "Arr [Integer 7, Bulk ''ab'', Arr []]"
  obtain r0 where r0: "redisReaderCreate (Some NUL) ?h = Some r0" "idle r0" "unread r0 = []" "len r0 = 0" "store r0 = ?h"
    using create_idle[of ?h NUL] by (auto simp: heap_ok_def)
  have "length (encode ?t @ ''+O'') < INT_LIMIT" by (simp add: INT_LIMIT_def sdsll2str_cases digits_rev.simps CRLF_def)
  from reader_decodes [OF r0(2), of "encode ?t @ ''+O''" ?t "''+O''" NUL] this r0 show ?thesis by auto
qed

end
