(* ===== verification/Reader_Stream.thy ===== *)
theory Reader_Stream
  imports Reader_Decode
begin

text \<open>
  Pipelined replies: a decoder that takes one encoded value after another from its input decodes a whole
  sequence, and the reader of hiredis is such a decoder.
\<close>

section \<open>Decoders of streams\<close>

fun decode_n :: "('s \<Rightarrow> ('v \<times> 's) option) \<Rightarrow> nat \<Rightarrow> 's \<Rightarrow> ('v list \<times> 's) option" where
  "decode_n nxt 0 s = Some ([], s)"
| "decode_n nxt (Suc n) s =
     (case nxt s of
        None \<Rightarrow> None
      | Some (v, s1) \<Rightarrow> (case decode_n nxt n s1 of None \<Rightarrow> None | Some (vs, s2) \<Rightarrow> Some (v # vs, s2)))"

locale stream_decoder =
  fixes ready :: "'s \<Rightarrow> bool"
    and inp :: "'s \<Rightarrow> 'b list"
    and nxt :: "'s \<Rightarrow> ('v \<times> 's) option"
    and enc :: "'t \<Rightarrow> 'b list"
    and good :: "'t \<Rightarrow> bool"
    and denotes :: "'s \<Rightarrow> 'v \<Rightarrow> 't \<Rightarrow> bool"
  assumes decode: "ready s \<Longrightarrow> inp s = enc t @ rest \<Longrightarrow> good t \<Longrightarrow>
      \<exists>v s1. nxt s = Some (v, s1) \<and> ready s1 \<and> inp s1 = rest \<and> denotes s1 v t"
    and stable: "ready s \<Longrightarrow> inp s = enc t @ rest \<Longrightarrow> good t \<Longrightarrow> nxt s = Some (v, s1) \<Longrightarrow> denotes s w u \<Longrightarrow> denotes s1 w u"
begin

lemma decode_keeps:
  "ready s \<Longrightarrow> inp s = concat (map enc ts) @ rest \<Longrightarrow> \<forall>t \<in> set ts. good t \<Longrightarrow> denotes s w u \<Longrightarrow>
   \<exists>vs s1. decode_n nxt (length ts) s = Some (vs, s1) \<and> denotes s1 w u \<and> ready s1 \<and> inp s1 = rest \<and> list_all2 (denotes s1) vs ts"
proof (induction ts arbitrary: s w u)
  case (Cons t ts)
  have i: "inp s = enc t @ concat (map enc ts) @ rest" "good t" using Cons.prems(2,3) by auto
  obtain v s1 where n: "nxt s = Some (v, s1)" "ready s1" "inp s1 = concat (map enc ts) @ rest" "denotes s1 v t"
    using decode[OF Cons.prems(1) i] by blast
  have "denotes s1 w u" by (rule stable[OF Cons.prems(1) i n(1) Cons.prems(4)])
  from Cons.IH[OF n(2,3) _ this] Cons.IH[OF n(2,3) _ n(4)] Cons.prems(3) n(1) show ?case by fastforce
qed simp

lemma decode_stream:
  assumes "ready s" "inp s = concat (map enc ts) @ rest" "\<forall>t \<in> set ts. good t"
  shows "\<exists>vs s1. decode_n nxt (length ts) s = Some (vs, s1) \<and> list_all2 (denotes s1) vs ts \<and> inp s1 = rest \<and> ready s1"
proof (cases ts)
  case Nil
  then show ?thesis using assms by simp
next
  case (Cons t us)
  have i: "inp s = enc t @ concat (map enc us) @ rest" "good t" "\<forall>t \<in> set us. good t" using assms(2,3) Cons by auto
  obtain v s1 where n: "nxt s = Some (v, s1)" "ready s1" "inp s1 = concat (map enc us) @ rest" "denotes s1 v t"
    using decode[OF assms(1) i(1,2)] by blast
  from decode_keeps[OF n(2,3) i(3) n(4)] n(1) show ?thesis unfolding Cons by auto
qed

end

section \<open>The reader as a decoder\<close>

definition next_reply :: "(nat, reply_heap) redisReader \<Rightarrow> (nat \<times> (nat, reply_heap) redisReader) option" where
  "next_reply r = (case redisReaderGetReply r of Inr (True, Some (Obj p), r1) \<Rightarrow> Some (p, r1) | _ \<Rightarrow> None)"

definition reply_in :: "(nat, reply_heap) redisReader \<Rightarrow> nat \<Rightarrow> resp \<Rightarrow> bool" where
  "reply_in r p t \<longleftrightarrow> (\<exists>lo hi. rep (cells (store r)) lo hi p t \<and> hi \<le> hnext (store r))"

lemma next_reply_decodes:
  assumes "idle r" "unread r = encode t @ rest" "resp_ok 0 t"
  shows "\<exists>p r1. next_reply r = Some (p, r1) \<and> idle r1 \<and> unread r1 = rest \<and> reply_in r1 p t \<and>
    hnext (store r) \<le> hnext (store r1) \<and> (\<forall>a < hnext (store r). cells (store r1) a = cells (store r) a)"
proof -
  obtain p r1 where g: "redisReaderGetReply r = Inr (True, Some (Obj p), r1)" "rep (cells (store r1)) (hnext (store r)) (hnext (store r1)) p t"
      "\<forall>a < hnext (store r). cells (store r1) a = cells (store r) a" "unread r1 = rest" "idle r1"
    using getReply_decodes[OF assms] by blast
  have "hnext (store r) \<le> hnext (store r1)" using g(2) by (cases t) auto
  then show ?thesis using g by (auto simp: next_reply_def reply_in_def)
qed

lemma reply_in_frame:
  assumes "reply_in r p t" "hnext (store r) \<le> hnext (store r1)" "\<forall>a < hnext (store r). cells (store r1) a = cells (store r) a"
  shows "reply_in r1 p t"
proof -
  obtain lo hi where l: "rep (cells (store r)) lo hi p t" "hi \<le> hnext (store r)" using assms(1) by (auto simp: reply_in_def)
  have "rep (cells (store r1)) lo hi p t" by (rule rep_frame[OF l(1)]) (use l(2) assms(3) in auto)
  then show ?thesis using l(2) assms(2) unfolding reply_in_def by (meson le_trans)
qed

interpretation replies: stream_decoder idle unread next_reply encode "resp_ok 0" reply_in
proof
  show "\<exists>v s1. next_reply s = Some (v, s1) \<and> idle s1 \<and> unread s1 = rest \<and> reply_in s1 v t"
    if "idle s" "unread s = encode t @ rest" "resp_ok 0 t" for s t rest
    using next_reply_decodes[OF that] by blast
  show "reply_in s1 w u" if "idle s" "unread s = encode t @ rest" "resp_ok 0 t" "next_reply s = Some (v, s1)" "reply_in s w u" for s t rest v s1 w u
    using next_reply_decodes[OF that(1-3)] that(4) reply_in_frame[OF that(5)] by auto
qed

text \<open>C27: pipelined replies. When an idle reader holds the encodings of a sequence of replies, asking it once for
  each gives them in order, all of them still intact at the end, and leaves the rest of the input.\<close>

theorem pipeline_decodes:
  assumes "idle r" "unread r = concat (map encode ts) @ rest" "\<forall>t \<in> set ts. resp_ok 0 t"
  shows "\<exists>ps r1. decode_n next_reply (length ts) r = Some (ps, r1) \<and> list_all2 (reply_in r1) ps ts \<and> unread r1 = rest \<and> idle r1"
  using assms by (rule replies.decode_stream)

theorem pipeline_decodes_witness:
  "\<exists>r0 r ps r1. redisReaderCreate (Some NUL) \<lparr>cells = Map.empty, hnext = 1, oom = None, heap_fault = False\<rparr> = Some r0 \<and>
     redisReaderFeed (Some NUL) (concat (map encode [Status ''OK'', Integer (-3)])) r0 = Inr (True, r) \<and>
     decode_n next_reply 2 r = Some (ps, r1) \<and> list_all2 (reply_in r1) ps [Status ''OK'', Integer (-3)]"
proof -
  let ?h = "\<lparr>cells = Map.empty, hnext = 1, oom = None, heap_fault = False\<rparr> :: reply_heap" and ?ts = "[Status ''OK'', Integer (-3)]"
  obtain r0 where r0: "redisReaderCreate (Some NUL) ?h = Some r0" "idle r0" "unread r0 = []" "len r0 = 0"
    using create_idle[of ?h NUL] by (auto simp: heap_ok_def)
  have "len r0 + length (concat (map encode ?ts)) < INT_LIMIT" using r0(4) by (simp add: INT_LIMIT_def sdsll2str_cases digits_rev.simps CRLF_def)
  from feed_ok[OF _ this, of NUL] r0(2,3) obtain r where
    r: "redisReaderFeed (Some NUL) (concat (map encode ?ts)) r0 = Inr (True, r)" "idle r" "unread r = concat (map encode ?ts)"
    by (auto simp: idle_def)
  have "unread r = concat (map encode ?ts) @ []" "\<forall>t \<in> set ?ts. resp_ok 0 t" using r(3) by simp_all
  from pipeline_decodes[OF r(2) this] obtain ps r1 where "decode_n next_reply 2 r = Some (ps, r1)" "list_all2 (reply_in r1) ps ?ts"
    by (auto simp: numeral_2_eq_2)
  then show ?thesis using r0(1) r(1) by blast
qed

end
