(* ===== verification/Reader_Chunks.thy ===== *)
theory Reader_Chunks
  imports Reader_Decode
begin

text \<open>
  The reader and the way its input is cut into portions. A parser on lists of bytes, without buffer and positions, is
  the specification the reader refines; on it, stopping at the end of the input and going on with more is the same
  as having had all the input at once.
\<close>

section \<open>The parser on lists\<close>

text \<open>A reader without its buffer.\<close>

definition core :: "('o, 's) redisReader \<Rightarrow> ('o, 's) redisReader" where
  "core r = r\<lparr>rbuf := None, pos := 0, len := 0\<rparr>"

fun first_line :: "char list \<Rightarrow> nat option" where
  "first_line (a # b # xs) = (if a = CHR 0x0D \<and> b = CHR 0x0A then Some 0 else map_option Suc (first_line (b # xs)))"
| "first_line _ = None"

type_synonym ('o, 's) parsed = "reader_fault + bool \<times> ('o, 's) redisReader \<times> char list"

definition p_finish :: "'o robj option \<Rightarrow> ('o, 's) redisReader \<Rightarrow> char list \<Rightarrow> ('o, 's) parsed" where
  "p_finish q k rest =
     (if q = None then Inr (False, setErrorOOM k, [])
      else rthen (moveToNextTask (if ridx k = 0 then k\<lparr>reply := q\<rparr> else k)) (\<lambda>k1. Inr (True, k1, rest)))"

definition p_line :: "('o, 's) redisReader \<Rightarrow> char list \<Rightarrow> ('o, 's) parsed" where
  "p_line k bs =
     (case first_line bs of
        None \<Rightarrow> Inr (False, k, bs)
      | Some i \<Rightarrow>
          (let line = take i bs; rest = drop (i + 2) bs in
           if rtype (cur_task k) = Some REDIS_REPLY_INTEGER
           then
             (if (case fn k of None \<Rightarrow> False | Some f \<Rightarrow> createInteger f \<noteq> None)
              then (case string2ll line of
                      None \<Rightarrow> Inr (False, setError REDIS_ERR_PROTOCOL ''Bad integer value'' k, [])
                    | Some v \<Rightarrow> (let (q, k1) = make_object createInteger (\<lambda>g. g v) REDIS_REPLY_INTEGER k in p_finish q k1 rest))
              else p_finish (Some (Tag REDIS_REPLY_INTEGER)) k rest)
           else (let (q, k1) = make_object createString (\<lambda>g. g line) (the (rtype (cur_task k))) k in p_finish q k1 rest)))"

definition p_bulk :: "('o, 's) redisReader \<Rightarrow> char list \<Rightarrow> ('o, 's) parsed" where
  "p_bulk k bs =
     (case first_line bs of
        None \<Rightarrow> Inr (False, k, bs)
      | Some i \<Rightarrow>
          (case string2ll (take i bs) of
             None \<Rightarrow> Inr (False, setError REDIS_ERR_PROTOCOL ''Bad bulk string length'' k, [])
           | Some n \<Rightarrow>
               if n < -1 then Inr (False, setError REDIS_ERR_PROTOCOL ''Bulk string length out of range'' k, [])
               else if n = -1
               then (let (q, k1) = make_object createNil (\<lambda>g. g) REDIS_REPLY_NIL k in p_finish q k1 (drop (i + 2) bs))
               else if i + 2 + nat n + 2 \<le> length bs
               then (let (q, k1) = make_object createString (\<lambda>g. g (take (nat n) (drop (i + 2) bs))) REDIS_REPLY_STRING k
                     in p_finish q k1 (drop (i + 2 + nat n + 2) bs))
               else Inr (False, k, bs)))"

definition p_next :: "bool \<Rightarrow> 'o robj option \<Rightarrow> ('o, 's) redisReader \<Rightarrow> char list \<Rightarrow> ('o, 's) parsed" where
  "p_next root q k rest = rthen (moveToNextTask k) (\<lambda>k1. Inr (True, set_root root q k1, rest))"

definition p_multi :: "('o, 's) redisReader \<Rightarrow> char list \<Rightarrow> ('o, 's) parsed" where
  "p_multi k bs =
     (if ridx k = 8
      then Inr (False, setError REDIS_ERR_PROTOCOL ''No support for nested multi bulk replies with depth > 7'' k, [])
      else
        (case first_line bs of
           None \<Rightarrow> Inr (False, k, bs)
         | Some i \<Rightarrow>
             (case string2ll (take i bs) of
                None \<Rightarrow> Inr (False, setError REDIS_ERR_PROTOCOL ''Bad multi-bulk length'' k, [])
              | Some n \<Rightarrow>
                  (let root = (ridx k = 0); rest = drop (i + 2) bs in
                   if n < -1 \<or> n > 2 ^ 31 - 1
                   then Inr (False, setError REDIS_ERR_PROTOCOL ''Multi-bulk length out of range'' k, [])
                   else if n = -1
                   then (let (q, k1) = make_object createNil (\<lambda>g. g) REDIS_REPLY_NIL k in
                         if q = None then Inr (False, setErrorOOM k1, []) else p_next root q k1 rest)
                   else (let (q, k1) = make_object createArray (\<lambda>g. g n) REDIS_REPLY_ARRAY k in
                         if q = None then Inr (False, setErrorOOM k1, [])
                         else if n > 0
                         then (if nat (ridx k1) + 1 < length (rstack k1)
                               then Inr (True, set_root root q (push_task n q k1), rest) else Inl Bad_access)
                         else p_next root q k1 rest)))))"

definition p_typed :: "('o, 's) redisReader \<Rightarrow> char list \<Rightarrow> ('o, 's) parsed" where
  "p_typed k bs =
     (case rtype (cur_task k) of
        Some REDIS_REPLY_ERROR \<Rightarrow> p_line k bs
      | Some REDIS_REPLY_STATUS \<Rightarrow> p_line k bs
      | Some REDIS_REPLY_INTEGER \<Rightarrow> p_line k bs
      | Some REDIS_REPLY_STRING \<Rightarrow> p_bulk k bs
      | Some REDIS_REPLY_ARRAY \<Rightarrow> p_multi k bs
      | _ \<Rightarrow> Inl Assert_failed)"

definition set_rtype :: "reply_type \<Rightarrow> ('o, 's) redisReader \<Rightarrow> ('o, 's) redisReader" where
  "set_rtype ty k = k\<lparr>rstack := (rstack k)[nat (ridx k) := (cur_task k)\<lparr>rtype := Some ty\<rparr>]\<rparr>"

definition p_item :: "('o, 's) redisReader \<Rightarrow> char list \<Rightarrow> ('o, 's) parsed" where
  "p_item k bs =
     (if \<not> (0 \<le> ridx k \<and> nat (ridx k) < length (rstack k)) then Inl Bad_access
      else if rtype (cur_task k) = None
      then (case bs of
              [] \<Rightarrow> Inr (False, k, [])
            | c # cs \<Rightarrow>
                (case type_of_byte c of
                   None \<Rightarrow> Inr (False, setErrorProtocolByte c k, [])
                 | Some ty \<Rightarrow> p_typed (set_rtype ty k) cs))
      else p_typed k bs)"

partial_function (option) p_items :: "('o, 's) redisReader \<times> char list \<Rightarrow> (reader_fault + ('o, 's) redisReader \<times> char list) option" where
  "p_items kb =
     (if ridx (fst kb) \<ge> 0
      then (case p_item (fst kb) (snd kb) of
              Inl e \<Rightarrow> Some (Inl e)
            | Inr res \<Rightarrow> if fst res then p_items (snd res) else Some (Inr (snd res)))
      else Some (Inr kb))"

section \<open>The reader refines the parser\<close>

definition view :: "('o, 's) redisReader \<Rightarrow> ('o, 's) redisReader \<times> char list" where
  "view r = (core r, unread r)"

definition vres :: "reader_fault + bool \<times> ('o, 's) redisReader \<Rightarrow> ('o, 's) parsed" where
  "vres = map_sum id (map_prod id view)"

lemma core_simps [simp]:
  "ridx (core r) = ridx r" "rstack (core r) = rstack r" "fn (core r) = fn r" "store (core r) = store r" "reply (core r) = reply r" "err (core r) = err r"
  "errstr (core r) = errstr r" "core (core r) = core r" "cur_task (core r) = cur_task r" "task_path (core r) = task_path r"
  "core (r\<lparr>pos := p\<rparr>) = core r" "core (r\<lparr>store := s\<rparr>) = (core r)\<lparr>store := s\<rparr>" "core (r\<lparr>reply := q\<rparr>) = (core r)\<lparr>reply := q\<rparr>"
  "core (r\<lparr>rstack := t\<rparr>) = (core r)\<lparr>rstack := t\<rparr>" "core (r\<lparr>ridx := i\<rparr>) = (core r)\<lparr>ridx := i\<rparr>"
  by (simp_all add: core_def cur_task_def task_path_def)

lemma core_ridx: "core r = k \<Longrightarrow> ridx r = ridx k"
  by auto

lemma core_err: "core r = k \<Longrightarrow> err r = err k"
  by auto

lemma core_fields: "core r = k \<Longrightarrow> store r = store k \<and> fn r = fn k"
  by auto

lemma setError_core [simp]: "setError ty str (core r) = setError ty str r" "core (setError ty str r) = setError ty str r"
    "setErrorOOM (core r) = setErrorOOM r" "core (setErrorOOM r) = setErrorOOM r"
    "setErrorProtocolByte c (core r) = setErrorProtocolByte c r" "core (setErrorProtocolByte c r) = setErrorProtocolByte c r"
    "unread (setError ty str r) = []" "unread (setErrorOOM r) = []" "unread (setErrorProtocolByte c r) = []"
    "setError ty str (r\<lparr>pos := p\<rparr>) = setError ty str r" "setErrorOOM (r\<lparr>pos := p\<rparr>) = setErrorOOM r"
    "setErrorProtocolByte c (r\<lparr>pos := p\<rparr>) = setErrorProtocolByte c r"
  by (auto simp: setErrorOOM_def setErrorProtocolByte_def setError_def core_def unread_def rbytes_def Let_def split: option.split)

lemma unread_frame [simp]:
  "unread (r\<lparr>store := s\<rparr>) = unread r" "unread (r\<lparr>reply := q\<rparr>) = unread r" "unread (r\<lparr>rstack := t\<rparr>) = unread r" "unread (r\<lparr>ridx := i\<rparr>) = unread r"
  by (simp_all add: unread_def rbytes_def)

lemma move_core: "moveToNextTask (core r) = map_sum id core (moveToNextTask r)"
proof (induction r rule: moveToNextTask.induct)
  case (1 r)
  let ?p = "ridx r < 0 \<or> ridx r = 0 \<or> \<not> nat (ridx r) < length (rstack r) \<or> rtype (rstack r ! nat (ridx r - 1)) \<noteq> Some REDIS_REPLY_ARRAY \<or>
    idx (rstack r ! nat (ridx r)) \<noteq> elements (rstack r ! nat (ridx r - 1)) - 1"
  show ?case
  proof (cases ?p)
    case True
    then show ?thesis unfolding moveToNextTask.simps[of r] moveToNextTask.simps[of "core r"] by (auto simp: Let_def)
  next
    case False
    then have "moveToNextTask r = moveToNextTask (r\<lparr>ridx := ridx r - 1\<rparr>)" "moveToNextTask (core r) = moveToNextTask ((core r)\<lparr>ridx := ridx r - 1\<rparr>)"
      unfolding moveToNextTask.simps[of r] moveToNextTask.simps[of "core r"] by (simp_all add: Let_def)
    then show ?thesis using 1 False by simp
  qed
qed

lemma move_unread: "moveToNextTask r = Inr r1 \<Longrightarrow> unread r1 = unread r \<and> err r1 = err r"
proof (induction r rule: moveToNextTask.induct)
  case (1 r)
  show ?case using 1(2) unfolding moveToNextTask.simps[of r] by (simp add: Let_def split: if_splits) (use 1(1) in auto)
qed

lemma make_core: "make_object sel app ty (core r) = map_prod id core (make_object sel app ty r)"
  by (auto simp: make_object_def split: option.split prod.split)

lemma finish_view: "vres (finish_item q r) = p_finish q (core r) (unread r)"
proof (cases "q = None")
  case True
  then show ?thesis by (simp add: finish_item_def p_finish_def vres_def view_def)
next
  case False
  then obtain x where q: "q = Some x" by blast
  define r1 where "r1 = (if ridx r = 0 then r\<lparr>reply := q\<rparr> else r)"
  have c: "(if ridx (core r) = 0 then (core r)\<lparr>reply := q\<rparr> else core r) = core r1" "unread r1 = unread r" by (simp_all add: r1_def)
  have p: "p_finish q (core r) (unread r) = rthen (map_sum id core (moveToNextTask r1)) (\<lambda>k1. Inr (True, k1, unread r))"
    unfolding p_finish_def c(1) move_core by (simp add: q)
  have f: "finish_item q r = rthen (moveToNextTask r1) (\<lambda>r2. Inr (True, r2))" by (simp add: q finish_item_def r1_def)
  show ?thesis
  proof (cases "moveToNextTask r1")
    case (Inl e)
    show ?thesis unfolding p f Inl by (simp add: vres_def)
  next
    case (Inr r2)
    have "unread r2 = unread r" using move_unread[OF Inr] c(2) by simp
    then show ?thesis unfolding p f Inr by (simp add: vres_def view_def)
  qed
qed

text \<open>Lines.\<close>

lemma first_line_SomeD:
  "first_line bs = Some i \<Longrightarrow> i + 1 < length bs \<and> crlf_at bs i \<and> (\<forall>j < i. \<not> crlf_at bs j)"
proof (induction bs arbitrary: i rule: first_line.induct)
  case (1 a b xs)
  show ?case
  proof (cases "a = CHR 0x0D \<and> b = CHR 0x0A")
    case True
    then show ?thesis using "1.prems" by (simp add: crlf_at_def)
  next
    case False
    then obtain j where j: "first_line (b # xs) = Some j" "i = Suc j" using "1.prems" by (auto split: if_splits)
    have "\<not> crlf_at (a # b # xs) 0" using False by (auto simp: crlf_at_def)
    then show ?thesis using 1(1)[OF False j(1)] j(2) by (auto simp: crlf_at_def less_Suc_eq_0_disj)
  qed
qed simp_all

lemma first_line_NoneD: "first_line bs = None \<Longrightarrow> j + 1 < length bs \<Longrightarrow> \<not> crlf_at bs j"
proof (induction bs arbitrary: j rule: first_line.induct)
  case (1 a b xs)
  then show ?case by (cases j) (auto simp: crlf_at_def split: if_splits)
qed simp_all

lemma crlf_at_append: "j + 1 < length bs \<Longrightarrow> crlf_at (bs @ c) j = crlf_at bs j"
  by (simp add: crlf_at_def nth_append)

lemma first_line_append: "first_line bs = Some i \<Longrightarrow> first_line (bs @ c) = Some i"
proof -
  assume a: "first_line bs = Some i"
  note d = first_line_SomeD[OF a]
  have "crlf_at (bs @ c) i" "\<forall>j < i. \<not> crlf_at (bs @ c) j" using d by (auto simp: crlf_at_append)
  then show ?thesis using first_line_SomeD[of "bs @ c"] first_line_NoneD[of "bs @ c" i] d
    by (cases "first_line (bs @ c)") (auto, meson linorder_neqE_nat)
qed

lemma seek_view:
  assumes "buf_ok r"
  shows "seekNewline (drop (pos r) (rbytes r)) (left r) = first_line (unread r)"
proof -
  let ?s = "drop (pos r) (rbytes r)"
  obtain t where t: "?s = unread r @ t" using unread_bytes(1)[OF assms] by blast
  have l: "length (unread r) = left r" "left r < INT_LIMIT" using unread_bytes(2,3)[OF assms] by auto
  show ?thesis
  proof (cases "first_line (unread r)")
    case None
    then show ?thesis using seekNewline_spec(1)[OF l(2), of ?s] first_line_NoneD[OF None] crlf_at_append[of _ "unread r" t] l(1) t
      by (cases "seekNewline ?s (left r)") auto
  next
    case (Some i)
    note d = first_line_SomeD[OF Some]
    have c: "crlf_at ?s i" "\<forall>j < i. \<not> crlf_at ?s j" using d crlf_at_append[of _ "unread r" t] t by auto
    show ?thesis
    proof (cases "seekNewline ?s (left r)")
      case None
      then show ?thesis using seekNewline_spec(2)[OF l(2) None] d c(1) l(1) by auto
    next
      case s: (Some j)
      have "crlf_at ?s j" "\<forall>i < j. \<not> crlf_at ?s i" using seekNewline_spec(1)[OF l(2) s] by simp_all
      then have "j = i" using c by (meson linorder_neqE_nat)
      then show ?thesis using s Some by simp
    qed
  qed
qed

lemma take_unread: "buf_ok r \<Longrightarrow> i \<le> length (unread r) \<Longrightarrow> take i (drop (pos r) (rbytes r)) = take i (unread r)"
  using unread_bytes(1)[of r] by fastforce

lemma unread_pos: "unread (r\<lparr>pos := pos r + n\<rparr>) = drop n (unread r)"
  by (simp add: unread_def rbytes_def add.commute)

lemma make_finish_view:
  "vres (let (q, r1) = make_object sel app ty r in finish_item q r1) = (let (q, k) = make_object sel app ty (core r) in p_finish q k (unread r))"
proof -
  obtain q st where m: "make_object sel app ty r = (q, r\<lparr>store := st\<rparr>)" using make_frame[of sel app ty r] by blast
  show ?thesis using m make_core[of sel app ty r] finish_view[of q "r\<lparr>store := st\<rparr>"] by simp
qed

lemma line_view:
  assumes "buf_ok r"
  shows "vres (processLineItem r) = p_line (core r) (unread r)"
proof (cases "first_line (unread r)")
  case None
  then show ?thesis using seek_view[OF assms] by (simp add: processLineItem_def readLine_def p_line_def vres_def view_def Let_def)
next
  case (Some i)
  let ?r = "r\<lparr>pos := pos r + (i + 2)\<rparr>" and ?l = "take i (unread r)"
  have l: "readLine r = Some (?l, ?r)" using seek_view[OF assms] Some take_unread[OF assms, of i] first_line_SomeD[OF Some]
    by (simp add: readLine_def Let_def add.assoc)
  have u: "unread ?r = drop (i + 2) (unread r)" by (rule unread_pos)
  have c: "core ?r = core r" "fn ?r = fn r" "cur_task ?r = cur_task r" by (simp_all add: cur_task_def)
  note v = make_finish_view[of _ _ _ ?r, unfolded u c(1) Let_def, simplified] finish_view[of _ ?r, unfolded u c(1), simplified]
  have e: "vres (Inr (False, setError ty str ?r)) = Inr (False, setError ty str r, [])" for ty str
    by (simp only: vres_def view_def map_sum.simps map_prod_simp setError_core id_apply)
  show ?thesis unfolding processLineItem_def l p_line_def Some option.case prod.case Let_def[of ?l] Let_def[of "drop (i + 2) (unread r)"]
    unfolding c(2,3) core_simps if_distrib[of vres] option.case_distrib[of vres] e
    using c(1) by (simp add: v Let_def split: option.split)
qed

lemma vres_simps [simp]:
  "vres (Inl e) = Inl e" "vres (Inr (ok, r)) = Inr (ok, core r, unread r)"
  by (simp_all add: vres_def view_def)

text \<open>An object is made before the position moves.\<close>

lemma make_pos_view:
  "vres (let (q, r1) = make_object sel app ty r in if q = None then Inr (False, setErrorOOM r1) else finish_item q (r1\<lparr>pos := pos r + n\<rparr>)) =
   (let (q, k) = make_object sel app ty (core r) in p_finish q k (drop n (unread r)))"
proof -
  obtain q st where m: "make_object sel app ty r = (q, r\<lparr>store := st\<rparr>)" using make_frame[of sel app ty r] by blast
  have e: "r\<lparr>store := st, pos := pos r + n\<rparr> = (r\<lparr>store := st\<rparr>)\<lparr>pos := pos (r\<lparr>store := st\<rparr>) + n\<rparr>" by simp
  have u: "unread (r\<lparr>store := st, pos := pos r + n\<rparr>) = drop n (unread r)" unfolding e unread_pos by simp
  have f: "vres (finish_item q (r\<lparr>store := st, pos := pos r + n\<rparr>)) = p_finish q ((core r)\<lparr>store := st\<rparr>) (drop n (unread r))"
    unfolding finish_view u by simp
  have o: "setErrorOOM ((core r)\<lparr>store := st\<rparr>) = setErrorOOM (r\<lparr>store := st\<rparr>)" using setError_core(3)[of "r\<lparr>store := st\<rparr>"] by simp
  show ?thesis
  proof (cases "q = None")
    case True
    then show ?thesis using m make_core[of sel app ty r] o by (simp add: p_finish_def)
  next
    case False
    then obtain x where "q = Some x" by blast
    then show ?thesis using m make_core[of sel app ty r] f by (simp add: Let_def)
  qed
qed

lemma bulk_view:
  assumes "buf_ok r"
  shows "vres (processBulkItem r) = p_bulk (core r) (unread r)"
proof (cases "first_line (unread r)")
  case None
  then show ?thesis using seek_view[OF assms] by (simp add: processBulkItem_def p_bulk_def Let_def)
next
  case (Some i)
  let ?p = "drop (pos r) (rbytes r)" and ?b = "unread r"
  have d: "i + 1 < length ?b" using first_line_SomeD[OF Some] by simp
  have l: "length ?b = left r" "left r = len r - pos r" "pos r \<le> len r" "len r < INT_LIMIT"
    using unread_bytes(2)[OF assms] left_ok[OF assms] assms by (auto simp: buf_ok_def)
  have t: "take i ?p = take i ?b" using take_unread[OF assms, of i] d by simp
  note s = seek_view[OF assms, unfolded Some]
  show ?thesis
  proof (cases "string2ll (take i ?b)")
    case None
    then show ?thesis using s t Some by (simp add: processBulkItem_def p_bulk_def)
  next
    case n: (Some n)
    have nb: "n < 2 ^ 63" using n by (simp add: string2ll_eq)
    consider "n < -1" | "n = -1" | "0 \<le> n" by linarith
    then show ?thesis
    proof cases
      case 1
      then show ?thesis using s t Some n by (simp add: processBulkItem_def p_bulk_def)
    next
      case 2
      then show ?thesis using s t Some n make_pos_view[of createNil "\<lambda>g. g" REDIS_REPLY_NIL r "i + 2"]
        by (simp add: processBulkItem_def p_bulk_def)
    next
      case 3
      have big: "pos r + (i + 2 + nat n + 2) < 2 ^ 64" "i + 2 + nat n + 2 < 2 ^ 64" using nb d l 3 by (auto simp: INT_LIMIT_def nat_less_iff)
      then have e: "bulk_end r i n = pos r + (i + 2 + nat n + 2)" by (simp add: bulk_end_def)
      have c: "bulk_end r i n mod 2 ^ 64 \<le> len r \<longleftrightarrow> i + 2 + nat n + 2 \<le> length ?b" unfolding e using big(1) l by auto
      have x: "take (nat n) (drop (i + 2) ?p) = take (nat n) (drop (i + 2) ?b)" if "i + 2 + nat n + 2 \<le> length ?b"
      proof -
        have "take (i + 2 + nat n) ?p = take (i + 2 + nat n) ?b" using take_unread[OF assms, of "i + 2 + nat n"] that by simp
        then have "drop (i + 2) (take (i + 2 + nat n) ?p) = drop (i + 2) (take (i + 2 + nat n) ?b)" by simp
        then show ?thesis by (simp add: drop_take)
      qed
      have n3: "\<not> n < -1" "n \<noteq> -1" using 3 by simp_all
      show ?thesis
      proof (cases "i + 2 + nat n + 2 \<le> length ?b")
        case True
        then have "bulk_end r i n mod 2 ^ 64 \<le> len r" using c by blast
        then have "processBulkItem r = (let (q, r1) = make_object createString (\<lambda>g. g (take (nat n) (drop (i + 2) ?b))) REDIS_REPLY_STRING r
            in if q = None then Inr (False, setErrorOOM r1) else finish_item q (r1\<lparr>pos := bulk_end r i n\<rparr>))"
          using s t n n3 x[OF True] unfolding processBulkItem_def by simp
        moreover have "p_bulk (core r) ?b = (let (q, k) = make_object createString (\<lambda>g. g (take (nat n) (drop (i + 2) ?b))) REDIS_REPLY_STRING (core r)
            in p_finish q k (drop (i + 2 + nat n + 2) ?b))"
          using Some n n3 True by (simp add: p_bulk_def)
        ultimately show ?thesis
          using make_pos_view[of createString "\<lambda>g. g (take (nat n) (drop (i + 2) ?b))" REDIS_REPLY_STRING r "i + 2 + nat n + 2"] unfolding e by simp
      next
        case False
        then show ?thesis using s t Some n n3 c by (simp add: processBulkItem_def p_bulk_def Let_def)
      qed
    qed
  qed
qed

lemma root_core [simp]:
  "core (set_root root q r) = set_root root q (core r)" "unread (set_root root q r) = unread r"
  "core (push_task n q r) = push_task n q (core r)" "unread (push_task n q r) = unread r"
  by (simp_all add: set_root_def push_task_def Let_def core_def unread_def rbytes_def)

lemma next_view: "vres (rthen (moveToNextTask r) (\<lambda>r3. Inr (True, set_root root q r3))) = p_next root q (core r) (unread r)"
proof (cases "moveToNextTask r")
  case (Inl e)
  then show ?thesis by (simp add: p_next_def move_core)
next
  case (Inr r1)
  then show ?thesis using move_unread[OF Inr] by (simp add: p_next_def move_core)
qed

lemma multi_view:
  assumes "buf_ok r"
  shows "vres (processMultiBulkItem r) = p_multi (core r) (unread r)"
proof (cases "ridx r = 8")
  case True
  then show ?thesis by (simp add: processMultiBulkItem_def p_multi_def)
next
  case r8: False
  show ?thesis
  proof (cases "first_line (unread r)")
    case None
    then show ?thesis using r8 seek_view[OF assms] by (simp add: processMultiBulkItem_def readLine_def p_multi_def Let_def)
  next
    case (Some i)
    let ?r = "r\<lparr>pos := pos r + (i + 2)\<rparr>" and ?l = "take i (unread r)"
    have l: "readLine r = Some (?l, ?r)" using seek_view[OF assms] Some take_unread[OF assms, of i] first_line_SomeD[OF Some]
      by (simp add: readLine_def Let_def add.assoc)
    show ?thesis
    proof (cases "string2ll ?l")
      case None
      then show ?thesis using r8 l Some by (simp add: processMultiBulkItem_def p_multi_def)
    next
      case n: (Some n)
      obtain q1 s1 where m1: "make_object createNil (\<lambda>g. g) REDIS_REPLY_NIL ?r = (q1, ?r\<lparr>store := s1\<rparr>)"
        using make_frame[of createNil "\<lambda>g. g" REDIS_REPLY_NIL ?r] by blast
      obtain q2 s2 where m2: "make_object createArray (\<lambda>g. g n) REDIS_REPLY_ARRAY ?r = (q2, ?r\<lparr>store := s2\<rparr>)"
        using make_frame[of createArray "\<lambda>g. g n" REDIS_REPLY_ARRAY ?r] by blast
      have c: "core ?r = core r" by simp
      have k: "make_object createNil (\<lambda>g. g) REDIS_REPLY_NIL (core r) = (q1, (core r)\<lparr>store := s1\<rparr>)"
        "make_object createArray (\<lambda>g. g n) REDIS_REPLY_ARRAY (core r) = (q2, (core r)\<lparr>store := s2\<rparr>)"
        using make_core[of createNil "\<lambda>g. g" REDIS_REPLY_NIL ?r] make_core[of createArray "\<lambda>g. g n" REDIS_REPLY_ARRAY ?r] m1 m2 by (simp_all add: c)
      have o: "setErrorOOM ((core r)\<lparr>store := st\<rparr>) = setErrorOOM (?r\<lparr>store := st\<rparr>)" for st
        using setError_core(3)[of "?r\<lparr>store := st\<rparr>"] by simp
      have u: "unread (?r\<lparr>store := st\<rparr>) = drop (i + 2) (unread r)" for st unfolding unread_frame(1) by (rule unread_pos)
      have cs: "core (?r\<lparr>store := st\<rparr>) = (core r)\<lparr>store := st\<rparr>" for st by simp
      have nx: "vres (rthen (moveToNextTask (?r\<lparr>store := st\<rparr>)) (\<lambda>r3. Inr (True, set_root root q r3))) =
          p_next root q ((core r)\<lparr>store := st\<rparr>) (drop (i + 2) (unread r))" for st root q
        unfolding next_view u cs ..
      have pu: "vres (Inr (True, set_root root q (push_task n q (?r\<lparr>store := st\<rparr>)))) =
          Inr (True, set_root root q (push_task n q ((core r)\<lparr>store := st\<rparr>)), drop (i + 2) (unread r))" for st root q
        unfolding vres_simps root_core u cs ..
      define A where "A = (if q1 = None then Inr (False, setErrorOOM (?r\<lparr>store := s1\<rparr>))
        else rthen (moveToNextTask (?r\<lparr>store := s1\<rparr>)) (\<lambda>r3. Inr (True, set_root (ridx r = 0) q1 r3)))"
      define B where "B = (if q2 = None then Inr (False, setErrorOOM (?r\<lparr>store := s2\<rparr>))
        else if n > 0 then (if nat (ridx r) + 1 < length (rstack r) then Inr (True, set_root (ridx r = 0) q2 (push_task n q2 (?r\<lparr>store := s2\<rparr>))) else Inl Bad_access)
        else rthen (moveToNextTask (?r\<lparr>store := s2\<rparr>)) (\<lambda>r3. Inr (True, set_root (ridx r = 0) q2 r3)))"
      have "processMultiBulkItem r = (if n < -1 \<or> n > 2 ^ 31 - 1 then Inr (False, setError REDIS_ERR_PROTOCOL ''Multi-bulk length out of range'' ?r)
          else if n = -1 then A else B)"
        using r8 unfolding processMultiBulkItem_def l option.case prod.case n Let_def m1 m2 A_def B_def by simp
      moreover have "vres A = (if q1 = None then Inr (False, setErrorOOM ((core r)\<lparr>store := s1\<rparr>), [])
          else p_next (ridx r = 0) q1 ((core r)\<lparr>store := s1\<rparr>) (drop (i + 2) (unread r)))"
        unfolding A_def if_distrib[of vres] nx o by simp
      moreover have "vres B = (if q2 = None then Inr (False, setErrorOOM ((core r)\<lparr>store := s2\<rparr>), [])
          else if n > 0 then (if nat (ridx r) + 1 < length (rstack r)
            then Inr (True, set_root (ridx r = 0) q2 (push_task n q2 ((core r)\<lparr>store := s2\<rparr>)), drop (i + 2) (unread r)) else Inl Bad_access)
          else p_next (ridx r = 0) q2 ((core r)\<lparr>store := s2\<rparr>) (drop (i + 2) (unread r)))"
        unfolding B_def if_distrib[of vres] nx pu o by simp
      ultimately show ?thesis using r8 Some n k by (simp add: p_multi_def Let_def)
    qed
  qed
qed

lemma typed_view: "buf_ok r \<Longrightarrow> vres (process_typed r) = p_typed (core r) (unread r)"
  using line_view[of r] bulk_view[of r] multi_view[of r]
  by (auto simp: process_typed_def p_typed_def split: option.split reply_type.split)

lemma item_view:
  assumes "buf_ok r"
  shows "vres (processItem r) = p_item (core r) (unread r)"
proof (cases "0 \<le> ridx r \<and> nat (ridx r) < length (rstack r) \<and> rtype (cur_task r) = None")
  case False
  then show ?thesis using typed_view[OF assms] by (auto simp: processItem_def p_item_def)
next
  case True
  show ?thesis
  proof (cases "unread r")
    case Nil
    then have "left r = 0" using unread_bytes(2)[OF assms] by simp
    then show ?thesis using True Nil by (simp add: processItem_def p_item_def readBytes_def)
  next
    case (Cons c cs)
    let ?r = "r\<lparr>pos := pos r + 1\<rparr>"
    obtain t where t: "drop (pos r) (rbytes r) = c # cs @ t" using unread_bytes(1)[OF assms] Cons by auto
    have "left r \<ge> 1" using unread_bytes(2)[OF assms] Cons by simp
    then have b: "readBytes 1 r = Some (c # cs @ t, ?r)" using t by (simp add: readBytes_def)
    show ?thesis
    proof (cases "type_of_byte c")
      case None
      then show ?thesis using True Cons b by (simp add: processItem_def p_item_def)
    next
      case (Some ty)
      let ?s = "?r\<lparr>rstack := (rstack ?r)[nat (ridx ?r) := (cur_task ?r)\<lparr>rtype := Some ty\<rparr>]\<rparr>"
      have "buf_ok ?r" "unread ?r = cs" using unread_advance[OF assms, of "[c]" cs] Cons by simp_all
      then have "buf_ok ?s" "unread ?s = cs" by simp_all
      moreover have "core ?s = set_rtype ty (core r)" by (simp add: set_rtype_def cur_task_def)
      ultimately have "vres (process_typed ?s) = p_typed (set_rtype ty (core r)) cs" using typed_view[of ?s] by simp
      then show ?thesis using True Cons b Some by (simp add: processItem_def p_item_def)
    qed
  qed
qed

lemma loop_view:
  "reader_ok r \<Longrightarrow> err r = None \<Longrightarrow> \<exists>r1. items_loop r = Some (Inr r1) \<and> reader_ok r1 \<and> p_items (core r, unread r) = Some (Inr (core r1, unread r1))"
proof (induction "len r - pos r" arbitrary: r rule: less_induct)
  case less
  show ?case
  proof (cases "0 \<le> ridx r")
    case False
    then show ?thesis using less.prems by (subst items_loop.simps, subst p_items.simps) simp
  next
    case True
    obtain ok r1 where y: "processItem r = Inr (ok, r1)" "progress r (ok, r1)" using processItem_ok[OF less.prems True] by auto
    have "buf_ok r" using less.prems by (simp add: reader_ok_def)
    then have v: "p_item (core r) (unread r) = Inr (ok, core r1, unread r1)" using item_view[of r] y(1) by simp
    have e: "items_loop r = (if ok then items_loop r1 else Some (Inr r1))" "p_items (core r, unread r) = (if ok then p_items (core r1, unread r1) else Some (Inr (core r1, unread r1)))"
      by (subst items_loop.simps, simp add: True y(1)) (subst p_items.simps, simp add: True v)
    show ?thesis
    proof (cases ok)
      case False
      then show ?thesis using e y(2) by (auto simp: progress_def)
    next
      case True
      then have r1: "reader_ok r1" "err r1 = None" "len r1 = len r" "pos r < pos r1" using y(2) by (auto simp: progress_def)
      then have "len r1 - pos r1 < len r - pos r" by (auto simp: reader_ok_def buf_ok_def)
      from less.hyps[OF this r1(1,2)] show ?thesis using e True by simp
    qed
  qed
qed

section \<open>More input\<close>

lemma err_setError [simp]: "err (setError ty str k) = Some ty" "err (setErrorOOM k) = Some REDIS_ERR_OOM" "err (setErrorProtocolByte c k) = Some REDIS_ERR_PROTOCOL"
  by (simp_all add: setErrorOOM_def setErrorProtocolByte_def setError_def Let_def)

lemma make_err: "make_object sel app ty k = (q, k1) \<Longrightarrow> err k1 = err k"
  using make_frame[of sel app ty k] by auto

text \<open>A step that succeeds or fails does the same with more input behind it, and a step that stops for want of input leaves everything
  as it was.\<close>

definition goes_on :: "char list \<Rightarrow> ('o, 's) redisReader \<Rightarrow> ('o, 's) parsed \<Rightarrow> ('o, 's) parsed \<Rightarrow> bool" where
  "goes_on c k x y \<longleftrightarrow>
     (case x of
        Inl e \<Rightarrow> y = Inl e
      | Inr (ok, k1, b1) \<Rightarrow>
          if ok then y = Inr (True, k1, b1 @ c) \<and> err k1 = err k else err k1 \<noteq> None \<and> y = Inr (False, k1, b1))"

definition stable :: "(('o, 's) redisReader \<Rightarrow> char list \<Rightarrow> ('o, 's) parsed) \<Rightarrow> ('o, 's) redisReader \<Rightarrow> char list \<Rightarrow> char list \<Rightarrow> bool" where
  "stable f k bs c \<longleftrightarrow> goes_on c k (f k bs) (f k (bs @ c)) \<or> f k bs = Inr (False, k, bs)"

lemma stableI:
  "goes_on c k (f k bs) (f k (bs @ c)) \<Longrightarrow> stable f k bs c"
  "f k bs = Inr (False, k, bs) \<Longrightarrow> stable f k bs c"
  by (simp_all add: stable_def)

lemma goes_on_simps [simp]:
  "goes_on c k (Inl e) y = (y = Inl e)" "goes_on c k (Inr (True, k1, b1)) y = (y = Inr (True, k1, b1 @ c) \<and> err k1 = err k)"
  "goes_on c k (Inr (False, k1, b1)) y = (err k1 \<noteq> None \<and> y = Inr (False, k1, b1))"
  by (simp_all add: goes_on_def)

lemma move_more:
  assumes "\<And>k1. err (g k1) = err k1" "err k0 = err k"
  shows "goes_on c k (rthen (moveToNextTask k0) (\<lambda>k1. Inr (True, g k1, rest))) (rthen (moveToNextTask k0) (\<lambda>k1. Inr (True, g k1, rest @ c)))"
proof (cases "moveToNextTask k0")
  case (Inr k1)
  then show ?thesis using move_unread[OF Inr] assms by simp
qed simp

lemma finish_more: "err k0 = err k \<Longrightarrow> goes_on c k (p_finish q k0 rest) (p_finish q k0 (rest @ c))"
proof (cases q)
  case None
  then show ?thesis by (simp add: p_finish_def)
next
  case (Some x)
  define k2 where "k2 = (if ridx k0 = 0 then k0\<lparr>reply := q\<rparr> else k0)"
  assume "err k0 = err k"
  then have e: "err k2 = err k" by (simp add: k2_def)
  have p: "p_finish q k0 b = rthen (moveToNextTask k2) (\<lambda>k1. Inr (True, k1, b))" for b by (simp add: p_finish_def k2_def Some)
  show ?thesis unfolding p by (rule move_more[of "\<lambda>k. k"]) (simp_all add: e)
qed

lemma next_more: "err k0 = err k \<Longrightarrow> goes_on c k (p_next root q k0 rest) (p_next root q k0 (rest @ c))"
  unfolding p_next_def by (rule move_more) (simp_all add: set_root_def)

lemma make_more:
  "goes_on c k (let (q, k1) = make_object sel app ty k in p_finish q k1 rest) (let (q, k1) = make_object sel app ty k in p_finish q k1 (rest @ c))"
proof -
  obtain q st where "make_object sel app ty k = (q, k\<lparr>store := st\<rparr>)" using make_frame[of sel app ty k] by blast
  then show ?thesis using finish_more[of "k\<lparr>store := st\<rparr>" k c q rest] by simp
qed

lemma line_pieces:
  assumes "first_line bs = Some i"
  shows "take i (bs @ c) = take i bs" "drop (i + 2) (bs @ c) = drop (i + 2) bs @ c"
  using first_line_SomeD[OF assms] by auto

lemma line_stable: "stable p_line k bs c"
proof (cases "first_line bs")
  case None
  then show ?thesis by (intro stableI(2)) (simp_all add: p_line_def)
next
  case (Some i)
  note l = line_pieces[OF Some, of c] first_line_append[OF Some, of c]
  show ?thesis
  proof (rule stableI(1))
    show "goes_on c k (p_line k bs) (p_line k (bs @ c))"
    proof (cases "rtype (cur_task k) = Some REDIS_REPLY_INTEGER")
      case True
      then show ?thesis unfolding p_line_def Some l option.case Let_def[of "take i bs"] Let_def[of "drop (i + 2) _"] Let_def[of "drop (i + 2) bs @ c"]
        by (simp add: finish_more make_more[unfolded Let_def, simplified] split: option.split)
    next
      case False
      then show ?thesis unfolding p_line_def Some l option.case Let_def[of "take i bs"] Let_def[of "drop (i + 2) _"] Let_def[of "drop (i + 2) bs @ c"]
        by (simp add: make_more[unfolded Let_def, simplified])
    qed
  qed
qed

lemma bulk_stable: "stable p_bulk k bs c"
proof (cases "first_line bs")
  case None
  then show ?thesis by (intro stableI(2)) (simp_all add: p_bulk_def)
next
  case (Some i)
  note l = line_pieces[OF Some, of c] first_line_append[OF Some, of c]
  show ?thesis
  proof (cases "\<exists>n. string2ll (take i bs) = Some n \<and> 0 \<le> n")
    case True
    then obtain n where n: "string2ll (take i bs) = Some n" "\<not> n < -1" "n \<noteq> -1" by auto
    show ?thesis
    proof (cases "i + 2 + nat n + 2 \<le> length bs")
      case True
      then have "drop (i + 2 + nat n + 2) (bs @ c) = drop (i + 2 + nat n + 2) bs @ c" "take (nat n) (drop (i + 2) bs @ c) = take (nat n) (drop (i + 2) bs)"
          "i + 2 + nat n + 2 \<le> length (bs @ c)" by auto
      then have "p_bulk k (bs @ c) = (let (q, k1) = make_object createString (\<lambda>g. g (take (nat n) (drop (i + 2) bs))) REDIS_REPLY_STRING k
          in p_finish q k1 (drop (i + 2 + nat n + 2) bs @ c))"
        unfolding p_bulk_def l option.case n using n(2,3) by (simp only: if_False if_True)
      moreover have "p_bulk k bs = (let (q, k1) = make_object createString (\<lambda>g. g (take (nat n) (drop (i + 2) bs))) REDIS_REPLY_STRING k
          in p_finish q k1 (drop (i + 2 + nat n + 2) bs))"
        unfolding p_bulk_def Some option.case n using n(2,3) True by (simp only: if_False if_True)
      ultimately show ?thesis by (intro stableI(1)) (simp only: make_more)
    next
      case False
      then show ?thesis using Some n by (intro stableI(2)) (simp_all add: p_bulk_def)
    qed
  next
    case False
    show ?thesis
    proof (rule stableI(1))
      show "goes_on c k (p_bulk k bs) (p_bulk k (bs @ c))"
        unfolding p_bulk_def Some l option.case using False by (auto split: option.split intro: make_more[unfolded Let_def, simplified])
    qed
  qed
qed

lemma multi_stable: "stable p_multi k bs c"
proof (cases "ridx k = 8")
  case True
  then show ?thesis by (intro stableI(1)) (simp add: p_multi_def)
next
  case r8: False
  show ?thesis
  proof (cases "first_line bs")
    case None
    then show ?thesis using r8 by (intro stableI(2)) (simp_all add: p_multi_def)
  next
    case (Some i)
    note l = line_pieces[OF Some, of c] first_line_append[OF Some, of c]
    show ?thesis
    proof (rule stableI(1), cases "string2ll (take i bs)")
      case None
      then show "goes_on c k (p_multi k bs) (p_multi k (bs @ c))" unfolding p_multi_def Some l option.case using r8 by simp
    next
      case n: (Some n)
      obtain q1 s1 where m1: "make_object createNil (\<lambda>g. g) REDIS_REPLY_NIL k = (q1, k\<lparr>store := s1\<rparr>)"
        using make_frame[of createNil "\<lambda>g. g" REDIS_REPLY_NIL k] by blast
      obtain q2 s2 where m2: "make_object createArray (\<lambda>g. g n) REDIS_REPLY_ARRAY k = (q2, k\<lparr>store := s2\<rparr>)"
        using make_frame[of createArray "\<lambda>g. g n" REDIS_REPLY_ARRAY k] by blast
      have nx: "goes_on c k (p_next root q (k\<lparr>store := st\<rparr>) rest) (p_next root q (k\<lparr>store := st\<rparr>) (rest @ c))" for root q st rest
        by (rule next_more) simp
      have e: "err (set_root root q (push_task n q (k\<lparr>store := st\<rparr>))) = err k" for root q st by (simp add: set_root_def push_task_def Let_def)
      show "goes_on c k (p_multi k bs) (p_multi k (bs @ c))"
        unfolding p_multi_def Some l option.case n Let_def m1 m2 prod.case using r8 nx e by simp
    qed
  qed
qed

lemma typed_stable: "stable p_typed k bs c"
  using line_stable[of k bs c] bulk_stable[of k bs c] multi_stable[of k bs c]
  by (auto simp: p_typed_def stable_def split: option.split reply_type.split)

text \<open>An item that stops for want of input may have consumed its type byte.\<close>

lemma item_more:
  assumes "err k = None"
  shows "goes_on c k (p_item k bs) (p_item k (bs @ c)) \<or>
    (\<exists>k1 b1. p_item k bs = Inr (False, k1, b1) \<and> err k1 = None \<and> ridx k1 = ridx k \<and> p_item k (bs @ c) = p_item k1 (b1 @ c))"
proof (cases "0 \<le> ridx k \<and> nat (ridx k) < length (rstack k)")
  case False
  then show ?thesis by (auto simp: p_item_def)
next
  case i: True
  show ?thesis
  proof (cases "rtype (cur_task k) = None")
    case False
    have p: "p_item k b = p_typed k b" for b using i False by (auto simp: p_item_def)
    show ?thesis using typed_stable[of k bs c] assms unfolding stable_def by (auto simp: p)
  next
    case None: True
    show ?thesis
    proof (cases bs)
      case Nil
      then show ?thesis using None i assms by (simp add: p_item_def)
    next
      case (Cons x xs)
      show ?thesis
      proof (cases "type_of_byte x")
        case None
        then show ?thesis using \<open>rtype (cur_task k) = None\<close> i Cons by (simp add: p_item_def)
      next
        case (Some ty)
        let ?k = "set_rtype ty k"
        have p: "p_item k (x # b) = p_typed ?k b" for b using i None Some by (simp add: p_item_def)
        have k: "ridx ?k = ridx k" "length (rstack ?k) = length (rstack k)" "rtype (cur_task ?k) = Some ty" "err ?k = err k"
          using i by (simp_all add: set_rtype_def cur_task_def)
        then have q: "p_item ?k b = p_typed ?k b" for b using i by (simp add: p_item_def)
        have g: "goes_on c k y z = goes_on c ?k y z" for y z using k(4) by (simp add: goes_on_def split: sum.split prod.split)
        show ?thesis using typed_stable[of ?k xs c] assms k unfolding Cons append_Cons p stable_def g by (auto simp: q)
      qed
    qed
  qed
qed

text \<open>The loop.\<close>

lemma items_more:
  assumes "p_items kb = Some y" "err (fst kb) = None"
  shows "case y of
      Inl e \<Rightarrow> p_items (fst kb, snd kb @ c) = Some (Inl e)
    | Inr (k1, b1) \<Rightarrow>
        if err k1 \<noteq> None then p_items (fst kb, snd kb @ c) = Some (Inr (k1, b1))
        else if 0 \<le> ridx k1 then p_items (fst kb, snd kb @ c) = p_items (k1, b1 @ c)
        else p_items (fst kb, snd kb @ c) = Some (Inr (k1, b1 @ c))"
  using assms
proof (induction kb y rule: p_items.raw_induct)
  case (1 f kb y)
  obtain k bs where kb: "kb = (k, bs)" by fastforce
  have ek: "err k = None" using "1.prems" kb by simp
  show ?case
  proof (cases "0 \<le> ridx k")
    case False
    then show ?thesis using 1(2) ek kb by (auto simp: p_items.simps)
  next
    case True
    have u: "p_items (k, b) = (case p_item k b of Inl e \<Rightarrow> Some (Inl e) | Inr res \<Rightarrow> if fst res then p_items (snd res) else Some (Inr (snd res)))" for b
      using True by (subst p_items.simps) simp
    show ?thesis
    proof (cases "p_item k bs")
      case (Inl e)
      then have "p_item k (bs @ c) = Inl e" using item_more[OF ek, of c bs] by simp
      then show ?thesis using 1(2) True kb Inl u[of "bs @ c"] by auto
    next
      case (Inr res)
      obtain ok k1 b1 where r: "res = (ok, k1, b1)" by (cases res) auto
      show ?thesis
      proof (cases ok)
        case True
        then have m: "p_item k (bs @ c) = Inr (True, k1, b1 @ c)" "err k1 = None" using item_more[OF ek, of c bs] Inr r ek by auto
        have "f (k1, b1) = Some y" using 1(2) \<open>0 \<le> ridx k\<close> kb Inr r True by simp
        moreover have "p_items (k1, b1) = Some y" using "1.prems"(1) u[of bs] kb Inr r True by simp
        moreover have e: "p_items (fst kb, snd kb @ c) = p_items (k1, b1 @ c)" using u[of "bs @ c"] m(1) kb by simp
        ultimately show ?thesis using 1(1)[of "(k1, b1)" y] m(2) unfolding e fst_conv snd_conv by blast
      next
        case False
        then have y: "y = Inr (k1, b1)" using 1(2) \<open>0 \<le> ridx k\<close> kb Inr r by simp
        show ?thesis
        proof (cases "err k1 = None")
          case True
          then have "p_item k (bs @ c) = p_item k1 (b1 @ c)" "ridx k1 = ridx k" using item_more[OF ek, of c bs] Inr r False by auto
          moreover from this have "p_items (k1, b1 @ c) = p_items (k, bs @ c)" using \<open>0 \<le> ridx k\<close> by (subst (1 2) p_items.simps) simp
          ultimately show ?thesis using y True \<open>0 \<le> ridx k\<close> kb by simp
        next
          case e: False
          then have "p_item k (bs @ c) = Inr (False, k1, b1)" using item_more[OF ek, of c bs] Inr r False by auto
          then show ?thesis using y e u[of "bs @ c"] kb by simp
        qed
      qed
    qed
  qed
qed (use assms in simp)

text \<open>No step lengthens the input.\<close>

lemma finish_rest: "p_finish q k rest = Inr (ok, k1, b1) \<Longrightarrow> b1 = [] \<or> b1 = rest"
  by (auto simp: p_finish_def rthen_def split: if_splits sum.splits)

lemma typed_rest: "p_typed k bs = Inr (ok, k1, b1) \<Longrightarrow> length b1 \<le> length bs"
  by (auto simp: p_typed_def p_line_def p_bulk_def p_multi_def p_next_def rthen_def Let_def
      split: option.splits reply_type.splits if_splits prod.splits sum.splits dest!: finish_rest)

lemma item_rest: "p_item k bs = Inr (ok, k1, b1) \<Longrightarrow> length b1 \<le> length bs"
  using typed_rest[of k bs ok k1 b1] by (auto simp: p_item_def split: if_splits list.splits option.splits dest!: typed_rest)

lemma items_rest:
  assumes "p_items kb = Some y"
  shows "\<forall>k1 b1. y = Inr (k1, b1) \<longrightarrow> length b1 \<le> length (snd kb)"
proof (induction kb y rule: p_items.raw_induct)
  case (1 f kb y)
  show ?case
  proof (cases "0 \<le> ridx (fst kb)")
    case False
    then show ?thesis using 1(2) by auto
  next
    case True
    show ?thesis
    proof (cases "p_item (fst kb) (snd kb)")
      case (Inl e)
      then show ?thesis using 1(2) True by auto
    next
      case (Inr res)
      then have "length (snd (snd res)) \<le> length (snd kb)" using item_rest[of "fst kb" "snd kb" "fst res" "fst (snd res)" "snd (snd res)"] by simp
      then show ?thesis using 1(1)[of "snd res" y] 1(2) True Inr by (cases "fst res") fastforce+
    qed
  qed
qed (use assms in simp)

section \<open>The interface\<close>

lemma feed_core: "redisReaderFeed m b r = Inr (True, r1) \<Longrightarrow> core r1 = core r"
  by (auto simp: redisReaderFeed_def rthen_def core_def split: if_splits option.splits sum.splits sds_err.splits)

lemma feed_len: "redisReaderFeed m b r = Inr (True, r1) \<Longrightarrow> b \<noteq> [] \<Longrightarrow> reader_ok r1 \<Longrightarrow> err r1 = None \<Longrightarrow> unread r1 = u @ b \<Longrightarrow> len r1 \<noteq> 0"
proof -
  assume a: "b \<noteq> []" "reader_ok r1" "err r1 = None" "unread r1 = u @ b"
  then have "buf_ok r1" by (simp add: reader_ok_def)
  then have "length (u @ b) = len r1 - pos r1" using unread_bytes(2)[of r1] left_ok[of r1] a(4) by simp
  then show ?thesis using a(1) by (cases b) auto
qed

lemma compact_core: "compact r = Inr r1 \<Longrightarrow> core r1 = core r \<and> pos r1 < 1024"
  by (auto simp: compact_def core_def split: if_splits option.splits sum.splits)

text \<open>The start of a reply.\<close>

definition prep :: "('o, 's) redisReader \<Rightarrow> ('o, 's) redisReader" where
  "prep k = (if ridx k = -1 then k\<lparr>rstack := (rstack k)[0 := new_task], ridx := 0\<rparr> else k)"

lemma prep_simps [simp]: "core (prep r) = prep (core r)" "unread (prep r) = unread r" "err (prep r) = err r" "store (prep r) = store r"
  by (simp_all add: prep_def)

lemma prep_ok: "reader_ok r \<Longrightarrow> err r = None \<Longrightarrow> reader_ok (prep r)"
  by (auto simp: prep_def reader_ok_def stack_ok_def new_task_def)

text \<open>What \<^verbatim>\<open>redisReaderGetReply\<close> makes of the parser's result.\<close>

lemma getReply_view:
  assumes "reader_ok r" "err r = None" "len r \<noteq> 0"
  shows "\<exists>k1 b1 r1. p_items (prep (core r), unread r) = Some (Inr (k1, b1)) \<and> unread r1 = b1 \<and> reader_ok r1 \<and>
    (if err k1 \<noteq> None then redisReaderGetReply r = Inr (False, None, r1) \<and> core r1 = k1
     else if ridx k1 = -1 then redisReaderGetReply r = Inr (True, reply k1, r1) \<and> core r1 = k1\<lparr>reply := None\<rparr> \<and> pos r1 < 1024
     else redisReaderGetReply r = Inr (True, None, r1) \<and> core r1 = k1 \<and> pos r1 < 1024)"
proof -
  have g: "redisReaderGetReply r = (case items_loop (prep r) of None \<Rightarrow> Inl No_reply | Some res \<Rightarrow>
      rthen res (\<lambda>r2. if err r2 \<noteq> None then Inr (False, None, r2) else rthen (compact r2)
        (\<lambda>r3. if ridx r3 = -1 then Inr (True, reply r3, r3\<lparr>reply := None\<rparr>) else Inr (True, None, r3))))"
    using assms(2,3) by (simp add: redisReaderGetReply_def prep_def)
  obtain r2 where r2: "items_loop (prep r) = Some (Inr r2)" "reader_ok r2" "p_items (prep (core r), unread r) = Some (Inr (core r2, unread r2))"
    using loop_view[OF prep_ok[OF assms(1,2)]] assms(2) by auto
  show ?thesis
  proof (cases "err r2 = None")
    case False
    then show ?thesis using r2 g by auto
  next
    case True
    obtain r3 where r3: "compact r2 = Inr r3" "reader_ok r3" "err r3 = None" "unread r3 = unread r2" using compact_ok[OF r2(2) True] by blast
    have c: "core r3 = core r2" "pos r3 < 1024" using compact_core[OF r3(1)] by auto
    then have i: "ridx r3 = ridx r2" "reply r3 = reply r2" by (metis core_simps(1), metis core_simps(5))
    show ?thesis
    proof (cases "ridx r2 = -1")
      case F: False
      then show ?thesis using r2(1,3) r3 c i True g by (intro exI[of _ "core r2"] exI[of _ "unread r2"] exI[of _ r3]) simp
    next
      case t: True
      have "reader_ok (r3\<lparr>reply := None\<rparr>)" using r3(2,3) by (simp add: reader_ok_def)
      then show ?thesis using t r2(1,3) r3 c i True g by (intro exI[of _ "core r2"] exI[of _ "unread r2"] exI[of _ "r3\<lparr>reply := None\<rparr>"]) simp
    qed
  qed
qed

text \<open>What a caller sees of an answer.\<close>

definition outcome :: "reader_fault + bool \<times> 'o robj option \<times> ('o, 's) redisReader \<Rightarrow>
    reader_fault + bool \<times> 'o robj option \<times> ('o, 's) redisReader \<times> char list" where
  "outcome = map_sum id (\<lambda>(ok, q, r). (ok, q, view r))"

lemma getReply_outcome:
  assumes "reader_ok r" "err r = None" "len r \<noteq> 0" "reader_ok s" "err s = None" "len s \<noteq> 0"
    and "p_items (prep (core r), unread r) = p_items (prep (core s), unread s)"
  shows "outcome (redisReaderGetReply r) = outcome (redisReaderGetReply s)"
  using getReply_view[OF assms(1-3)] getReply_view[OF assms(4-6)] assms(7) by (auto simp: outcome_def view_def split: if_splits)

text \<open>C26: the way the input is cut does not matter. When the reader has stopped in the middle of a reply for want of input, then
  going on with more input has the same outcome (reply, error, objects, stack and rest of the input) as if all of it had been
  there at once, whatever the bytes are and whatever the functions that create objects do.\<close>

theorem reader_resumes:
  assumes "reader_ok r" "err r = None" "redisReaderGetReply r = Inr (True, None, r1)" "0 \<le> ridx r1" "len r + length c + 1024 < INT_LIMIT"
  shows "\<exists>r2 r3. redisReaderFeed (Some g) c r1 = Inr (True, r2) \<and> redisReaderFeed (Some g) c r = Inr (True, r3) \<and>
    outcome (redisReaderGetReply r2) = outcome (redisReaderGetReply r3)"
proof (cases "len r = 0")
  case True
  then have "r1 = r" using assms(2,3) by (simp add: redisReaderGetReply_def)
  then show ?thesis using feed_ok[OF assms(1), of c g] assms(2,5) by auto
next
  case False
  obtain k1 b1 where v: "p_items (prep (core r), unread r) = Some (Inr (k1, b1))" "unread r1 = b1" "reader_ok r1" "err k1 = None" "core r1 = k1" "pos r1 < 1024" "ridx k1 \<noteq> -1"
    using getReply_view[OF assms(1,2) False] assms(3,4) by (auto split: if_splits dest: core_ridx)
  have e1: "err r1 = None" "ridx r1 \<noteq> -1" "0 \<le> ridx k1" using v(4,5,7) assms(4) by auto
  have b: "buf_ok r" "buf_ok r1" using assms(1,2) v(3) e1(1) by (simp_all add: reader_ok_def)
  have "p_items (prep (core r), unread r @ c') = p_items (k1, b1 @ c')" for c'
    using items_more[OF v(1), of c'] v(4) e1(3) assms(2) by simp
  then have p: "p_items (prep (core r), unread r @ c) = p_items (prep (core r1), unread r1 @ c)" using v(2,5,7) by (simp add: prep_def)
  obtain r3 where r3: "redisReaderFeed (Some g) c r = Inr (True, r3)" "reader_ok r3" "err r3 = None" "unread r3 = unread r @ c"
    using feed_ok[OF assms(1), of c g] assms(2,5) by auto
  have "length b1 \<le> length (unread r)" using items_rest[OF v(1)] by simp
  moreover have "len r1 = pos r1 + length b1" "length (unread r) \<le> len r"
    using unread_bytes(2)[OF b(2)] left_ok[OF b(2)] b(2) v(2) unread_bytes(2)[OF b(1)] left_ok[OF b(1)] by (auto simp: buf_ok_def)
  ultimately have "len r1 + length c < INT_LIMIT" using assms(5) v(6) by linarith
  then obtain r2 where r2: "redisReaderFeed (Some g) c r1 = Inr (True, r2)" "reader_ok r2" "err r2 = None" "unread r2 = unread r1 @ c"
    using feed_ok[OF v(3), of c g] e1(1) by auto
  have "outcome (redisReaderGetReply r2) = outcome (redisReaderGetReply r3)"
  proof (cases "len r2 = 0 \<or> len r3 = 0")
    case True
    then have "c = []" using feed_len[OF r2(1) _ r2(2-4)] feed_len[OF r3(1) _ r3(2-4)] by blast
    then have "r2 = r1" "r3 = r" using r2(1) r3(1) e1(1) assms(2) by (simp_all add: redisReaderFeed_def)
    moreover have "redisReaderGetReply r1 = Inr (True, None, r1)" using True False \<open>r2 = r1\<close> \<open>r3 = r\<close> e1(1) by (simp add: redisReaderGetReply_def)
    ultimately show ?thesis using assms(3) by simp
  next
    case False
    then show ?thesis using getReply_outcome[of r2 r3] r2 r3 p feed_core[OF r2(1)] feed_core[OF r3(1)] by simp
  qed
  then show ?thesis using r2(1) r3(1) by blast
qed

section \<open>Replies in portions\<close>

text \<open>A reader that has received the bytes \<open>bs\<close> of the next reply since it was the idle reader \<open>r0\<close>: with any more input it
  will do what the idle reader does with all of it.\<close>

definition receiving :: "(nat, reply_heap) redisReader \<Rightarrow> char list \<Rightarrow> (nat, reply_heap) redisReader \<Rightarrow> bool" where
  "receiving r0 bs r \<longleftrightarrow> idle r0 \<and> reader_ok r \<and> err r = None \<and> len r \<le> len r0 + 1024 + length bs \<and> length (unread r) \<le> length bs \<and>
     (\<forall>c. p_items (prep (core r), unread r @ c) = p_items (prep (core r0), bs @ c))"

lemma receiving_start: "idle r \<Longrightarrow> receiving r (unread r) r"
  by (simp add: receiving_def idle_def)

lemma receiving_feed:
  assumes "receiving r0 bs r" "len r + length b < INT_LIMIT"
  shows "\<exists>r1. redisReaderFeed (Some g) b r = Inr (True, r1) \<and> receiving r0 (bs @ b) r1 \<and> len r1 = len r + length b"
proof -
  have ok: "reader_ok r" "err r = None" "idle r0" "len r \<le> len r0 + 1024 + length bs" "length (unread r) \<le> length bs" "\<forall>c. p_items (prep (core r), unread r @ c) = p_items (prep (core r0), bs @ c)"
    using assms(1) by (auto simp: receiving_def)
  obtain r1 where r1: "redisReaderFeed (Some g) b r = Inr (True, r1)" "reader_ok r1" "err r1 = None" "unread r1 = unread r @ b" "len r1 = len r + length b"
    using feed_ok[OF ok(1) assms(2), of g] ok(2) by auto
  then show ?thesis using ok(3-6) feed_core[OF r1(1)] by (auto simp: receiving_def)
qed

lemma decoded_items:
  assumes "idle r0" "resp_ok 0 t" "length (encode t @ rest) < INT_LIMIT"
  shows "\<exists>k1 p. p_items (prep (core r0), encode t @ rest) = Some (Inr (k1, rest)) \<and> err k1 = None \<and> ridx k1 = -1 \<and> reply k1 = Some (Obj p) \<and>
    rep (cells (store k1)) (hnext (store r0)) (hnext (store k1)) p t \<and> (\<forall>a < hnext (store r0). cells (store k1) a = cells (store r0) a) \<and>
    fn k1 = Some defaultFunctions \<and> heap_ok (store k1)"
proof -
  have i: "reader_ok r0" "err r0 = None" "ridx r0 = -1" "fn r0 = Some defaultFunctions" "heap_ok (store r0)" using assms(1) by (auto simp: idle_def)
  obtain e where e: "sdsnewlen (Some NUL) (Some (encode t @ rest)) (length (encode t @ rest)) = Inr e" "sds_ok e" "sds_str e = encode t @ rest"
    using sdsnewlen_spec(1)[of "length (encode t @ rest)" "encode t @ rest" NUL] INT_LIMIT_SDS[OF assms(3)] by auto
  have le: "sdslen e = length (encode t @ rest)" using length_sds_str[OF e(2)] e(3) by simp
  define r where "r = r0\<lparr>rbuf := Some e, pos := 0, len := sdslen e\<rparr>"
  have r: "idle r" "core r = core r0" "store r = store r0" using i e(2) le assms(3)
    by (auto simp: r_def idle_def reader_ok_def stack_ok_def buf_ok_def core_def)
  have f: "rbuf r = Some e" "sdslen e = len r" "pos r = 0" by (simp_all add: r_def)
  have u: "unread r = encode t @ rest" using unread_str[OF f(1,2)] f(3) e(3) by simp
  obtain y ys where "encode t = y # ys" by (cases t) simp_all
  then have l: "len r \<noteq> 0" using le f(2) by simp
  obtain p r1 where d: "redisReaderGetReply r = Inr (True, Some (Obj p), r1)" "rep (cells (store r1)) (hnext (store r)) (hnext (store r1)) p t"
      "\<forall>a < hnext (store r). cells (store r1) a = cells (store r) a" "unread r1 = rest" "idle r1"
    using getReply_decodes[OF r(1) u assms(2)] by blast
  have "reader_ok r" "err r = None" using r(1) by (auto simp: idle_def)
  from getReply_view[OF this l] d(1) obtain k1 where k: "p_items (prep (core r), unread r) = Some (Inr (k1, unread r1))" "err k1 = None" "ridx k1 = -1"
      "reply k1 = Some (Obj p)" "core r1 = k1\<lparr>reply := None\<rparr>" by (auto split: if_splits)
  have "store k1 = store r1" "fn k1 = fn r1" using core_fields[OF k(5)] by simp_all
  then show ?thesis using k d u r by (auto simp: idle_def)
qed

lemma item_nil: "0 \<le> ridx k \<Longrightarrow> p_items (k, []) = Some (Inr (k1, b1)) \<Longrightarrow> err k1 = None \<Longrightarrow> 0 \<le> ridx k1"
proof -
  assume a: "0 \<le> ridx k" "p_items (k, []) = Some (Inr (k1, b1))" "err k1 = None"
  have t: "p_typed k [] \<noteq> Inr (True, k2, b2)" "p_typed k [] = Inr (False, k2, b2) \<Longrightarrow> err k2 = None \<Longrightarrow> k2 = k" for k2 b2
    by (auto simp: p_typed_def p_line_def p_bulk_def p_multi_def split: option.splits reply_type.splits if_splits)
  have i: "p_item k [] \<noteq> Inr (True, k2, b2)" "p_item k [] = Inr (False, k2, b2) \<Longrightarrow> err k2 = None \<Longrightarrow> k2 = k" for k2 b2
    using t by (auto simp: p_item_def split: if_splits)
  show ?thesis
  proof (cases "p_item k []")
    case (Inl e)
    then show ?thesis using a by (simp add: p_items.simps)
  next
    case (Inr res)
    obtain ok k2 b2 where r: "res = (ok, k2, b2)" by (cases res) auto
    have "\<not> ok" using Inr r i(1)[of k2 b2] by (cases ok) auto
    then show ?thesis using a Inr r i(2)[of k2 b2] by (auto simp: p_items.simps)
  qed
qed

lemma receiving_waits:
  assumes "receiving r0 bs r" "bs @ c = encode t" "c \<noteq> []" "resp_ok 0 t" "length (encode t) < INT_LIMIT"
  shows "\<exists>r1. redisReaderGetReply r = Inr (True, None, r1) \<and> receiving r0 bs r1 \<and> (len r \<noteq> 0 \<longrightarrow> 0 \<le> ridx r1)"
proof (cases "len r = 0")
  case True
  then show ?thesis using assms(1) by (auto simp: redisReaderGetReply_def receiving_def)
next
  case False
  have ok: "idle r0" "reader_ok r" "err r = None" "length (unread r) \<le> length bs" "\<And>c. p_items (prep (core r), unread r @ c) = p_items (prep (core r0), bs @ c)"
    using assms(1) by (auto simp: receiving_def)
  obtain k1 b1 r1 where v: "p_items (prep (core r), unread r) = Some (Inr (k1, b1))" "unread r1 = b1" "reader_ok r1"
      "if err k1 \<noteq> None then redisReaderGetReply r = Inr (False, None, r1) \<and> core r1 = k1
       else if ridx k1 = -1 then redisReaderGetReply r = Inr (True, reply k1, r1) \<and> core r1 = k1\<lparr>reply := None\<rparr> \<and> pos r1 < 1024
       else redisReaderGetReply r = Inr (True, None, r1) \<and> core r1 = k1 \<and> pos r1 < 1024"
    using getReply_view[OF ok(2,3) False] by blast
  obtain kt where t: "p_items (prep (core r0), encode t) = Some (Inr (kt, []))" "err kt = None" "ridx kt = -1"
    using decoded_items[OF ok(1) assms(4), of "[]"] assms(5) by auto
  note m = items_more[OF v(1), unfolded fst_conv snd_conv ok(5)]
  have e: "err k1 = None" using m[of c] ok(3) t assms(2) by (auto split: if_splits)
  have i: "0 \<le> ridx k1" using m[of c] ok(3) t e assms(2,3) by (auto split: if_splits)
  have g: "redisReaderGetReply r = Inr (True, None, r1)" "core r1 = k1" "pos r1 < 1024" using v(4) e i by (auto split: if_splits)
  have r1: "err r1 = None" "buf_ok r1" using g(2) e v(3) by (auto simp: reader_ok_def)
  have "length b1 \<le> length bs" using items_rest[OF v(1)] ok(4) by simp
  moreover from this have "len r1 \<le> len r0 + 1024 + length bs" using unread_bytes(2)[OF r1(2)] left_ok[OF r1(2)] v(2) g(3) by simp
  moreover have "p_items (prep (core r1), unread r1 @ c') = p_items (prep (core r0), bs @ c')" for c'
    using m[of c'] ok(3) e i g(2) v(2) by (simp add: prep_def)
  ultimately show ?thesis using g(1) core_ridx[OF g(2)] i ok(1) v(2,3) r1(1) by (auto simp: receiving_def)
qed

lemma receiving_done:
  assumes "receiving r0 (encode t @ rest) r" "resp_ok 0 t" "length (encode t @ rest) < INT_LIMIT"
  shows "\<exists>p r1. redisReaderGetReply r = Inr (True, Some (Obj p), r1) \<and> rep (cells (store r1)) (hnext (store r0)) (hnext (store r1)) p t \<and>
    (\<forall>a < hnext (store r0). cells (store r1) a = cells (store r0) a) \<and> unread r1 = rest \<and> idle r1"
proof -
  have ok: "idle r0" "reader_ok r" "err r = None" using assms(1) by (auto simp: receiving_def)
  have p: "p_items (prep (core r), unread r) = p_items (prep (core r0), encode t @ rest)"
    using assms(1) unfolding receiving_def by (metis append_Nil2)
  obtain k1 p where k: "p_items (prep (core r), unread r) = Some (Inr (k1, rest))" "err k1 = None" "ridx k1 = -1" "reply k1 = Some (Obj p)"
      "rep (cells (store k1)) (hnext (store r0)) (hnext (store k1)) p t" "\<forall>a < hnext (store r0). cells (store k1) a = cells (store r0) a"
      "fn k1 = Some defaultFunctions" "heap_ok (store k1)"
    using decoded_items[OF ok(1) assms(2,3)] unfolding p by blast
  have l: "len r \<noteq> 0"
  proof
    assume "len r = 0"
    then have "unread r = []" by (simp add: unread_def)
    moreover have "0 \<le> ridx (prep (core r))" using ok(2) by (auto simp: prep_def reader_ok_def stack_ok_def split: if_splits)
    ultimately show False using item_nil[of "prep (core r)" k1 rest] k(1-3) by simp
  qed
  obtain r1 where r1: "redisReaderGetReply r = Inr (True, Some (Obj p), r1)" "core r1 = k1\<lparr>reply := None\<rparr>" "unread r1 = rest" "reader_ok r1"
    using getReply_view[OF ok(2,3) l] k(1-4) by auto
  have "err r1 = err k1" "ridx r1 = ridx k1" "store r1 = store k1" "fn r1 = fn k1" using r1(2) core_fields[OF r1(2)] core_ridx[OF r1(2)] core_err[OF r1(2)] by simp_all
  then show ?thesis using r1 k by (auto simp: idle_def)
qed

theorem reader_resumes_witness:
  "\<exists>(r :: (nat, reply_heap) redisReader) r1 r2 r3. redisReaderGetReply r = Inr (True, None, r1) \<and> unread r = ''+O'' \<and> redisReaderFeed (Some NUL) (''K'' @ CRLF) r1 = Inr (True, r2) \<and>
     redisReaderFeed (Some NUL) (''K'' @ CRLF) r = Inr (True, r3) \<and> outcome (redisReaderGetReply r2) = outcome (redisReaderGetReply r3)"
proof -
  let ?h = "\<lparr>cells = Map.empty, hnext = 1, oom = None, heap_fault = False\<rparr> :: reply_heap"
  obtain r0 where r0: "redisReaderCreate (Some NUL) ?h = Some r0" "idle r0" "unread r0 = []" "len r0 = 0"
    using create_idle[of ?h NUL] by (auto simp: heap_ok_def)
  obtain r where r: "redisReaderFeed (Some NUL) ''+O'' r0 = Inr (True, r)" "receiving r0 ''+O'' r" "len r = 2"
    using receiving_feed[OF receiving_start[OF r0(2)], of "''+O''" NUL] r0(3,4) by (auto simp: INT_LIMIT_def)
  have u: "unread r = ''+O''" using feed_ok[of r0 "''+O''" NUL] r0(2-4) r(1) by (auto simp: idle_def INT_LIMIT_def)
  obtain r1 where r1: "redisReaderGetReply r = Inr (True, None, r1)" "0 \<le> ridx r1"
    using receiving_waits[OF r(2), of "''K'' @ CRLF" "Status ''OK''"] r(3) by (auto simp: CRLF_def INT_LIMIT_def)
  have "reader_ok r" "err r = None" "len r + length (''K'' @ CRLF) + 1024 < INT_LIMIT" using r(2,3) by (auto simp: receiving_def CRLF_def INT_LIMIT_def)
  from reader_resumes [OF this(1,2) r1 this(3), of NUL] r1(1) u show ?thesis by blast
qed

end
