(* ===== verification/Command.thy ===== *)
theory Command
  imports Reply
begin

text \<open>
  Commands of the vendored Redis client (vendors/hiredis/hiredis.c): formatting with a format string and
  from a vector of arguments.

  \<^item> The length \<^verbatim>\<open>totlen\<close> is an \<^verbatim>\<open>int\<close> that wraps; the command is built in a buffer of \<^verbatim>\<open>totlen + 1\<close> bytes and a
    write outside it, a failed assertion, a read outside an argument or past the end of the format, and an argument that
    does not fit its directive are \<open>Cmd_fault\<close>. The result is the text of the command; its length is the
    number the functions return. \<open>Cmd_oom\<close> is the result -1 and \<open>Cmd_format\<close> the result -2. The target pointer is not null.
  \<^item> The text \<^verbatim>\<open>vsnprintf\<close> makes of a directive and its argument is the argument \<open>txt\<close>.
  \<^item> \<open>m\<close> is the allocator of the strings, \<open>mv\<close> says whether the vector and the command get memory.
\<close>

section \<open>Lengths\<close>

function count_loop :: "nat \<Rightarrow> nat \<Rightarrow> nat" where
  "count_loop v result =
     (if v < 10 then result
      else if v < 100 then result + 1
      else if v < 1000 then result + 2
      else if v < 10000 then result + 3
      else count_loop (v div 10000) (result + 4))"
  by pat_completeness auto
termination by (relation "measure fst") auto

declare count_loop.simps [simp del]

definition countDigits :: "nat \<Rightarrow> nat" where
  "countDigits v = count_loop v 1"

definition bulklen :: "nat \<Rightarrow> nat" where
  "bulklen n = (1 + countDigits n + 2 + n + 2) mod 2 ^ 64"

section \<open>Building a command\<close>

datatype cmd_err = Cmd_oom | Cmd_format | Cmd_fault

definition cthen :: "cmd_err + 'a \<Rightarrow> ('a \<Rightarrow> cmd_err + 'b) \<Rightarrow> cmd_err + 'b" where
  "cthen r f = (case r of Inl e \<Rightarrow> Inl e | Inr x \<Rightarrow> f x)"

lemma cthen_simps [simp]: "cthen (Inr x) f = f x" "cthen (Inl e) f = Inl e"
  by (simp_all add: cthen_def)

text \<open>The result of a string function: checked for null, or used without a check.\<close>

definition checked :: "'a res \<Rightarrow> cmd_err + 'a" where
  "checked r = (case r of Inr x \<Rightarrow> Inr x | Inl Oom \<Rightarrow> Inl Cmd_oom | Inl _ \<Rightarrow> Inl Cmd_fault)"

definition nocheck :: "'a res \<Rightarrow> cmd_err + 'a" where
  "nocheck r = (case r of Inr x \<Rightarrow> Inr x | Inl _ \<Rightarrow> Inl Cmd_fault)"

lemma checked_simps [simp]: "checked (Inr x) = Inr x" "checked (Inl Oom) = Inl Cmd_oom" "nocheck (Inr x) = Inr x"
  by (simp_all add: checked_def nocheck_def)

text \<open>Writing \<open>t\<close>, and \<open>z\<close> bytes after it, behind the part of the buffer of \<open>cap\<close> bytes that is written.\<close>

definition emit :: "nat \<Rightarrow> nat \<Rightarrow> char list \<Rightarrow> char list \<Rightarrow> cmd_err + char list" where
  "emit cap z t buf = (if length buf + length t + z \<le> cap then Inr (buf @ t) else Inl Cmd_fault)"

fun put_args :: "nat \<Rightarrow> char list list \<Rightarrow> char list \<Rightarrow> cmd_err + char list" where
  "put_args cap [] buf = Inr buf"
| "put_args cap (a # as) buf =
     cthen (emit cap 1 (''$'' @ sdsull2str (length a) @ CRLF) buf)
       (\<lambda>b1. cthen (emit cap 0 a b1)
         (\<lambda>b2. cthen (emit cap 0 [CHR 0x0D] b2) (\<lambda>b3. cthen (emit cap 0 [CHR 0x0A] b3) (put_args cap as))))"

definition build_command :: "bool \<Rightarrow> char list list \<Rightarrow> int \<Rightarrow> cmd_err + char list" where
  "build_command mv argv totlen =
     (let cap = nat (totlen + 1) in
      if \<not> mv \<or> totlen + 1 < 0 then Inl Cmd_oom
      else cthen (emit cap 1 (''*'' @ sdsull2str (length argv) @ CRLF) [])
             (\<lambda>b1. cthen (put_args cap argv b1)
               (\<lambda>b2. if int (length b2) \<noteq> totlen then Inl Cmd_fault else cthen (emit cap 0 [NUL] b2) (\<lambda>_. Inr b2))))"

section \<open>The format string\<close>

datatype va_arg = Va_str "char list" | Va_size nat | Va_int int | Va_long int | Va_llong int | Va_double int

datatype va_kind = K_int | K_long | K_llong | K_double

text \<open>\<^verbatim>\<open>strchr(s, *p) != NULL\<close>, which also holds at the end of the string, and the same with the test
  \<^verbatim>\<open>*p != 0\<close>.\<close>

definition at_any :: "char list \<Rightarrow> char list \<Rightarrow> bool" where
  "at_any s p = (p = [] \<or> hd p \<in> set s)"

definition at_char :: "char list \<Rightarrow> char list \<Rightarrow> bool" where
  "at_char s p = (p \<noteq> [] \<and> hd p \<in> set s)"

definition intfmts :: "char list" where
  "intfmts = ''diouxX''"

definition dblfmts :: "char list" where
  "dblfmts = ''eEfFgGaA''"

definition is_flag :: "char \<Rightarrow> bool" where
  "is_flag c = (c \<in> set ''#0-+ '')"

definition skip_flags :: "char list \<Rightarrow> char list" where
  "skip_flags p =
     (let q = dropWhile isdigit (dropWhile is_flag p)
      in if at_char ''.'' q then dropWhile isdigit (tl q) else q)"

text \<open>A conversion after \<open>n\<close> characters of a length modifier.\<close>

definition modified :: "nat \<Rightarrow> va_kind \<Rightarrow> char list \<Rightarrow> (va_kind \<times> char list) option" where
  "modified n k q = (if at_char intfmts (drop n q) then Some (k, drop n q) else None)"

text \<open>The detection of a printf directive in the text \<open>p\<close> after the percent sign: the kind of its argument and the text from
  the conversion on; \<open>None\<close> is an invalid format.\<close>

definition directive :: "char list \<Rightarrow> (va_kind \<times> char list) option" where
  "directive p =
     (let q = skip_flags p in
      if at_any intfmts q then Some (K_int, q)
      else if at_any dblfmts q then Some (K_double, q)
      else if take 2 q = ''hh'' then modified 2 K_int q
      else if take 1 q = ''h'' then modified 1 K_int q
      else if take 2 q = ''ll'' then modified 2 K_llong q
      else if take 1 q = ''l'' then modified 1 K_long q
      else None)"

fun fits :: "va_kind \<Rightarrow> va_arg \<Rightarrow> bool" where
  "fits K_int (Va_int _) = True"
| "fits K_long (Va_long _) = True"
| "fits K_llong (Va_llong _) = True"
| "fits K_double (Va_double _) = True"
| "fits _ _ = False"

record fmt_state =
  curarg :: sds
  touched :: bool
  curargv :: "sds list"
  totlen :: int

text \<open>The current argument moves to the vector.\<close>

definition push_arg :: "bool \<Rightarrow> fmt_state \<Rightarrow> cmd_err + fmt_state" where
  "push_arg mv s =
     (if \<not> mv then Inl Cmd_oom
      else Inr (s\<lparr>curargv := curargv s @ [curarg s], totlen := wrap32 (totlen s + int (bulklen (sdslen (curarg s))))\<rparr>))"

text \<open>A character of the format that is not part of a directive.\<close>

definition plain_char :: "char option \<Rightarrow> bool \<Rightarrow> char \<Rightarrow> fmt_state \<Rightarrow> cmd_err + fmt_state" where
  "plain_char m mv c s =
     (if c = CHR '' ''
      then (if touched s
            then cthen (push_arg mv s) (\<lambda>s1. cthen (checked (sdsempty m)) (\<lambda>e. Inr (s1\<lparr>curarg := e, touched := False\<rparr>)))
            else Inr s)
      else cthen (checked (sdscatlen m [c] (curarg s))) (\<lambda>a. Inr (s\<lparr>curarg := a, touched := True\<rparr>)))"

text \<open>Appending the text of a directive.\<close>

definition add_text :: "char option \<Rightarrow> char list \<Rightarrow> fmt_state \<Rightarrow> cmd_err + fmt_state" where
  "add_text m t s =
     (if t = [] then Inr (s\<lparr>touched := True\<rparr>)
      else cthen (checked (sdscatlen m t (curarg s))) (\<lambda>a. Inr (s\<lparr>curarg := a, touched := True\<rparr>)))"

lemma skip_flags_shorter: "length (skip_flags p) \<le> length p"
proof -
  let ?q = "dropWhile isdigit (dropWhile is_flag p)"
  have "length ?q \<le> length p" using length_dropWhile_le order_trans by blast
  moreover have "length (dropWhile isdigit (tl ?q)) \<le> length ?q" using length_dropWhile_le[of isdigit "tl ?q"] by simp
  ultimately show ?thesis unfolding skip_flags_def Let_def by auto
qed

lemma directive_shorter: "directive p = Some (k, q) \<Longrightarrow> length q \<le> length p"
  using skip_flags_shorter[of p] by (auto simp: directive_def modified_def Let_def split: if_splits)

text \<open>The loop over the format. A directive of 14 or more characters is not expanded: its percent sign and the character
  behind it are dropped and the rest is read as text. At the end of the format after an unfinished directive the
  loop goes on behind the terminating zero.\<close>

function format_loop :: "char option \<Rightarrow> bool \<Rightarrow> (char list \<Rightarrow> va_arg \<Rightarrow> char list) \<Rightarrow> char list \<Rightarrow> va_arg list \<Rightarrow>
    fmt_state \<Rightarrow> cmd_err + fmt_state" where
  "format_loop m mv txt c args s =
     (case c of
        [] \<Rightarrow> Inr s
      | x # p \<Rightarrow>
          if x \<noteq> CHR ''%'' \<or> p = [] then cthen (plain_char m mv x s) (format_loop m mv txt p args)
          else if hd p = CHR ''s''
          then (case args of
                  Va_str t # as \<Rightarrow> cthen (add_text m (cstr t) s) (format_loop m mv txt (tl p) as)
                | _ \<Rightarrow> Inl Cmd_fault)
          else if hd p = CHR ''b''
          then (case args of
                  Va_str t # Va_size n # as \<Rightarrow>
                    if n \<le> length t then cthen (add_text m (take n t) s) (format_loop m mv txt (tl p) as) else Inl Cmd_fault
                | _ \<Rightarrow> Inl Cmd_fault)
          else if hd p = CHR ''%'' then cthen (add_text m ''%'' s) (format_loop m mv txt (tl p) args)
          else
            (case directive p of
               None \<Rightarrow> Inl Cmd_format
             | Some (k, q) \<Rightarrow>
                 (case args of
                    [] \<Rightarrow> Inl Cmd_fault
                  | v # as \<Rightarrow>
                      if \<not> fits k v then Inl Cmd_fault
                      else
                        (let l = length c - length q + 1 in
                         if l < 14
                         then cthen (checked (sdscatvprintf m l (txt (take l c) v) (curarg s)))
                                (\<lambda>a. if q = [] then Inl Cmd_fault
                                     else format_loop m mv txt (tl q) as (s\<lparr>curarg := a, touched := True\<rparr>))
                         else format_loop m mv txt (tl p) as (s\<lparr>touched := True\<rparr>)))))"
  by pat_completeness auto
termination
proof (relation "measure (\<lambda>(m, mv, txt, c, args, s). length c)", goal_cases)
  case (6 m mv f c args s x p y k q v vs l a)
  then show ?case using directive_shorter[of p k q] by (cases q) auto
qed auto

declare format_loop.simps [simp del]

text \<open>\<open>fmt\<close> is a C string.\<close>

definition redisvFormatCommand :: "char option \<Rightarrow> bool \<Rightarrow> (char list \<Rightarrow> va_arg \<Rightarrow> char list) \<Rightarrow> char list \<Rightarrow> va_arg list \<Rightarrow>
    cmd_err + char list" where
  "redisvFormatCommand m mv txt fmt args =
     cthen (checked (sdsempty m))
       (\<lambda>e. cthen (format_loop m mv txt (cstr fmt) args \<lparr>curarg = e, touched = False, curargv = [], totlen = 0\<rparr>)
         (\<lambda>s. cthen (if touched s then push_arg mv s else Inr s)
           (\<lambda>s1. build_command mv (map sds_str (curargv s1))
              (wrap32 (totlen s1 + int (1 + countDigits (length (curargv s1)) + 2))))))"

text \<open>Every error is the result -1.\<close>

definition redisFormatCommand :: "char option \<Rightarrow> bool \<Rightarrow> (char list \<Rightarrow> va_arg \<Rightarrow> char list) \<Rightarrow> char list \<Rightarrow> va_arg list \<Rightarrow>
    cmd_err + char list" where
  "redisFormatCommand m mv txt fmt args =
     (case redisvFormatCommand m mv txt fmt args of Inl Cmd_format \<Rightarrow> Inl Cmd_oom | r \<Rightarrow> r)"

section \<open>Vectors of arguments\<close>

text \<open>The bytes of the arguments: with their lengths, or as C strings.\<close>

definition arg_bytes :: "char list list \<Rightarrow> nat list option \<Rightarrow> char list list option" where
  "arg_bytes argv argvlen =
     (case argvlen of
        None \<Rightarrow> Some (map cstr argv)
      | Some ls \<Rightarrow> if list_all2 (\<lambda>a l. l \<le> length a) argv ls then Some (map2 take ls argv) else None)"

definition redisFormatCommandArgv :: "bool \<Rightarrow> char list list \<Rightarrow> nat list option \<Rightarrow> cmd_err + char list" where
  "redisFormatCommandArgv mv argv argvlen =
     (case arg_bytes argv argvlen of
        None \<Rightarrow> Inl Cmd_fault
      | Some as \<Rightarrow>
          build_command mv as
            (fold (\<lambda>a n. wrap32 (n + int (bulklen (length a)))) as (wrap32 (int (1 + countDigits (length as) + 2)))))"

fun sds_args :: "char option \<Rightarrow> char list list \<Rightarrow> sds \<Rightarrow> cmd_err + sds" where
  "sds_args m [] s = Inr s"
| "sds_args m (a # as) s =
     cthen (nocheck (sdscatfmt m (''$%u'' @ CRLF) [Arg_uint (length a mod 2 ^ 32)] s))
       (\<lambda>s1. cthen (nocheck (sdscatlen m a s1)) (\<lambda>s2. cthen (nocheck (sdscatlen m CRLF s2)) (sds_args m as)))"

text \<open>The string and the returned \<^verbatim>\<open>int\<close>.\<close>

definition redisFormatSdsCommandArgv :: "char option \<Rightarrow> char list list \<Rightarrow> nat list option \<Rightarrow> cmd_err + sds \<times> int" where
  "redisFormatSdsCommandArgv m argv argvlen =
     (case arg_bytes argv argvlen of
        None \<Rightarrow> Inl Cmd_fault
      | Some as \<Rightarrow>
          (let n = fold (\<lambda>a n. (n + bulklen (length a)) mod 2 ^ 64) as (1 + countDigits (length as) + 2) in
           cthen (checked (sdsempty m))
             (\<lambda>e. cthen (checked (sdsMakeRoomFor m n e))
               (\<lambda>s0. cthen (nocheck (sdscatfmt m (''*%i'' @ CRLF) [Arg_int (int (length as))] s0))
                 (\<lambda>s1. cthen (sds_args m as s1)
                   (\<lambda>s2. if sdslen s2 \<noteq> n then Inl Cmd_fault else Inr (s2, wrap32 (int n))))))))"

end
