(* ===== verification/Context.thy ===== *)
theory Context
  imports Command
begin

text \<open>
  Connections of the vendored Redis client (vendors/hiredis/hiredis.c): the context with its output buffer and its
  reader, appending commands, writing and reading the buffers, and the blocking commands.

  \<^item> The results of \<^verbatim>\<open>read\<close> and \<^verbatim>\<open>write\<close> are arguments: a list of them for a loop, and \<open>Ctx_waits\<close> when the loop calls
    the kernel once more. The field \<open>sent\<close> collects the bytes the kernel has taken. \<open>cerr = None\<close> is the error number 0.
  \<^item> A fault of the strings or the reader, a failed assertion and the use of a null pointer are \<open>Ctx_crash\<close>;
    \<open>True\<close> is \<^verbatim>\<open>REDIS_OK\<close>.
  \<^item> Making a connection (net.c) is not part of this theory: a context is made of an open descriptor. The record has the
    fields these functions use; \<open>block\<close> and \<open>connected\<close> are the bits of \<^verbatim>\<open>flags\<close>.
\<close>

section \<open>State\<close>

record redisContext =
  cerr :: "redis_err option"
  cerrstr :: "char list"
  fd :: int
  block :: bool
  connected :: bool
  obuf :: sds
  reader :: "(nat, reply_heap) redisReader"
  sent :: "char list"

datatype 'a io_result = Io_done 'a | Io_again "char list" | Io_intr | Io_error "char list"

datatype 'a ctx_out = Ctx_ok 'a redisContext | Ctx_err redisContext | Ctx_waits redisContext | Ctx_crash

text \<open>The text of an error of the kernel is what \<^verbatim>\<open>strerror_r\<close> writes.\<close>

definition redisSetError :: "redis_err \<Rightarrow> char list \<Rightarrow> redisContext \<Rightarrow> redisContext" where
  "redisSetError type str c = c\<lparr>cerr := Some type, cerrstr := take 127 (cstr str)\<rparr>"

definition redisContextInit :: "bool \<Rightarrow> char option \<Rightarrow> char option \<Rightarrow> reply_heap \<Rightarrow> redisContext option" where
  "redisContextInit mc mb mr h =
     (if \<not> mc then None
      else
        (case (sdsempty mb, redisReaderCreate mr h) of
           (Inr b, Some r) \<Rightarrow> Some \<lparr>cerr = None, cerrstr = [], fd = 0, block = False, connected = False, obuf = b, reader = r, sent = []\<rparr>
         | _ \<Rightarrow> None))"

definition redisConnectFd :: "bool \<Rightarrow> char option \<Rightarrow> char option \<Rightarrow> reply_heap \<Rightarrow> int \<Rightarrow> redisContext option" where
  "redisConnectFd mc mb mr h d = map_option (\<lambda>c. c\<lparr>fd := d, block := True, connected := True\<rparr>) (redisContextInit mc mb mr h)"

text \<open>The descriptor that is closed, and the heap of replies afterwards.\<close>

definition redisFree :: "redisContext \<Rightarrow> int option \<times> reply_heap" where
  "redisFree c = (if fd c > 0 then Some (fd c) else None, redisReaderFree (reader c))"

definition redisFreeKeepFd :: "redisContext \<Rightarrow> int \<times> int option \<times> reply_heap" where
  "redisFreeKeepFd c = (fd c, redisFree (c\<lparr>fd := -1\<rparr>))"

section \<open>Buffers\<close>

text \<open>\<open>None\<close>: a crash.\<close>

definition redisBufferRead :: "char option \<Rightarrow> char list io_result \<Rightarrow> redisContext \<Rightarrow> (bool \<times> redisContext) option" where
  "redisBufferRead m res c =
     (if cerr c \<noteq> None then Some (False, c)
      else
        (case res of
           Io_again e \<Rightarrow> if \<not> block c then Some (True, c) else Some (False, redisSetError REDIS_ERR_IO e c)
         | Io_intr \<Rightarrow> Some (True, c)
         | Io_done bs \<Rightarrow>
             if bs = [] then Some (False, redisSetError REDIS_ERR_EOF ''Server closed the connection'' c)
             else
               (case redisReaderFeed m bs (reader c) of
                  Inl _ \<Rightarrow> None
                | Inr (True, r) \<Rightarrow> Some (True, c\<lparr>reader := r\<rparr>)
                | Inr (False, r) \<Rightarrow> Some (False, redisSetError (the (err r)) (errstr r) (c\<lparr>reader := r\<rparr>)))
         | Io_error e \<Rightarrow> Some (False, redisSetError REDIS_ERR_IO e c)))"

text \<open>The part of the buffer the kernel has not taken.\<close>

definition drop_sent :: "char option \<Rightarrow> nat \<Rightarrow> sds \<Rightarrow> sds res" where
  "drop_sent m n b = (if int n = wrap32 (int (sdslen b)) then sdsempty m else sdsrange (int n) (-1) b)"

definition redisBufferWrite :: "char option \<Rightarrow> nat io_result \<Rightarrow> redisContext \<Rightarrow> (bool \<times> bool \<times> redisContext) option" where
  "redisBufferWrite m res c =
     (if cerr c \<noteq> None then Some (False, False, c)
      else if sdslen (obuf c) = 0 then Some (True, True, c)
      else
        (case res of
           Io_again e \<Rightarrow> if \<not> block c then Some (True, False, c) else Some (False, False, redisSetError REDIS_ERR_IO e c)
         | Io_intr \<Rightarrow> Some (True, False, c)
         | Io_done n \<Rightarrow>
             if n = 0 then Some (True, False, c)
             else
               (case drop_sent m n (obuf c) of
                  Inl _ \<Rightarrow> None
                | Inr b \<Rightarrow> Some (True, sdslen b = 0, c\<lparr>obuf := b, sent := sent c @ take n (sds_str (obuf c))\<rparr>))
         | Io_error e \<Rightarrow> Some (False, False, redisSetError REDIS_ERR_IO e c)))"

section \<open>Replies\<close>

definition redisGetReplyFromReader :: "redisContext \<Rightarrow> (bool \<times> nat robj option \<times> redisContext) option" where
  "redisGetReplyFromReader c =
     (case redisReaderGetReply (reader c) of
        Inl _ \<Rightarrow> None
      | Inr (ok, q, r) \<Rightarrow>
          if ok then Some (True, q, c\<lparr>reader := r\<rparr>)
          else Some (False, None, redisSetError (the (err r)) (errstr r) (c\<lparr>reader := r\<rparr>)))"

text \<open>Writing until done; the value is the results the loop has not used.\<close>

fun write_until_done :: "char option \<Rightarrow> nat io_result list \<Rightarrow> redisContext \<Rightarrow> nat io_result list ctx_out" where
  "write_until_done m [] c = (if cerr c \<noteq> None then Ctx_err c else if sdslen (obuf c) = 0 then Ctx_ok [] c else Ctx_waits c)"
| "write_until_done m (w # ws) c =
     (if cerr c \<noteq> None then Ctx_err c
      else if sdslen (obuf c) = 0 then Ctx_ok (w # ws) c
      else
        (case redisBufferWrite m w c of
           None \<Rightarrow> Ctx_crash
         | Some (ok, fin, c1) \<Rightarrow> if \<not> ok then Ctx_err c1 else if fin then Ctx_ok ws c1 else write_until_done m ws c1))"

text \<open>Reading until there is a reply.\<close>

fun read_until_reply :: "char option \<Rightarrow> char list io_result list \<Rightarrow> redisContext \<Rightarrow> (nat robj \<times> char list io_result list) ctx_out" where
  "read_until_reply m [] c = (if cerr c \<noteq> None then Ctx_err c else Ctx_waits c)"
| "read_until_reply m (x # xs) c =
     (case redisBufferRead m x c of
        None \<Rightarrow> Ctx_crash
      | Some (ok, c1) \<Rightarrow>
          if \<not> ok then Ctx_err c1
          else
            (case redisGetReplyFromReader c1 of
               None \<Rightarrow> Ctx_crash
             | Some (ok1, q, c2) \<Rightarrow>
                 if \<not> ok1 then Ctx_err c2
                 else (case q of None \<Rightarrow> read_until_reply m xs c2 | Some v \<Rightarrow> Ctx_ok (v, xs) c2)))"

text \<open>The value: the reply, and the results of \<^verbatim>\<open>read\<close> that are left.\<close>

definition redisGetReply :: "char option \<Rightarrow> nat io_result list \<Rightarrow> char list io_result list \<Rightarrow> redisContext \<Rightarrow> (nat robj option \<times> char list io_result list) ctx_out" where
  "redisGetReply m ws xs c =
     (case redisGetReplyFromReader c of
        None \<Rightarrow> Ctx_crash
      | Some (ok, aux, c1) \<Rightarrow>
          if \<not> ok then Ctx_err c1
          else if aux = None \<and> block c1
          then (case write_until_done m ws c1 of
                  Ctx_ok _ c2 \<Rightarrow>
                    (case read_until_reply m xs c2 of
                       Ctx_ok (v, ys) c3 \<Rightarrow> Ctx_ok (Some v, ys) c3
                     | Ctx_err c3 \<Rightarrow> Ctx_err c3
                     | Ctx_waits c3 \<Rightarrow> Ctx_waits c3
                     | Ctx_crash \<Rightarrow> Ctx_crash)
                | Ctx_err c2 \<Rightarrow> Ctx_err c2
                | Ctx_waits c2 \<Rightarrow> Ctx_waits c2
                | Ctx_crash \<Rightarrow> Ctx_crash)
          else Ctx_ok (aux, xs) c1)"

section \<open>Commands\<close>

definition redisAppendCmd :: "char option \<Rightarrow> char list \<Rightarrow> redisContext \<Rightarrow> (bool \<times> redisContext) option" where
  "redisAppendCmd m cmd c =
     (case sdscatlen m cmd (obuf c) of
        Inr b \<Rightarrow> Some (True, c\<lparr>obuf := b\<rparr>)
      | Inl Oom \<Rightarrow> Some (False, redisSetError REDIS_ERR_OOM ''Out of memory'' c)
      | Inl _ \<Rightarrow> None)"

definition redisAppendFormattedCommand :: "char option \<Rightarrow> char list \<Rightarrow> redisContext \<Rightarrow> (bool \<times> redisContext) option" where
  "redisAppendFormattedCommand m cmd c = redisAppendCmd m cmd c"

definition redisvAppendCommand :: "char option \<Rightarrow> bool \<Rightarrow> (char list \<Rightarrow> va_arg \<Rightarrow> char list) \<Rightarrow> char list \<Rightarrow> va_arg list \<Rightarrow> redisContext \<Rightarrow>
    (bool \<times> redisContext) option" where
  "redisvAppendCommand m mv txt fmt args c =
     (case redisvFormatCommand m mv txt fmt args of
        Inl Cmd_oom \<Rightarrow> Some (False, redisSetError REDIS_ERR_OOM ''Out of memory'' c)
      | Inl Cmd_format \<Rightarrow> Some (False, redisSetError REDIS_ERR_OTHER ''Invalid format string'' c)
      | Inl Cmd_fault \<Rightarrow> None
      | Inr cmd \<Rightarrow> redisAppendCmd m cmd c)"

definition redisAppendCommand :: "char option \<Rightarrow> bool \<Rightarrow> (char list \<Rightarrow> va_arg \<Rightarrow> char list) \<Rightarrow> char list \<Rightarrow> va_arg list \<Rightarrow> redisContext \<Rightarrow>
    (bool \<times> redisContext) option" where
  "redisAppendCommand m mv txt fmt args c = redisvAppendCommand m mv txt fmt args c"

text \<open>A length that is negative as an \<^verbatim>\<open>int\<close> is a huge \<^verbatim>\<open>size_t\<close>; -1 is taken for an error.\<close>

definition redisAppendCommandArgv :: "char option \<Rightarrow> char list list \<Rightarrow> nat list option \<Rightarrow> redisContext \<Rightarrow> (bool \<times> redisContext) option" where
  "redisAppendCommandArgv m argv argvlen c =
     (case redisFormatSdsCommandArgv m argv argvlen of
        Inl Cmd_oom \<Rightarrow> Some (False, redisSetError REDIS_ERR_OOM ''Out of memory'' c)
      | Inl _ \<Rightarrow> None
      | Inr (cmd, n) \<Rightarrow>
          if n = -1 then Some (False, redisSetError REDIS_ERR_OOM ''Out of memory'' c)
          else if n < 0 \<or> nat n > length (sbuf cmd) then None
          else redisAppendCmd m (take (nat n) (sbuf cmd)) c)"

text \<open>A null pointer is \<open>None\<close>; an error is kept in the context.\<close>

definition redisBlockForReply :: "char option \<Rightarrow> nat io_result list \<Rightarrow> char list io_result list \<Rightarrow> redisContext \<Rightarrow> (nat robj option \<times> char list io_result list) ctx_out" where
  "redisBlockForReply m ws xs c = (if block c then redisGetReply m ws xs c else Ctx_ok (None, xs) c)"

definition redisvCommand :: "char option \<Rightarrow> bool \<Rightarrow> (char list \<Rightarrow> va_arg \<Rightarrow> char list) \<Rightarrow> char list \<Rightarrow> va_arg list \<Rightarrow> nat io_result list \<Rightarrow> char list io_result list \<Rightarrow>
    redisContext \<Rightarrow> (nat robj option \<times> char list io_result list) ctx_out" where
  "redisvCommand m mv txt fmt args ws xs c =
     (case redisvAppendCommand m mv txt fmt args c of
        None \<Rightarrow> Ctx_crash
      | Some (ok, c1) \<Rightarrow> if \<not> ok then Ctx_err c1 else redisBlockForReply m ws xs c1)"

definition redisCommand :: "char option \<Rightarrow> bool \<Rightarrow> (char list \<Rightarrow> va_arg \<Rightarrow> char list) \<Rightarrow> char list \<Rightarrow> va_arg list \<Rightarrow> nat io_result list \<Rightarrow> char list io_result list \<Rightarrow>
    redisContext \<Rightarrow> (nat robj option \<times> char list io_result list) ctx_out" where
  "redisCommand m mv txt fmt args ws xs c = redisvCommand m mv txt fmt args ws xs c"

definition redisCommandArgv :: "char option \<Rightarrow> char list list \<Rightarrow> nat list option \<Rightarrow> nat io_result list \<Rightarrow> char list io_result list \<Rightarrow> redisContext \<Rightarrow>
    (nat robj option \<times> char list io_result list) ctx_out" where
  "redisCommandArgv m argv argvlen ws xs c =
     (case redisAppendCommandArgv m argv argvlen c of
        None \<Rightarrow> Ctx_crash
      | Some (ok, c1) \<Rightarrow> if \<not> ok then Ctx_err c1 else redisBlockForReply m ws xs c1)"

end
