(* ===== verification/Command_Props.thy ===== *)
theory Command_Props
  imports Command Reader_Decode
begin

text \<open>
  Commands are what the protocol encodes: the three ways to format a command give the encoding of the array of
  its arguments, whatever bytes the arguments have, and the protocol reader gives them back.
\<close>

definition command :: "char list list \<Rightarrow> char list" where
  "command argv = encode (Arr (map Bulk argv))"

definition bulk :: "char list \<Rightarrow> char list" where
  "bulk a = encode (Bulk a)"

definition bulks :: "char list list \<Rightarrow> char list" where
  "bulks as = concat (map bulk as)"

lemma bulks_simps [simp]: "bulks [] = []" "bulks (a # as) = bulk a @ bulks as"
  by (simp_all add: bulks_def)

section \<open>Lengths\<close>

lemma length_digits: "length (digits_rev v) = (if v < 10 then 1 else Suc (length (digits_rev (v div 10))))"
  by (subst digits_rev.simps) auto

lemma length_digits_step: "10 \<le> v \<Longrightarrow> length (digits_rev v) = Suc (length (digits_rev (v div 10)))"
  by (subst length_digits) simp

lemma count_loop_digits: "Suc (count_loop v r) = r + length (digits_rev v)"
proof (induction v r rule: count_loop.induct)
  case (1 v r)
  consider "v < 10" | "10 \<le> v" "v < 100" | "100 \<le> v" "v < 1000" | "1000 \<le> v" "v < 10000" | "10000 \<le> v" by linarith
  then show ?case
  proof cases
    case 5
    then have "Suc (count_loop (v div 10000) (r + 4)) = r + 4 + length (digits_rev (v div 10000))" using 1 by simp
    moreover have "length (digits_rev v) = 4 + length (digits_rev (v div 10000))"
      using 5 length_digits_step[of v] length_digits_step[of "v div 10"] length_digits_step[of "v div 100"] length_digits_step[of "v div 1000"]
      by (simp add: div_mult2_eq[symmetric])
    ultimately show ?thesis using 5 by (subst count_loop.simps) simp
  next
    case 4
    moreover have "v div 1000 < 10" using 4 by (simp add: div_less_iff_less_mult)
    ultimately show ?thesis
      using length_digits_step[of v] length_digits_step[of "v div 10"] length_digits_step[of "v div 100"] length_digits[of "v div 1000"]
      by (subst count_loop.simps) (simp add: div_mult2_eq[symmetric])
  next
    case 3
    moreover have "v div 100 < 10" using 3 by (simp add: div_less_iff_less_mult)
    ultimately show ?thesis
      using length_digits_step[of v] length_digits_step[of "v div 10"] length_digits[of "v div 100"]
      by (subst count_loop.simps) (simp add: div_mult2_eq[symmetric])
  next
    case 2
    moreover have "v div 10 < 10" using 2 by (simp add: div_less_iff_less_mult)
    ultimately show ?thesis using length_digits_step[of v] length_digits[of "v div 10"] by (subst count_loop.simps) simp
  next
    case 1
    then show ?thesis using length_digits[of v] by (subst count_loop.simps) simp
  qed
qed

lemma countDigits_eq: "countDigits v = length (sdsull2str v)"
  using count_loop_digits[of v 1] by (simp add: countDigits_def sdsull2str_eq)

lemma unsigned_str: "sdsll2str (int n) = sdsull2str n"
  by (simp add: sdsll2str_eq sdsull2str_eq)

lemma bulklen_eq: "length (bulk a) < INT_LIMIT \<Longrightarrow> bulklen (length a) = length (bulk a)"
  by (simp add: bulk_def bulklen_def countDigits_eq unsigned_str CRLF_def INT_LIMIT_def)

lemma command_split:
  "command argv = ''*'' @ sdsull2str (length argv) @ CRLF @ bulks argv"
  by (simp add: command_def bulks_def bulk_def[abs_def] unsigned_str comp_def del: encode.simps(4))

lemma add_bulk:
  assumes "k + length (bulks (a # as)) < INT_LIMIT"
  shows "wrap32 (int k + int (bulklen (length a))) = int (k + length (bulk a))" "(k + bulklen (length a)) mod 2 ^ 64 = k + length (bulk a)"
  using assms wrap32_nat[of "k + length (bulk a)"] by (simp_all add: bulklen_eq) (simp add: INT_LIMIT_def)

lemma total_int:
  "k + length (bulks as) < INT_LIMIT \<Longrightarrow>
   fold (\<lambda>a n. wrap32 (n + int (bulklen (length a)))) as (int k) = int (k + length (bulks as))"
proof (induction as arbitrary: k)
  case (Cons a as)
  then show ?case using Cons.IH[of "k + length (bulk a)"] add_bulk(1)[OF Cons.prems] by (simp add: add.assoc)
qed simp

lemma total_ull:
  "k + length (bulks as) < INT_LIMIT \<Longrightarrow>
   fold (\<lambda>a n. (n + bulklen (length a)) mod 2 ^ 64) as k = k + length (bulks as)"
proof (induction as arbitrary: k)
  case (Cons a as)
  then show ?case using Cons.IH[of "k + length (bulk a)"] add_bulk(2)[OF Cons.prems] by (simp add: add.assoc)
qed simp

section \<open>Building\<close>

lemma put_args_spec:
  "length buf + length (bulks as) < cap \<Longrightarrow>
   put_args cap as buf = Inr (buf @ bulks as)"
proof (induction as arbitrary: buf)
  case (Cons a as)
  have "put_args cap as (buf @ bulk a) = Inr ((buf @ bulk a) @ bulks as)"
    using Cons.prems by (intro Cons.IH) simp
  then show ?case using Cons.prems by (simp add: emit_def bulk_def unsigned_str CRLF_def)
qed simp

lemma build_command_spec: "build_command True argv (int (length (command argv))) = Inr (command argv)"
proof -
  let ?h = "''*'' @ sdsull2str (length argv) @ CRLF" and ?t = "bulks argv"
  have c: "command argv = ?h @ ?t" by (simp add: command_split)
  have "put_args (length (command argv) + 1) argv ?h = Inr (?h @ ?t)" by (rule put_args_spec) (simp only: c, simp)
  moreover have "length ?h + 1 \<le> length (command argv) + 1" unfolding c by simp
  ultimately show ?thesis by (simp add: build_command_def emit_def Let_def nat_add_distrib c)
qed

lemma format_argv_gen:
  assumes "arg_bytes argv argvlen = Some as" "length (command as) < INT_LIMIT"
  shows "redisFormatCommandArgv True argv argvlen = Inr (command as)"
proof -
  let ?k = "1 + countDigits (length as) + 2" and ?c = "length (bulks as)"
  have l: "length (command as) = ?k + ?c" by (simp add: command_split countDigits_eq CRLF_def)
  have "wrap32 (int ?k) = int ?k" using assms(2) l by (intro wrap32_nat) simp
  then show ?thesis using assms total_int[of ?k as] l build_command_spec[of as] by (simp add: redisFormatCommandArgv_def)
qed

section \<open>With dynamic strings\<close>

lemma fmt_texts:
  "expand (cstr (''$%u'' @ CRLF)) [Arg_uint n] = Some (''$'' @ sdsull2str n @ CRLF)"
  "expand (cstr (''*%i'' @ CRLF)) [Arg_int v] = Some (''*'' @ sdsll2str v @ CRLF)"
  by (simp_all add: cstr_def CRLF_def)

lemma sds_args_spec:
  "sds_ok s \<Longrightarrow> sdslen s + length (bulks as) + 1 < INT_LIMIT \<Longrightarrow>
   \<exists>s1. sds_args (Some g) as s = Inr s1 \<and> sds_ok s1 \<and> sds_str s1 = sds_str s @ bulks as"
proof (induction as arbitrary: s)
  case (Cons a as)
  let ?h = "''$'' @ sdsull2str (length a) @ CRLF"
  have b: "bulk a = ?h @ a @ CRLF" by (simp add: bulk_def unsigned_str)
  have m: "length a mod 2 ^ 32 = length a" using Cons.prems(2) b by (simp add: INT_LIMIT_def)
  obtain s1 where s1: "sdscatfmt (Some g) (''$%u'' @ CRLF) [Arg_uint (length a)] s = Inr s1" "sds_ok s1" "sds_str s1 = sds_str s @ ?h"
    using sdscatfmt_gen[OF Cons.prems(1) fmt_texts(1), of "length a" g] Cons.prems(2) b by auto
  have l1: "sdslen s1 = sdslen s + length ?h" using s1(3) by (simp flip: length_sds_str[OF s1(2)] length_sds_str[OF Cons.prems(1)])
  obtain s2 where s2: "sdscatlen (Some g) a s1 = Inr s2" "sds_ok s2" "sds_str s2 = sds_str s1 @ a"
    using sdscatlen_spec[OF s1(2), of a g] INT_LIMIT_SDS[of "sdslen s1 + length a"] Cons.prems(2) b l1 by auto
  have l2: "sdslen s2 = sdslen s1 + length a" using s2(3) by (simp flip: length_sds_str[OF s1(2)] length_sds_str[OF s2(2)])
  obtain s3 where s3: "sdscatlen (Some g) CRLF s2 = Inr s3" "sds_ok s3" "sds_str s3 = sds_str s2 @ CRLF"
    using sdscatlen_spec[OF s2(2), of CRLF g] INT_LIMIT_SDS[of "sdslen s2 + length CRLF"] Cons.prems(2) b l1 l2 by auto
  have l3: "sdslen s3 = sdslen s + length (bulk a)"
    using s3(3) l1 l2 b by (simp flip: length_sds_str[OF s3(2)]) (simp add: length_sds_str[OF s2(2)])
  obtain s4 where "sds_args (Some g) as s3 = Inr s4" "sds_ok s4" "sds_str s4 = sds_str s3 @ bulks as"
    using Cons.IH[OF s3(2)] Cons.prems(2) l3 by auto
  then show ?case using s1 s2(1,3) s3(1,3) b m by simp
qed simp

lemma format_sds_gen:
  assumes "arg_bytes argv argvlen = Some as" "length (command as) + 1 < INT_LIMIT"
  shows "\<exists>s. redisFormatSdsCommandArgv (Some g) argv argvlen = Inr (s, int (length (command as))) \<and> sds_ok s \<and> sds_str s = command as"
proof -
  let ?k = "1 + countDigits (length as) + 2" and ?n = "length (command as)" and ?h = "''*'' @ sdsll2str (int (length as)) @ CRLF"
  have c: "command as = ?h @ bulks as" by (simp add: command_split unsigned_str)
  have l: "?n = ?k + length (bulks as)" by (simp add: command_split countDigits_eq CRLF_def)
  have n: "fold (\<lambda>a n. (n + bulklen (length a)) mod 2 ^ 64) as ?k = ?n" using total_ull[of ?k as] assms(2) l by simp
  obtain e where e: "sdsempty (Some g) = Inr e" "sds_ok e" "sds_str e = []"
    using sdsnewlen_spec(1)[of 0 "[]" g] by (auto simp: SDS_LIMIT_def sdsempty_def)
  have e0: "sdslen e = 0" using length_sds_str[OF e(2)] e(3) by simp
  obtain s0 where s0: "sdsMakeRoomFor (Some g) ?n e = Inr s0" "sds_ok s0" "sds_str s0 = []"
    using room_spec[OF e(2), of ?n g] e(3) e0 INT_LIMIT_SDS[of ?n] assms(2) by (auto simp: sdslen_def)
  have l0: "sdslen s0 = 0" using length_sds_str[OF s0(2)] s0(3) by simp
  have "sdslen s0 + length ?h + 1 < INT_LIMIT" using l0 assms(2) c by simp
  from sdscatfmt_gen[OF s0(2) fmt_texts(2) this, of g] obtain s1 where
    s1: "sdscatfmt (Some g) (''*%i'' @ CRLF) [Arg_int (int (length as))] s0 = Inr s1" "sds_ok s1" "sds_str s1 = ?h"
    using s0(3) by auto
  have l1: "sdslen s1 = length ?h" using length_sds_str[OF s1(2)] s1(3) by simp
  obtain s2 where s2: "sds_args (Some g) as s1 = Inr s2" "sds_ok s2" "sds_str s2 = command as"
    using sds_args_spec[OF s1(2), of as g] l1 assms(2) c s1(3) by auto
  have l2: "sdslen s2 = ?n" using length_sds_str[OF s2(2)] s2(3) by simp
  show ?thesis using assms n e(1) s0(1) s1(1) s2 l2 wrap32_nat[of ?n] by (simp add: redisFormatSdsCommandArgv_def Let_def)
qed

section \<open>With a format string\<close>

text \<open>The pieces of a word of a format: text, a string, a string with its length, a percent sign, or a printf
  directive (without its percent sign) with its argument.\<close>

datatype piece = Lit "char list" | Str "char list" | Bin "char list" | Percent | Conv "char list" va_arg

fun piece_fmt :: "piece \<Rightarrow> char list" where
  "piece_fmt (Lit t) = t"
| "piece_fmt (Str t) = ''%s''"
| "piece_fmt (Bin t) = ''%b''"
| "piece_fmt Percent = ''%%''"
| "piece_fmt (Conv d v) = CHR ''%'' # d"

fun piece_args :: "piece \<Rightarrow> va_arg list" where
  "piece_args (Str t) = [Va_str t]"
| "piece_args (Bin t) = [Va_str t, Va_size (length t)]"
| "piece_args (Conv d v) = [v]"
| "piece_args _ = []"

fun piece_text :: "(char list \<Rightarrow> va_arg \<Rightarrow> char list) \<Rightarrow> piece \<Rightarrow> char list" where
  "piece_text txt (Lit t) = t"
| "piece_text txt (Str t) = cstr t"
| "piece_text txt (Bin t) = t"
| "piece_text txt Percent = ''%''"
| "piece_text txt (Conv d v) = txt (CHR ''%'' # d) v"

fun piece_ok :: "(char list \<Rightarrow> va_arg \<Rightarrow> char list) \<Rightarrow> piece \<Rightarrow> bool" where
  "piece_ok txt (Lit t) = (t \<noteq> [] \<and> CHR '' '' \<notin> set t \<and> CHR ''%'' \<notin> set t \<and> NUL \<notin> set t)"
| "piece_ok txt (Conv d v) =
     (d \<noteq> [] \<and> hd d \<notin> {CHR ''s'', CHR ''b'', CHR ''%''} \<and> (\<exists>k. directive d = Some (k, [last d]) \<and> fits k v) \<and>
      length d < 13 \<and> NUL \<notin> set d \<and> NUL \<notin> set (txt (CHR ''%'' # d) v))"
| "piece_ok txt _ = True"

lemma dropWhile_more: "dropWhile P xs \<noteq> [] \<Longrightarrow> dropWhile P (xs @ ys) = dropWhile P xs @ ys"
  by (induction xs) auto

lemma skip_flags_more:
  assumes "skip_flags d \<noteq> []"
  shows "skip_flags (d @ r) = skip_flags d @ r"
proof -
  define q where "q = dropWhile isdigit (dropWhile is_flag d)"
  have d: "skip_flags d = (if at_char ''.'' q then dropWhile isdigit (tl q) else q)" by (simp only: skip_flags_def q_def Let_def)
  have n: "q \<noteq> []" using assms unfolding d by (auto simp: at_char_def)
  then have f: "dropWhile is_flag d \<noteq> []" unfolding q_def by force
  have e: "dropWhile isdigit (dropWhile is_flag (d @ r)) = q @ r"
    unfolding dropWhile_more[OF f] using n unfolding q_def by (rule dropWhile_more)
  show ?thesis
  proof (cases "at_char ''.'' q")
    case True
    then have "dropWhile isdigit (tl q) \<noteq> []" using assms unfolding d by simp
    then show ?thesis using True n e by (simp add: skip_flags_def Let_def at_char_def dropWhile_more flip: q_def)
  next
    case False
    then show ?thesis using n e by (simp add: skip_flags_def Let_def at_char_def flip: q_def)
  qed
qed

lemma modified_more: "modified i k1 q = Some (k, [c]) \<Longrightarrow> modified i k1 (q @ r) = Some (k, c # r)"
proof -
  assume "modified i k1 q = Some (k, [c])"
  then have d: "drop i q = [c]" "k1 = k" "c \<in> set intfmts" by (auto simp: modified_def at_char_def split: if_splits)
  then have "i \<le> length q" using not_less_eq_eq by (cases "i \<le> length q") simp_all
  then show ?thesis using d by (simp add: modified_def at_char_def)
qed

lemma directive_more: "directive d = Some (k, [c]) \<Longrightarrow> directive (d @ r) = Some (k, c # r)"
proof -
  assume a: "directive d = Some (k, [c])"
  then have n: "skip_flags d \<noteq> []" by (auto simp: directive_def modified_def at_any_def at_char_def Let_def split: if_splits)
  then obtain x xs where q: "skip_flags d = x # xs" by (cases "skip_flags d") auto
  have b: "directive (d @ r) = (let q = (x # xs) @ r in if at_any intfmts q then Some (K_int, q) else if at_any dblfmts q then Some (K_double, q)
      else if take 2 q = ''hh'' then modified 2 K_int q else if take 1 q = ''h'' then modified 1 K_int q
      else if take 2 q = ''ll'' then modified 2 K_llong q else if take 1 q = ''l'' then modified 1 K_long q else None)"
    unfolding directive_def skip_flags_more[OF n] q Let_def ..
  have t: "take 1 ((x # xs) @ r) = take 1 (x # xs)" "at_any i ((x # xs) @ r) = at_any i (x # xs)" for i by (simp_all add: at_any_def)
  have t2: "take 2 ((x # xs) @ r) = take 2 (x # xs)" if "xs \<noteq> []" using that by (cases xs) simp_all
  have one: "modified i k1 [x] = None" if "0 < i" for i k1 using that by (simp add: modified_def at_char_def)
  show ?thesis
  proof (cases "at_any intfmts (x # xs) \<or> at_any dblfmts (x # xs)")
    case True
    then have "x = c" "xs = []" "(if at_any intfmts (x # xs) then K_int else K_double) = k"
      using a unfolding directive_def q Let_def by (auto split: if_splits)
    then show ?thesis using True unfolding b Let_def t by auto
  next
    case False
    have "xs \<noteq> []"
    proof
      assume "xs = []"
      then show False using a False one unfolding directive_def q Let_def by (simp split: if_splits)
    qed
    note t2 = t2[OF this]
    have "directive d = Some (k, [c]) \<longrightarrow> directive (d @ r) = Some (k, c # r)"
      using False unfolding b Let_def t t2 directive_def[of d] q by (simp add: modified_more[of _ _ "_ # _", simplified] split: if_split)
    then show ?thesis using a ..
  qed
qed

definition state_ok :: "char list list \<Rightarrow> char list \<Rightarrow> bool \<Rightarrow> fmt_state \<Rightarrow> bool" where
  "state_ok ws cur tc s \<longleftrightarrow> sds_ok (curarg s) \<and> sds_str (curarg s) = cur \<and> touched s = tc \<and>
     map sds_str (curargv s) = ws \<and> totlen s = int (length (bulks ws))"

lemma append_ok:
  assumes "state_ok ws cur tc s" "length cur + length t < SDS_LIMIT"
  shows "\<exists>a. sdscatlen (Some g) t (curarg s) = Inr a \<and> state_ok ws (cur @ t) True (s\<lparr>curarg := a, touched := True\<rparr>)"
proof -
  have "sds_ok (curarg s)" "sdslen (curarg s) + length t < SDS_LIMIT" using assms length_sds_str[of "curarg s"] by (auto simp: state_ok_def)
  from sdscatlen_spec[OF this, of g] show ?thesis using assms(1) by (auto simp: state_ok_def)
qed

lemma add_text_ok:
  assumes "state_ok ws cur tc s" "length cur + length t < SDS_LIMIT"
  shows "\<exists>s1. add_text (Some g) t s = Inr s1 \<and> state_ok ws (cur @ t) True s1"
  using append_ok[OF assms, of g] assms(1) by (cases "t = []") (auto simp: add_text_def state_ok_def)

lemma lit_step:
  assumes "CHR '' '' \<notin> set t" "CHR ''%'' \<notin> set t" "t \<noteq> []" "state_ok ws cur tc s" "length cur + length t < SDS_LIMIT"
  shows "\<exists>s1. state_ok ws (cur @ t) True s1 \<and>
    (\<forall>r args. format_loop (Some g) True txt (t @ r) args s = format_loop (Some g) True txt r args s1)"
  using assms
proof (induction t arbitrary: cur tc s)
  case (Cons c t)
  obtain a where a: "sdscatlen (Some g) [c] (curarg s) = Inr a" "state_ok ws (cur @ [c]) True (s\<lparr>curarg := a, touched := True\<rparr>)"
    using append_ok[OF Cons.prems(4), of "[c]" g] Cons.prems(5) by auto
  have e: "format_loop (Some g) True txt ((c # t) @ r) args s = format_loop (Some g) True txt (t @ r) args (s\<lparr>curarg := a, touched := True\<rparr>)" for r args
    using Cons.prems(1,2) a(1) by (subst format_loop.simps) (auto simp: plain_char_def)
  show ?case
  proof (cases "t = []")
    case False
    then show ?thesis using Cons.IH[OF _ _ False a(2)] Cons.prems(1,2,5) e by auto
  qed (use a(2) e in auto)
qed simp

lemma piece_step:
  assumes "piece_ok txt pc" "state_ok ws cur tc s" "length cur + length (piece_text txt pc) < SDS_LIMIT"
  shows "\<exists>s1. state_ok ws (cur @ piece_text txt pc) True s1 \<and>
    (\<forall>r args. format_loop (Some g) True txt (piece_fmt pc @ r) (piece_args pc @ args) s = format_loop (Some g) True txt r args s1)"
proof (cases pc)
  case (Lit t)
  then show ?thesis using lit_step[OF _ _ _ assms(2)] assms(1,3) by simp
next
  case (Conv d v)
  then obtain k c d1 where d: "d = c # d1" "c \<notin> {CHR ''s'', CHR ''b'', CHR ''%''}" "directive d = Some (k, [last d])" "fits k v" "length d < 13"
      "NUL \<notin> set (txt (CHR ''%'' # d) v)" using assms(1) by (cases d) auto
  obtain a where a: "sdscatlen (Some g) (txt (CHR ''%'' # d) v) (curarg s) = Inr a"
      "state_ok ws (cur @ txt (CHR ''%'' # d) v) True (s\<lparr>curarg := a, touched := True\<rparr>)"
    using append_ok[OF assms(2)] assms(3) Conv by auto
  have p: "sdscatvprintf (Some g) n (txt (CHR ''%'' # d) v) (curarg s) = Inr a" for n
    using sdscatprintf_eq[OF d(6), of g n] a(1) by (simp add: sdscatprintf_def)
  have "format_loop (Some g) True txt ((CHR ''%'' # d) @ r) (v # args) s = format_loop (Some g) True txt r args (s\<lparr>curarg := a, touched := True\<rparr>)" for r args
    using d(1,2,4,5) directive_more[OF d(3), of r] p by (subst format_loop.simps) (simp add: Let_def)
  then show ?thesis using a(2) Conv by auto
qed (use add_text_ok[OF assms(2,3), of g] in \<open>auto simp: format_loop.simps[of _ _ _ "_ # _"]\<close>)

text \<open>A word is a list of pieces; a format is words with spaces between them.\<close>

definition word_ok :: "(char list \<Rightarrow> va_arg \<Rightarrow> char list) \<Rightarrow> piece list \<Rightarrow> bool" where
  "word_ok txt w \<longleftrightarrow> w \<noteq> [] \<and> list_all (piece_ok txt) w"

definition word_fmt :: "piece list \<Rightarrow> char list" where
  "word_fmt w = concat (map piece_fmt w)"

definition word_args :: "piece list \<Rightarrow> va_arg list" where
  "word_args w = concat (map piece_args w)"

definition word_text :: "(char list \<Rightarrow> va_arg \<Rightarrow> char list) \<Rightarrow> piece list \<Rightarrow> char list" where
  "word_text txt w = concat (map (piece_text txt) w)"

lemma word_simps [simp]:
  "word_fmt (pc # w) = piece_fmt pc @ word_fmt w" "word_args (pc # w) = piece_args pc @ word_args w"
  "word_text txt (pc # w) = piece_text txt pc @ word_text txt w" "word_fmt [] = []" "word_args [] = []" "word_text txt [] = []"
  by (simp_all add: word_fmt_def word_args_def word_text_def)

lemma word_step:
  assumes "list_all (piece_ok txt) w" "state_ok ws cur tc s" "length cur + length (word_text txt w) < SDS_LIMIT" "w \<noteq> [] \<or> tc"
  shows "\<exists>s1. state_ok ws (cur @ word_text txt w) True s1 \<and>
    (\<forall>r args. format_loop (Some g) True txt (word_fmt w @ r) (word_args w @ args) s = format_loop (Some g) True txt r args s1)"
  using assms
proof (induction w arbitrary: cur tc s)
  case (Cons pc w)
  obtain s1 where s1: "state_ok ws (cur @ piece_text txt pc) True s1"
      "\<forall>r args. format_loop (Some g) True txt (piece_fmt pc @ r) (piece_args pc @ args) s = format_loop (Some g) True txt r args s1"
    using piece_step[OF _ Cons.prems(2)] Cons.prems(1,3) by fastforce
  then show ?case using Cons.IH[OF _ s1(1)] Cons.prems(1,3) by simp
qed auto

lemma push_arg_ok:
  assumes "state_ok ws cur tc s" "length (bulks (ws @ [cur])) < INT_LIMIT"
  shows "\<exists>s1. push_arg True s = Inr s1 \<and> map sds_str (curargv s1) = ws @ [cur] \<and> totlen s1 = int (length (bulks (ws @ [cur])))"
proof -
  have c: "sdslen (curarg s) = length cur" using assms(1) length_sds_str[of "curarg s"] by (auto simp: state_ok_def)
  have b: "length (bulks (ws @ [cur])) = length (bulks ws) + length (bulks [cur])" by (simp add: bulks_def)
  have "wrap32 (int (length (bulks ws)) + int (bulklen (length cur))) = int (length (bulks ws) + length (bulk cur))"
    using assms(2) b by (intro add_bulk(1)[of _ _ "[]"]) simp
  then show ?thesis using assms(1) b c by (simp add: push_arg_def state_ok_def)
qed

lemma space_step:
  assumes "state_ok ws cur True s" "length (bulks (ws @ [cur])) < INT_LIMIT"
  shows "\<exists>s1. state_ok (ws @ [cur]) [] False s1 \<and>
    (\<forall>r args. format_loop (Some g) True txt (CHR '' '' # r) args s = format_loop (Some g) True txt r args s1)"
proof -
  obtain s1 where s1: "push_arg True s = Inr s1" "map sds_str (curargv s1) = ws @ [cur]" "totlen s1 = int (length (bulks (ws @ [cur])))"
    using push_arg_ok[OF assms] by blast
  obtain e where e: "sdsempty (Some g) = Inr e" "sds_ok e" "sds_str e = []"
    using sdsnewlen_spec(1)[of 0 "[]" g] by (auto simp: SDS_LIMIT_def sdsempty_def)
  have "format_loop (Some g) True txt (CHR '' '' # r) args s = format_loop (Some g) True txt r args (s1\<lparr>curarg := e, touched := False\<rparr>)" for r args
    using assms(1) s1(1) e(1) by (subst format_loop.simps) (simp add: plain_char_def state_ok_def)
  moreover have "state_ok (ws @ [cur]) [] False (s1\<lparr>curarg := e, touched := False\<rparr>)" using s1 e by (simp add: state_ok_def)
  ultimately show ?thesis by blast
qed

lemma bulk_longer: "length a \<le> length (bulk a)" "length (bulks (as @ bs)) = length (bulks as) + length (bulks bs)"
  by (simp_all add: bulk_def bulks_def)

lemma words_loop:
  assumes "list_all (word_ok txt) ws" "ws \<noteq> []" "state_ok vs [] False s" "length (bulks (vs @ map (word_text txt) ws)) < INT_LIMIT"
  shows "\<exists>s1 us cur. format_loop (Some g) True txt (glue '' '' (map word_fmt ws)) (concat (map word_args ws)) s = Inr s1 \<and>
    state_ok us cur True s1 \<and> us @ [cur] = vs @ map (word_text txt) ws"
  using assms
proof (induction ws arbitrary: vs s)
  case (Cons w ws)
  let ?t = "word_text txt w"
  have "length (bulk ?t) < INT_LIMIT" using Cons.prems(4) by (simp add: bulk_longer(2))
  then have "length ?t < SDS_LIMIT" using bulk_longer(1)[of ?t] INT_LIMIT_SDS by simp
  then obtain s1 where s1: "state_ok vs ?t True s1"
      "\<forall>r args. format_loop (Some g) True txt (word_fmt w @ r) (word_args w @ args) s = format_loop (Some g) True txt r args s1"
    using word_step[of "txt" w vs "[]" False s g] Cons.prems(1,3) by (auto simp: word_ok_def)
  show ?case
  proof (cases "ws = []")
    case True
    have "format_loop (Some g) True txt (word_fmt w) (word_args w) s = Inr s1"
      using s1(2)[rule_format, of "[]" "[]"] by (simp add: format_loop.simps)
    then show ?thesis using s1(1) True by auto
  next
    case False
    then obtain w1 ws1 where ws: "ws = w1 # ws1" by (cases ws) auto
    obtain s2 where s2: "state_ok (vs @ [?t]) [] False s2"
        "\<forall>r args. format_loop (Some g) True txt (CHR '' '' # r) args s1 = format_loop (Some g) True txt r args s2"
      using space_step[OF s1(1), of g "txt"] Cons.prems(4) by (auto simp: bulk_longer(2))
    have g: "glue '' '' (map word_fmt (w # ws)) = word_fmt w @ CHR '' '' # glue '' '' (map word_fmt ws)" using ws by simp
    show ?thesis using Cons.IH[OF _ False s2(1)] Cons.prems(1,4) s1(2) s2(2) unfolding g by simp
  qed
qed simp

lemma format_words:
  assumes "list_all (word_ok txt) ws" "length (command (map (word_text txt) ws)) < INT_LIMIT"
  shows "redisvFormatCommand (Some g) True txt (glue '' '' (map word_fmt ws)) (concat (map word_args ws)) = Inr (command (map (word_text txt) ws))"
proof -
  let ?as = "map (word_text txt) ws" and ?f = "glue '' '' (map word_fmt ws)"
  let ?k = "1 + countDigits (length ?as) + 2"
  have l: "length (command ?as) = length (bulks ?as) + ?k" by (simp add: command_split countDigits_eq CRLF_def)
  obtain e where e: "sdsempty (Some g) = Inr e" "sds_ok e" "sds_str e = []"
    using sdsnewlen_spec(1)[of 0 "[]" g] by (auto simp: SDS_LIMIT_def sdsempty_def)
  let ?s = "\<lparr>curarg = e, touched = False, curargv = [], totlen = 0\<rparr>"
  have "NUL \<notin> set (piece_fmt pc)" if "piece_ok txt pc" for pc using that by (cases pc) auto
  then have "NUL \<notin> set (word_fmt w)" if "word_ok txt w" for w using that by (auto simp: word_ok_def word_fmt_def list_all_iff)
  then have "NUL \<notin> set ?f" using assms(1) set_glue[of "'' ''" "map word_fmt ws"] by (force simp: list_all_iff)
  then have c: "cstr ?f = ?f" by (rule cstr_id)
  have "state_ok [] [] False ?s" using e by (simp add: state_ok_def)
  have "\<exists>s. format_loop (Some g) True txt ?f (concat (map word_args ws)) ?s = Inr s \<and> (\<exists>s1. (if touched s then push_arg True s else Inr s) = Inr s1 \<and>
      map sds_str (curargv s1) = ?as \<and> totlen s1 = int (length (bulks ?as)))"
  proof (cases "ws = []")
    case False
    obtain s us cur where s: "format_loop (Some g) True txt ?f (concat (map word_args ws)) ?s = Inr s" "state_ok us cur True s" "us @ [cur] = ?as"
      using words_loop[OF assms(1) False \<open>state_ok [] [] False ?s\<close>, of g] assms(2) l by auto
    then show ?thesis using push_arg_ok[OF s(2)] assms(2) l by (auto simp: state_ok_def)
  qed (simp add: format_loop.simps)
  then obtain s s1 where s: "format_loop (Some g) True txt ?f (concat (map word_args ws)) ?s = Inr s" "(if touched s then push_arg True s else Inr s) = Inr s1"
      "map sds_str (curargv s1) = ?as" "totlen s1 = int (length (bulks ?as))" by blast
  have "length (curargv s1) = length ?as" using s(3) map_eq_imp_length_eq by (metis length_map)
  moreover have "wrap32 (int (length (bulks ?as)) + int ?k) = int (length (command ?as))"
    unfolding l using wrap32_nat[OF assms(2)] l by (simp add: algebra_simps)
  ultimately show ?thesis using e(1) s c build_command_spec[of ?as] by (simp add: redisvFormatCommand_def)
qed

section \<open>Properties\<close>

text \<open>C34: commands are safe from their arguments. A format of words with spaces between them, in which strings, strings with a
  length and printf directives are filled in, gives the command that has exactly those words: no byte of an argument, be it a
  space, a zero or a line end, makes a new word or ends the command.\<close>

theorem format_keeps_words:
  assumes "list_all (word_ok txt) ws" "length (command (map (word_text txt) ws)) < INT_LIMIT"
  shows "redisvFormatCommand (Some g) True txt (glue '' '' (map word_fmt ws)) (concat (map word_args ws)) =
    Inr (encode (Arr (map (\<lambda>w. Bulk (word_text txt w)) ws)))"
  using format_words[OF assms] by (simp add: command_def comp_def del: encode.simps)

theorem format_keeps_words_witness:
  "redisvFormatCommand (Some NUL) True (\<lambda>_ _. []) ''SET k:%b'' [Va_str [CHR '' '', CHR 0x0D, CHR 0x0A], Va_size 3] =
   Inr (encode (Arr [Bulk ''SET'', Bulk [CHR ''k'', CHR '':'', CHR '' '', CHR 0x0D, CHR 0x0A]]))"
proof -
  let ?b = "[CHR '' '', CHR 0x0D, CHR 0x0A]" and ?t = "\<lambda>_ _. [] :: char list"
  let ?ws = "[[Lit ''SET''], [Lit ''k:'', Bin ?b]]"
  have "length (command (map (word_text ?t) ?ws)) < INT_LIMIT"
    by (simp add: command_def CRLF_def INT_LIMIT_def sdsll2str_cases digits_rev.simps)
  moreover have "list_all (word_ok ?t) ?ws" by (simp add: word_ok_def)
  moreover have "glue '' '' (map word_fmt ?ws) = ''SET k:%b''" "concat (map word_args ?ws) = [Va_str ?b, Va_size 3]" by simp_all
  ultimately show ?thesis using format_keeps_words [of ?t ?ws NUL] by (simp add: numeral_3_eq_3 del: encode.simps)
qed

text \<open>Both functions that format a vector of arguments give the same command, of the length they return, and the
  protocol reader that is fed with it gives back the arguments.\<close>

theorem argv_roundtrip:
  assumes "arg_bytes argv argvlen = Some as" "idle r" "unread r = []" "len r + length (command as) + 1 < INT_LIMIT"
  shows "\<exists>cmd s r1 p r2. redisFormatCommandArgv True argv argvlen = Inr cmd \<and>
    redisFormatSdsCommandArgv (Some g) argv argvlen = Inr (s, int (length cmd)) \<and> sds_ok s \<and> sds_str s = cmd \<and>
    redisReaderFeed (Some g) cmd r = Inr (True, r1) \<and> redisReaderGetReply r1 = Inr (True, Some (Obj p), r2) \<and>
    rep (cells (store r2)) (hnext (store r)) (hnext (store r2)) p (Arr (map Bulk as)) \<and> unread r2 = []"
proof -
  obtain s where s: "redisFormatSdsCommandArgv (Some g) argv argvlen = Inr (s, int (length (command as)))" "sds_ok s" "sds_str s = command as"
    using format_sds_gen[OF assms(1), of g] assms(4) by auto
  obtain r1 where r1: "redisReaderFeed (Some g) (command as) r = Inr (True, r1)" "idle r1" "unread r1 = encode (Arr (map Bulk as)) @ []" "store r1 = store r"
    using feed_ok[of r "command as" g] assms(2-4) by (auto simp: idle_def command_def simp del: encode.simps)
  show ?thesis using getReply_decodes[OF r1(2,3)] s r1(1,4) format_argv_gen[OF assms(1)] assms(4) by auto
qed

theorem argv_roundtrip_witness:
  "\<exists>cmd r0 r1 p r2. redisFormatCommandArgv True [''SET'', ''k v''] None = Inr cmd \<and>
     redisReaderCreate (Some NUL) \<lparr>cells = Map.empty, hnext = 1, oom = None, heap_fault = False\<rparr> = Some r0 \<and>
     redisReaderFeed (Some NUL) cmd r0 = Inr (True, r1) \<and> redisReaderGetReply r1 = Inr (True, Some (Obj p), r2) \<and>
     rep (cells (store r2)) 1 (hnext (store r2)) p (Arr [Bulk ''SET'', Bulk ''k v''])"
proof -
  let ?h = "\<lparr>cells = Map.empty, hnext = 1, oom = None, heap_fault = False\<rparr> :: reply_heap" and ?as = "[''SET'', ''k v'']"
  obtain r0 where r0: "redisReaderCreate (Some NUL) ?h = Some r0" "idle r0" "unread r0 = []" "len r0 = 0" "store r0 = ?h"
    using create_idle[of ?h NUL] by (auto simp: heap_ok_def)
  have "length (command ?as) + 1 < INT_LIMIT"
    by (simp add: command_def CRLF_def INT_LIMIT_def sdsll2str_cases digits_rev.simps)
  moreover have "arg_bytes ?as None = Some ?as" by (simp add: arg_bytes_def cstr_def)
  ultimately show ?thesis using argv_roundtrip [of ?as None ?as r0 NUL] r0 by (auto simp del: rep.simps)
qed

text \<open>A format that ends inside a printf directive: the loop goes on behind the end of the format.\<close>

theorem unfinished_directive:
  assumes "list_all (\<lambda>c. is_flag c \<or> isdigit c) d" "d \<noteq> []" "skip_flags d = []" "length d < 12" "NUL \<notin> set (txt (CHR ''%'' # d) (Va_int v))"
    "length (txt (CHR ''%'' # d) (Va_int v)) < SDS_LIMIT"
  shows "redisvFormatCommand (Some g) True txt (CHR ''%'' # d) [Va_int v] = Inl Cmd_fault"
proof -
  have n: "\<forall>c \<in> set d. c \<noteq> NUL \<and> c \<notin> {CHR ''s'', CHR ''b'', CHR ''%''}"
  proof
    fix c assume "c \<in> set d"
    then consider "is_flag c" | "isdigit c" using assms(1) by (auto simp: list_all_iff)
    then show "c \<noteq> NUL \<and> c \<notin> {CHR ''s'', CHR ''b'', CHR ''%''}" by cases (auto simp: is_flag_def isdigit_def)
  qed
  have c: "cstr (CHR ''%'' # d) = CHR ''%'' # d" using n by (intro cstr_id) auto
  obtain e where e: "sdsempty (Some g) = Inr e" "sds_ok e" "sds_str e = []"
    using sdsnewlen_spec(1)[of 0 "[]" g] by (auto simp: SDS_LIMIT_def sdsempty_def)
  have h: "hd d \<notin> {CHR ''s'', CHR ''b'', CHR ''%''}" using n assms(2) by simp
  have "directive d = Some (K_int, [])" using assms(3) by (simp add: directive_def at_any_def)
  moreover obtain a where "sdscatlen (Some g) (txt (CHR ''%'' # d) (Va_int v)) e = Inr a"
    using sdscatlen_spec[OF e(2), of "txt (CHR ''%'' # d) (Va_int v)" g] length_sds_str[OF e(2)] e(3) assms(6) by auto
  ultimately have "format_loop (Some g) True txt (CHR ''%'' # d) [Va_int v] \<lparr>curarg = e, touched = False, curargv = [], totlen = 0\<rparr> = Inl Cmd_fault"
    using h assms(2,4) sdscatprintf_eq[OF assms(5), of g "length d + 2" e] by (subst format_loop.simps) (simp add: Let_def sdscatprintf_def)
  then show ?thesis using e(1) c by (simp add: redisvFormatCommand_def)
qed

end
