(* ===== verification/Context_Props.thy ===== *)
theory Context_Props
  imports Context Command_Props Reader_Chunks
begin

text \<open>
  Commands over a connection: the loops that write the output buffer and read until there is a reply, whatever pieces
  the kernel takes and delivers, and what is left of a connection the server has closed.
\<close>

section \<open>Writing\<close>

text \<open>Results of \<^verbatim>\<open>write\<close> that take \<open>n\<close> bytes in all, in any pieces and with any interruptions.\<close>

fun drains :: "nat io_result list \<Rightarrow> nat \<Rightarrow> bool" where
  "drains [] n \<longleftrightarrow> n = 0"
| "drains (w # ws) n \<longleftrightarrow> n = 0 \<or> (case w of Io_done k \<Rightarrow> k \<le> n \<and> drains ws (n - k) | Io_intr \<Rightarrow> drains ws n | _ \<Rightarrow> False)"

lemma drop_sent_spec:
  assumes "sds_ok b" "sdslen b < INT_LIMIT" "n \<le> sdslen b" "0 < n"
  shows "\<exists>b1. drop_sent (Some g) n b = Inr b1 \<and> sds_ok b1 \<and> sds_str b1 = drop n (sds_str b)"
proof (cases "n = sdslen b")
  case True
  obtain e where "sdsempty (Some g) = Inr e" "sds_ok e" "sds_str e = []"
    using sdsnewlen_spec(1)[of 0 "[]" g] by (auto simp: SDS_LIMIT_def sdsempty_def)
  then show ?thesis using True wrap32_nat[OF assms(2)] length_sds_str[OF assms(1)] by (simp add: drop_sent_def)
next
  case False
  have "int n \<noteq> wrap32 (int (sdslen b))" using False wrap32_nat[OF assms(2)] by simp
  moreover obtain b1 where "sdsrange (int n) (-1) b = Inr b1" "sds_ok b1" "sds_str b1 = range_of (int n) (-1) (sds_str b)"
    using sdsrange_spec_gen[OF assms(1), of "int n" "-1"] assms(2,3) by (auto simp: INT_LIMIT_def)
  ultimately show ?thesis using range_to_end[of n "sds_str b"] assms(3) length_sds_str[OF assms(1)] by (simp add: drop_sent_def)
qed

text \<open>One result of \<^verbatim>\<open>write\<close>; an interruption takes nothing.\<close>

lemma write_step:
  assumes "w = Io_done k \<or> w = Io_intr \<and> k = 0" "k \<le> sdslen (obuf c)" "sdslen (obuf c) \<noteq> 0" "cerr c = None" "sds_ok (obuf c)" "sdslen (obuf c) < INT_LIMIT"
  shows "\<exists>b. redisBufferWrite (Some g) w c = Some (True, sdslen b = 0, c\<lparr>obuf := b, sent := sent c @ take k (sds_str (obuf c))\<rparr>) \<and>
    sds_ok b \<and> sds_str b = drop k (sds_str (obuf c)) \<and> sdslen b = sdslen (obuf c) - k"
proof (cases "k = 0")
  case True
  then show ?thesis using assms by (intro exI[of _ "obuf c"]) (auto simp: redisBufferWrite_def)
next
  case False
  then obtain b where b: "drop_sent (Some g) k (obuf c) = Inr b" "sds_ok b" "sds_str b = drop k (sds_str (obuf c))"
    using drop_sent_spec[OF assms(5,6,2), of g] by auto
  have "sdslen b = sdslen (obuf c) - k" using length_sds_str[OF b(2)] length_sds_str[OF assms(5)] b(3) by simp
  then show ?thesis using assms(1,3,4) b False by (intro exI[of _ b]) (simp add: redisBufferWrite_def)
qed

lemma write_loop:
  assumes "drains ws (sdslen (obuf c))" "cerr c = None" "sds_ok (obuf c)" "sdslen (obuf c) < INT_LIMIT"
  shows "\<exists>vs b. write_until_done (Some g) ws c = Ctx_ok vs (c\<lparr>obuf := b, sent := sent c @ sds_str (obuf c)\<rparr>) \<and> sds_ok b \<and> sds_str b = []"
  using assms
proof (induction ws arbitrary: c)
  case Nil
  then have "sds_str (obuf c) = []" using length_sds_str[of "obuf c"] by simp
  then show ?case using Nil by (intro exI[of _ "[]"] exI[of _ "obuf c"]) simp
next
  case (Cons w ws)
  let ?s = "sds_str (obuf c)"
  show ?case
  proof (cases "sdslen (obuf c) = 0")
    case True
    then have "?s = []" using length_sds_str[OF Cons.prems(3)] by simp
    then show ?thesis using True Cons.prems by (intro exI[of _ "w # ws"] exI[of _ "obuf c"]) simp
  next
    case n: False
    then obtain k where k: "w = Io_done k \<or> w = Io_intr \<and> k = 0" "k \<le> sdslen (obuf c)" "drains ws (sdslen (obuf c) - k)"
      using Cons.prems(1) by (cases w) fastforce+
    obtain b where b: "redisBufferWrite (Some g) w c = Some (True, sdslen b = 0, c\<lparr>obuf := b, sent := sent c @ take k ?s\<rparr>)"
        "sds_ok b" "sds_str b = drop k ?s" "sdslen b = sdslen (obuf c) - k"
      using write_step[OF k(1,2) n Cons.prems(2-4), of g] by auto
    let ?c = "c\<lparr>obuf := b, sent := sent c @ take k ?s\<rparr>"
    have s: "take k ?s @ sds_str b = ?s" using b(3) by simp
    show ?thesis
    proof (cases "sdslen b = 0")
      case True
      then have e: "sds_str b = []" using length_sds_str[OF b(2)] by simp
      then have "take k ?s = ?s" using s by simp
      then show ?thesis using True b(1,2) n Cons.prems(2) e by (intro exI[of _ ws] exI[of _ b]) simp
    next
      case False
      have "sdslen b < INT_LIMIT" using b(4) Cons.prems(4) by linarith
      then obtain vs b2 where "write_until_done (Some g) ws ?c = Ctx_ok vs (?c\<lparr>obuf := b2, sent := sent ?c @ sds_str (obuf ?c)\<rparr>)" "sds_ok b2" "sds_str b2 = []"
        using Cons.IH[of ?c] k(3) b(2,4) Cons.prems(2) by auto
      then show ?thesis using b(1) n False Cons.prems(2) s by (intro exI[of _ vs] exI[of _ b2]) simp
    qed
  qed
qed

section \<open>Reading\<close>

text \<open>Results of \<^verbatim>\<open>read\<close> on a connection that lives, and the bytes they bring.\<close>

fun alive :: "char list io_result \<Rightarrow> bool" where
  "alive (Io_done bs) \<longleftrightarrow> bs \<noteq> []"
| "alive Io_intr \<longleftrightarrow> True"
| "alive _ \<longleftrightarrow> False"

fun arrived :: "char list io_result list \<Rightarrow> char list" where
  "arrived [] = []"
| "arrived (Io_done bs # xs) = bs @ arrived xs"
| "arrived (_ # xs) = arrived xs"

text \<open>One result while the reply is not complete.\<close>

lemma read_step:
  assumes "receiving r0 bs (reader c)" "cerr c = None" "alive x" "len r0 + 1024 + length (bs @ arrived [x]) < INT_LIMIT"
  shows "\<exists>r. redisBufferRead (Some g) x c = Some (True, c\<lparr>reader := r\<rparr>) \<and> receiving r0 (bs @ arrived [x]) r"
proof (cases x)
  case (Io_done b)
  have "len (reader c) \<le> len r0 + 1024 + length bs" using assms(1) by (simp add: receiving_def)
  then obtain r where "redisReaderFeed (Some g) b (reader c) = Inr (True, r)" "receiving r0 (bs @ b) r"
    using receiving_feed[OF assms(1), of b g] assms(4) Io_done by auto
  then show ?thesis using assms(2,3) Io_done by (intro exI[of _ r]) (simp add: redisBufferRead_def)
next
  case Io_intr
  then show ?thesis using assms(1,2) by (intro exI[of _ "reader c"]) (simp add: redisBufferRead_def)
qed (use assms(3) in auto)

lemma reply_waits:
  assumes "receiving r0 bs (reader c)" "bs @ b = encode t" "b \<noteq> []" "resp_ok 0 t" "length (encode t) < INT_LIMIT"
  shows "\<exists>r. redisGetReplyFromReader c = Some (True, None, c\<lparr>reader := r\<rparr>) \<and> receiving r0 bs r"
  using receiving_waits[OF assms] by (auto simp: redisGetReplyFromReader_def)

lemma reply_done:
  assumes "receiving r0 (encode t @ rest) (reader c)" "resp_ok 0 t" "length (encode t @ rest) < INT_LIMIT"
  shows "\<exists>p r. redisGetReplyFromReader c = Some (True, Some (Obj p), c\<lparr>reader := r\<rparr>) \<and> rep (cells (store r)) (hnext (store r0)) (hnext (store r)) p t \<and>
    (\<forall>a < hnext (store r0). cells (store r) a = cells (store r0) a) \<and> unread r = rest \<and> idle r"
  using receiving_done[OF assms] by (fastforce simp: redisGetReplyFromReader_def simp del: rep.simps)

lemma arrived_Cons: "arrived (x # xs) = arrived [x] @ arrived xs"
  by (cases x) simp_all

lemma arrived_append: "arrived (xs @ ys) = arrived xs @ arrived ys"
  by (induction xs rule: arrived.induct) simp_all

lemma read_loop:
  assumes "receiving r0 bs (reader c)" "cerr c = None" "list_all alive xs" "bs @ arrived xs = encode t @ rest" "length bs < length (encode t)"
    "resp_ok 0 t" "len r0 + 1024 + length (encode t @ rest) < INT_LIMIT"
  shows "\<exists>p r ys. read_until_reply (Some g) xs c = Ctx_ok (Obj p, ys) (c\<lparr>reader := r\<rparr>) \<and> rep (cells (store r)) (hnext (store r0)) (hnext (store r)) p t \<and>
    (\<forall>a < hnext (store r0). cells (store r) a = cells (store r0) a) \<and> unread r @ arrived ys = rest \<and> idle r"
  using assms
proof (induction xs arbitrary: bs c)
  case Nil
  have "length bs = length (encode t @ rest)" using Nil.prems(4) by simp
  then show ?case using Nil.prems(5) by simp
next
  case (Cons x xs)
  let ?bs = "bs @ arrived [x]"
  have a: "?bs @ arrived xs = encode t @ rest" using Cons.prems(4) arrived_Cons[of x xs] by simp
  then have "length ?bs \<le> length (encode t @ rest)" by (metis length_append le_add1)
  then obtain r where r: "redisBufferRead (Some g) x c = Some (True, c\<lparr>reader := r\<rparr>)" "receiving r0 ?bs r"
    using read_step[OF Cons.prems(1,2), of x g] Cons.prems(3,7) by auto
  show ?case
  proof (cases "length ?bs < length (encode t)")
    case True
    obtain b where b: "?bs @ b = encode t" "b \<noteq> []"
    proof
      show "?bs @ drop (length ?bs) (encode t) = encode t"
        using a True by (metis append_eq_append_conv_if append_take_drop_id less_imp_le_nat linorder_not_le)
      show "drop (length ?bs) (encode t) \<noteq> []" using True by simp
    qed
    obtain r1 where r1: "redisGetReplyFromReader (c\<lparr>reader := r\<rparr>) = Some (True, None, c\<lparr>reader := r1\<rparr>)" "receiving r0 ?bs r1"
      using reply_waits[of r0 ?bs "c\<lparr>reader := r\<rparr>" b t] r(2) b Cons.prems(6,7) by auto
    then show ?thesis using Cons.IH[of ?bs "c\<lparr>reader := r1\<rparr>"] r(1) a True Cons.prems(2,3,6,7) by (simp del: rep.simps)
  next
    case False
    obtain u where u: "?bs = encode t @ u" "u @ arrived xs = rest"
    proof
      show "?bs = encode t @ drop (length (encode t)) ?bs"
        using a False by (metis append_eq_append_conv_if append_take_drop_id linorder_not_less nle_le)
      then show "drop (length (encode t)) ?bs @ arrived xs = rest" using a by (metis append.assoc same_append_eq)
    qed
    have "length (encode t @ u) < INT_LIMIT" using Cons.prems(7) u(2) by auto
    then show ?thesis using reply_done[of r0 t u "c\<lparr>reader := r\<rparr>"] r u Cons.prems(6) by (auto simp del: rep.simps)
  qed
qed

text \<open>The server closes the connection before the reply is complete.\<close>

lemma closed_loop:
  assumes "receiving r0 bs (reader c)" "cerr c = None" "list_all alive xs" "(bs @ arrived xs) @ b = encode t" "b \<noteq> []" "resp_ok 0 t"
    "len r0 + 1024 + length (encode t) < INT_LIMIT"
  shows "\<exists>r. read_until_reply (Some g) (xs @ Io_done [] # ys) c =
    Ctx_err (c\<lparr>reader := r, cerr := Some REDIS_ERR_EOF, cerrstr := ''Server closed the connection''\<rparr>) \<and> receiving r0 (bs @ arrived xs) r"
  using assms
proof (induction xs arbitrary: bs c)
  case Nil
  then show ?case by (intro exI[of _ "reader c"]) (simp add: redisBufferRead_def redisSetError_def cstr_def)
next
  case (Cons x xs)
  let ?bs = "bs @ arrived [x]"
  have a: "(?bs @ arrived xs) @ b = encode t" using Cons.prems(4) arrived_Cons[of x xs] by simp
  then have "length ?bs \<le> length (encode t)" by (metis append.assoc length_append le_add1)
  then obtain r where r: "redisBufferRead (Some g) x c = Some (True, c\<lparr>reader := r\<rparr>)" "receiving r0 ?bs r"
    using read_step[OF Cons.prems(1,2), of x g] Cons.prems(3,7) by auto
  obtain r1 where r1: "redisGetReplyFromReader (c\<lparr>reader := r\<rparr>) = Some (True, None, c\<lparr>reader := r1\<rparr>)" "receiving r0 ?bs r1"
    using reply_waits[of r0 ?bs "c\<lparr>reader := r\<rparr>" "arrived xs @ b" t] r(2) a Cons.prems(5-7) by auto
  show ?case using Cons.IH[of ?bs "c\<lparr>reader := r1\<rparr>"] r(1) r1 a Cons.prems(2,3,5-7) arrived_Cons[of x xs] by simp
qed

section \<open>Commands\<close>

text \<open>A command is appended to the output buffer.\<close>

lemma append_argv:
  assumes "arg_bytes argv argvlen = Some as" "sds_ok (obuf c)" "sdslen (obuf c) + length (command as) + 1 < INT_LIMIT"
  shows "\<exists>b. redisAppendCommandArgv (Some g) argv argvlen c = Some (True, c\<lparr>obuf := b\<rparr>) \<and> sds_ok b \<and> sds_str b = sds_str (obuf c) @ command as"
proof -
  obtain s where s: "redisFormatSdsCommandArgv (Some g) argv argvlen = Inr (s, int (length (command as)))" "sds_ok s" "sds_str s = command as"
    using format_sds_gen[OF assms(1), of g] assms(3) by auto
  have "take (length (command as)) (sbuf s) = command as" "length (command as) \<le> length (sbuf s)"
    using s(3) length_sds_str[OF s(2)] sds_ok_len[OF s(2)] by (auto simp: sds_str_def sdslen_def)
  moreover obtain b where b: "sdscatlen (Some g) (command as) (obuf c) = Inr b" "sds_ok b" "sds_str b = sds_str (obuf c) @ command as"
    using sdscatlen_spec[OF assms(2), of "command as" g] assms(3) INT_LIMIT_SDS[of "sdslen (obuf c) + length (command as)"] by auto
  ultimately show ?thesis using s(1) by (intro exI[of _ b]) (simp add: redisAppendCommandArgv_def redisAppendCmd_def)
qed

text \<open>A context between commands: no error, nothing received.\<close>

definition between :: "redisContext \<Rightarrow> bool" where
  "between c \<longleftrightarrow> block c \<and> cerr c = None \<and> sds_ok (obuf c) \<and> idle (reader c) \<and> unread (reader c) = []"

text \<open>A command up to the point where the context reads.\<close>

lemma command_sent:
  assumes "between c" "arg_bytes argv argvlen = Some as" "drains ws (sdslen (obuf c) + length (command as))"
    "sdslen (obuf c) + length (command as) + 1 < INT_LIMIT" "resp_ok 0 t" "length (encode t) < INT_LIMIT"
  shows "\<exists>c1. cerr c1 = None \<and> block c1 \<and> sds_ok (obuf c1) \<and> sds_str (obuf c1) = [] \<and> receiving (reader c) [] (reader c1) \<and>
    sent c1 = sent c @ sds_str (obuf c) @ command as \<and>
    redisCommandArgv (Some g) argv argvlen ws xs c =
      (case read_until_reply (Some g) xs c1 of
         Ctx_ok (v, ys) c3 \<Rightarrow> Ctx_ok (Some v, ys) c3 | Ctx_err c3 \<Rightarrow> Ctx_err c3 | Ctx_waits c3 \<Rightarrow> Ctx_waits c3 | Ctx_crash \<Rightarrow> Ctx_crash)"
proof -
  have c: "block c" "cerr c = None" "sds_ok (obuf c)" "receiving (reader c) [] (reader c)"
    using assms(1) receiving_start[of "reader c"] by (auto simp: between_def)
  obtain b where b: "redisAppendCommandArgv (Some g) argv argvlen c = Some (True, c\<lparr>obuf := b\<rparr>)" "sds_ok b" "sds_str b = sds_str (obuf c) @ command as"
    using append_argv[OF assms(2) c(3), of g] assms(4) by auto
  have l: "sdslen b = sdslen (obuf c) + length (command as)" using length_sds_str[OF b(2)] length_sds_str[OF c(3)] b(3) by simp
  have "encode t \<noteq> []" by (cases t) simp_all
  then obtain r where r: "redisGetReplyFromReader (c\<lparr>obuf := b\<rparr>) = Some (True, None, c\<lparr>obuf := b, reader := r\<rparr>)" "receiving (reader c) [] r"
    using reply_waits[of "reader c" "[]" "c\<lparr>obuf := b\<rparr>" "encode t" t] c(4) assms(5,6) by auto
  let ?c = "c\<lparr>obuf := b, reader := r\<rparr>"
  obtain vs b1 where w: "write_until_done (Some g) ws ?c = Ctx_ok vs (?c\<lparr>obuf := b1, sent := sent ?c @ sds_str (obuf ?c)\<rparr>)" "sds_ok b1" "sds_str b1 = []"
    using write_loop[of ws ?c g] assms(3,4) b(2) c(2) l by auto
  let ?c1 = "?c\<lparr>obuf := b1, sent := sent ?c @ sds_str (obuf ?c)\<rparr>"
  have "redisCommandArgv (Some g) argv argvlen ws xs c =
      (case read_until_reply (Some g) xs ?c1 of
         Ctx_ok (v, ys) c3 \<Rightarrow> Ctx_ok (Some v, ys) c3 | Ctx_err c3 \<Rightarrow> Ctx_err c3 | Ctx_waits c3 \<Rightarrow> Ctx_waits c3 | Ctx_crash \<Rightarrow> Ctx_crash)"
    using b(1) r(1) w(1) c(1) by (simp add: redisCommandArgv_def redisBlockForReply_def redisGetReply_def)
  then show ?thesis using c(1,2) w(2,3) r(2) b(3) by (intro exI[of _ ?c1]) simp
qed

text \<open>A new context is between commands.\<close>

lemma connect_between:
  assumes "heap_ok h"
  shows "\<exists>c. redisConnectFd True (Some g) (Some g) h d = Some c \<and> between c \<and> sdslen (obuf c) = 0 \<and> sds_str (obuf c) = [] \<and> sent c = [] \<and>
    len (reader c) = 0 \<and> store (reader c) = h"
proof -
  obtain e where e: "sdsempty (Some g) = Inr e" "sds_ok e" "sds_str e = []"
    using sdsnewlen_spec(1)[of 0 "[]" g] by (auto simp: SDS_LIMIT_def sdsempty_def)
  moreover obtain r where "redisReaderCreate (Some g) h = Some r" "idle r" "unread r = []" "len r = 0" "store r = h"
    using create_idle[OF assms, of g] by blast
  ultimately show ?thesis using length_sds_str[OF e(2)] by (simp add: redisConnectFd_def redisContextInit_def between_def)
qed

lemma ping_command: "command [''PING''] = ''*1'' @ CRLF @ ''$4'' @ CRLF @ ''PING'' @ CRLF" "arg_bytes [''PING''] None = Some [''PING'']"
  by (simp_all add: command_def CRLF_def sdsll2str_cases digits_rev.simps arg_bytes_def cstr_def char_of_def bit_Suc_0_iff)

section \<open>Properties\<close>

text \<open>C35: a command is answered. On a blocking connection without pending input, whatever pieces the kernel takes of the output
  and however it cuts the input, with interruptions anywhere, the bytes that go out are the pending output and the command, the
  call returns the first reply that comes in, in fresh objects, and what came in behind that reply is kept for the next call.\<close>

theorem command_answered:
  assumes "between c" "arg_bytes argv argvlen = Some as" "drains ws (sdslen (obuf c) + length (command as))"
    "list_all alive xs" "arrived xs = encode t @ rest" "resp_ok 0 t"
    "sdslen (obuf c) + length (command as) + 1 < INT_LIMIT" "len (reader c) + 1024 + length (encode t @ rest) < INT_LIMIT"
  shows "\<exists>p ys c1. redisCommandArgv (Some g) argv argvlen ws xs c = Ctx_ok (Some (Obj p), ys) c1 \<and>
    rep (cells (store (reader c1))) (hnext (store (reader c))) (hnext (store (reader c1))) p t \<and>
    (\<forall>a < hnext (store (reader c)). cells (store (reader c1)) a = cells (store (reader c)) a) \<and>
    sent c1 = sent c @ sds_str (obuf c) @ command as \<and> sds_str (obuf c1) = [] \<and> sds_ok (obuf c1) \<and> block c1 \<and> cerr c1 = None \<and>
    idle (reader c1) \<and> unread (reader c1) @ arrived ys = rest"
proof -
  obtain c1 where c1: "cerr c1 = None" "block c1" "sds_ok (obuf c1)" "sds_str (obuf c1) = []" "receiving (reader c) [] (reader c1)"
      "sent c1 = sent c @ sds_str (obuf c) @ command as"
      "redisCommandArgv (Some g) argv argvlen ws xs c =
        (case read_until_reply (Some g) xs c1 of
           Ctx_ok (v, ys) c3 \<Rightarrow> Ctx_ok (Some v, ys) c3 | Ctx_err c3 \<Rightarrow> Ctx_err c3 | Ctx_waits c3 \<Rightarrow> Ctx_waits c3 | Ctx_crash \<Rightarrow> Ctx_crash)"
    using command_sent[OF assms(1-3,7,6), of g xs] assms(8) by auto
  have "length [] < length (encode t)" by (cases t) simp_all
  then obtain p r ys where r: "read_until_reply (Some g) xs c1 = Ctx_ok (Obj p, ys) (c1\<lparr>reader := r\<rparr>)"
      "rep (cells (store r)) (hnext (store (reader c))) (hnext (store r)) p t"
      "\<forall>a < hnext (store (reader c)). cells (store r) a = cells (store (reader c)) a" "unread r @ arrived ys = rest" "idle r"
    using read_loop[OF c1(5,1) assms(4), of t rest g] assms(5,6,8) by auto
  then show ?thesis using c1 by (intro exI[of _ p] exI[of _ ys] exI[of _ "c1\<lparr>reader := r\<rparr>"]) simp
qed

theorem command_answered_witness:
  "\<exists>c p ys c1. redisConnectFd True (Some NUL) (Some NUL) \<lparr>cells = Map.empty, hnext = 1, oom = None, heap_fault = False\<rparr> 5 = Some c \<and>
     redisCommandArgv (Some NUL) [''PING''] None [Io_done 3, Io_intr, Io_done 11] [Io_done ''+PO'', Io_intr, Io_done (''NG'' @ CRLF @ ''+''), Io_done ''OK''] c =
       Ctx_ok (Some (Obj p), ys) c1 \<and>
     rep (cells (store (reader c1))) 1 (hnext (store (reader c1))) p (Status ''PONG'') \<and>
     sent c1 = ''*1'' @ CRLF @ ''$4'' @ CRLF @ ''PING'' @ CRLF \<and> unread (reader c1) @ arrived ys = ''+OK''"
proof -
  let ?h = "\<lparr>cells = Map.empty, hnext = 1, oom = None, heap_fault = False\<rparr> :: reply_heap"
  obtain c where c: "redisConnectFd True (Some NUL) (Some NUL) ?h 5 = Some c" "between c" "sdslen (obuf c) = 0" "sds_str (obuf c) = []" "sent c = []"
      "len (reader c) = 0" "store (reader c) = ?h"
    using connect_between[of ?h NUL 5] by (auto simp: heap_ok_def)
  have "drains [Io_done 3, Io_intr, Io_done 11] (sdslen (obuf c) + length (command [''PING'']))" using c(3) by (simp add: ping_command CRLF_def)
  from command_answered [OF c(2) ping_command(2) this, of "[Io_done ''+PO'', Io_intr, Io_done (''NG'' @ CRLF @ ''+''), Io_done ''OK'']" "Status ''PONG''" "''+OK''" NUL]
  show ?thesis using c by (auto simp: ping_command CRLF_def INT_LIMIT_def simp del: rep.simps)
qed

text \<open>C36: a closed connection. When the server closes the connection before its reply is complete, the command returns no reply
  and the context has the error \<^verbatim>\<open>REDIS_ERR_EOF\<close>. It keeps the error: every later command returns no reply either, keeps
  the error, and sends nothing.\<close>

theorem closed_connection_sticks:
  assumes "between c" "arg_bytes argv argvlen = Some as" "drains ws (sdslen (obuf c) + length (command as))"
    "list_all alive xs" "arrived xs @ b = encode t" "b \<noteq> []" "resp_ok 0 t"
    "sdslen (obuf c) + length (command as) + 1 < INT_LIMIT" "len (reader c) + 1024 + length (encode t) < INT_LIMIT"
  shows "\<exists>c1. redisCommandArgv (Some g) argv argvlen ws (xs @ Io_done [] # ys) c = Ctx_err c1 \<and> cerr c1 = Some REDIS_ERR_EOF \<and>
    cerrstr c1 = ''Server closed the connection'' \<and> sent c1 = sent c @ sds_str (obuf c) @ command as \<and>
    (\<forall>argv2 argvlen2 as2 ws2 xs2. arg_bytes argv2 argvlen2 = Some as2 \<and> length (command as2) + 1 < INT_LIMIT \<longrightarrow>
       (\<exists>c2. redisCommandArgv (Some g) argv2 argvlen2 ws2 xs2 c1 = Ctx_err c2 \<and> cerr c2 = Some REDIS_ERR_EOF \<and> sent c2 = sent c1))"
proof -
  let ?xs = "xs @ Io_done [] # ys"
  obtain c1 where c1: "cerr c1 = None" "block c1" "sds_ok (obuf c1)" "sds_str (obuf c1) = []" "receiving (reader c) [] (reader c1)"
      "sent c1 = sent c @ sds_str (obuf c) @ command as"
      "redisCommandArgv (Some g) argv argvlen ws ?xs c =
        (case read_until_reply (Some g) ?xs c1 of
           Ctx_ok (v, ys) c3 \<Rightarrow> Ctx_ok (Some v, ys) c3 | Ctx_err c3 \<Rightarrow> Ctx_err c3 | Ctx_waits c3 \<Rightarrow> Ctx_waits c3 | Ctx_crash \<Rightarrow> Ctx_crash)"
    using command_sent[OF assms(1-3,8,7), of g ?xs] assms(9) by auto
  obtain r where r: "read_until_reply (Some g) ?xs c1 = Ctx_err (c1\<lparr>reader := r, cerr := Some REDIS_ERR_EOF, cerrstr := ''Server closed the connection''\<rparr>)"
      "receiving (reader c) (arrived xs) r"
    using closed_loop[OF c1(5,1) assms(4), of b t g ys] assms(5-7,9) by auto
  let ?c = "c1\<lparr>reader := r, cerr := Some REDIS_ERR_EOF, cerrstr := ''Server closed the connection''\<rparr>"
  have "\<exists>c2. redisCommandArgv (Some g) argv2 argvlen2 ws2 xs2 ?c = Ctx_err c2 \<and> cerr c2 = Some REDIS_ERR_EOF \<and> sent c2 = sent c1"
    if a: "arg_bytes argv2 argvlen2 = Some as2" "length (command as2) + 1 < INT_LIMIT" for argv2 argvlen2 as2 ws2 xs2
  proof -
    have "sdslen (obuf c1) = 0" using length_sds_str[OF c1(3)] c1(4) by simp
    then obtain b1 where b1: "redisAppendCommandArgv (Some g) argv2 argvlen2 ?c = Some (True, ?c\<lparr>obuf := b1\<rparr>)"
      using append_argv[OF a(1), of ?c g] a(2) c1(3) by auto
    obtain r1 where "redisGetReplyFromReader (?c\<lparr>obuf := b1\<rparr>) = Some (True, None, ?c\<lparr>obuf := b1, reader := r1\<rparr>)"
      using reply_waits[of "reader c" "arrived xs" "?c\<lparr>obuf := b1\<rparr>" b t] r(2) assms(5-7,9) by auto
    then show ?thesis using b1 c1(2)
      by (cases ws2) (simp_all add: redisCommandArgv_def redisBlockForReply_def redisGetReply_def)
  qed
  then show ?thesis using c1(6,7) r(1) by (intro exI[of _ ?c]) simp
qed

theorem closed_connection_sticks_witness:
  "\<exists>c c1 c2. redisConnectFd True (Some NUL) (Some NUL) \<lparr>cells = Map.empty, hnext = 1, oom = None, heap_fault = False\<rparr> 5 = Some c \<and>
     redisCommandArgv (Some NUL) [''PING''] None [Io_done 14] [Io_done ''+PO'', Io_done []] c = Ctx_err c1 \<and> cerr c1 = Some REDIS_ERR_EOF \<and>
     redisCommandArgv (Some NUL) [''PING''] None [Io_done 14] [Io_done (''+PONG'' @ CRLF)] c1 = Ctx_err c2 \<and> cerr c2 = Some REDIS_ERR_EOF \<and> sent c2 = sent c1"
proof -
  let ?h = "\<lparr>cells = Map.empty, hnext = 1, oom = None, heap_fault = False\<rparr> :: reply_heap"
  obtain c where c: "redisConnectFd True (Some NUL) (Some NUL) ?h 5 = Some c" "between c" "sdslen (obuf c) = 0" "len (reader c) = 0"
    using connect_between[of ?h NUL 5] by (auto simp: heap_ok_def)
  have d: "drains [Io_done 14] (sdslen (obuf c) + length (command [''PING'']))" "length (command [''PING'']) + 1 < INT_LIMIT"
    using c(3) by (simp_all add: ping_command CRLF_def INT_LIMIT_def)
  have "arrived [Io_done ''+PO''] @ (''NG'' @ CRLF) = encode (Status ''PONG'')" by (simp add: CRLF_def)
  from closed_connection_sticks [OF c(2) ping_command(2) d(1) _ this, of NUL "[]"] c(1,3,4) d(2)
  obtain c1 where "redisCommandArgv (Some NUL) [''PING''] None [Io_done 14] [Io_done ''+PO'', Io_done []] c = Ctx_err c1" "cerr c1 = Some REDIS_ERR_EOF"
      "\<forall>argv2 argvlen2 as2 ws2 xs2. arg_bytes argv2 argvlen2 = Some as2 \<and> length (command as2) + 1 < INT_LIMIT \<longrightarrow>
       (\<exists>c2. redisCommandArgv (Some NUL) argv2 argvlen2 ws2 xs2 c1 = Ctx_err c2 \<and> cerr c2 = Some REDIS_ERR_EOF \<and> sent c2 = sent c1)"
    by (auto simp: CRLF_def INT_LIMIT_def)
  then show ?thesis using c(1) ping_command(2) d(2) by blast
qed

end
