(* ===== verification/Curl.thy ===== *)
theory Curl
  imports Engine
begin

text \<open>
  The HTTP client: requests (net/http_client/curl_req.hpp and curl_req.cpp), the stub that runs the
  requests of one thread (curl_stub.hpp and curl_stub.cpp), and \<^verbatim>\<open>engine_t::exec_curl\<close>.

  \<^item> libcurl is not part of the program. Its results are arguments of the operations: the handle
    \<^verbatim>\<open>curl_easy_init\<close> returns (\<open>None\<close>: a null pointer), the numbers of running transfers and ready
    descriptors, and the messages \<^verbatim>\<open>curl_multi_info_read\<close> has to offer. What the program asks of libcurl is
    kept in \<open>calls\<close>, in order.
  \<^item> \<open>reqs\<close> maps addresses to live requests. A request is held by shared pointers: the queue \<open>todo\<close>, the map
    \<open>doing\<close> and the local variable of each \<^verbatim>\<open>exec_curl\<close> that has not returned (\<open>locals\<close>). It is destroyed with
    its last holder.
  \<^item> \<^verbatim>\<open>exec_curl\<close> is cut at its wait. Log calls are left out.
\<close>

section \<open>State\<close>

datatype curl_type_t = EN_CURL_TYPE_GET | EN_CURL_TYPE_POST

record curl_rsp_t =
  m_rsp_code :: int
  m_data_result :: int

record curl_req_t =
  m_curl_ptr :: "addr option"
  curl_type :: curl_type_t
  m_req_id :: nat
  m_rsp :: curl_rsp_t
  m_my_chroutine :: int
  m_post_buf :: "nat list option"
  m_post_buf_len :: nat

datatype data_slot_t = Default_slot addr | User_slot nat nat

datatype curl_opt =
    CURLOPT_HTTPGET
  | CURLOPT_URL string
  | CURLOPT_CONNECTTIMEOUT_MS int
  | CURLOPT_TIMEOUT_MS int
  | CURLOPT_WRITEDATA data_slot_t
  | CURLOPT_WRITEFUNCTION data_slot_t
  | CURLOPT_POST
  | CURLOPT_POSTFIELDSIZE nat
  | CURLOPT_POSTFIELDS "nat list"

datatype curl_call =
    Easy_init addr
  | Easy_setopt addr curl_opt
  | Easy_perform addr
  | Easy_cleanup addr
  | Multi_add addr
  | Multi_remove addr

record http_t =
  heng :: engine_t
  reqs :: "addr \<Rightarrow> curl_req_t option"
  todo :: "addr list"
  doing :: "(addr, addr) omap"
  locals :: "addr list"
  next_req :: addr
  calls :: "curl_call list"

definition CURL_CON_TIME_OUT :: int where
  "CURL_CON_TIME_OUT = 30000"

definition CURL_TIME_OUT :: int where
  "CURL_TIME_OUT = 60000"

definition MAX_CONCURRENT_TRANS_IN_CURLMULTI :: nat where
  "MAX_CONCURRENT_TRANS_IN_CURLMULTI = 1000"

definition CURLE_FAILED_INIT :: int where
  "CURLE_FAILED_INIT = 2"

definition new_rsp :: curl_rsp_t where
  "new_rsp = \<lparr>m_rsp_code = -1, m_data_result = -1\<rparr>"

definition log_call :: "curl_call \<Rightarrow> http_t \<Rightarrow> http_t" where
  "log_call c st = st\<lparr>calls := calls st @ [c]\<rparr>"

definition upd_req :: "addr \<Rightarrow> (curl_req_t \<Rightarrow> curl_req_t) \<Rightarrow> http_t \<Rightarrow> http_t" where
  "upd_req a f st = st\<lparr>reqs := (reqs st)(a := map_option f (reqs st a))\<rparr>"

definition get_curl_handler :: "addr \<Rightarrow> http_t \<Rightarrow> addr option" where
  "get_curl_handler a st = Option.bind (reqs st a) m_curl_ptr"

section \<open>Requests\<close>

text \<open>The constructor: \<open>h\<close> is what \<^verbatim>\<open>curl_easy_init\<close> returns.\<close>

definition new_curl_req :: "addr option \<Rightarrow> nat \<Rightarrow> http_t \<Rightarrow> http_t \<times> addr" where
  "new_curl_req h req_id st =
     (let a = next_req st;
          st1 = st\<lparr>reqs := (reqs st)(a \<mapsto> \<lparr>m_curl_ptr = h, curl_type = EN_CURL_TYPE_GET, m_req_id = req_id, m_rsp = new_rsp,
                   m_my_chroutine = INVALID_ID, m_post_buf = None, m_post_buf_len = 0\<rparr>), next_req := a + 1\<rparr>
      in (case h of None \<Rightarrow> st1 | Some x \<Rightarrow> log_call (Easy_setopt x CURLOPT_HTTPGET) (log_call (Easy_init x) st1), a))"

text \<open>The destructor; \<^verbatim>\<open>curl_easy_cleanup\<close> of a null pointer does nothing.\<close>

definition destroy_req :: "addr \<Rightarrow> http_t \<Rightarrow> http_t" where
  "destroy_req a st =
     (let st1 = (case get_curl_handler a st of None \<Rightarrow> st | Some h \<Rightarrow> log_call (Easy_cleanup h) st)
      in st1\<lparr>reqs := (reqs st1)(a := None)\<rparr>)"

text \<open>\<^verbatim>\<open>curl_easy_setopt\<close> behind the guard the setters share; \<open>r\<close> is its result.\<close>

definition set_opt :: "curl_opt \<Rightarrow> int \<Rightarrow> addr \<Rightarrow> http_t \<Rightarrow> http_t \<times> int" where
  "set_opt opt r a st =
     (case get_curl_handler a st of None \<Rightarrow> (st, CURLE_FAILED_INIT) | Some h \<Rightarrow> (log_call (Easy_setopt h opt) st, r))"

definition set_url :: "string \<Rightarrow> int \<Rightarrow> addr \<Rightarrow> http_t \<Rightarrow> http_t \<times> int" where
  "set_url url r a st = set_opt (CURLOPT_URL url) r a st"

definition set_connect_timeout :: "int \<Rightarrow> int \<Rightarrow> addr \<Rightarrow> http_t \<Rightarrow> http_t \<times> int" where
  "set_connect_timeout ms r a st = set_opt (CURLOPT_CONNECTTIMEOUT_MS ms) r a st"

definition set_timeout :: "int \<Rightarrow> int \<Rightarrow> addr \<Rightarrow> http_t \<Rightarrow> http_t \<times> int" where
  "set_timeout ms r a st = set_opt (CURLOPT_TIMEOUT_MS ms) r a st"

definition set_data_slot :: "data_slot_t \<Rightarrow> int \<Rightarrow> addr \<Rightarrow> http_t \<Rightarrow> http_t \<times> int" where
  "set_data_slot slot r a st = set_opt (CURLOPT_WRITEFUNCTION slot) r a (fst (set_opt (CURLOPT_WRITEDATA slot) 0 a st))"

text \<open>With a null handle libcurl refuses the options.\<close>

definition set_post_data :: "nat list option \<Rightarrow> nat \<Rightarrow> addr \<Rightarrow> http_t \<Rightarrow> http_t" where
  "set_post_data dat len a st =
     (case dat of
        None \<Rightarrow> st
      | Some bs \<Rightarrow>
          if len = 0 then st
          else
            (let st1 = upd_req a (\<lambda>q. q\<lparr>curl_type := EN_CURL_TYPE_POST, m_post_buf_len := len, m_post_buf := Some (take len bs)\<rparr>) st
             in fst (set_opt (CURLOPT_POSTFIELDS (take len bs)) 0 a
                  (fst (set_opt (CURLOPT_POSTFIELDSIZE len) 0 a (fst (set_opt CURLOPT_POST 0 a st1)))))))"

definition execute_sync :: "int \<Rightarrow> addr \<Rightarrow> http_t \<Rightarrow> http_t \<times> int" where
  "execute_sync r a st =
     (case get_curl_handler a st of None \<Rightarrow> (st, CURLE_FAILED_INIT) | Some h \<Rightarrow> (log_call (Easy_perform h) st, r))"

definition attach_multi_handler :: "addr \<Rightarrow> http_t \<Rightarrow> http_t" where
  "attach_multi_handler a st = (case get_curl_handler a st of None \<Rightarrow> st | Some h \<Rightarrow> log_call (Multi_add h) st)"

definition detach_multi_handler :: "addr \<Rightarrow> http_t \<Rightarrow> http_t" where
  "detach_multi_handler a st = (case get_curl_handler a st of None \<Rightarrow> st | Some h \<Rightarrow> log_call (Multi_remove h) st)"

definition make_default_opts :: "addr \<Rightarrow> http_t \<Rightarrow> http_t" where
  "make_default_opts a st =
     fst (set_data_slot (Default_slot a) 0 a (fst (set_timeout CURL_TIME_OUT 0 a (fst (set_connect_timeout CURL_CON_TIME_OUT 0 a st)))))"

definition write_rsp_data_func :: "nat \<Rightarrow> nat \<Rightarrow> nat" where
  "write_rsp_data_func size1 nmemb = size1 * nmemb mod 2 ^ 64"

definition on_rsp :: "addr \<Rightarrow> int \<Rightarrow> int \<Rightarrow> tid \<Rightarrow> http_t \<Rightarrow> http_t" where
  "on_rsp a rsp_code data_result cur st =
     (let st1 = upd_req a (\<lambda>q. q\<lparr>m_rsp := \<lparr>m_rsp_code = rsp_code, m_data_result = data_result\<rparr>\<rparr>) st in
      case reqs st1 a of
        None \<Rightarrow> st1
      | Some q \<Rightarrow>
          (if m_my_chroutine q \<noteq> INVALID_ID then st1\<lparr>heng := fst (engine_awake (m_my_chroutine q) cur (heng st1))\<rparr> else st1))"

text \<open>A shared pointer to the request has gone.\<close>

definition drop_ref :: "addr \<Rightarrow> http_t \<Rightarrow> http_t" where
  "drop_ref a st = (if a \<in> set (todo st) \<or> a \<in> set (locals st) \<or> a \<in> snd ` set (doing st) then st else destroy_req a st)"

section \<open>The stub of a thread\<close>

definition push_curl_req :: "addr \<Rightarrow> http_t \<Rightarrow> http_t \<times> nat" where
  "push_curl_req a st = (st\<lparr>todo := todo st @ [a]\<rparr>, length (todo st) + 1)"

datatype exec_outcome = Exec_null | Exec_ret curl_rsp_t | Exec_waits addr

text \<open>The end of \<^verbatim>\<open>exec_curl\<close>: the response is moved out and the local pointer goes.\<close>

definition exec_curl_end :: "addr \<Rightarrow> http_t \<Rightarrow> http_t \<times> exec_outcome" where
  "exec_curl_end a st =
     (case reqs st a of
        None \<Rightarrow> (st, Exec_null)
      | Some q \<Rightarrow> (drop_ref a (st\<lparr>locals := remove1 a (locals st)\<rparr>), Exec_ret (m_rsp q)))"

text \<open>The options \<^verbatim>\<open>exec_curl\<close> sets on the new request \<open>a\<close>.\<close>

definition request_opts :: "string \<Rightarrow> int \<Rightarrow> int \<Rightarrow> (nat \<times> nat) option \<Rightarrow> addr \<Rightarrow> http_t \<Rightarrow> http_t" where
  "request_opts url connect_timeout timeout w a st =
     (let st1 = fst (set_url url 0 a (make_default_opts a st));
          st2 = (if connect_timeout > 0 \<and> connect_timeout \<noteq> CURL_CON_TIME_OUT then fst (set_connect_timeout connect_timeout 0 a st1) else st1);
          st3 = (if timeout > 0 \<and> timeout \<noteq> CURL_TIME_OUT then fst (set_timeout timeout 0 a st2) else st2)
      in (case w of None \<Rightarrow> st3 | Some (f, d) \<Rightarrow> fst (set_data_slot (User_slot f d) 0 a st3)))"

text \<open>The wait: a son that sleeps for ever, with the timeout as its limit. The new reporter has the next free
  address.\<close>

definition wait_rsp :: "int \<Rightarrow> int \<Rightarrow> tid \<Rightarrow> engine_t \<Rightarrow> engine_t \<times> (addr option + addr)" where
  "wait_rsp timeout now cur e =
     (let r = next_addr e
      in create_son_report_begin (Some Sleep_forever) r timeout now cur
           (e\<lparr>reporters := create_reporter r 0 (reporters e), next_addr := r + 1\<rparr>))"

definition exec_curl_begin :: "string \<Rightarrow> int \<Rightarrow> int \<Rightarrow> (nat \<times> nat) option \<Rightarrow> addr option \<Rightarrow> int \<Rightarrow> tid \<Rightarrow> http_t \<Rightarrow>
    http_t \<times> exec_outcome" where
  "exec_curl_begin url connect_timeout timeout w h now cur st =
     (let i = get_current_chroutine_id cur (heng st) in
      if i = INVALID_ID then (st, Exec_null)
      else
        (let (st1, a) = new_curl_req h 0 st;
             st2 = request_opts url connect_timeout timeout w a
                     (upd_req a (\<lambda>q. q\<lparr>m_my_chroutine := i\<rparr>) (st1\<lparr>locals := a # locals st1\<rparr>));
             st3 = fst (push_curl_req a st2)
         in if timeout > 0
            then (case wait_rsp timeout now cur (heng st3) of
                    (e, Inl _) \<Rightarrow> exec_curl_end a (st3\<lparr>heng := e\<rparr>)
                  | (e, Inr t) \<Rightarrow> (st3\<lparr>heng := e\<rparr>, Exec_waits a))
            else exec_curl_end a st3))"

function todo_loop :: "http_t \<Rightarrow> http_t" where
  "todo_loop st =
     (if length (doing st) < MAX_CONCURRENT_TRANS_IN_CURLMULTI
      then (case todo st of
              [] \<Rightarrow> st
            | a # as \<Rightarrow>
                (case get_curl_handler a st of
                   None \<Rightarrow> todo_loop (drop_ref a (st\<lparr>todo := as\<rparr>))
                 | Some h \<Rightarrow>
                     todo_loop ((attach_multi_handler a (st\<lparr>todo := as\<rparr>))\<lparr>doing := omap_put h a (doing st)\<rparr>)))
      else st)"
  by pat_completeness auto
termination
  by (relation "measure (\<lambda>st. length (todo st))")
    (auto simp: drop_ref_def destroy_req_def attach_multi_handler_def log_call_def Let_def split: option.split)

declare todo_loop.simps [simp del]

definition add_todo_to_doing :: "http_t \<Rightarrow> http_t \<times> bool" where
  "add_todo_to_doing st = (let st1 = todo_loop st in (st1, doing st1 \<noteq> []))"

definition SELECT_TIMES :: nat where
  "SELECT_TIMES = 10"

definition SELECT_TIMEOUT_TIMES :: nat where
  "SELECT_TIMEOUT_TIMES = 5"

definition SELECT_TIMEOUT :: nat where
  "SELECT_TIMEOUT = 10"

text \<open>\<open>p k\<close> is the number of running transfers after the call \<open>k\<close> of \<^verbatim>\<open>curl_multi_perform\<close>, \<open>w k\<close> the result of the
  call \<open>k\<close> of \<^verbatim>\<open>curl_multi_wait\<close>: \<open>None\<close> for an error, or the number of ready descriptors. The result counts
  the calls of both.\<close>

function select_times :: "(nat \<Rightarrow> int) \<Rightarrow> (nat \<Rightarrow> nat option) \<Rightarrow> int \<Rightarrow> nat \<Rightarrow> nat \<Rightarrow> nat \<Rightarrow> nat \<times> nat" where
  "select_times p w running n idle performs =
     (if running > 0 \<and> n < SELECT_TIMES \<and> idle < SELECT_TIMEOUT_TIMES
      then (case w n of
              None \<Rightarrow> (n + 1, performs)
            | Some 0 \<Rightarrow> select_times p w running (n + 1) (idle + 1) performs
            | Some _ \<Rightarrow> select_times p w (p performs) (n + 1) 0 (performs + 1))
      else (n, performs))"
  by pat_completeness auto
termination
  by (relation "measure (\<lambda>(p, w, running, n, idle, performs). SELECT_TIMES - n)") auto

declare select_times.simps [simp del]

definition execute_all_async :: "(nat \<Rightarrow> int) \<Rightarrow> (nat \<Rightarrow> nat option) \<Rightarrow> nat \<times> nat" where
  "execute_all_async p w = select_times p w (p 0) 0 0 1"

text \<open>A message of libcurl: whether it is \<^verbatim>\<open>CURLMSG_DONE\<close>, the handle, the response code and the result.\<close>

record curl_msg_t =
  is_done :: bool
  easy_handle :: addr
  response_code :: int
  msg_result :: int

definition handle_msg :: "curl_msg_t \<Rightarrow> tid \<Rightarrow> http_t \<Rightarrow> http_t" where
  "handle_msg m cur st =
     (if \<not> is_done m then st
      else
        (case omap_find (easy_handle m) (doing st) of
           None \<Rightarrow> st
         | Some a \<Rightarrow>
             (let st1 = on_rsp a (response_code m) (msg_result m) cur (detach_multi_handler a st)
              in drop_ref a (st1\<lparr>doing := omap_erase (easy_handle m) (doing st1)\<rparr>))))"

fun read_and_clean :: "curl_msg_t list \<Rightarrow> tid \<Rightarrow> http_t \<Rightarrow> http_t" where
  "read_and_clean [] cur st = st"
| "read_and_clean (m # ms) cur st = read_and_clean ms cur (handle_msg m cur st)"

text \<open>\<^verbatim>\<open>select\<close>: the state, its result, and the number of calls of \<^verbatim>\<open>curl_multi_wait\<close>.\<close>

definition curl_select :: "(nat \<Rightarrow> int) \<Rightarrow> (nat \<Rightarrow> nat option) \<Rightarrow> curl_msg_t list \<Rightarrow> tid \<Rightarrow> http_t \<Rightarrow> http_t \<times> nat \<times> nat" where
  "curl_select p w msgs cur st =
     (let (st1, busy) = add_todo_to_doing st;
          waits = (if busy then fst (execute_all_async p w) else 0);
          st2 = (if busy then read_and_clean msgs cur st1 else st1)
      in (st2, length (doing st2), waits))"

text \<open>\<^verbatim>\<open>engine_t::exec_curl\<close>: the guards, then the stub of the calling thread.\<close>

definition engine_exec_curl :: "string \<Rightarrow> int \<Rightarrow> int \<Rightarrow> (nat \<times> nat) option \<Rightarrow> addr option \<Rightarrow> int \<Rightarrow> tid \<Rightarrow> http_t \<Rightarrow>
    http_t \<times> exec_outcome" where
  "engine_exec_curl url connect_timeout timeout w h now cur st =
     (if \<not> m_init_over (heng st) then (st, Exec_null)
      else
        (case omap_find cur (m_http_stubs (heng st)) of
           None \<Rightarrow> (st, Exec_null)
         | Some _ \<Rightarrow> exec_curl_begin url connect_timeout timeout w h now cur st))"

end
