(* ===== verification/Son_Wait.thy ===== *)
theory Son_Wait
  imports Channel_Props
begin

text \<open>
  The way the HTTP and the RPC client wait for a response: the chroutine creates a son that sleeps for
  ever and waits for it with a time limit; whoever brings the response wakes the father, which stops the son.
\<close>

definition waits_with :: "tid \<Rightarrow> addr \<Rightarrow> int \<Rightarrow> addr \<Rightarrow> int \<Rightarrow> addr \<Rightarrow> int \<Rightarrow> engine_t \<Rightarrow> bool" where
  "waits_with cur t i a s r limit e \<longleftrightarrow> get_thread_by_id cur e = Some t \<and> i \<noteq> INVALID_ID \<and> s \<noteq> INVALID_ID \<and>
     get_chroutine i (threads e t) = Some a \<and> get_chroutine s (threads e t) \<noteq> None \<and> limit \<noteq> 0 \<and>
     (let c = objs (threads e t) a in yield_wait c = 0 \<and> \<not> moved c \<and> yield_to c = limit \<and> stop_son_when_yield_over c \<and>
        son c = s \<and> reporter c = Some r)"

text \<open>The father is due at its limit and not before.\<close>

lemma waits_with_due: "waits_with cur t i a s r limit e \<Longrightarrow> due now (objs (threads e t) a) \<longleftrightarrow> limit \<le> now"
  by (auto simp: waits_with_def due_def Let_def)

text \<open>A thread that accepts chroutines, with ids to give.\<close>

definition accepts :: "addr \<Rightarrow> engine_t \<Rightarrow> bool" where
  "accepts t e \<longleftrightarrow> state_value (m_state (threads e t)) \<le> state_value thread_state_t_running \<and>
     0 \<le> ms_chroutine_id e \<and> ms_chroutine_id e < 2 ^ 63 - 1"

lemma remove_chroutine_get:
  "get_chroutine s (remove_chroutine s th) = None" "objs (remove_chroutine s th) = objs th"
  "m_std_thread_id (remove_chroutine s th) = m_std_thread_id th"
  by (auto simp: remove_chroutine_def get_chroutine_def Let_def split: option.splits)

lemma awake_ends_wait:
  assumes "waits_with cur t i a s r limit e"
  shows "\<exists>e'. engine_awake i cur e = (e', 0) \<and> (\<forall>now. due now (objs (threads e' t) a)) \<and>
    get_chroutine s (threads e' t) = None \<and> get_result r (reporters e') = result_done \<and>
    world_t.more e' = world_t.more e"
proof -
  let ?c = "objs (threads e t) a"
  have w: "get_thread_by_id cur e = Some t" "get_chroutine i (threads e t) = Some a" "yield_wait ?c = 0" "\<not> moved ?c"
      "yield_to ?c \<noteq> 0" "stop_son_when_yield_over ?c" "son ?c = s" "reporter ?c = Some r"
    using assms by (auto simp: waits_with_def Let_def)
  let ?c' = "?c\<lparr>son := INVALID_ID, stop_son_when_yield_over := False, yield_to := 0\<rparr>"
  let ?e = "upd_thread t (\<lambda>th. remove_chroutine s (set_obj a ?c' th)) (e\<lparr>reporters := set_result r result_done (reporters e)\<rparr>)"
  have "engine_awake i cur e = (?e, 0)"
    using w by (simp add: engine_awake_def get_current_thread_def awake_chroutine_def yield_over_def)
  moreover have "due now (objs (threads ?e t) a)" for now
    using w(3,4) by (simp add: remove_chroutine_get due_def)
  moreover have "get_chroutine s (threads ?e t) = None" by (simp add: remove_chroutine_get)
  moreover have "get_result r (reporters ?e) = result_done" by (simp add: get_result_def set_result_def)
  moreover have "world_t.more ?e = world_t.more e" by (simp add: upd_thread_def)
  ultimately show ?thesis by blast
qed

lemma thread_by_id_cong:
  assumes "m_init_over e' = m_init_over e" "m_main_thread e' = m_main_thread e" "m_epoll_thread e' = m_epoll_thread e" "m_pool e' = m_pool e"
    "\<And>u. m_std_thread_id (threads e' u) = m_std_thread_id (threads e u)"
  shows "get_thread_by_id i e' = get_thread_by_id i e"
  unfolding get_thread_by_id_def assms by (rule refl)

lemma reporter_frame [simp]:
  "runs_on cur t k (e\<lparr>reporters := x, next_addr := y\<rparr>) = runs_on cur t k e" "accepts t (e\<lparr>reporters := x, next_addr := y\<rparr>) = accepts t e"
proof -
  have "get_thread_by_id cur (e\<lparr>reporters := x, next_addr := y\<rparr>) = get_thread_by_id cur e" by (rule thread_by_id_cong) simp_all
  then show "runs_on cur t k (e\<lparr>reporters := x, next_addr := y\<rparr>) = runs_on cur t k e" "accepts t (e\<lparr>reporters := x, next_addr := y\<rparr>) = accepts t e"
    by (simp_all add: runs_on_def accepts_def)
qed

lemma wait_begin:
  assumes on: "runs_on cur t a e" and acc: "accepts t e" and tm: "0 < timeout" "0 \<le> now"
  shows "\<exists>e' s. create_son_report_begin (Some f) r timeout now cur e = (e', Inr t) \<and>
    waits_with cur t (running_id (threads e t)) a s r (now + timeout) e' \<and> reporters e' = reporters e \<and> s = ms_chroutine_id e + 1 \<and>
    (m_init_over e', m_main_thread e', m_epoll_thread e', m_pool e', m_http_stubs e', next_addr e') =
    (m_init_over e, m_main_thread e, m_epoll_thread e, m_pool e, m_http_stubs e, next_addr e)"
proof -
  let ?th = "threads e t" and ?s = "ms_chroutine_id e + 1"
  have ok: "thread_ok (ms_chroutine_id e) t ?th" and cpu: "cpu ?th = Some (t, a)" and g: "get_thread_by_id cur e = Some t"
    using on by (simp_all add: runs_on_def)
  note run = thread_ok_running[OF ok cpu]
  have sched: "a \<in> set (chroutines_sched ?th)" "yield_wait (objs ?th a) = 0" using thread_okD(8)[OF ok cpu] by simp_all
  have mv: "\<not> moved (objs ?th a)" using thread_okD(4)[OF ok sched(1)] by (simp add: ctx_ok_def)
  have ids: "0 < running_id ?th" "running_id ?th \<le> ms_chroutine_id e" using running_id_range[OF ok] run(2) by auto
  have new: "gen_chroutine_id e = ?s" using acc by (simp add: gen_chroutine_id_def wrap64_def accepts_def)
  have na: "a \<noteq> next_obj ?th" using index_okD(5)[OF thread_okD(2)[OF ok] sched(1)] by simp
  define q where "q = next_obj ?th"
  obtain e1 s where e1: "create_son_chroutine t (Some f) r e = (e1, s)" by fastforce
  have st: "\<not> state_value thread_state_t_running < state_value (m_state ?th)" using acc by (simp add: accepts_def)
  have s: "?s \<noteq> INVALID_ID" "?s \<noteq> running_id ?th" using ids acc by (auto simp: accepts_def INVALID_ID_def)
  have sh: "e1 = e\<lparr>ms_chroutine_id := ?s, threads := threads e1\<rparr>" "objs (threads e1 t) a = (objs ?th a)\<lparr>reporter := Some r, son := ?s\<rparr>"
      "chroutines_map (threads e1 t) = (chroutines_map ?th)(?s \<mapsto> Some q)" "cpu (threads e1 t) = cpu ?th" "running_id (threads e1 t) = running_id ?th"
      "m_std_thread_id (threads e1 u) = m_std_thread_id (threads e u)" for u
    using e1 st run(1,3) new na s
    by (auto simp: create_son_chroutine_def create_chroutine_def Let_def get_chroutine_def gen_chroutine_id_def upd_obj_def upd_thread_def
        set_obj_def q_def)
  have ok1: "thread_ok (ms_chroutine_id e1) t (threads e1 t)"
    using create_son_thread_ok[OF ok _ _ e1] acc by (simp add: accepts_def)
  let ?f = "\<lambda>c. c\<lparr>yield_to := now + timeout, stop_son_when_yield_over := True\<rparr>"
  let ?e = "upd_thread t (thread_wait now timeout) e1"
  have th: "threads ?e t = (set_obj a (save_ctx (Some (t, a)) (?f ((objs (threads e1 t) a)\<lparr>state := chroutine_state_suspend\<rparr>))) (threads e1 t))
      \<lparr>running_id := INVALID_ID, cpu := None\<rparr>"
    using suspend_eq[OF ok1, of t a ?f] cpu sh(4) tm(1) by (simp add: thread_wait_def wait_current_def)
  have fields: "m_init_over ?e = m_init_over e" "m_main_thread ?e = m_main_thread e" "m_epoll_thread ?e = m_epoll_thread e" "m_pool ?e = m_pool e"
      "m_http_stubs ?e = m_http_stubs e" "next_addr ?e = next_addr e" "reporters ?e = reporters e"
    by (subst sh(1), simp add: upd_thread_def)+
  have "m_std_thread_id (threads ?e u) = m_std_thread_id (threads e u)" for u
    using th sh(6)[of u] by (cases "u = t") simp_all
  then have g': "get_thread_by_id cur ?e = Some t" using thread_by_id_cong[OF fields(1-4)] g by simp
  have "waits_with cur t (running_id ?th) a ?s r (now + timeout) ?e"
    unfolding waits_with_def th using g' run(2,3) s tm mv sched(2) by (simp add: sh(2,3) Let_def get_chroutine_def)
  moreover have "create_son_report_begin (Some f) r timeout now cur e = (?e, Inr t)"
    using tm(1) g e1 by (simp add: create_son_report_begin_def get_current_thread_def)
  ultimately show ?thesis using fields by blast
qed

text \<open>The same with a new reporter and the sleeping son, as the clients call it.\<close>

lemma sleeper_wait:
  assumes on: "runs_on cur t k e" and acc: "accepts t e" and tm: "0 < timeout" "0 \<le> now"
  shows "get_current_chroutine_id cur e = running_id (threads e t)" "running_id (threads e t) \<noteq> INVALID_ID"
    "\<exists>e'. create_son_report_begin (Some Sleep_forever) (next_addr e) timeout now cur
        (e\<lparr>reporters := create_reporter (next_addr e) 0 (reporters e), next_addr := next_addr e + 1\<rparr>) = (e', Inr t) \<and>
      waits_with cur t (running_id (threads e t)) k (ms_chroutine_id e + 1) (next_addr e) (now + timeout) e'"
proof -
  have ok: "thread_ok (ms_chroutine_id e) t (threads e t)" and cpu: "cpu (threads e t) = Some (t, k)" and g: "get_thread_by_id cur e = Some t"
    using on by (simp_all add: runs_on_def)
  show "get_current_chroutine_id cur e = running_id (threads e t)" "running_id (threads e t) \<noteq> INVALID_ID"
    using g thread_ok_running(2)[OF ok cpu] by (simp_all add: get_current_chroutine_id_def get_current_thread_def)
  let ?fresh = "e\<lparr>reporters := create_reporter (next_addr e) 0 (reporters e), next_addr := next_addr e + 1\<rparr>"
  have "runs_on cur t k ?fresh" "accepts t ?fresh" using on acc by simp_all
  from wait_begin[OF this tm, of Sleep_forever "next_addr e"]
  show "\<exists>e'. create_son_report_begin (Some Sleep_forever) (next_addr e) timeout now cur ?fresh = (e', Inr t) \<and>
      waits_with cur t (running_id (threads e t)) k (ms_chroutine_id e + 1) (next_addr e) (now + timeout) e'"
    by auto
qed

end
