(* ===== verification/Curl_Props.thy ===== *)
theory Curl_Props
  imports Curl Son_Wait
begin

text \<open>
  Properties of the HTTP client: the requests of a thread and their handles are consistent in every
  reachable state and libcurl is used by its rules, the time a poll may block is bounded, a response
  reaches the chroutine that waits for it, and what happens to a response that comes too late.
\<close>

section \<open>The rules of libcurl\<close>

text \<open>The live and the attached handles; \<open>None\<close> when a call breaks the rules: a handle is used between its
  creation and its clean-up, attached at most once, and not cleaned up while attached.\<close>

fun lib_step :: "(addr set \<times> addr set) option \<Rightarrow> curl_call \<Rightarrow> (addr set \<times> addr set) option" where
  "lib_step None c = None"
| "lib_step (Some (live, att)) (Easy_init h) = (if h \<in> live then None else Some (insert h live, att))"
| "lib_step (Some (live, att)) (Easy_setopt h opt) = (if h \<in> live then Some (live, att) else None)"
| "lib_step (Some (live, att)) (Easy_perform h) = (if h \<in> live \<and> h \<notin> att then Some (live, att) else None)"
| "lib_step (Some (live, att)) (Easy_cleanup h) = (if h \<in> live \<and> h \<notin> att then Some (live - {h}, att) else None)"
| "lib_step (Some (live, att)) (Multi_add h) = (if h \<in> live \<and> h \<notin> att then Some (live, insert h att) else None)"
| "lib_step (Some (live, att)) (Multi_remove h) = (if h \<in> att then Some (live, att - {h}) else None)"

definition lib_state :: "curl_call list \<Rightarrow> (addr set \<times> addr set) option" where
  "lib_state cs = foldl lib_step (Some ({}, {})) cs"

lemma lib_state_snoc [simp]: "lib_state (cs @ [c]) = lib_step (lib_state cs) c"
  by (simp add: lib_state_def)

section \<open>The invariant\<close>

definition held :: "http_t \<Rightarrow> addr set" where
  "held st = set (todo st) \<union> set (locals st) \<union> snd ` set (doing st)"

definition handles :: "http_t \<Rightarrow> addr set" where
  "handles st = {h. \<exists>a. get_curl_handler a st = Some h}"

text \<open>\<open>A\<close> holds the requests an operation holds by itself.\<close>

definition http_inv :: "addr set \<Rightarrow> http_t \<Rightarrow> bool" where
  "http_inv A st \<longleftrightarrow> distinct (todo st) \<and> distinct (locals st) \<and> omap_ok (doing st) \<and> set (todo st) \<inter> snd ` set (doing st) = {} \<and>
     (\<forall>a. reqs st a \<noteq> None \<longleftrightarrow> a \<in> held st \<union> A) \<and> (\<forall>h a. (h, a) \<in> set (doing st) \<longrightarrow> get_curl_handler a st = Some h) \<and>
     (\<forall>a b h. get_curl_handler a st = Some h \<longrightarrow> get_curl_handler b st = Some h \<longrightarrow> a = b) \<and>
     (\<forall>a \<ge> next_req st. reqs st a = None) \<and> length (doing st) \<le> MAX_CONCURRENT_TRANS_IN_CURLMULTI \<and>
     lib_state (calls st) = Some (handles st, fst ` set (doing st))"

lemma http_invD:
  assumes "http_inv A st"
  shows "distinct (todo st)" "distinct (locals st)" "omap_ok (doing st)" "set (todo st) \<inter> snd ` set (doing st) = {}"
    "reqs st a \<noteq> None \<longleftrightarrow> a \<in> held st \<union> A" "(h, a) \<in> set (doing st) \<Longrightarrow> get_curl_handler a st = Some h"
    "get_curl_handler a st = Some h \<Longrightarrow> get_curl_handler b st = Some h \<Longrightarrow> a = b"
    "next_req st \<le> a \<Longrightarrow> reqs st a = None" "length (doing st) \<le> MAX_CONCURRENT_TRANS_IN_CURLMULTI"
    "lib_state (calls st) = Some (handles st, fst ` set (doing st))"
  using assms unfolding http_inv_def by blast+

lemma http_inv_eng [simp]: "http_inv A (st\<lparr>heng := e\<rparr>) = http_inv A st"
  by (simp add: http_inv_def held_def handles_def get_curl_handler_def)

lemma set_opt_frame [simp]:
  "reqs (fst (set_opt opt r a st)) = reqs st" "todo (fst (set_opt opt r a st)) = todo st" "doing (fst (set_opt opt r a st)) = doing st"
  "locals (fst (set_opt opt r a st)) = locals st" "next_req (fst (set_opt opt r a st)) = next_req st" "heng (fst (set_opt opt r a st)) = heng st"
  by (simp_all add: set_opt_def log_call_def split: option.split)

lemma set_opt_inv: "http_inv A st \<Longrightarrow> http_inv A (fst (set_opt opt r a st))"
  by (cases "get_curl_handler a st") (auto simp: set_opt_def http_inv_def held_def handles_def log_call_def get_curl_handler_def)

lemmas setter_defs = set_url_def set_connect_timeout_def set_timeout_def set_data_slot_def

lemma request_opts_inv: "http_inv A st \<Longrightarrow> http_inv A (request_opts url ct t w a st)"
  by (auto simp: request_opts_def make_default_opts_def setter_defs Let_def intro!: set_opt_inv split: option.split)

lemma request_opts_frame [simp]:
  "reqs (request_opts url ct t w a st) = reqs st" "todo (request_opts url ct t w a st) = todo st" "doing (request_opts url ct t w a st) = doing st"
  "locals (request_opts url ct t w a st) = locals st" "next_req (request_opts url ct t w a st) = next_req st"
  "heng (request_opts url ct t w a st) = heng st"
  by (simp_all add: request_opts_def make_default_opts_def setter_defs Let_def split: option.split)

lemma upd_req_handler [simp]:
  "(\<And>q. m_curl_ptr (f q) = m_curl_ptr q) \<Longrightarrow> get_curl_handler b (upd_req a f st) = get_curl_handler b st"
  by (cases "reqs st a") (auto simp: get_curl_handler_def upd_req_def)

lemma upd_req_frame [simp]:
  "todo (upd_req a f st) = todo st" "doing (upd_req a f st) = doing st" "locals (upd_req a f st) = locals st"
  "next_req (upd_req a f st) = next_req st" "calls (upd_req a f st) = calls st" "heng (upd_req a f st) = heng st"
  "(reqs (upd_req a f st) b = None) = (reqs st b = None)"
  by (auto simp: upd_req_def)

lemma upd_req_inv: "http_inv A st \<Longrightarrow> (\<And>q. m_curl_ptr (f q) = m_curl_ptr q) \<Longrightarrow> http_inv A (upd_req a f st)"
  unfolding http_inv_def held_def handles_def by (simp del: not_None_eq)

section \<open>Operations keep the invariant\<close>

lemma new_req_inv:
  assumes "http_inv {} st" "h = None \<or> the h \<notin> handles st" "new_curl_req h i st = (st1, a)"
  shows "http_inv {a} st1" "a \<notin> held st1" "reqs st1 a \<noteq> None"
    "todo st1 = todo st" "doing st1 = doing st" "locals st1 = locals st" "heng st1 = heng st"
proof -
  have n: "a = next_req st" using assms(3) by (simp add: new_curl_req_def Let_def)
  have n2: "reqs st a = None" "a \<notin> held st" using http_invD(5,8)[OF assms(1), of a] n by auto
  have f: "todo st1 = todo st" "doing st1 = doing st" "locals st1 = locals st" "next_req st1 = next_req st + 1" "heng st1 = heng st"
    "get_curl_handler b st1 = (if b = a then h else get_curl_handler b st)" "(reqs st1 b = None) = (b \<noteq> a \<and> reqs st b = None)" for b
    using assms(3) n by (auto simp: new_curl_req_def Let_def log_call_def get_curl_handler_def split: option.splits if_splits)
  show "a \<notin> held st1" "reqs st1 a \<noteq> None" using f n2(2) by (auto simp: held_def)
  show "todo st1 = todo st" "doing st1 = doing st" "locals st1 = locals st" "heng st1 = heng st" by (rule f)+
  have g: "get_curl_handler a st = None" using n2(1) by (simp add: get_curl_handler_def)
  have hs: "handles st1 = (case h of None \<Rightarrow> handles st | Some x \<Rightarrow> insert x (handles st))"
    using g by (cases h) (auto simp: handles_def f(6), (metis option.distinct(1))+)
  have c: "calls st1 = (case h of None \<Rightarrow> calls st | Some x \<Rightarrow> (calls st @ [Easy_init x]) @ [Easy_setopt x CURLOPT_HTTPGET])"
    using assms(3) by (auto simp: new_curl_req_def Let_def log_call_def split: option.splits)
  have l: "lib_state (calls st) = Some (handles st, fst ` set (doing st))" using assms(1) by (simp add: http_inv_def)
  have "lib_state (calls st1) = Some (handles st1, fst ` set (doing st1))"
    unfolding c hs f(2) using l assms(2) by (cases h) (simp_all del: append_assoc)
  moreover have "get_curl_handler b st \<noteq> Some x" if "h = Some x" for b x
    using assms(2) that by (auto simp: handles_def)
  moreover have "(x, b) \<in> set (doing st) \<Longrightarrow> b \<noteq> a" for x b using n2(2) by (force simp: held_def)
  moreover have "held st1 = held st" by (simp add: held_def f)
  ultimately show "http_inv {a} st1"
    using http_invD[OF assms(1)] n unfolding http_inv_def f(1-6) by (intro conjI allI impI) (auto simp: f(7) Suc_le_eq split: if_splits)
qed

lemma destroy_inv:
  assumes "http_inv {a} st" "a \<notin> held st" "reqs st a \<noteq> None"
  shows "http_inv {} (destroy_req a st)"
proof -
  let ?s = "destroy_req a st"
  have f: "todo ?s = todo st" "doing ?s = doing st" "locals ?s = locals st" "next_req ?s = next_req st"
    "get_curl_handler b ?s = (if b = a then None else get_curl_handler b st)" "(reqs ?s b = None) = (b = a \<or> reqs st b = None)" for b
    by (auto simp: destroy_req_def Let_def log_call_def get_curl_handler_def split: option.splits)
  have l: "lib_state (calls st) = Some (handles st, fst ` set (doing st))" using assms(1) by (simp add: http_inv_def)
  have na: "h \<notin> fst ` set (doing st)" if "get_curl_handler a st = Some h" for h
  proof
    assume "h \<in> fst ` set (doing st)"
    then obtain b where b: "(h, b) \<in> set (doing st)" by auto
    then have "b = a" using http_invD(7)[OF assms(1) http_invD(6)[OF assms(1) b] that] by simp
    then show False using b assms(2) by (force simp: held_def)
  qed
  have hs: "handles ?s = handles st - {h. get_curl_handler a st = Some h}"
    using assms(1) unfolding handles_def f http_inv_def by auto
  have "lib_state (calls ?s) = Some (handles ?s, fst ` set (doing ?s))"
  proof (cases "get_curl_handler a st")
    case None
    then show ?thesis using l hs by (simp add: destroy_req_def Let_def)
  next
    case (Some h)
    then have "h \<in> handles st" by (auto simp: handles_def)
    then show ?thesis using l hs na[OF Some] Some by (auto simp: destroy_req_def Let_def log_call_def)
  qed
  moreover have "(x, b) \<in> set (doing st) \<Longrightarrow> b \<noteq> a" for x b using assms(2) by (force simp: held_def)
  moreover have "held ?s = held st" by (simp add: held_def f)
  ultimately show ?thesis
    using http_invD[OF assms(1)] assms(2) unfolding http_inv_def f(1-5) by (intro conjI allI impI) (auto simp: f(6) split: if_splits)
qed

lemma drop_ref_inv:
  assumes "http_inv {a} st" "reqs st a \<noteq> None"
  shows "http_inv {} (drop_ref a st)"
proof (cases "a \<in> held st")
  case True
  then show ?thesis using assms(1) by (auto simp: drop_ref_def held_def http_inv_def)
next
  case False
  then show ?thesis using destroy_inv[OF assms(1) False assms(2)] by (auto simp: drop_ref_def held_def)
qed

lemma exec_end_inv:
  assumes "http_inv {} st" "a \<in> set (locals st)"
  shows "http_inv {} (fst (exec_curl_end a st))"
proof -
  obtain q where q: "reqs st a = Some q" using assms by (fastforce simp: http_inv_def held_def)
  have "http_inv {a} (st\<lparr>locals := remove1 a (locals st)\<rparr>)"
    using assms by (auto simp: http_inv_def held_def handles_def get_curl_handler_def)
  from drop_ref_inv[OF this] show ?thesis using q by (simp add: exec_curl_end_def)
qed

lemma local_inv: "http_inv {a} st \<Longrightarrow> a \<notin> held st \<Longrightarrow> http_inv {} (st\<lparr>locals := a # locals st\<rparr>)"
  by (auto simp: http_inv_def held_def handles_def get_curl_handler_def)

lemma push_inv:
  "http_inv {} st \<Longrightarrow> a \<in> set (locals st) \<Longrightarrow> a \<notin> set (todo st) \<Longrightarrow> a \<notin> snd ` set (doing st) \<Longrightarrow> http_inv {} (fst (push_curl_req a st))"
  by (auto simp: push_curl_req_def http_inv_def held_def handles_def get_curl_handler_def)

lemma exec_begin_inv:
  assumes "http_inv {} st" "h = None \<or> the h \<notin> handles st"
  shows "http_inv {} (fst (exec_curl_begin url ct t w h now cur st))"
proof (cases "get_current_chroutine_id cur (heng st) = INVALID_ID")
  case True
  then show ?thesis using assms(1) by (simp add: exec_curl_begin_def)
next
  case False
  obtain st1 a where n: "new_curl_req h 0 st = (st1, a)" by fastforce
  note ni = new_req_inv[OF assms n]
  let ?f = "\<lambda>q. q\<lparr>m_my_chroutine := get_current_chroutine_id cur (heng st)\<rparr>"
  let ?s = "request_opts url ct t w a (upd_req a ?f (st1\<lparr>locals := a # locals st1\<rparr>))"
  let ?p = "fst (push_curl_req a ?s)"
  have "http_inv {} ?s" by (intro request_opts_inv upd_req_inv local_inv ni) simp
  then have p: "http_inv {} ?p" by (rule push_inv) (use ni(2) in \<open>simp_all add: held_def\<close>)
  then have e: "http_inv {} (fst (exec_curl_end a (?p\<lparr>heng := e\<rparr>)))" "http_inv {} (fst (exec_curl_end a ?p))" for e
    by (auto intro!: exec_end_inv simp: push_curl_req_def)
  show ?thesis using False n p e by (auto simp: exec_curl_begin_def Let_def split: prod.split sum.split)
qed

lemma todo_handle_new:
  assumes "http_inv {} st" "a \<in> set (todo st)" "get_curl_handler a st = Some h"
  shows "h \<notin> fst ` set (doing st)"
proof
  assume "h \<in> fst ` set (doing st)"
  then obtain b where b: "(h, b) \<in> set (doing st)" by auto
  then have "b = a" using http_invD(7)[OF assms(1) http_invD(6)[OF assms(1) b] assms(3)] by simp
  then show False using b http_invD(4)[OF assms(1)] assms(2) by force
qed

lemma skip_inv:
  assumes "http_inv {} st" "todo st = a # as"
  shows "http_inv {} (drop_ref a (st\<lparr>todo := as\<rparr>))"
proof -
  have r: "reqs st a \<noteq> None" using http_invD(5)[OF assms(1), of a] assms(2) by (simp add: held_def)
  have "http_inv {a} (st\<lparr>todo := as\<rparr>)" using assms by (auto simp: http_inv_def held_def handles_def get_curl_handler_def)
  from drop_ref_inv[OF this] r show ?thesis by simp
qed

lemma attach_inv:
  assumes "http_inv {} st" "todo st = a # as" "get_curl_handler a st = Some h" "length (doing st) < MAX_CONCURRENT_TRANS_IN_CURLMULTI"
  shows "http_inv {} ((attach_multi_handler a (st\<lparr>todo := as\<rparr>))\<lparr>doing := omap_put h a (doing st)\<rparr>)"
proof -
  let ?s = "(attach_multi_handler a (st\<lparr>todo := as\<rparr>))\<lparr>doing := omap_put h a (doing st)\<rparr>"
  note i = http_invD[OF assms(1)]
  have na: "a \<notin> snd ` set (doing st)" "a \<notin> set as" "distinct as" using i(1,4) assms(2) by auto
  have nh: "h \<notin> fst ` set (doing st)" by (rule todo_handle_new[OF assms(1) _ assms(3)]) (simp add: assms(2))
  have f: "todo ?s = as" "locals ?s = locals st" "next_req ?s = next_req st" "reqs ?s = reqs st" "doing ?s = omap_put h a (doing st)"
      "get_curl_handler b ?s = get_curl_handler b st" "calls ?s = calls st @ [Multi_add h]" for b
    using assms(3) by (auto simp: attach_multi_handler_def log_call_def get_curl_handler_def split: option.splits)
  have hs: "handles ?s = handles st" "h \<in> handles st" "held ?s = held st"
    using assms(2,3) omap_put_new(1)[OF nh] by (auto simp: handles_def f held_def)
  show ?thesis
    unfolding http_inv_def
  proof (intro conjI)
    show "lib_state (calls ?s) = Some (handles ?s, fst ` set (doing ?s))"
      unfolding f(5,7) hs(1) using i(10) hs(2) nh omap_put_new(1)[OF nh] by simp
    show "length (doing ?s) \<le> MAX_CONCURRENT_TRANS_IN_CURLMULTI" unfolding f(5) using omap_put_new(2)[OF nh] assms(4) by simp
    show "omap_ok (doing ?s)" unfolding f(5) by (rule omap_ok_put[OF i(3)])
    show "\<forall>x b. (x, b) \<in> set (doing ?s) \<longrightarrow> get_curl_handler b ?s = Some x"
      unfolding f(5,6) using omap_put_new(1)[OF nh] i(6) assms(3) by auto
    show "set (todo ?s) \<inter> snd ` set (doing ?s) = {}" unfolding f(1,5) using omap_put_new(1)[OF nh] na i(4) assms(2) by auto
    show "\<forall>b. (reqs ?s b \<noteq> None) = (b \<in> held ?s \<union> {})" unfolding hs(3) f(4) using i(5) by blast
    show "\<forall>b c x. get_curl_handler b ?s = Some x \<longrightarrow> get_curl_handler c ?s = Some x \<longrightarrow> b = c" unfolding f(6) using i(7) by blast
  qed (use i f na in auto)
qed

lemma todo_loop_inv: "http_inv {} st \<Longrightarrow> http_inv {} (todo_loop st)"
proof (induction st rule: todo_loop.induct)
  case (1 st)
  show ?case
  proof (cases "length (doing st) < MAX_CONCURRENT_TRANS_IN_CURLMULTI \<and> todo st \<noteq> []")
    case False
    then show ?thesis using "1.prems" by (subst todo_loop.simps) (auto split: list.split)
  next
    case True
    then obtain a as where t: "todo st = a # as" by (cases "todo st") auto
    show ?thesis
    proof (cases "get_curl_handler a st")
      case None
      from "1.IH"(1)[OF _ t None skip_inv[OF "1.prems" t]] show ?thesis using True t None by (subst todo_loop.simps) simp
    next
      case (Some h)
      from "1.IH"(2)[OF _ t Some attach_inv[OF "1.prems" t Some]] show ?thesis using True t Some by (subst todo_loop.simps) simp
    qed
  qed
qed

lemma on_rsp_frame [simp]:
  "todo (on_rsp a c d cur st) = todo st" "doing (on_rsp a c d cur st) = doing st" "locals (on_rsp a c d cur st) = locals st"
  "next_req (on_rsp a c d cur st) = next_req st" "calls (on_rsp a c d cur st) = calls st"
  "get_curl_handler b (on_rsp a c d cur st) = get_curl_handler b st" "(reqs (on_rsp a c d cur st) b = None) = (reqs st b = None)"
  by (auto simp: on_rsp_def Let_def upd_req_def get_curl_handler_def split: option.split)

lemma detach_frame [simp]:
  "todo (detach_multi_handler a st) = todo st" "doing (detach_multi_handler a st) = doing st" "locals (detach_multi_handler a st) = locals st"
  "next_req (detach_multi_handler a st) = next_req st" "reqs (detach_multi_handler a st) = reqs st" "heng (detach_multi_handler a st) = heng st"
  "get_curl_handler b (detach_multi_handler a st) = get_curl_handler b st"
  by (auto simp: detach_multi_handler_def log_call_def get_curl_handler_def split: option.splits)

lemma handler_frame [simp]:
  "get_curl_handler b (st\<lparr>doing := m\<rparr>) = get_curl_handler b st" "get_curl_handler b (st\<lparr>locals := l\<rparr>) = get_curl_handler b st"
  by (simp_all add: get_curl_handler_def)

lemma handle_msg_inv:
  assumes "http_inv {} st"
  shows "http_inv {} (handle_msg m cur st)"
proof (cases "is_done m \<and> omap_find (easy_handle m) (doing st) \<noteq> None")
  case False
  then show ?thesis using assms by (auto simp: handle_msg_def)
next
  case True
  let ?h = "easy_handle m"
  obtain a where a: "omap_find ?h (doing st) = Some a" using True by auto
  note i = http_invD[OF assms]
  let ?s = "(on_rsp a (response_code m) (msg_result m) cur (detach_multi_handler a st))\<lparr>doing := omap_erase ?h (doing st)\<rparr>"
  have h: "(?h, a) \<in> set (doing st)" "get_curl_handler a st = Some ?h" using omap_find_in_set[OF a] i(6) by auto
  have r: "reqs st a \<noteq> None" using h(2) by (cases "reqs st a") (auto simp: get_curl_handler_def)
  have d: "doing ?s = filter (\<lambda>p. fst p \<noteq> ?h) (doing st)" using omap_erase_filter[OF i(3)] by simp
  have g: "get_curl_handler b ?s = get_curl_handler b st" "(reqs ?s b = None) = (reqs st b = None)" for b
    by simp_all
  have hs: "handles ?s = handles st" unfolding handles_def g ..
  have sd: "x \<in> snd ` set (doing st) \<longleftrightarrow> x = a \<or> x \<in> snd ` set (doing ?s)" for x
  proof -
    have "x = a" if "(?h, x) \<in> set (doing st)" using i(7)[OF i(6)[OF that] h(2)] .
    then show ?thesis unfolding d using h(1) by force
  qed
  have c: "calls ?s = calls st @ [Multi_remove ?h]" using h(2) by (simp add: detach_multi_handler_def log_call_def)
  have "http_inv {a} ?s"
    unfolding http_inv_def
  proof (intro conjI)
    show "lib_state (calls ?s) = Some (handles ?s, fst ` set (doing ?s))"
      unfolding c hs d using i(10) h(1) by force
    show "omap_ok (doing ?s)" using omap_ok_erase[OF i(3)] by simp
    show "length (doing ?s) \<le> MAX_CONCURRENT_TRANS_IN_CURLMULTI" unfolding d using i(9) by (meson le_trans length_filter_le)
    show "\<forall>b. (reqs ?s b \<noteq> None) = (b \<in> held ?s \<union> {a})" unfolding g(2) using i(5) sd by (auto simp: held_def)
    show "\<forall>x b. (x, b) \<in> set (doing ?s) \<longrightarrow> get_curl_handler b ?s = Some x" unfolding g(1) d using i(6) by auto
    show "\<forall>b c x. get_curl_handler b ?s = Some x \<longrightarrow> get_curl_handler c ?s = Some x \<longrightarrow> b = c" unfolding g(1) using i(7) by blast
    have "snd ` set (doing ?s) \<subseteq> snd ` set (doing st)" using sd by blast
    then show "set (todo ?s) \<inter> snd ` set (doing ?s) = {}" using i(4) by auto
    show "\<forall>b \<ge> next_req ?s. reqs ?s b = None" unfolding g(2) using i(8) by simp
  qed (use i(1,2) in simp_all)
  from drop_ref_inv[OF this] r show ?thesis using True a g(2)[of a] by (simp add: handle_msg_def Let_def)
qed

lemma read_and_clean_inv: "http_inv {} st \<Longrightarrow> http_inv {} (read_and_clean ms cur st)"
  by (induction ms cur st rule: read_and_clean.induct) (simp_all add: handle_msg_inv)

lemma select_inv: "http_inv {} st \<Longrightarrow> http_inv {} (fst (curl_select p w msgs cur st))"
  by (auto simp: curl_select_def add_todo_to_doing_def Let_def todo_loop_inv read_and_clean_inv)

section \<open>Reachable states\<close>

definition new_http :: "engine_t \<Rightarrow> http_t" where
  "new_http e = \<lparr>heng = e, reqs = (\<lambda>_. None), todo = [], doing = [], locals = [], next_req = 1, calls = []\<rparr>"

text \<open>Chroutines of the thread start requests and come back from their waits, the thread polls the stub, and
  the engine does whatever it does in between. A handle that libcurl returns is not one that is still in use.\<close>

inductive http_reach :: "http_t \<Rightarrow> bool" where
  start: "http_reach (new_http e)"
| engine: "http_reach st \<Longrightarrow> http_reach (st\<lparr>heng := e\<rparr>)"
| request: "http_reach st \<Longrightarrow> h = None \<or> the h \<notin> handles st \<Longrightarrow>
    http_reach (fst (engine_exec_curl url ct t w h now cur st))"
| return: "http_reach st \<Longrightarrow> a \<in> set (locals st) \<Longrightarrow> http_reach (fst (exec_curl_end a st))"
| poll: "http_reach st \<Longrightarrow> http_reach (fst (curl_select p w msgs cur st))"

lemma http_reach_inv: "http_reach st \<Longrightarrow> http_inv {} st"
proof (induction rule: http_reach.induct)
  case (start e)
  then show ?case by (simp add: new_http_def http_inv_def held_def handles_def get_curl_handler_def lib_state_def)
next
  case (request st h url ct t w now cur)
  then show ?case using exec_begin_inv[OF request.IH request.hyps(2)] by (simp add: engine_exec_curl_def split: option.split)
qed (simp_all add: exec_end_inv select_inv)

text \<open>C28: in every reachable state of the HTTP client libcurl has been used by its rules (no handle is used
  after its clean-up, attached twice or cleaned up while attached), the attached handles are those of the
  requests being executed, at most 1000, a request waits or runs but not both, and a request lives exactly as long as
  something holds it.\<close>

theorem http_consistent:
  assumes "http_reach st"
  shows "lib_state (calls st) = Some (handles st, fst ` set (doing st)) \<and> length (doing st) \<le> 1000 \<and>
    distinct (todo st) \<and> set (todo st) \<inter> snd ` set (doing st) = {} \<and>
    (\<forall>a. reqs st a \<noteq> None \<longleftrightarrow> a \<in> held st) \<and> (\<forall>h a. (h, a) \<in> set (doing st) \<longrightarrow> get_curl_handler a st = Some h)"
  using http_reach_inv[OF assms] by (auto simp: http_inv_def MAX_CONCURRENT_TRANS_IN_CURLMULTI_def)

section \<open>Polling\<close>

lemma select_times_bound:
  "n \<le> SELECT_TIMES \<Longrightarrow> fst (select_times p w running n idle performs) \<le> SELECT_TIMES"
  "(\<forall>k. w k = Some 0) \<Longrightarrow> fst (select_times p w running n idle performs) \<le> n + (SELECT_TIMEOUT_TIMES - idle)"
  "snd (select_times p w running n idle performs) + n \<le> performs + fst (select_times p w running n idle performs)"
  "running \<le> 0 \<Longrightarrow> fst (select_times p w running n idle performs) = n"
proof (induction p w running n idle performs rule: select_times.induct)
  case (1 p w running n idle performs)
  {
    case 1
    then show ?case using "1.IH"(1,5) by (subst select_times.simps) (auto split: option.split nat.split)
  next
    case 2
    then have w: "w = (\<lambda>_. Some 0)" by auto
    show ?case using "1.IH"(2) unfolding w by (subst select_times.simps) auto
  next
    case 3
    then show ?case using "1.IH"(3,7) by (subst (1 2) select_times.simps) (auto split: option.split nat.split)
  next
    case 4
    then show ?case by (subst select_times.simps) simp
  }
qed

text \<open>A poll of the HTTP client holds its thread for at most 100 ms in waits for libcurl, and for at most
  50 ms when no descriptor gets ready.\<close>

theorem poll_bounded:
  "snd (snd (curl_select p w msgs cur st)) * SELECT_TIMEOUT \<le> 100 \<and>
   ((\<forall>k. w k = Some 0) \<longrightarrow> snd (snd (curl_select p w msgs cur st)) * SELECT_TIMEOUT \<le> 50)"
proof -
  have "fst (execute_all_async p w) \<le> 10" "(\<forall>k. w k = Some 0) \<longrightarrow> fst (execute_all_async p w) \<le> 5"
    using select_times_bound(1)[of 0 p w "p 0" 0 1] select_times_bound(2)[of w p "p 0" 0 0 1]
    by (simp_all add: execute_all_async_def SELECT_TIMES_def SELECT_TIMEOUT_TIMES_def)
  then show ?thesis by (auto simp: curl_select_def Let_def SELECT_TIMEOUT_def split: prod.split)
qed

theorem poll_bounded_witness:
  "snd (snd (curl_select (\<lambda>_. 1) (\<lambda>_. Some 0) [] 7 (new_http engine_instance))) * SELECT_TIMEOUT \<le> 50"
  using poll_bounded[of "\<lambda>_. 1" "\<lambda>_. Some 0"] by blast

text \<open>When there is room for all, every queued request with a handle is attached.\<close>

lemma drop_ref_frame [simp]:
  "doing (drop_ref a st) = doing st" "todo (drop_ref a st) = todo st" "locals (drop_ref a st) = locals st" "heng (drop_ref a st) = heng st"
  "b \<noteq> a \<or> a \<in> held st \<Longrightarrow> reqs (drop_ref a st) b = reqs st b"
  by (auto simp: drop_ref_def destroy_req_def Let_def log_call_def held_def split: option.split)

lemma todo_loop_frame:
  "heng (todo_loop st) = heng st \<and> locals (todo_loop st) = locals st \<and> (b \<in> set (locals st) \<longrightarrow> reqs (todo_loop st) b = reqs st b)"
proof (induction st rule: todo_loop.induct)
  case (1 st)
  show ?case
  proof (cases "length (doing st) < MAX_CONCURRENT_TRANS_IN_CURLMULTI \<and> todo st \<noteq> []")
    case False
    then show ?thesis by (subst (1 2 3) todo_loop.simps) (auto split: list.split)
  next
    case True
    then obtain a as where t: "todo st = a # as" by (cases "todo st") auto
    show ?thesis
    proof (cases "get_curl_handler a st")
      case None
      have "reqs (drop_ref a (st\<lparr>todo := as\<rparr>)) b = reqs st b" if "b \<in> set (locals st)"
        using that by (cases "b = a") (simp_all add: held_def)
      then show ?thesis using "1.IH"(1)[OF _ t None] True t None by (subst (1 2 3) todo_loop.simps) simp
    next
      case (Some h)
      have "heng (attach_multi_handler a (st\<lparr>todo := as\<rparr>)) = heng st" "locals (attach_multi_handler a (st\<lparr>todo := as\<rparr>)) = locals st"
        "reqs (attach_multi_handler a (st\<lparr>todo := as\<rparr>)) = reqs st"
        by (simp_all add: attach_multi_handler_def log_call_def split: option.split)
      then show ?thesis using "1.IH"(2)[OF _ t Some] True t Some by (subst (1 2 3) todo_loop.simps) simp
    qed
  qed
qed

lemma omap_put_keeps: "omap_find k m = Some v \<Longrightarrow> k \<noteq> k' \<Longrightarrow> omap_find k (omap_put k' v' m) = Some v"
  by (simp add: omap_find_put)

lemma todo_loop_keeps:
  "http_inv {} st \<Longrightarrow> omap_find h (doing st) = Some a \<Longrightarrow> omap_find h (doing (todo_loop st)) = Some a"
proof (induction st rule: todo_loop.induct)
  case (1 st)
  show ?case
  proof (cases "length (doing st) < MAX_CONCURRENT_TRANS_IN_CURLMULTI \<and> todo st \<noteq> []")
    case False
    then show ?thesis using "1.prems" by (subst todo_loop.simps) (auto split: list.split)
  next
    case True
    then obtain b as where t: "todo st = b # as" by (cases "todo st") auto
    show ?thesis
    proof (cases "get_curl_handler b st")
      case None
      from "1.IH"(1)[OF _ t None skip_inv[OF "1.prems"(1) t]] show ?thesis using True t None "1.prems"(2) by (subst todo_loop.simps) simp
    next
      case (Some g)
      have "a \<in> snd ` set (doing st)" "get_curl_handler a st = Some h"
        using omap_find_in_set[OF "1.prems"(2)] http_invD(6)[OF "1.prems"(1)] by force+
      then have "g \<noteq> h" using http_invD(4,7)[OF "1.prems"(1)] Some t by force
      from "1.IH"(2)[OF _ t Some attach_inv[OF "1.prems"(1) t Some]] show ?thesis
        using True t Some omap_put_keeps[OF "1.prems"(2), of g b] \<open>g \<noteq> h\<close> by (subst todo_loop.simps) simp
    qed
  qed
qed

lemma todo_loop_attaches:
  "http_inv {} st \<Longrightarrow> length (doing st) + length (todo st) \<le> MAX_CONCURRENT_TRANS_IN_CURLMULTI \<Longrightarrow> a \<in> set (todo st) \<Longrightarrow>
   a \<in> set (locals st) \<Longrightarrow> get_curl_handler a st = Some h \<Longrightarrow> omap_find h (doing (todo_loop st)) = Some a"
proof (induction st rule: todo_loop.induct)
  case (1 st)
  have room: "length (doing st) < MAX_CONCURRENT_TRANS_IN_CURLMULTI" using "1.prems"(2,3) by (cases "todo st") auto
  obtain b as where t: "todo st = b # as" using "1.prems"(3) by (cases "todo st") auto
  show ?case
  proof (cases "get_curl_handler b st")
    case None
    then have ab: "a \<noteq> b" using "1.prems"(5) by auto
    have "http_inv {} (drop_ref b (st\<lparr>todo := as\<rparr>))" by (rule skip_inv[OF "1.prems"(1) t])
    moreover have "get_curl_handler a (drop_ref b (st\<lparr>todo := as\<rparr>)) = Some h" using "1.prems"(5) ab by (simp add: get_curl_handler_def)
    ultimately show ?thesis using "1.IH"(1)[OF room t None] room t None "1.prems"(2-4) ab by (subst todo_loop.simps) simp
  next
    case (Some g)
    let ?s = "(attach_multi_handler b (st\<lparr>todo := as\<rparr>))\<lparr>doing := omap_put g b (doing st)\<rparr>"
    have i: "http_inv {} ?s" by (rule attach_inv[OF "1.prems"(1) t Some room])
    have f: "todo ?s = as" "locals ?s = locals st" "get_curl_handler a ?s = get_curl_handler a st"
      by (simp_all add: attach_multi_handler_def log_call_def get_curl_handler_def split: option.split)
    have e: "todo_loop st = todo_loop ?s" using room t Some by (subst todo_loop.simps) simp
    show ?thesis
    proof (cases "a = b")
      case True
      then have "g = h" using Some "1.prems"(5) by simp
      then show ?thesis unfolding e using todo_loop_keeps[OF i, of h a] True by (simp add: omap_find_put)
    next
      case False
      have "g \<notin> fst ` set (doing st)" by (rule todo_handle_new[OF "1.prems"(1) _ Some]) (simp add: t)
      then have "length (doing ?s) = length (doing st) + 1" by (simp add: omap_put_new)
      then show ?thesis unfolding e using "1.IH"(2)[OF room t Some i] "1.prems"(2-5) t False f by simp
    qed
  qed
qed

section \<open>Responses\<close>

lemma done_msg:
  fixes c d :: int and cur :: tid
  assumes "omap_find h (doing st) = Some a" "reqs st a = Some q" "m_my_chroutine q \<noteq> INVALID_ID"
  defines "st1 \<equiv> handle_msg \<lparr>is_done = True, easy_handle = h, response_code = c, msg_result = d\<rparr> cur st"
  shows "heng st1 = fst (engine_awake (m_my_chroutine q) cur (heng st))" "locals st1 = locals st"
    "a \<in> set (locals st) \<Longrightarrow> reqs st1 a = Some (q\<lparr>m_rsp := \<lparr>m_rsp_code = c, m_data_result = d\<rparr>\<rparr>)"
    "b \<noteq> a \<Longrightarrow> reqs st1 b = reqs st b"
  using assms by (simp_all add: st1_def handle_msg_def Let_def on_rsp_def upd_req_def held_def)

lemma exec_end_result: "reqs st a = Some q \<Longrightarrow> snd (exec_curl_end a st) = Exec_ret (m_rsp q)"
  by (simp add: exec_curl_end_def)

lemma exec_begin_waits:
  assumes on: "runs_on cur t k (heng st)" and acc: "accepts t (heng st)" and tm: "0 < timeout" "0 \<le> now"
  shows "\<exists>st1 a q. exec_curl_begin url ct timeout w (Some h) now cur st = (st1, Exec_waits a) \<and> reqs st1 a = Some q \<and>
    m_curl_ptr q = Some h \<and> m_my_chroutine q = running_id (threads (heng st) t) \<and> todo st1 = todo st @ [a] \<and> doing st1 = doing st \<and>
    locals st1 = a # locals st \<and> m_rsp q = new_rsp \<and> a = next_req st \<and> (\<forall>b. b \<noteq> a \<longrightarrow> reqs st1 b = reqs st b) \<and>
    waits_with cur t (running_id (threads (heng st) t)) k (ms_chroutine_id (heng st) + 1) (next_addr (heng st)) (now + timeout) (heng st1)"
proof -
  let ?e = "heng st" and ?i = "running_id (threads (heng st) t)"
  note i = sleeper_wait(1,2)[OF on acc tm]
  obtain e' where e': "wait_rsp timeout now cur ?e = (e', Inr t)"
      "waits_with cur t ?i k (ms_chroutine_id ?e + 1) (next_addr ?e) (now + timeout) e'"
    using sleeper_wait(3)[OF on acc tm] by (auto simp: wait_rsp_def Let_def)
  obtain st1 a where n: "new_curl_req (Some h) 0 st = (st1, a)" by fastforce
  have f: "heng st1 = ?e" "todo st1 = todo st" "doing st1 = doing st" "locals st1 = locals st"
      "\<exists>q. reqs st1 a = Some q \<and> m_curl_ptr q = Some h \<and> m_rsp q = new_rsp" "a = next_req st" "\<forall>b. b \<noteq> a \<longrightarrow> reqs st1 b = reqs st b"
    using n by (auto simp: new_curl_req_def Let_def log_call_def)
  then obtain q where q: "reqs st1 a = Some q" "m_curl_ptr q = Some h" "m_rsp q = new_rsp" by blast
  let ?s = "request_opts url ct timeout w a (upd_req a (\<lambda>q. q\<lparr>m_my_chroutine := ?i\<rparr>) (st1\<lparr>locals := a # locals st1\<rparr>))"
  have "exec_curl_begin url ct timeout w (Some h) now cur st = ((fst (push_curl_req a ?s))\<lparr>heng := e'\<rparr>, Exec_waits a)"
    using i n tm(1) e'(1) f(1) by (simp add: exec_curl_begin_def Let_def push_curl_req_def)
  moreover have "reqs ?s a = Some (q\<lparr>m_my_chroutine := ?i\<rparr>)" using q(1) by (simp add: upd_req_def)
  moreover have "\<forall>b. b \<noteq> a \<longrightarrow> reqs ?s b = reqs st b" using f(7) by (simp add: upd_req_def)
  ultimately show ?thesis using f q(2,3) e'(2)
    by (intro exI[of _ "(fst (push_curl_req a ?s))\<lparr>heng := e'\<rparr>"] exI[of _ a] exI[of _ "q\<lparr>m_my_chroutine := ?i\<rparr>"]) (simp add: push_curl_req_def)
qed

text \<open>C29: a request is answered. A chroutine that calls \<^verbatim>\<open>exec_curl\<close> with a time limit suspends until
  that limit; when the next poll of its thread gets the answer of libcurl, the chroutine is due at once, its sleeping
  son is gone, and the call returns the code and the result of the answer.\<close>

theorem request_answered:
  assumes "http_reach st" "runs_on cur t k (heng st)" "accepts t (heng st)" "m_init_over (heng st)"
    and "omap_find cur (m_http_stubs (heng st)) = Some sb" "0 < timeout" "0 \<le> now" "h \<notin> handles st"
    and room: "length (doing st) + length (todo st) < 1000"
  shows "\<exists>st1 a st2. engine_exec_curl url ct timeout w (Some h) now cur st = (st1, Exec_waits a) \<and>
    (\<forall>later. due later (objs (threads (heng st1) t) k) \<longleftrightarrow> now + timeout \<le> later) \<and>
    fst (curl_select p wt [\<lparr>is_done = True, easy_handle = h, response_code = c, msg_result = d\<rparr>] cur st1) = st2 \<and>
    (\<forall>later. due later (objs (threads (heng st2) t) k)) \<and>
    get_chroutine (ms_chroutine_id (heng st) + 1) (threads (heng st2) t) = None \<and>
    snd (exec_curl_end a st2) = Exec_ret \<lparr>m_rsp_code = c, m_data_result = d\<rparr>"
proof -
  let ?i = "running_id (threads (heng st) t)" and ?m = "\<lparr>is_done = True, easy_handle = h, response_code = c, msg_result = d\<rparr>"
  obtain st1 a q where b: "exec_curl_begin url ct timeout w (Some h) now cur st = (st1, Exec_waits a)" "reqs st1 a = Some q" "m_curl_ptr q = Some h"
      "m_my_chroutine q = ?i" "todo st1 = todo st @ [a]" "doing st1 = doing st" "locals st1 = a # locals st"
      "waits_with cur t ?i k (ms_chroutine_id (heng st) + 1) (next_addr (heng st)) (now + timeout) (heng st1)"
    using exec_begin_waits[OF assms(2,3,6,7), of url ct w h] by blast
  have e: "engine_exec_curl url ct timeout w (Some h) now cur st = (st1, Exec_waits a)" using b(1) assms(4,5) by (simp add: engine_exec_curl_def)
  have inv: "http_inv {} st1" using exec_begin_inv[OF http_reach_inv[OF assms(1)], of "Some h" url ct timeout w now cur] b(1) assms(8) by simp
  let ?s = "todo_loop st1"
  have "omap_find h (doing ?s) = Some a"
    by (rule todo_loop_attaches[OF inv]) (use b room in \<open>simp_all add: MAX_CONCURRENT_TRANS_IN_CURLMULTI_def get_curl_handler_def\<close>)
  moreover have "reqs ?s a = Some q" "heng ?s = heng st1" "a \<in> set (locals ?s)" using todo_loop_frame[of st1 a] b(2,7) by simp_all
  moreover have "?i \<noteq> INVALID_ID" using b(8) by (simp add: waits_with_def)
  ultimately have dn: "heng (handle_msg ?m cur ?s) = fst (engine_awake ?i cur (heng st1))"
      "reqs (handle_msg ?m cur ?s) a = Some (q\<lparr>m_rsp := \<lparr>m_rsp_code = c, m_data_result = d\<rparr>\<rparr>)" "doing ?s \<noteq> []"
    using done_msg[where h = h and st = ?s and a = a and q = q and c = c and d = d and cur = cur] b(4) by auto
  have sel: "fst (curl_select p wt [?m] cur st1) = handle_msg ?m cur ?s"
    using dn(3) by (simp add: curl_select_def add_todo_to_doing_def Let_def)
  obtain e' where w: "engine_awake ?i cur (heng st1) = (e', 0)" "\<forall>now. due now (objs (threads e' t) k)"
      "get_chroutine (ms_chroutine_id (heng st) + 1) (threads e' t) = None"
    using awake_ends_wait[OF b(8)] by blast
  show ?thesis using e waits_with_due[OF b(8)] sel dn w exec_end_result[OF dn(2)] by simp
qed

text \<open>C30: a late answer. When the answer to a request comes after the chroutine that made it has given up on
  it and waits for another request, the late answer ends the wait for the other one: the son of that wait is stopped, the wait
  reports success, and \<^verbatim>\<open>exec_curl\<close> returns the code -1 of a request without answer.\<close>

theorem late_answer_ends_next_wait:
  assumes "waits_with cur t i k s r limit (heng st)" "omap_find h (doing st) = Some a" "reqs st a = Some qa" "m_my_chroutine qa = i"
    and "reqs st b = Some qb" "m_rsp qb = new_rsp" "a \<noteq> b"
  shows "let st1 = handle_msg \<lparr>is_done = True, easy_handle = h, response_code = c, msg_result = d\<rparr> cur st in
    (\<forall>now. due now (objs (threads (heng st1) t) k)) \<and> get_chroutine s (threads (heng st1) t) = None \<and>
    get_result r (reporters (heng st1)) = result_done \<and> snd (exec_curl_end b st1) = Exec_ret \<lparr>m_rsp_code = -1, m_data_result = -1\<rparr>"
proof -
  have i: "m_my_chroutine qa \<noteq> INVALID_ID" using assms(1,4) by (simp add: waits_with_def)
  note dn = done_msg[OF assms(2,3) i, where c = c and d = d and cur = cur]
  obtain e' where w: "engine_awake i cur (heng st) = (e', 0)" "\<forall>now. due now (objs (threads e' t) k)" "get_chroutine s (threads e' t) = None"
      "get_result r (reporters e') = result_done"
    using awake_ends_wait[OF assms(1)] by blast
  show ?thesis using w dn(1) dn(4)[of b] assms(4-7) exec_end_result[of _ b qb] by (simp add: Let_def new_rsp_def)
qed

text \<open>Without a positive time limit \<^verbatim>\<open>exec_curl\<close> does not wait at all.\<close>

theorem no_limit_no_wait:
  assumes "get_current_chroutine_id cur (heng st) \<noteq> INVALID_ID" "timeout \<le> 0"
  shows "\<exists>st1 a. exec_curl_begin url ct timeout w h now cur st = (st1, Exec_ret new_rsp) \<and> a \<in> set (todo st1)"
proof -
  obtain st1 a where n: "new_curl_req h 0 st = (st1, a)" by fastforce
  then obtain q where q: "reqs st1 a = Some q" "m_rsp q = new_rsp" by (cases h) (auto simp: new_curl_req_def Let_def log_call_def)
  show ?thesis using assms n q by (simp add: exec_curl_begin_def Let_def push_curl_req_def exec_curl_end_def upd_req_def exI[of _ a])
qed

section \<open>Witnesses\<close>

definition curl_engine :: engine_t where
  "curl_engine = reader_engine\<lparr>m_http_stubs := [(7, 9)]\<rparr>"

lemma curl_engine_ok:
  "runs_on 7 3 0 curl_engine" "accepts 3 curl_engine" "m_init_over curl_engine" "omap_find 7 (m_http_stubs curl_engine) = Some 9"
proof -
  have "get_thread_by_id 7 curl_engine = get_thread_by_id 7 reader_engine" by (rule thread_by_id_cong) (simp_all add: curl_engine_def)
  then show "runs_on 7 3 0 curl_engine" using reader_engine_runs by (simp add: runs_on_def curl_engine_def)
qed (simp_all add: curl_engine_def reader_engine_def accepts_def)

theorem http_consistent_witness:
  "length (doing (fst (curl_select (\<lambda>_. 1) (\<lambda>_. Some 0) [] 7
     (fst (engine_exec_curl ''http://a'' 100 5000 None (Some 40) 100 7 (new_http curl_engine)))))) \<le> 1000"
proof -
  have "http_reach (fst (engine_exec_curl ''http://a'' 100 5000 None (Some 40) 100 7 (new_http curl_engine)))"
    by (rule http_reach.request[OF http_reach.start]) (simp add: handles_def new_http_def get_curl_handler_def)
  from http_consistent[OF http_reach.poll[OF this]] show ?thesis by blast
qed

theorem request_answered_witness:
  "\<exists>a st1. engine_exec_curl ''http://a'' 100 5000 None (Some 40) 100 7 (new_http curl_engine) = (st1, Exec_waits a) \<and>
     snd (exec_curl_end a (fst (curl_select (\<lambda>_. 1) (\<lambda>_. Some 0) [\<lparr>is_done = True, easy_handle = 40, response_code = 200, msg_result = 0\<rparr>] 7 st1))) =
     Exec_ret \<lparr>m_rsp_code = 200, m_data_result = 0\<rparr>"
proof -
  have "runs_on 7 3 0 (heng (new_http curl_engine))" "accepts 3 (heng (new_http curl_engine))" "m_init_over (heng (new_http curl_engine))"
      "omap_find 7 (m_http_stubs (heng (new_http curl_engine))) = Some 9" "40 \<notin> handles (new_http curl_engine)"
      "length (doing (new_http curl_engine)) + length (todo (new_http curl_engine)) < 1000"
    using curl_engine_ok by (simp_all add: new_http_def handles_def get_curl_handler_def)
  from request_answered[OF http_reach.start this(1-4) _ _ this(5,6), of 5000 100 "''http://a''" 100 None "\<lambda>_. 1" "\<lambda>_. Some 0" 200 0]
  show ?thesis by auto
qed

text \<open>A chroutine whose first request, still with libcurl, has timed out, and its next request.\<close>

definition late_state :: http_t where
  "late_state = (new_http curl_engine)\<lparr>reqs := [1 \<mapsto> \<lparr>m_curl_ptr = Some 40, curl_type = EN_CURL_TYPE_GET, m_req_id = 0, m_rsp = new_rsp,
     m_my_chroutine = 1, m_post_buf = None, m_post_buf_len = 0\<rparr>], doing := [(40, 1)], next_req := 2\<rparr>"

theorem late_answer_ends_next_wait_witness:
  "snd (exec_curl_end 2 (handle_msg \<lparr>is_done = True, easy_handle = 40, response_code = 200, msg_result = 0\<rparr> 7
     (fst (exec_curl_begin ''http://b'' 100 5000 None (Some 41) 100 7 late_state)))) = Exec_ret \<lparr>m_rsp_code = -1, m_data_result = -1\<rparr>"
proof -
  have e: "heng late_state = curl_engine" "next_req late_state = 2" "doing late_state = [(40, 1)]" by (simp_all add: late_state_def new_http_def)
  have "runs_on 7 3 0 (heng late_state)" "accepts 3 (heng late_state)" using curl_engine_ok by (simp_all add: e)
  from exec_begin_waits[OF this, of 5000 100 "''http://b''" 100 None 41] obtain st1 q where
    b: "exec_curl_begin ''http://b'' 100 5000 None (Some 41) 100 7 late_state = (st1, Exec_waits 2)" "reqs st1 2 = Some q" "m_rsp q = new_rsp"
      "doing st1 = [(40, 1)]" "reqs st1 1 = reqs late_state 1"
      "waits_with 7 3 (running_id (threads curl_engine 3)) 0 (ms_chroutine_id curl_engine + 1) (next_addr curl_engine) 5100 (heng st1)"
    by (auto simp: e)
  have r: "running_id (threads curl_engine 3) = 1" by (simp add: curl_engine_def reader_engine_def)
  obtain qa where qa: "reqs st1 1 = Some qa" "m_my_chroutine qa = 1" using b(5) by (simp add: late_state_def)
  from late_answer_ends_next_wait[OF b(6) _ qa(1) _ b(2,3), of 40] show ?thesis using b(1,4) qa(2) r by (simp add: Let_def)
qed

end
