(* ===== verification/Rpc.thy ===== *)
theory Rpc
  imports Engine
begin

text \<open>
  The RPC server and client on gRPC (net/rpc/grpc_async_server.hpp and .cpp, grpc_async_client.hpp and .cpp,
  grpc_sync_client_for_chroutine.hpp), with the bodies of the virtual functions that the example service supplies
  (examples/rpc_example/test_server.cpp and test_client/test_client.cpp).

  \<^item> gRPC is not part of the program. An operation given to a completion queue with a tag is an element of
    \<open>outstanding\<close>; the events a poll gets are arguments: a tag and the flag \<^verbatim>\<open>ok\<close>.
  \<^item> \<open>call_rounds\<close> and \<open>ccalls\<close> map addresses to live objects; using or deleting an address that holds none sets the
    flag for use after free.
  \<^item> \<^verbatim>\<open>do_work\<close> is cut at its sleep and \<^verbatim>\<open>call_sync\<close> at its wait. Log calls are left out.
\<close>

section \<open>The server\<close>

datatype call_step_t = CREATE | PROCESS | FINISH

record rpc_server_t =
  seng :: engine_t
  call_rounds :: "addr \<Rightarrow> call_step_t option"
  next_round :: addr
  outstanding :: "addr list"
  srv_running :: bool
  m_grpc_server_ptr :: bool
  srv_fault :: bool

definition request_service :: "addr \<Rightarrow> rpc_server_t \<Rightarrow> rpc_server_t" where
  "request_service a sv = sv\<lparr>outstanding := outstanding sv @ [a]\<rparr>"

definition create_me :: "rpc_server_t \<Rightarrow> rpc_server_t \<times> addr" where
  "create_me sv = (let a = next_round sv in (sv\<lparr>call_rounds := (call_rounds sv)(a \<mapsto> CREATE), next_round := a + 1\<rparr>, a))"

text \<open>\<^verbatim>\<open>process\<close> of a new round.\<close>

definition process_create :: "addr \<Rightarrow> rpc_server_t \<Rightarrow> rpc_server_t" where
  "process_create a sv = request_service a (sv\<lparr>call_rounds := (call_rounds sv)(a \<mapsto> PROCESS)\<rparr>)"

definition re_serve :: "rpc_server_t \<Rightarrow> rpc_server_t" where
  "re_serve sv = (case create_me sv of (sv1, a) \<Rightarrow> process_create a sv1)"

definition process :: "addr \<Rightarrow> tid \<Rightarrow> rpc_server_t \<Rightarrow> rpc_server_t" where
  "process a cur sv =
     (case call_rounds sv a of
        None \<Rightarrow> sv\<lparr>srv_fault := True\<rparr>
      | Some CREATE \<Rightarrow> process_create a sv
      | Some PROCESS \<Rightarrow>
          (let sv1 = re_serve (sv\<lparr>call_rounds := (call_rounds sv)(a \<mapsto> FINISH)\<rparr>)
           in sv1\<lparr>seng := fst (engine_create_son (Some (Rpc_work a)) nullptr cur (seng sv1))\<rparr>)
      | Some FINISH \<Rightarrow> sv\<lparr>call_rounds := (call_rounds sv)(a := None)\<rparr>)"

text \<open>The work of the example: a sleep, then the response.\<close>

definition WORK_MS :: int where
  "WORK_MS = 2000"

definition do_work_begin :: "int \<Rightarrow> tid \<Rightarrow> rpc_server_t \<Rightarrow> rpc_server_t" where
  "do_work_begin now cur sv = sv\<lparr>seng := engine_sleep now WORK_MS cur (seng sv)\<rparr>"

definition do_work_end :: "addr \<Rightarrow> rpc_server_t \<Rightarrow> rpc_server_t" where
  "do_work_end a sv =
     (if call_rounds sv a = None then sv\<lparr>srv_fault := True\<rparr> else sv\<lparr>outstanding := outstanding sv @ [a]\<rparr>)"

text \<open>The loop of \<^verbatim>\<open>select\<close> over the events of the completion queue, which takes each event off the queue before it looks
  at \<^verbatim>\<open>ok\<close>; the result also gives the events left in it.\<close>

type_synonym event_t = "addr option \<times> bool"

definition take_event :: "addr option \<Rightarrow> rpc_server_t \<Rightarrow> rpc_server_t" where
  "take_event tag sv = (case tag of None \<Rightarrow> sv | Some a \<Rightarrow> sv\<lparr>outstanding := remove1 a (outstanding sv)\<rparr>)"

fun server_loop :: "event_t list \<Rightarrow> nat \<Rightarrow> tid \<Rightarrow> rpc_server_t \<Rightarrow> rpc_server_t \<times> nat \<times> event_t list" where
  "server_loop [] n cur sv = (sv, n, [])"
| "server_loop ((tag, ok) # evs) n cur sv =
     (let sv1 = take_event tag sv in
      if \<not> ok then (sv1, n, evs)
      else
        (let sv2 = (case tag of None \<Rightarrow> sv1 | Some a \<Rightarrow> process a cur sv1)
         in if n + 1 > 100 then (sv2, n + 1, evs) else server_loop evs (n + 1) cur sv2))"

definition rpc_server_select :: "event_t list \<Rightarrow> tid \<Rightarrow> rpc_server_t \<Rightarrow> rpc_server_t \<times> nat \<times> event_t list" where
  "rpc_server_select evs cur sv = (if \<not> srv_running sv then (sv, 0, evs) else server_loop evs 0 cur sv)"

text \<open>\<open>built\<close>: whether \<^verbatim>\<open>BuildAndStart\<close> gives a server.\<close>

definition start_grpc_server :: "bool \<Rightarrow> rpc_server_t \<Rightarrow> rpc_server_t \<times> int" where
  "start_grpc_server built sv = (sv\<lparr>m_grpc_server_ptr := built\<rparr>, 0)"

definition listen_requests :: "rpc_server_t \<Rightarrow> rpc_server_t" where
  "listen_requests sv = re_serve sv"

definition rpc_server_start :: "bool \<Rightarrow> rpc_server_t \<Rightarrow> rpc_server_t \<times> int" where
  "rpc_server_start built sv =
     (if srv_running sv then (sv, 0)
      else
        (case start_grpc_server built sv of
           (sv1, r) \<Rightarrow> (if r \<noteq> 0 then (sv1, -1) else ((listen_requests sv1)\<lparr>srv_running := True\<rparr>, 0))))"

text \<open>\<open>None\<close>: a null pointer is dereferenced.\<close>

definition rpc_server_stop :: "rpc_server_t \<Rightarrow> (rpc_server_t \<times> int) option" where
  "rpc_server_stop sv = (if m_grpc_server_ptr sv then Some (sv\<lparr>srv_running := False\<rparr>, 0) else None)"

definition new_rpc_server :: "engine_t \<Rightarrow> rpc_server_t" where
  "new_rpc_server e = \<lparr>seng = e, call_rounds = (\<lambda>_. None), next_round = 1, outstanding = [], srv_running = False,
     m_grpc_server_ptr = False, srv_fault = False\<rparr>"

definition destroy_rpc_server :: "rpc_server_t \<Rightarrow> (rpc_server_t \<times> int) option" where
  "destroy_rpc_server sv = rpc_server_stop sv"

section \<open>The client\<close>

text \<open>\<open>deadline\<close>: the seconds \<^verbatim>\<open>set_deadline\<close> was called with.\<close>

record 'r client_call_t =
  m_timeout_seconds :: int
  m_chroutine_timeout_ms :: int
  m_call_chroutine :: int
  m_result :: 'r
  m_status :: int
  deadline :: "int option"

record 'r rpc_client_t =
  ceng :: engine_t
  ccalls :: "addr \<Rightarrow> 'r client_call_t option"
  next_call :: addr
  c_outstanding :: "addr list"
  c_fault :: bool

definition call_set_timeout :: "int \<Rightarrow> 'r client_call_t \<Rightarrow> 'r client_call_t" where
  "call_set_timeout seconds c =
     c\<lparr>m_timeout_seconds := seconds, m_chroutine_timeout_ms := (if seconds > 0 then seconds * 1000 + 500 else 60 * 1000)\<rparr>"

definition new_client_call :: "'r \<Rightarrow> 'r client_call_t" where
  "new_client_call r0 = call_set_timeout 3 \<lparr>m_timeout_seconds = 0, m_chroutine_timeout_ms = 0, m_call_chroutine = INVALID_ID,
     m_result = r0, m_status = 0, deadline = None\<rparr>"

text \<open>\<^verbatim>\<open>clone_me\<close>: the copy constructor initialises its base class with the client alone.\<close>

definition clone_me :: "'r client_call_t \<Rightarrow> 'r client_call_t" where
  "clone_me c = \<lparr>m_timeout_seconds = 0, m_chroutine_timeout_ms = m_chroutine_timeout_ms c, m_call_chroutine = m_call_chroutine c,
     m_result = m_result c, m_status = 0, deadline = None\<rparr>"

definition call_set_opt :: "'r client_call_t \<Rightarrow> 'r client_call_t" where
  "call_set_opt c = (if m_timeout_seconds c > 0 then c\<lparr>deadline := Some (m_timeout_seconds c)\<rparr> else c)"

definition call_impl :: "addr \<Rightarrow> 'r rpc_client_t \<Rightarrow> 'r rpc_client_t" where
  "call_impl a cl = cl\<lparr>c_outstanding := c_outstanding cl @ [a]\<rparr>"

definition client_call :: "'r client_call_t \<Rightarrow> 'r rpc_client_t \<Rightarrow> 'r rpc_client_t \<times> addr" where
  "client_call c cl =
     (let a = next_call cl
      in (call_impl a (cl\<lparr>ccalls := (ccalls cl)(a \<mapsto> call_set_opt (clone_me c)), next_call := a + 1\<rparr>), a))"

definition delete_call :: "addr \<Rightarrow> 'r rpc_client_t \<Rightarrow> 'r rpc_client_t" where
  "delete_call a cl = (if ccalls cl a = None then cl\<lparr>c_fault := True\<rparr> else cl\<lparr>ccalls := (ccalls cl)(a := None)\<rparr>)"

text \<open>\<^verbatim>\<open>on_rsp\<close> of a synchronous call, and of the base class.\<close>

definition sync_on_rsp :: "addr \<Rightarrow> tid \<Rightarrow> 'r rpc_client_t \<Rightarrow> 'r rpc_client_t" where
  "sync_on_rsp a cur cl =
     (case ccalls cl a of
        None \<Rightarrow> cl\<lparr>c_fault := True\<rparr>
      | Some c \<Rightarrow>
          if m_call_chroutine c \<noteq> INVALID_ID then cl\<lparr>ceng := fst (engine_awake (m_call_chroutine c) cur (ceng cl))\<rparr> else cl)"

definition base_on_rsp :: "addr \<Rightarrow> 'r rpc_client_t \<Rightarrow> 'r rpc_client_t" where
  "base_on_rsp a cl = delete_call a cl"

text \<open>The wait: \<open>Inr\<close> when the chroutine suspends. The new reporter has the next free address.\<close>

definition wait_call :: "addr \<Rightarrow> int \<Rightarrow> tid \<Rightarrow> 'r rpc_client_t \<Rightarrow> 'r rpc_client_t \<times> (addr option + addr)" where
  "wait_call a now cur cl =
     (case ccalls cl a of
        None \<Rightarrow> (cl\<lparr>c_fault := True\<rparr>, Inl None)
      | Some c \<Rightarrow>
          (let i = get_current_chroutine_id cur (ceng cl);
               cl1 = cl\<lparr>ccalls := (ccalls cl)(a \<mapsto> c\<lparr>m_call_chroutine := i\<rparr>)\<rparr>
           in if i \<noteq> INVALID_ID \<and> m_chroutine_timeout_ms c > 0
              then (let r = next_addr (ceng cl1) in
                    case create_son_report_begin (Some Sleep_forever) r (m_chroutine_timeout_ms c) now cur
                           ((ceng cl1)\<lparr>reporters := create_reporter r 0 (reporters (ceng cl1)), next_addr := r + 1\<rparr>) of
                      (e, x) \<Rightarrow> (cl1\<lparr>ceng := e\<rparr>, x))
              else (cl1, Inl None)))"

text \<open>\<^verbatim>\<open>call_sync\<close> after its wait: the result, the status code, and the end of the call object.\<close>

definition call_sync_end :: "addr \<Rightarrow> 'r rpc_client_t \<Rightarrow> 'r rpc_client_t \<times> ('r \<times> int) option" where
  "call_sync_end a cl =
     (case ccalls cl a of
        None \<Rightarrow> (cl\<lparr>c_fault := True\<rparr>, None)
      | Some c \<Rightarrow> (delete_call a cl, Some (m_result c, m_status c)))"

datatype 'r sync_outcome = Sync_ret 'r int | Sync_waits addr | Sync_crash

definition call_sync_begin :: "'r client_call_t \<Rightarrow> int \<Rightarrow> tid \<Rightarrow> 'r rpc_client_t \<Rightarrow> 'r rpc_client_t \<times> 'r sync_outcome" where
  "call_sync_begin c now cur cl =
     (case client_call c cl of
        (cl1, a) \<Rightarrow>
          (case wait_call a now cur cl1 of
             (cl2, Inr _) \<Rightarrow> (cl2, Sync_waits a)
           | (cl2, Inl _) \<Rightarrow>
               (case call_sync_end a cl2 of
                  (cl3, None) \<Rightarrow> (cl3, Sync_crash)
                | (cl3, Some (r, s)) \<Rightarrow> (cl3, Sync_ret r s))))"

text \<open>gRPC stores the result and the status of the call before it reports the event; a deleted call is
  written to nonetheless.\<close>

definition grpc_completes :: "addr \<Rightarrow> 'r \<Rightarrow> int \<Rightarrow> 'r rpc_client_t \<Rightarrow> 'r rpc_client_t" where
  "grpc_completes a r s cl =
     (case ccalls cl a of
        None \<Rightarrow> cl\<lparr>c_fault := True\<rparr>
      | Some c \<Rightarrow> cl\<lparr>ccalls := (ccalls cl)(a \<mapsto> c\<lparr>m_result := r, m_status := s\<rparr>)\<rparr>)"

fun client_loop :: "event_t list \<Rightarrow> nat \<Rightarrow> tid \<Rightarrow> 'r rpc_client_t \<Rightarrow> 'r rpc_client_t \<times> nat \<times> event_t list" where
  "client_loop [] n cur cl = (cl, n, [])"
| "client_loop ((tag, ok) # evs) n cur cl =
     (let cl1 = (case tag of None \<Rightarrow> cl | Some a \<Rightarrow> cl\<lparr>c_outstanding := remove1 a (c_outstanding cl)\<rparr>) in
      if \<not> ok then (cl1, n, evs)
      else
        (let cl2 = (case tag of None \<Rightarrow> cl1 | Some a \<Rightarrow> sync_on_rsp a cur cl1)
         in if n + 1 > 10 then (cl2, n + 1, evs) else client_loop evs (n + 1) cur cl2))"

definition rpc_client_select :: "event_t list \<Rightarrow> tid \<Rightarrow> 'r rpc_client_t \<Rightarrow> 'r rpc_client_t \<times> nat \<times> event_t list" where
  "rpc_client_select evs cur cl = client_loop evs 0 cur cl"

definition new_rpc_client :: "engine_t \<Rightarrow> 'r rpc_client_t" where
  "new_rpc_client e = \<lparr>ceng = e, ccalls = (\<lambda>_. None), next_call = 1, c_outstanding = [], c_fault = False\<rparr>"

text \<open>\<^verbatim>\<open>create\<close> of the client: registered on the current thread.\<close>

definition rpc_client_create :: "tid \<Rightarrow> engine_t \<Rightarrow> engine_t \<times> addr option" where
  "rpc_client_create cur e = create_selectable NULL_THREAD_ID cur e"

text \<open>\<open>channel_state\<close> is what \<^verbatim>\<open>GetState\<close> gives.\<close>

definition GRPC_CHANNEL_READY :: int where
  "GRPC_CHANNEL_READY = 2"

definition rpc_ready :: "int \<Rightarrow> bool" where
  "rpc_ready channel_state \<longleftrightarrow> channel_state = GRPC_CHANNEL_READY"

end
