(* ===== verification/Rpc_Props.thy ===== *)
theory Rpc_Props
  imports Rpc Son_Wait
begin

text \<open>
  Properties of the RPC server and client: no call object is used after it is gone and every started service keeps
  listening; a call is answered; and what a call that times out leaves behind.
\<close>

section \<open>The server\<close>

text \<open>gRPC reports an operation that is outstanding, once; a request for a call fails only after a shutdown.\<close>

fun legal :: "event_t list \<Rightarrow> nat \<Rightarrow> tid \<Rightarrow> rpc_server_t \<Rightarrow> bool" where
  "legal [] n cur sv = True"
| "legal ((tag, ok) # evs) n cur sv =
     (case tag of
        None \<Rightarrow> False
      | Some a \<Rightarrow>
          a \<in> set (outstanding sv) \<and> (ok \<or> call_rounds sv a = Some FINISH) \<and>
          (ok \<and> n + 1 \<le> 100 \<longrightarrow> legal evs (n + 1) cur (process a cur (take_event (Some a) sv))))"

inductive rpc_reach :: "nat \<Rightarrow> rpc_server_t \<Rightarrow> bool" where
  new: "rpc_reach 0 (new_rpc_server e)"
| engine: "rpc_reach k sv \<Longrightarrow> rpc_reach k (sv\<lparr>seng := e\<rparr>)"
| start: "rpc_reach k sv \<Longrightarrow> \<not> srv_running sv \<Longrightarrow> rpc_reach (k + 1) (fst (rpc_server_start built sv))"
| restart: "rpc_reach k sv \<Longrightarrow> srv_running sv \<Longrightarrow> rpc_reach k (fst (rpc_server_start built sv))"
| poll: "rpc_reach k sv \<Longrightarrow> legal evs 0 cur sv \<Longrightarrow> rpc_reach k (fst (rpc_server_select evs cur sv))"
| work: "rpc_reach k sv \<Longrightarrow> call_rounds sv a = Some FINISH \<Longrightarrow> a \<notin> set (outstanding sv) \<Longrightarrow> rpc_reach k (do_work_end a sv)"
| stop: "rpc_reach k sv \<Longrightarrow> rpc_server_stop sv = Some (sv', r) \<Longrightarrow> rpc_reach k sv'"

definition listening :: "rpc_server_t \<Rightarrow> addr set" where
  "listening sv = {a. call_rounds sv a = Some PROCESS}"

definition server_ok :: "nat \<Rightarrow> rpc_server_t \<Rightarrow> bool" where
  "server_ok k sv \<longleftrightarrow> \<not> srv_fault sv \<and> distinct (outstanding sv) \<and>
     (\<forall>a \<in> set (outstanding sv). call_rounds sv a = Some PROCESS \<or> call_rounds sv a = Some FINISH) \<and>
     (\<forall>a. call_rounds sv a \<noteq> Some CREATE) \<and> listening sv \<subseteq> set (outstanding sv) \<and> card (listening sv) = k \<and>
     (\<forall>a \<ge> next_round sv. call_rounds sv a = None)"

lemma server_ok_frame [simp]:
  "server_ok k (sv\<lparr>seng := e\<rparr>) = server_ok k sv" "server_ok k (sv\<lparr>srv_running := b\<rparr>) = server_ok k sv"
  "server_ok k (sv\<lparr>m_grpc_server_ptr := b\<rparr>) = server_ok k sv"
  by (simp_all add: server_ok_def listening_def)

lemma finite_listening: "server_ok k sv \<Longrightarrow> finite (listening sv)"
  unfolding server_ok_def by (meson List.finite_set finite_subset)

lemma re_serve_ok:
  assumes "server_ok k sv"
  shows "server_ok (k + 1) (re_serve sv)"
proof -
  let ?a = "next_round sv"
  have n: "call_rounds sv ?a = None" using assms by (simp add: server_ok_def)
  have o: "?a \<notin> set (outstanding sv)" using assms n by (auto simp: server_ok_def)
  have l: "listening (re_serve sv) = insert ?a (listening sv)" "?a \<notin> listening sv"
    using n by (auto simp: re_serve_def create_me_def process_create_def request_service_def Let_def listening_def)
  have "card (listening (re_serve sv)) = k + 1" using l finite_listening[OF assms] assms by (simp add: server_ok_def)
  then show ?thesis using assms o l
    by (auto simp: server_ok_def re_serve_def create_me_def process_create_def request_service_def Let_def)
qed

lemma process_ok:
  assumes "server_ok k sv" "a \<in> set (outstanding sv)"
  shows "server_ok k (process a cur (take_event (Some a) sv))"
proof -
  let ?t = "take_event (Some a) sv"
  have r: "call_rounds sv a = Some PROCESS \<or> call_rounds sv a = Some FINISH" using assms by (simp add: server_ok_def)
  have d: "distinct (outstanding sv)" using assms(1) by (simp add: server_ok_def)
  then have o: "set (outstanding ?t) = set (outstanding sv) - {a}" "distinct (outstanding ?t)" "call_rounds ?t = call_rounds sv"
    by (simp_all add: take_event_def)
  show ?thesis
  proof (cases "call_rounds sv a = Some PROCESS")
    case True
    let ?s = "?t\<lparr>call_rounds := (call_rounds ?t)(a \<mapsto> FINISH)\<rparr>"
    have l: "listening ?s = listening sv - {a}" "a \<in> listening sv" using True o(3) by (auto simp: listening_def)
    then have c: "card (listening ?s) = k - 1" "0 < k"
      using finite_listening[OF assms(1)] assms(1) by (auto simp: server_ok_def card_gt_0_iff)
    have "server_ok (k - 1) ?s" unfolding server_ok_def
    proof (intro conjI)
      show "listening ?s \<subseteq> set (outstanding ?s)" using l(1) o(1) assms(1) by (auto simp: server_ok_def)
      show "\<forall>x \<ge> next_round ?s. call_rounds ?s x = None" using assms(1) True by (auto simp: server_ok_def take_event_def)
    qed (use c(1) o assms(1) in \<open>auto simp: server_ok_def take_event_def\<close>)
    from re_serve_ok[OF this] c(2) show ?thesis using True o(3) by (simp add: process_def Let_def)
  next
    case False
    then have f: "call_rounds sv a = Some FINISH" using r by simp
    have l: "listening (?t\<lparr>call_rounds := (call_rounds ?t)(a := None)\<rparr>) = listening sv" using f o(3) by (auto simp: listening_def)
    show ?thesis using f o l assms(1) False
      by (auto simp: process_def server_ok_def take_event_def listening_def)
  qed
qed

lemma server_loop_ok:
  "server_ok k sv \<Longrightarrow> legal evs n cur sv \<Longrightarrow> server_ok k (fst (server_loop evs n cur sv))"
proof (induction evs n cur sv rule: server_loop.induct)
  case (2 tag ok evs n cur sv)
  obtain a where t: "tag = Some a" using "2.prems"(2) by (cases tag) auto
  have a: "a \<in> set (outstanding sv)" "ok \<or> call_rounds sv a = Some FINISH" using "2.prems"(2) t by auto
  show ?case
  proof (cases ok)
    case False
    then have "call_rounds sv a = Some FINISH" using a(2) by simp
    then have "listening sv \<subseteq> set (remove1 a (outstanding sv))" "listening (take_event tag sv) = listening sv"
      using "2.prems"(1) t by (auto simp: server_ok_def listening_def take_event_def)
    then show ?thesis using False "2.prems"(1) t by (auto simp: server_ok_def take_event_def)
  next
    case True
    note p = process_ok[OF "2.prems"(1) a(1), of cur]
    show ?thesis using "2.IH"[of "take_event tag sv" "process a cur (take_event tag sv)"] True t p "2.prems"(2)
      by (simp add: Let_def)
  qed
qed simp

lemma rpc_reach_ok: "rpc_reach k sv \<Longrightarrow> server_ok k sv"
proof (induction rule: rpc_reach.induct)
  case (new e)
  then show ?case by (simp add: server_ok_def new_rpc_server_def listening_def)
next
  case (start k sv built)
  have "server_ok k (sv\<lparr>m_grpc_server_ptr := built\<rparr>)" using start.IH by simp
  from re_serve_ok[OF this] show ?case using start.hyps(2) by (simp add: rpc_server_start_def start_grpc_server_def listen_requests_def)
next
  case (work k sv a)
  then show ?case by (auto simp: do_work_end_def server_ok_def listening_def)
qed (auto simp: rpc_server_start_def rpc_server_select_def server_loop_ok rpc_server_stop_def split: if_splits)



text \<open>A thread that is marked as blocked does not take the work of a call: it is lost.\<close>

theorem blocked_thread_drops_call:
  assumes "call_rounds sv a = Some PROCESS" "get_thread_by_id cur (seng sv) = Some t"
    "state_value thread_state_t_running < state_value (m_state (threads (seng sv) t))"
  shows "seng (process a cur sv) = seng sv"
  using assms by (simp add: process_def re_serve_def create_me_def process_create_def request_service_def Let_def engine_create_son_def
      get_current_thread_def create_chroutine_def)

section \<open>The client\<close>

lemma call_begin_waits:
  assumes on: "runs_on cur t k (ceng cl)" and acc: "accepts t (ceng cl)" and tm: "0 < m_chroutine_timeout_ms c" "0 \<le> now"
  shows "\<exists>cl1 c1. call_sync_begin c now cur cl = (cl1, Sync_waits (next_call cl)) \<and> ccalls cl1 (next_call cl) = Some c1 \<and>
    m_call_chroutine c1 = running_id (threads (ceng cl) t) \<and> m_result c1 = m_result c \<and> m_status c1 = 0 \<and> deadline c1 = None \<and>
    c_outstanding cl1 = c_outstanding cl @ [next_call cl] \<and> c_fault cl1 = c_fault cl \<and>
    waits_with cur t (running_id (threads (ceng cl) t)) k (ms_chroutine_id (ceng cl) + 1) (next_addr (ceng cl))
      (now + m_chroutine_timeout_ms c) (ceng cl1)"
proof -
  let ?e = "ceng cl" and ?i = "running_id (threads (ceng cl) t)" and ?a = "next_call cl"
  note i = sleeper_wait(1,2)[OF on acc tm]
  obtain e' where e': "create_son_report_begin (Some Sleep_forever) (next_addr ?e) (m_chroutine_timeout_ms c) now cur
        (?e\<lparr>reporters := create_reporter (next_addr ?e) 0 (reporters ?e), next_addr := next_addr ?e + 1\<rparr>) = (e', Inr t)"
      "waits_with cur t ?i k (ms_chroutine_id ?e + 1) (next_addr ?e) (now + m_chroutine_timeout_ms c) e'"
    using sleeper_wait(3)[OF on acc tm] by blast
  let ?c = "(call_set_opt (clone_me c))\<lparr>m_call_chroutine := ?i\<rparr>"
  have c: "m_chroutine_timeout_ms (call_set_opt (clone_me c)) = m_chroutine_timeout_ms c" "m_result ?c = m_result c" "m_status ?c = 0" "deadline ?c = None"
    by (simp_all add: call_set_opt_def clone_me_def)
  let ?cl = "(fst (client_call c cl))\<lparr>ccalls := (ccalls cl)(?a \<mapsto> ?c), ceng := e'\<rparr>"
  have "call_sync_begin c now cur cl = (?cl, Sync_waits ?a)"
    using i tm(1) c(1) e'(1) by (simp add: call_sync_begin_def client_call_def call_impl_def wait_call_def Let_def)
  then show ?thesis using c(2-4) e'(2)
    by (intro exI[of _ ?cl] exI[of _ ?c]) (simp add: client_call_def call_impl_def Let_def)
qed

text \<open>C32: a remote call is answered. When gRPC completes the call while its chroutine waits, the next poll
  makes the chroutine due and stops the sleeping son, and \<^verbatim>\<open>call_sync\<close> returns the result and the status and deletes the
  call.\<close>

theorem call_answered:
  assumes "runs_on cur t k (ceng cl)" "accepts t (ceng cl)" "0 < m_chroutine_timeout_ms c" "0 \<le> now" "\<not> c_fault cl"
  shows "\<exists>cl1 a cl2. call_sync_begin c now cur cl = (cl1, Sync_waits a) \<and>
    (\<forall>later. due later (objs (threads (ceng cl1) t) k) \<longleftrightarrow> now + m_chroutine_timeout_ms c \<le> later) \<and>
    fst (rpc_client_select [(Some a, True)] cur (grpc_completes a res st cl1)) = cl2 \<and>
    (\<forall>later. due later (objs (threads (ceng cl2) t) k)) \<and>
    get_chroutine (ms_chroutine_id (ceng cl) + 1) (threads (ceng cl2) t) = None \<and>
    snd (call_sync_end a cl2) = Some (res, st) \<and> ccalls (fst (call_sync_end a cl2)) a = None \<and> \<not> c_fault (fst (call_sync_end a cl2))"
proof -
  let ?i = "running_id (threads (ceng cl) t)" and ?a = "next_call cl"
  obtain cl1 c1 where b: "call_sync_begin c now cur cl = (cl1, Sync_waits ?a)" "ccalls cl1 ?a = Some c1" "m_call_chroutine c1 = ?i" "c_fault cl1 = c_fault cl"
      "waits_with cur t ?i k (ms_chroutine_id (ceng cl) + 1) (next_addr (ceng cl)) (now + m_chroutine_timeout_ms c) (ceng cl1)"
    using call_begin_waits[OF assms(1-4)] by blast
  obtain e' where w: "engine_awake ?i cur (ceng cl1) = (e', 0)" "\<forall>now. due now (objs (threads e' t) k)"
      "get_chroutine (ms_chroutine_id (ceng cl) + 1) (threads e' t) = None"
    using awake_ends_wait[OF b(5)] by blast
  have i: "?i \<noteq> INVALID_ID" using b(5) by (simp add: waits_with_def)
  let ?c = "c1\<lparr>m_result := res, m_status := st\<rparr>"
  let ?d = "fst (rpc_client_select [(Some ?a, True)] cur (grpc_completes ?a res st cl1))"
  have d: "ceng ?d = e'" "ccalls ?d ?a = Some ?c" "c_fault ?d = c_fault cl"
    using b(2-4) i w(1) by (simp_all add: rpc_client_select_def grpc_completes_def sync_on_rsp_def Let_def)
  then have "snd (call_sync_end ?a ?d) = Some (res, st)" "ccalls (fst (call_sync_end ?a ?d)) ?a = None" "\<not> c_fault (fst (call_sync_end ?a ?d))"
    using assms(5) by (simp_all add: call_sync_end_def delete_call_def)
  then show ?thesis using b(1) waits_with_due[OF b(5)] w(2,3) d(1) by (intro exI[of _ cl1] exI[of _ ?a] exI[of _ ?d]) simp
qed

text \<open>C33: a remote call that times out. Whatever time limit was set, the call that is sent has no deadline; when the
  wait ends without an answer, \<^verbatim>\<open>call_sync\<close> deletes the call and returns the status OK with the old result,
  while the operation is still outstanding: its completion uses the deleted object.\<close>

theorem timed_out_call_dangles:
  assumes "runs_on cur t k (ceng cl)" "accepts t (ceng cl)" "0 < m_chroutine_timeout_ms c" "0 \<le> now"
  shows "\<exists>cl1 a c1. call_sync_begin c now cur cl = (cl1, Sync_waits a) \<and> ccalls cl1 a = Some c1 \<and> deadline c1 = None \<and>
    snd (call_sync_end a cl1) = Some (m_result c, 0) \<and> a \<in> set (c_outstanding (fst (call_sync_end a cl1))) \<and>
    c_fault (fst (rpc_client_select [(Some a, True)] cur (fst (call_sync_end a cl1))))"
proof -
  obtain cl1 c1 where b: "call_sync_begin c now cur cl = (cl1, Sync_waits (next_call cl))" "ccalls cl1 (next_call cl) = Some c1"
      "m_result c1 = m_result c" "m_status c1 = 0" "deadline c1 = None" "c_outstanding cl1 = c_outstanding cl @ [next_call cl]"
    using call_begin_waits[OF assms] by blast
  then show ?thesis
    by (intro exI[of _ cl1] exI[of _ "next_call cl"] exI[of _ c1])
      (simp add: call_sync_end_def delete_call_def rpc_client_select_def sync_on_rsp_def Let_def)
qed

lemma reader_engine_accepts: "accepts 3 reader_engine"
  by (simp add: accepts_def reader_engine_def)

theorem call_answered_witness:
  "\<exists>cl1 a. call_sync_begin (new_client_call (0 :: int)) 100 7 (new_rpc_client reader_engine) = (cl1, Sync_waits a) \<and>
     snd (call_sync_end a (fst (rpc_client_select [(Some a, True)] 7 (grpc_completes a 5 0 cl1)))) = Some (5, 0)"
proof -
  have "runs_on 7 3 0 (ceng (new_rpc_client reader_engine :: int rpc_client_t))" "accepts 3 (ceng (new_rpc_client reader_engine :: int rpc_client_t))"
      "\<not> c_fault (new_rpc_client reader_engine :: int rpc_client_t)" "0 < m_chroutine_timeout_ms (new_client_call (0 :: int))"
    using reader_engine_runs reader_engine_accepts by (simp_all add: new_rpc_client_def new_client_call_def call_set_timeout_def)
  from call_answered[OF this(1,2,4) _ this(3), of 100 5 0] show ?thesis by auto
qed

theorem timed_out_call_dangles_witness:
  "\<exists>cl1 a. call_sync_begin (new_client_call (0 :: int)) 100 7 (new_rpc_client reader_engine) = (cl1, Sync_waits a) \<and>
     c_fault (fst (rpc_client_select [(Some a, True)] 7 (fst (call_sync_end a cl1))))"
proof -
  have "runs_on 7 3 0 (ceng (new_rpc_client reader_engine :: int rpc_client_t))" "accepts 3 (ceng (new_rpc_client reader_engine :: int rpc_client_t))"
      "0 < m_chroutine_timeout_ms (new_client_call (0 :: int))"
    using reader_engine_runs reader_engine_accepts by (simp_all add: new_rpc_client_def new_client_call_def call_set_timeout_def)
  from timed_out_call_dangles[OF this, of 100] show ?thesis by auto
qed

end
