(* ===== verification/Spec2Isabelle.thy ===== *)
theory Spec2Isabelle
  imports Thread_Props Engine_Props Channel_Props Chan_Selecter Timer Net_Props Dict_Iter Reader_Stream Reader_Chunks Context_Props Curl_Props Rpc_Props
begin

text \<open>
  Verification of chroutine, a library of stackful coroutines ("chroutines") that run on a pool of OS
  threads.

  \<^bold>\<open>The program.\<close> A \<^verbatim>\<open>chroutine_t\<close> is a function with its own stack and \<^verbatim>\<open>ucontext_t\<close>. A
  \<^verbatim>\<open>chroutine_thread_t\<close> is an OS thread with a run queue, an id index and a cursor; its loop polls
  the selectable objects of the thread, then picks the next due chroutine and switches to it. A chroutine
  suspends itself by yielding for a number of ticks or sleeping until a time. The \<^verbatim>\<open>engine_t\<close> owns the
  worker threads, a main thread and an epoll thread, deals new chroutines to the workers, and moves the
  chroutines of a worker whose chroutine does not give the CPU back to another worker. Channels,
  selecters and timers are built on the engine's wake-up and sleep. Selectable objects are polled by the
  thread they are registered on: the epoll poller with TCP clients and servers, the HTTP client on libcurl,
  and the RPC server and client on gRPC; the chroutine that waits for one of them suspends and is woken
  by the poll that brings the answer. A Redis client is built on the vendored hiredis.

  \<^bold>\<open>Theories.\<close>
  \<^item> Prelude: addresses, 64-bit wrap-around, ordered maps (\<^verbatim>\<open>std::map\<close>) with the interface
    \<open>ordered_map\<close>, iterators of \<^verbatim>\<open>std::list\<close>.
  \<^item> Chroutine: engin/reporter.hpp and the class \<^verbatim>\<open>chroutine_t\<close> of engin/chroutine.hpp and .cpp.
  \<^item> Thread: \<^verbatim>\<open>load_t\<close>, \<^verbatim>\<open>schedule_t\<close> and \<^verbatim>\<open>chroutine_thread_t\<close> of the same files, every operation,
    cut where \<^verbatim>\<open>swapcontext\<close> leaves it.
  \<^item> Thread_Inv, Thread_Ops, Thread_Step: the invariant of a thread and its preservation by every
    operation; the system of all threads as a state machine with reachability.
  \<^item> Fairness: rounds of pick, run and suspend; the position of a chroutine in the circular queue
    decreases until it is picked.
  \<^item> Migration: moving chroutines between threads; the weaker invariant that holds with migration.
  \<^item> Thread_Props: the properties of the scheduler.
  \<^item> Engine, Engine_Props: engin/engine.hpp and .cpp, engin/selectable_obj.cpp: start-up, dispatch,
    registration, supervision, stopping.
  \<^item> Chutex: util/chutex.hpp and .cpp (the spin lock, interface \<open>lock_ops\<close>), util/tools.cpp.
  \<^item> Channel, Channel_Props: engin/channel.hpp; the ring buffer interprets the interface
    \<open>bounded_fifo\<close> and refines a bounded list.
  \<^item> Chan_Selecter, Timer: engin/chan_selecter.cpp; util/timer.cpp and \<^verbatim>\<open>engine_t::run\<close>.
  \<^item> Socket, Raw_Tcp, Net_Inv, Net_Props (with Bags): net/epoll: \<^verbatim>\<open>socket_t\<close>, \<^verbatim>\<open>raw_data_block_t\<close>, \<^verbatim>\<open>epoll_t\<close>,
    \<^verbatim>\<open>raw_tcp_client_t\<close> and \<^verbatim>\<open>raw_tcp_server_t\<close>; ownership of sockets as an invariant of all operations.
  \<^item> Son_Wait: the wait with a sleeping son that the HTTP and RPC clients share.
  \<^item> Curl, Curl_Props: net/http_client and \<^verbatim>\<open>engine_t::exec_curl\<close>; the record of the calls of libcurl is checked
    by an automaton for the rules of its handles.
  \<^item> Rpc, Rpc_Props: net/rpc with the service of examples/rpc_example; the rounds of the server and the calls of
    the client.
  \<^item> Sds, Sds_Str, Sds_Props, Sds_Text: vendors/hiredis/sds.h and sds.c, the dynamic strings.
  \<^item> Dict, Dict_Props, Dict_Iter: vendors/hiredis/dict.h and dict.c and the callback table of async.c; the
    interface \<open>hashed_keys\<close> is what the table needs of its keys.
  \<^item> Reader, Reader_Props, Reader_Safe: vendors/hiredis/read.h and read.c, the protocol parser.
  \<^item> Reply, Reader_Decode, Reader_Stream: the reply objects of hiredis.c on a heap; decoding of one reply and, through
    the interface \<open>stream_decoder\<close>, of a pipeline.
  \<^item> Reader_Chunks: the parser on lists of bytes that the reader refines; the way the input is cut does not matter.
  \<^item> Command, Command_Props: the functions of hiredis.c that format commands, with a format string and from vectors.
  \<^item> Context, Context_Props: the contexts of hiredis.c with their buffers, appending, writing, reading, and the blocking
    commands.

  \<^bold>\<open>State and steps.\<close> Pointers are addresses into stores: chroutine objects belong to the thread whose
  lists hold them, threads and reporters to the world, channels and timers to the runtime. What an OS
  thread executes is the field \<open>cpu\<close>: its main context, or an activation of \<^verbatim>\<open>entry\<close> with the values of
  its local variables. A section under \<^verbatim>\<open>m_chroutine_lock\<close> or a channel's lock is one step; the lock
  itself is verified in Chutex. Clock readings, thread ids and the number of processed events of
  selectable objects are arguments. Application code is arbitrary: any call may come next.

  \<^bold>\<open>What is shown.\<close> In all reachable states index, run queue and cursor agree; without migration exactly
  the chroutine on the CPU is marked running. The pick, the suspensions, creation, return, time-out and
  wake-up have full functional specifications; a due chroutine waits at most one round of the queue.
  Migration conserves the chroutines and their order, but an activation keeps pointing to its old thread,
  with the two failures proved in Thread_Props. The channel buffer is a bounded first-in first-out queue,
  reads and writes are specified on every branch; the nested write under the lock, the wake-up lost before
  \<^verbatim>\<open>HOLD()\<close> and calls outside a chroutine are proved to go wrong. Start-up, dispatch, supervision,
  selecting and timers are specified, with the start-up race.

  Sockets are owned once and destroyed at most once, and the poller's map has live sockets only; the bytes
  that pass through a socket keep their order, except where a block is written in part. The HTTP client keeps
  libcurl's rules with at most 1000 transfers; a request is answered by the poll that gets its result. The RPC
  server never runs out of listeners, and a call is answered; what a time-out leaves behind in both
  clients is proved too. The strings of hiredis refine lists of bytes at every header size, the hash table refines
  a map, printing and parsing are inverse, and the protocol reader never faults on any input, always returns, and
  gives back the replies that were encoded, however the input is cut into portions. A formatted command has exactly the words that were asked for, whatever
  bytes they have, and the reader gives them back. A command over a connection goes out whole and is answered, however the kernel
  cuts output and input; the error of a closed connection stays.

  \<^bold>\<open>Bounds.\<close> \<^verbatim>\<open>lock\<close> is unrolled over the list of its exchange attempts and \<open>lock_loop_spec\<close> says for which
  lists it returns; the sleep loop of \<^verbatim>\<open>thread_ms_sleep\<close> runs over the list of interrupts. The
  loop of the protocol reader is a partial function, and \<open>reader_never_faults\<close> proves that it returns; the search
  for a table size is shown to end. All other loops run over finite containers or over lists of what the system calls
  return. Lengths that hiredis keeps in an \<^verbatim>\<open>int\<close> are below \<open>INT_LIMIT\<close> (\<open>2 ^ 31\<close>), strings below
  \<open>SDS_LIMIT\<close>; the reader has nine tasks, so replies nest at most that deep and freeing one needs a depth of ten. The id counter wraps at 64 bits and creation steps assume it has not; tick
  counts and times are integers, and the invariant shows that a running chroutine's tick count is 0, so
  they do not accumulate.

  \<^bold>\<open>Not modelled.\<close> Logging and signal registration (output only); the contents of stacks; the weak memory
  order of the atomics (steps are interleaved); two unlocked accesses by different OS threads inside one
  operation. The step system leaves out the wake-up of one's own waiting father, which
  \<open>awake_own_father\<close> treats on its own. libcurl, gRPC, the kernel and the allocator are not part of the
  program: what they return is an argument. Making connections in hiredis (net.c, and what hiredis.c builds on it), async.c and ssl are socket
  glue the library does not call yet; \<^verbatim>\<open>redis_client_t\<close> is an empty class. spdlog and its wrapper util/logger.hpp only
  format output; the protobuf code is generated; the examples other than the RPC service only call the API.
\<close>

end
